(* ===== verification/Prelude.thy ===== *)
theory Prelude
  imports Main "HOL-Library.Char_ord" "HOL-Library.List_Lexorder" "HOL-Library.Multiset"
begin

text \<open>
  Shared vocabulary of the development: 64-bit wrap-around arithmetic, the stage-by-stage
  answers of the operating system, a comparator interface for the orders the program sorts
  and selects by, and the list and option lemmas that several components use.

  Go strings are byte strings, so they are modelled as \<^typ>\<open>string\<close> with the byte order of
  \<open>Char_ord\<close> and \<open>List_Lexorder\<close>, which is Go's \<open><\<close> on strings.
\<close>

named_theorems golang \<open>definitions of modelled standard-library operations\<close>
named_theorems store_simps \<open>rewrite rules for the record-valued stores\<close>

subsection \<open>Machine integers\<close>

text \<open>Go's \<open>int64\<close> arithmetic wraps around in two's complement.\<close>

definition max_int64 :: int where
  "max_int64 = 9223372036854775807"

definition min_int64 :: int where
  "min_int64 = - 9223372036854775808"

definition wrap64 :: "int \<Rightarrow> int" where
  "wrap64 x = (x + 9223372036854775808) mod 18446744073709551616 - 9223372036854775808"

lemma wrap64_id: "min_int64 \<le> x \<Longrightarrow> x \<le> max_int64 \<Longrightarrow> wrap64 x = x"
  by (simp add: wrap64_def min_int64_def max_int64_def)

lemma wrap64_range: "min_int64 \<le> wrap64 x \<and> wrap64 x \<le> max_int64"
proof -
  have "0 \<le> (x + 9223372036854775808) mod 18446744073709551616"
    and "(x + 9223372036854775808) mod 18446744073709551616 < 18446744073709551616"
    by simp_all
  then show ?thesis
    unfolding wrap64_def min_int64_def max_int64_def by linarith
qed

text \<open>Go's \<open>uint64\<close> arithmetic wraps around modulo \<open>2^64\<close>.\<close>

definition wrapu64 :: "nat \<Rightarrow> nat" where
  "wrapu64 n = n mod 18446744073709551616"

lemma wrapu64_id: "n < 18446744073709551616 \<Longrightarrow> wrapu64 n = n"
  by (simp add: wrapu64_def)

subsection \<open>Comparators\<close>

text \<open>
  \<open>sort.Slice\<close> and the selection loops of the program are driven by a strict \<open>less\<close>
  function. Insertion sort stands for the library's unspecified algorithm; the interface below
  shows that for a comparator which separates any two records of different identity the
  algorithm does not matter: there is only one sorted arrangement.
\<close>

fun insert_by :: "('a \<Rightarrow> 'a \<Rightarrow> bool) \<Rightarrow> 'a \<Rightarrow> 'a list \<Rightarrow> 'a list" where
  "insert_by lt x [] = [x]"
| "insert_by lt x (y # ys) = (if lt x y then x # y # ys else y # insert_by lt x ys)"

fun sort_by :: "('a \<Rightarrow> 'a \<Rightarrow> bool) \<Rightarrow> 'a list \<Rightarrow> 'a list" where
  "sort_by lt [] = []"
| "sort_by lt (x # xs) = insert_by lt x (sort_by lt xs)"

text \<open>The loop \<open>if !ok || better(x, found) { found = x; ok = true }\<close>.\<close>

fun select_by :: "('a \<Rightarrow> 'a \<Rightarrow> bool) \<Rightarrow> 'a option \<Rightarrow> 'a list \<Rightarrow> 'a option" where
  "select_by lt found [] = found"
| "select_by lt found (x # xs) =
     select_by lt (case found of None \<Rightarrow> Some x | Some y \<Rightarrow> if lt x y then Some x else found) xs"

lemma mset_insert_by [simp]: "mset (insert_by lt x xs) = add_mset x (mset xs)"
  by (induction xs) auto

lemma mset_sort_by [simp]: "mset (sort_by lt xs) = mset xs"
  by (induction xs) auto

lemma set_sort_by [simp]: "set (sort_by lt xs) = set xs"
  by (rule mset_eq_setD) simp

lemma length_sort_by [simp]: "length (sort_by lt xs) = length xs"
  by (rule mset_eq_length) simp

locale comparator =
  fixes lt :: "'a \<Rightarrow> 'a \<Rightarrow> bool"
    and ident :: "'a \<Rightarrow> 'k"
  assumes irreflexive: "\<not> lt a a"
    and transitive: "lt a b \<Longrightarrow> lt b c \<Longrightarrow> lt a c"
    and separates: "ident a \<noteq> ident b \<Longrightarrow> lt a b \<or> lt b a"
begin

lemma set_insert_by: "set (insert_by lt x xs) = insert x (set xs)"
  by (induction xs) auto

lemma sorted_insert_by:
  "sorted_wrt lt xs \<Longrightarrow> ident x \<notin> ident ` set xs \<Longrightarrow> sorted_wrt lt (insert_by lt x xs)"
proof (induction xs)
  case (Cons y ys)
  show ?case
  proof (cases "lt x y")
    case True
    with Cons.prems show ?thesis by (auto dest: transitive)
  next
    case False
    with Cons.prems separates [of x y] have "lt y x" by auto
    with False Cons show ?thesis by (auto simp: set_insert_by)
  qed
qed simp

lemma sorted_sort_by: "distinct (map ident xs) \<Longrightarrow> sorted_wrt lt (sort_by lt xs)"
  by (induction xs) (auto intro!: sorted_insert_by)

lemma sorted_unique:
  "sorted_wrt lt xs \<Longrightarrow> sorted_wrt lt ys \<Longrightarrow> set xs = set ys \<Longrightarrow> xs = ys"
proof (induction xs arbitrary: ys)
  case (Cons x xs)
  then obtain y ys' where ys: "ys = y # ys'" by (cases ys) auto
  have "x = y"
    using Cons.prems ys irreflexive transitive by (metis list.set_intros(1) set_ConsD sorted_wrt.simps(2))
  moreover have "x \<notin> set xs" and "y \<notin> set ys'"
    using Cons.prems ys irreflexive by auto
  ultimately have "set xs = set ys'"
    using Cons.prems(3) ys by auto
  with Cons ys \<open>x = y\<close> show ?case by auto
qed auto

text \<open>Any correct sorting algorithm returns what insertion sort returns.\<close>

lemma sort_by_characterised:
  assumes "distinct (map ident xs)" and "mset ys = mset xs" and "sorted_wrt lt ys"
  shows "ys = sort_by lt xs"
  using assms by (intro sorted_unique) (auto simp: sorted_sort_by dest: mset_eq_setD)

corollary sort_by_order_independent:
  assumes "distinct (map ident xs)" and "mset ys = mset xs"
  shows "sort_by lt ys = sort_by lt xs"
proof (rule sort_by_characterised [OF assms(1)])
  show "mset (sort_by lt ys) = mset xs" using assms(2) by simp
  have "distinct (map ident ys)"
    using assms by (metis mset_eq_imp_distinct_iff mset_map)
  then show "sorted_wrt lt (sort_by lt ys)" by (rule sorted_sort_by)
qed

text \<open>The selection loop returns the unique element that precedes all others.\<close>

lemma select_by_best:
  assumes "distinct (map ident (case found of None \<Rightarrow> xs | Some y \<Rightarrow> y # xs))"
    and "select_by lt found xs = Some r"
  shows "r \<in> set (case found of None \<Rightarrow> xs | Some y \<Rightarrow> y # xs)
    \<and> (\<forall>a \<in> set (case found of None \<Rightarrow> xs | Some y \<Rightarrow> y # xs). a = r \<or> lt r a)"
  using assms
proof (induction xs arbitrary: found)
  case Nil
  then show ?case by (cases found) auto
next
  case (Cons x xs)
  show ?case
  proof (cases found)
    case None
    with Cons.IH [of "Some x"] Cons.prems show ?thesis by simp
  next
    case (Some y)
    show ?thesis
    proof (cases "lt x y")
      case True
      with Cons.IH [of "Some x"] Cons.prems Some show ?thesis
        by (auto dest: transitive)
    next
      case False
      with Cons.prems Some separates [of x y] have "lt y x" by auto
      with False Cons.IH [of "Some y"] Cons.prems Some show ?thesis
        by (auto dest: transitive)
    qed
  qed
qed

lemma best_unique:
  assumes "r \<in> S" and "\<forall>a \<in> S. a = r \<or> lt r a" and "s \<in> S" and "\<forall>a \<in> S. a = s \<or> lt s a"
  shows "r = s"
  using assms irreflexive transitive by metis

end

lemma select_by_None [simp]: "select_by lt found xs = None \<longleftrightarrow> found = None \<and> xs = []"
  by (induction xs arbitrary: found) (auto split: option.splits if_splits)

subsection \<open>Lists\<close>

text \<open>The index loop \<open>for i := range xs { if p(xs[i]) { return i } }; return -1\<close>.\<close>

fun index_of :: "('a \<Rightarrow> bool) \<Rightarrow> 'a list \<Rightarrow> nat option" where
  "index_of p [] = None"
| "index_of p (x # xs) = (if p x then Some 0 else map_option Suc (index_of p xs))"

lemma index_of_None: "index_of p xs = None \<longleftrightarrow> (\<forall>x \<in> set xs. \<not> p x)"
  by (induction xs) auto

lemma index_of_Some:
  "index_of p xs = Some i \<Longrightarrow> i < length xs \<and> p (xs ! i) \<and> (\<forall>j < i. \<not> p (xs ! j))"
proof (induction xs arbitrary: i)
  case (Cons x xs)
  show ?case
  proof (cases "p x")
    case True
    with Cons.prems show ?thesis by simp
  next
    case False
    with Cons.prems obtain k where "i = Suc k" and "index_of p xs = Some k" by auto
    with Cons.IH [of k] False show ?thesis by (auto simp: nth_Cons split: nat.splits)
  qed
qed simp

lemma index_of_append:
  "index_of p (xs @ ys) = (case index_of p xs of Some i \<Rightarrow> Some i
     | None \<Rightarrow> map_option (\<lambda>i. i + length xs) (index_of p ys))"
  by (induction xs) (auto split: option.splits simp: option.map_comp comp_def option.map_ident)

lemma list_update_take_drop:
  "i < length xs \<Longrightarrow> xs[i := v] = take i xs @ v # drop (Suc i) xs"
  by (simp add: upd_conv_take_nth_drop)

lemma mset_take_drop_nth:
  "i < length xs \<Longrightarrow> mset xs = add_mset (xs ! i) (mset (take i xs @ drop (Suc i) xs))"
  by (metis id_take_nth_drop mset.simps(2) mset_append union_mset_add_mset_right)

end
