(* ===== verification/AtomicFile.thy ===== *)
theory AtomicFile
  imports Prelude
begin

text \<open>
  Atomic replacement of a state file, the persistence idiom of the send queue, the cursor
  store and the notice journal: write a temporary file beside the target, sync and close it,
  rename it over the target, then sync the directory.

  The operating system is a parameter: an \<open>env\<close> says for every stage whether the call
  succeeds or which error it reports. A failed stage never changes the target, since only the
  rename touches it; the stages after the rename report an error for a document that is
  already installed. The interface \<open>atomic_install\<close> states what the stores rely on; each store
  interprets it on its own install function.
\<close>

datatype stage =
    Mkdir | Encode | CreateTemp | ChmodTemp | HookWrite | WriteTemp | HookSyncFile | SyncTemp
  | CloseTemp | HookRename | Rename | OpenDir | HookSyncDir | SyncDir | CloseDir | RemoveTemp

type_synonym env = "stage \<Rightarrow> string option"

abbreviation healthy :: env where
  "healthy \<equiv> (\<lambda>_. None)"

text \<open>Go error values: an error of the system, \<open>fmt.Errorf("op: %w", e)\<close>, \<open>errors.Join\<close>.\<close>

datatype ioerr = OSErr string | During string ioerr | Both ioerr ioerr

text \<open>What is at the target path; \<open>Doc\<close> is a file whose content decodes to the document.\<close>

datatype 'd content = Missing | Unreadable string | Malformed | Doc 'd

record 'd fs =
  target :: "'d content"
  temps :: nat

type_synonym checks = "(stage \<times> (string \<Rightarrow> ioerr)) list"

fun first_failure :: "env \<Rightarrow> checks \<Rightarrow> ioerr option" where
  "first_failure os [] = None"
| "first_failure os ((st, wrap) # rest) =
     (case os st of Some e \<Rightarrow> Some (wrap e) | None \<Rightarrow> first_failure os rest)"

text \<open>A failed close of the handle is joined to the error of the stage that failed.\<close>

definition close_failure :: "env \<Rightarrow> stage \<Rightarrow> string \<Rightarrow> string \<Rightarrow> string \<Rightarrow> ioerr" where
  "close_failure os handle closing op e =
     During op (case os handle of
         Some c \<Rightarrow> Both (OSErr e) (During closing (OSErr c))
       | None \<Rightarrow> OSErr e)"

definition discard_temp :: "env \<Rightarrow> 'd fs \<Rightarrow> 'd fs" where
  "discard_temp os f = (if os RemoveTemp = None then f\<lparr>temps := temps f - 1\<rparr> else f)"

text \<open>
  \<open>prepare\<close> ends with the creation of the temporary file, \<open>write\<close> with the rename; \<open>finish\<close>
  is what follows the rename. The deferred removal of the temporary file runs on every failure
  after its creation and finds nothing to remove after the rename.
\<close>

definition staged_install ::
  "env \<Rightarrow> checks \<Rightarrow> checks \<Rightarrow> checks \<Rightarrow> 'd \<Rightarrow> 'd fs \<Rightarrow> ioerr option \<times> 'd fs" where
  "staged_install os prepare write finish d f =
     (case first_failure os prepare of
        Some e \<Rightarrow> (Some e, f)
      | None \<Rightarrow>
          (case first_failure os write of
             Some e \<Rightarrow> (Some e, discard_temp os (f\<lparr>temps := Suc (temps f)\<rparr>))
           | None \<Rightarrow> (first_failure os finish, f\<lparr>target := Doc d\<rparr>)))"

definition reaches_rename :: "env \<Rightarrow> checks \<Rightarrow> checks \<Rightarrow> bool" where
  "reaches_rename os prepare write \<longleftrightarrow>
     first_failure os prepare = None \<and> first_failure os write = None"

lemma first_failure_None: "first_failure os cs = None \<longleftrightarrow> (\<forall>c \<in> set cs. os (fst c) = None)"
  by (induction cs) (auto split: option.splits)

lemma first_failure_healthy [simp]: "first_failure healthy cs = None"
  by (simp add: first_failure_None)

lemma target_staged_install:
  "target (snd (staged_install os prepare write finish d f)) =
     (if reaches_rename os prepare write then Doc d else target f)"
  by (auto simp: staged_install_def reaches_rename_def discard_temp_def split: option.splits)

lemma staged_install_success:
  "fst (staged_install os prepare write finish d f) = None \<Longrightarrow>
     reaches_rename os prepare write \<and> first_failure os finish = None"
  by (auto simp: staged_install_def reaches_rename_def split: option.splits)

lemma staged_install_healthy:
  "fst (staged_install healthy prepare write finish d f) = None"
  by (simp add: staged_install_def)

lemma staged_install_temps:
  "temps f \<le> temps (snd (staged_install os prepare write finish d f))
   \<and> temps (snd (staged_install os prepare write finish d f)) \<le> Suc (temps f)
   \<and> (os RemoveTemp = None \<longrightarrow> temps (snd (staged_install os prepare write finish d f)) = temps f)"
  by (auto simp: staged_install_def discard_temp_def split: option.splits)

subsection \<open>What a store may rely on\<close>

locale atomic_install =
  fixes install :: "env \<Rightarrow> 'd \<Rightarrow> 'd fs \<Rightarrow> ioerr option \<times> 'd fs"
    and renamed :: "env \<Rightarrow> bool"
  assumes target_install:
      "target (snd (install os d f)) = (if renamed os then Doc d else target f)"
    and success_renamed: "fst (install os d f) = None \<Longrightarrow> renamed os"
    and fault_free: "fst (install healthy d f) = None"
    and temps_kept: "os RemoveTemp = None \<Longrightarrow> temps (snd (install os d f)) = temps f"
begin

lemma old_or_new:
  "target (snd (install os d f)) = Doc d \<or> target (snd (install os d f)) = target f"
  by (simp add: target_install)

lemma success_installs: "fst (install os d f) = None \<Longrightarrow> target (snd (install os d f)) = Doc d"
  by (simp add: target_install success_renamed)

lemma failure_before_rename:
  "\<not> renamed os \<Longrightarrow> fst (install os d f) \<noteq> None \<and> target (snd (install os d f)) = target f"
  using success_renamed by (auto simp: target_install)

text \<open>After any number of installs the target holds the last document that was renamed.\<close>

lemma target_after_installs:
  "target (foldl (\<lambda>f (os, d). snd (install os d f)) f ods) =
     (if filter (\<lambda>(os, d). renamed os) ods = [] then target f
      else Doc (snd (last (filter (\<lambda>(os, d). renamed os) ods))))"
proof (induction ods rule: rev_induct)
  case (snoc od ods)
  then show ?case by (cases od) (simp add: target_install)
qed simp

end

text \<open>Every staged installation has these laws, whatever its stages and error texts.\<close>

lemma staged_atomic_install:
  assumes "\<And>os d f. install os d f = staged_install os (prepare os) (write os) (finish os) d f"
    and "\<And>os. renamed os = reaches_rename os (prepare os) (write os)"
  shows "atomic_install install renamed"
proof
  fix os :: env and d :: 'a and f :: "'a fs"
  show "target (snd (install os d f)) = (if renamed os then Doc d else target f)"
    by (simp add: assms target_staged_install)
  show "fst (install os d f) = None \<Longrightarrow> renamed os"
    by (auto simp: assms dest: staged_install_success)
  show "fst (install healthy d f) = None"
    by (simp add: assms staged_install_healthy)
  show "os RemoveTemp = None \<Longrightarrow> temps (snd (install os d f)) = temps f"
    by (simp add: assms staged_install_temps)
qed

end
