(* ===== verification/SendQueue.thy ===== *)
theory SendQueue
  imports AtomicFile
begin

text \<open>
  The durable outbox of a chat (\<open>internal/sendqueue/store.go\<close>): messages the browser queued,
  the one message currently being delivered, a revision counter, and the file every mutation is
  installed in. Every operation of the source is one definition with the same name; the operating
  system's answers (\<open>env\<close>), fresh identifiers and the clock are arguments. Mutexes make the
  operations atomic, so an execution is a sequence of them.
\<close>

subsection \<open>Data\<close>

type_synonym image = "string \<rightharpoonup> string"

record item =
  itemID :: string
  itemText :: string
  hasImage :: bool
  createdAt :: int
  requestID :: string
  deliveryID :: string
  dispatchState :: string
  historyCursor :: string
  images :: "image list"

definition DispatchReserved :: string where
  "DispatchReserved = ''reserved''"

definition DispatchAttempted :: string where
  "DispatchAttempted = ''attempted''"

definition zeroItem :: item where
  "zeroItem = \<lparr>itemID = [], itemText = [], hasImage = False, createdAt = 0, requestID = [],
     deliveryID = [], dispatchState = [], historyCursor = [], images = []\<rparr>"

record chatQueue =
  revision :: int
  items :: "item list"
  dispatching :: "item option"

text \<open>The zero value a Go map lookup returns for a missing key.\<close>

definition zeroQueue :: chatQueue where
  "zeroQueue = \<lparr>revision = 0, items = [], dispatching = None\<rparr>"

record diskState =
  version :: int
  diskChats :: "string \<rightharpoonup> chatQueue"

record qstore =
  chats :: "string \<rightharpoonup> chatQueue"
  qfs :: "diskState fs"

datatype qerror = ErrItemNotFound | CommitErr string ioerr

datatype loaderr = ReadErr string | DecodeErr | VersionErr int

subsection \<open>Copies\<close>

text \<open>
  The source copies items on every boundary so that callers never share slices or maps with the
  store. Values of the model are immutable, so a copy is the value rebuilt element by element.
\<close>

definition cloneImages :: "image list \<Rightarrow> image list" where
  "cloneImages imgs = map (\<lambda>im key. im key) imgs"

definition cloneItem :: "item \<Rightarrow> item" where
  "cloneItem it = it\<lparr>images := cloneImages (images it)\<rparr>"

definition cloneItemPtr :: "item option \<Rightarrow> item option" where
  "cloneItemPtr p = (case p of None \<Rightarrow> None | Some it \<Rightarrow> Some (cloneItem it))"

definition cloneItems :: "item list \<Rightarrow> item list" where
  "cloneItems its = map cloneItem its"

definition itemIndex :: "item list \<Rightarrow> string \<Rightarrow> nat option" where
  "itemIndex its i = index_of (\<lambda>it. itemID it = i) its"

lemma cloneItem_id [simp]: "cloneItem it = it"
  by (simp add: cloneItem_def cloneImages_def)

lemma cloneItems_id [simp]: "cloneItems its = its"
  by (simp add: cloneItems_def map_idI)

lemma cloneItemPtr_id [simp]: "cloneItemPtr p = p"
  by (simp add: cloneItemPtr_def split: option.splits)

subsection \<open>Persistence\<close>

definition queuePrepare :: checks where
  "queuePrepare =
     [(Mkdir, \<lambda>e. During ''create send queue directory'' (OSErr e)),
      (Encode, \<lambda>e. During ''encode send queue'' (OSErr e)),
      (CreateTemp, \<lambda>e. During ''create send queue temp file'' (OSErr e))]"

definition closeTempOnFailure :: "env \<Rightarrow> string \<Rightarrow> string \<Rightarrow> ioerr" where
  "closeTempOnFailure os op e =
     close_failure os CloseTemp ''close send queue temp file'' (op @ '' send queue'') e"

definition queueWrite :: "env \<Rightarrow> checks" where
  "queueWrite os =
     [(ChmodTemp, closeTempOnFailure os ''chmod''),
      (HookWrite, closeTempOnFailure os ''write''),
      (WriteTemp, closeTempOnFailure os ''write''),
      (HookSyncFile, closeTempOnFailure os ''sync''),
      (SyncTemp, closeTempOnFailure os ''sync''),
      (CloseTemp, \<lambda>e. During ''close send queue'' (OSErr e)),
      (HookRename, \<lambda>e. During ''replace send queue'' (OSErr e)),
      (Rename, \<lambda>e. During ''replace send queue'' (OSErr e))]"

definition closeDirOnFailure :: "env \<Rightarrow> string \<Rightarrow> ioerr" where
  "closeDirOnFailure os e =
     close_failure os CloseDir ''close send queue directory'' ''sync send queue directory'' e"

definition queueFinish :: "env \<Rightarrow> checks" where
  "queueFinish os =
     [(OpenDir, \<lambda>e. During ''open send queue directory'' (OSErr e)),
      (HookSyncDir, closeDirOnFailure os),
      (SyncDir, closeDirOnFailure os),
      (CloseDir, \<lambda>e. During ''close send queue directory'' (OSErr e))]"

definition persistLocked :: "env \<Rightarrow> diskState \<Rightarrow> diskState fs \<Rightarrow> ioerr option \<times> diskState fs" where
  "persistLocked os d f = staged_install os queuePrepare (queueWrite os) (queueFinish os) d f"

definition queueRenamed :: "env \<Rightarrow> bool" where
  "queueRenamed os = reaches_rename os queuePrepare (queueWrite os)"

interpretation queue_file: atomic_install persistLocked queueRenamed
  by (rule staged_atomic_install [OF persistLocked_def queueRenamed_def])

text \<open>
  \<open>commitLocked\<close>: install the next queue (or none, for a deletion) in memory, write the file,
  and put \<open>prior\<close> back when the write reports an error.
\<close>

definition commitLocked ::
  "env \<Rightarrow> string \<Rightarrow> chatQueue \<Rightarrow> chatQueue option \<Rightarrow> string \<Rightarrow> qstore \<Rightarrow> qerror option \<times> qstore" where
  "commitLocked os chatID prior nxt msg s =
     (let m = (chats s)(chatID := nxt);
          (err, f) = persistLocked os \<lparr>version = 1, diskChats = m\<rparr> (qfs s)
      in case err of
           Some e \<Rightarrow> (Some (CommitErr msg e), s\<lparr>chats := m(chatID \<mapsto> prior), qfs := f\<rparr>)
         | None \<Rightarrow> (None, s\<lparr>chats := m, qfs := f\<rparr>))"

definition queueOf :: "qstore \<Rightarrow> string \<Rightarrow> chatQueue" where
  "queueOf s chatID = (case chats s chatID of Some q \<Rightarrow> q | None \<Rightarrow> zeroQueue)"

definition Load :: "diskState fs \<Rightarrow> loaderr + qstore" where
  "Load f = (case target f of
       Missing \<Rightarrow> Inr \<lparr>chats = Map.empty, qfs = f\<rparr>
     | Unreadable e \<Rightarrow> Inl (ReadErr e)
     | Malformed \<Rightarrow> Inl DecodeErr
     | Doc d \<Rightarrow>
         (if version d \<noteq> 1 then Inl (VersionErr (version d))
          else Inr \<lparr>chats = (\<lambda>c. map_option (\<lambda>q. q\<lparr>items := cloneItems (items q),
                              dispatching := cloneItemPtr (dispatching q)\<rparr>) (diskChats d c)),
                    qfs = f\<rparr>))"

subsection \<open>Operations\<close>

definition hexDigit :: "nat \<Rightarrow> char" where
  "hexDigit n = ''0123456789abcdef'' ! (n mod 16)"

text \<open>\<open>hex.EncodeToString\<close> of the sixteen random bytes.\<close>

definition newID :: "nat list \<Rightarrow> string" where
  "newID bytes = concat (map (\<lambda>b. [hexDigit (b div 16), hexDigit b]) bytes)"

definition bump :: "chatQueue \<Rightarrow> chatQueue" where
  "bump q = q\<lparr>revision := wrap64 (revision q + 1)\<rparr>"

text \<open>The defaults \<open>Append\<close> fills in before the item is admitted.\<close>

definition stampItem :: "string \<Rightarrow> int \<Rightarrow> item \<Rightarrow> item" where
  "stampItem fresh now it =
     (let it = (if itemID it = [] then it\<lparr>itemID := fresh\<rparr> else it);
          it = (if createdAt it = 0 then it\<lparr>createdAt := now\<rparr> else it);
          it = it\<lparr>hasImage := (images it \<noteq> [])\<rparr>
      in it\<lparr>images := cloneImages (images it)\<rparr>)"

definition Append ::
  "env \<Rightarrow> string \<Rightarrow> int \<Rightarrow> string \<Rightarrow> item \<Rightarrow> qstore \<Rightarrow> (string \<times> int \<times> qerror option) \<times> qstore" where
  "Append os fresh now chatID it s =
     (let q = queueOf s chatID;
          it = stampItem fresh now it;
          q' = (bump q)\<lparr>items := cloneItems (items q) @ [it]\<rparr>;
          (err, s') = commitLocked os chatID q (Some q') ''append send queue'' s
      in case err of
           Some e \<Rightarrow> (([], revision q, Some e), s')
         | None \<Rightarrow> ((itemID it, revision q', None), s'))"

definition Remove :: "env \<Rightarrow> string \<Rightarrow> string \<Rightarrow> qstore \<Rightarrow> qerror option \<times> qstore" where
  "Remove os chatID i s =
     (let q = queueOf s chatID in
      case itemIndex (items q) i of
        None \<Rightarrow> (Some ErrItemNotFound, s)
      | Some index \<Rightarrow>
          commitLocked os chatID q
            (Some (bump (q\<lparr>items := cloneItems (take index (items q))
                                  @ cloneItems (drop (index + 1) (items q))\<rparr>)))
            ''remove from send queue'' s)"

text \<open>
  The slice surgery of \<open>Move\<close>: cut the item out, grow the slice by one zero item, shift the
  suffix right (\<open>copy\<close> moves \<open>len - to - 1\<close> elements), and store the item at \<open>to\<close>.
\<close>

definition moveItems :: "item list \<Rightarrow> nat \<Rightarrow> nat \<Rightarrow> item list" where
  "moveItems its from_ix to_ix =
     (let it = its ! from_ix;
          cut = take from_ix its @ drop (from_ix + 1) its;
          grown = cut @ [zeroItem];
          shifted = take (to_ix + 1) grown
                    @ take (length grown - (to_ix + 1)) (drop to_ix grown)
      in shifted[to_ix := it])"

definition Move :: "env \<Rightarrow> string \<Rightarrow> string \<Rightarrow> int \<Rightarrow> qstore \<Rightarrow> qerror option \<times> qstore" where
  "Move os chatID i toIndex s =
     (let q = queueOf s chatID in
      case itemIndex (items q) i of
        None \<Rightarrow> (Some ErrItemNotFound, s)
      | Some from_ix \<Rightarrow>
          (let to1 = (if toIndex < 0 then 0 else toIndex);
               to2 = (if int (length (items q)) \<le> to1 then int (length (items q)) - 1 else to1)
           in if int from_ix = to2 then (None, s)
              else commitLocked os chatID q
                     (Some (bump (q\<lparr>items := moveItems (cloneItems (items q)) from_ix (nat to2)\<rparr>)))
                     ''move send queue item'' s))"

definition Clear :: "env \<Rightarrow> string \<Rightarrow> qstore \<Rightarrow> qerror option \<times> qstore" where
  "Clear os chatID s =
     (let q = queueOf s chatID in
      if items q = [] then (None, s)
      else commitLocked os chatID q (Some (bump (q\<lparr>items := []\<rparr>))) ''clear send queue'' s)"

text \<open>The delivery identity and state \<open>BeginDispatch\<close> gives the head it reserves.\<close>

definition reserveItem :: "string \<Rightarrow> item \<Rightarrow> item" where
  "reserveItem fresh it =
     (let it = cloneItem it;
          it = (if deliveryID it = [] then it\<lparr>deliveryID := fresh\<rparr> else it)
      in it\<lparr>dispatchState := DispatchReserved, historyCursor := []\<rparr>)"

definition BeginDispatch ::
  "env \<Rightarrow> string \<Rightarrow> string \<Rightarrow> qstore \<Rightarrow> (item \<times> bool \<times> qerror option) \<times> qstore" where
  "BeginDispatch os fresh chatID s =
     (let q = queueOf s chatID in
      case dispatching q of
        Some d \<Rightarrow> ((cloneItem d, True, None), s)
      | None \<Rightarrow>
          (case items q of
             [] \<Rightarrow> ((zeroItem, False, None), s)
           | it # rest \<Rightarrow>
               (let it = reserveItem fresh it;
                    q' = bump (q\<lparr>items := cloneItems rest, dispatching := cloneItemPtr (Some it)\<rparr>);
                    (err, s') = commitLocked os chatID q (Some q') ''begin send queue dispatch'' s
                in case err of
                     Some e \<Rightarrow> ((zeroItem, False, Some e), s')
                   | None \<Rightarrow> ((it, True, None), s'))))"

text \<open>The guard shared by the three transitions of an in-flight dispatch.\<close>

definition inFlight :: "chatQueue \<Rightarrow> string \<Rightarrow> item option" where
  "inFlight q did = (case dispatching q of
       None \<Rightarrow> None
     | Some d \<Rightarrow> (if deliveryID d \<noteq> did then None else Some d))"

definition settle ::
  "env \<Rightarrow> string \<Rightarrow> chatQueue \<Rightarrow> chatQueue \<Rightarrow> string \<Rightarrow> qstore \<Rightarrow> (int \<times> qerror option) \<times> qstore" where
  "settle os chatID prior q' msg s =
     (let (err, s') = commitLocked os chatID prior (Some q') msg s
      in case err of
           Some e \<Rightarrow> ((revision prior, Some e), s')
         | None \<Rightarrow> ((revision q', None), s'))"

definition MarkDispatchAttempted ::
  "env \<Rightarrow> string \<Rightarrow> string \<Rightarrow> string \<Rightarrow> qstore \<Rightarrow> (int \<times> qerror option) \<times> qstore" where
  "MarkDispatchAttempted os chatID did cursor s =
     (let q = queueOf s chatID in
      case inFlight q did of
        None \<Rightarrow> ((revision q, Some ErrItemNotFound), s)
      | Some d \<Rightarrow>
          settle os chatID q
            (bump (q\<lparr>dispatching := Some ((cloneItem d)\<lparr>dispatchState := DispatchAttempted,
                                                historyCursor := cursor\<rparr>)\<rparr>))
            ''mark send queue dispatch attempted'' s)"

definition CompleteDispatch ::
  "env \<Rightarrow> string \<Rightarrow> string \<Rightarrow> qstore \<Rightarrow> (int \<times> qerror option) \<times> qstore" where
  "CompleteDispatch os chatID did s =
     (let q = queueOf s chatID in
      case inFlight q did of
        None \<Rightarrow> ((revision q, Some ErrItemNotFound), s)
      | Some d \<Rightarrow>
          settle os chatID q (bump (q\<lparr>dispatching := None\<rparr>)) ''complete send queue dispatch'' s)"

definition RestoreDispatch ::
  "env \<Rightarrow> string \<Rightarrow> string \<Rightarrow> qstore \<Rightarrow> (int \<times> qerror option) \<times> qstore" where
  "RestoreDispatch os chatID did s =
     (let q = queueOf s chatID in
      case inFlight q did of
        None \<Rightarrow> ((revision q, Some ErrItemNotFound), s)
      | Some d \<Rightarrow>
          settle os chatID q
            (bump (q\<lparr>dispatching := None, items := [cloneItem d] @ cloneItems (items q)\<rparr>))
            ''restore send queue dispatch'' s)"

definition ClaimHead ::
  "env \<Rightarrow> string \<Rightarrow> qstore \<Rightarrow> (item \<times> bool \<times> qerror option) \<times> qstore" where
  "ClaimHead os chatID s =
     (let q = queueOf s chatID in
      case items q of
        [] \<Rightarrow> ((zeroItem, False, None), s)
      | it # rest \<Rightarrow>
          (let (err, s') = commitLocked os chatID q (Some (bump (q\<lparr>items := cloneItems rest\<rparr>)))
                             ''claim send queue head'' s
           in case err of
                Some e \<Rightarrow> ((zeroItem, False, Some e), s')
              | None \<Rightarrow> ((cloneItem it, True, None), s')))"

definition RestoreHead ::
  "env \<Rightarrow> string \<Rightarrow> item \<Rightarrow> qstore \<Rightarrow> (int \<times> qerror option) \<times> qstore" where
  "RestoreHead os chatID it s =
     (let q = queueOf s chatID in
      settle os chatID q (bump (q\<lparr>items := [cloneItem it] @ cloneItems (items q)\<rparr>))
        ''restore send queue head'' s)"

definition Delete :: "env \<Rightarrow> string \<Rightarrow> qstore \<Rightarrow> qerror option \<times> qstore" where
  "Delete os chatID s = (case chats s chatID of
       None \<Rightarrow> (None, s)
     | Some prior \<Rightarrow> commitLocked os chatID prior None ''delete send queue'' s)"

definition Bump :: "env \<Rightarrow> string \<Rightarrow> qstore \<Rightarrow> (int \<times> qerror option) \<times> qstore" where
  "Bump os chatID s =
     (let q = queueOf s chatID in settle os chatID q (bump q) ''bump send queue revision'' s)"

definition Snapshot :: "qstore \<Rightarrow> string \<Rightarrow> int \<times> item list \<times> item option" where
  "Snapshot s chatID =
     (let q = queueOf s chatID in (revision q, cloneItems (items q), cloneItemPtr (dispatching q)))"

definition HasBacklog :: "qstore \<Rightarrow> string \<Rightarrow> bool" where
  "HasBacklog s chatID \<longleftrightarrow>
     dispatching (queueOf s chatID) \<noteq> None \<or> items (queueOf s chatID) \<noteq> []"


subsection \<open>All operations as one step function\<close>

datatype qop =
    OpAppend string int item | OpRemove string | OpMove string int | OpClear | OpBegin string
  | OpAttempt string string | OpComplete string | OpRestore string | OpClaim
  | OpRestoreHead item | OpDelete | OpBump

fun runOp :: "env \<Rightarrow> string \<Rightarrow> qop \<Rightarrow> qstore \<Rightarrow> qerror option \<times> qstore" where
  "runOp os c (OpAppend fresh now it) s =
     (case Append os fresh now c it s of ((_, _, err), s') \<Rightarrow> (err, s'))"
| "runOp os c (OpRemove i) s = Remove os c i s"
| "runOp os c (OpMove i to_ix) s = Move os c i to_ix s"
| "runOp os c OpClear s = Clear os c s"
| "runOp os c (OpBegin fresh) s =
     (case BeginDispatch os fresh c s of ((_, _, err), s') \<Rightarrow> (err, s'))"
| "runOp os c (OpAttempt did cursor) s =
     (case MarkDispatchAttempted os c did cursor s of ((_, err), s') \<Rightarrow> (err, s'))"
| "runOp os c (OpComplete did) s =
     (case CompleteDispatch os c did s of ((_, err), s') \<Rightarrow> (err, s'))"
| "runOp os c (OpRestore did) s =
     (case RestoreDispatch os c did s of ((_, err), s') \<Rightarrow> (err, s'))"
| "runOp os c OpClaim s = (case ClaimHead os c s of ((_, _, err), s') \<Rightarrow> (err, s'))"
| "runOp os c (OpRestoreHead it) s =
     (case RestoreHead os c it s of ((_, err), s') \<Rightarrow> (err, s'))"
| "runOp os c OpDelete s = Delete os c s"
| "runOp os c OpBump s = (case Bump os c s of ((_, err), s') \<Rightarrow> (err, s'))"

text \<open>
  What an operation installs: \<open>Unchanged\<close>, \<open>Reject\<close>, or a commit of the next queue. The
  operations are all \<open>plan\<close> followed by \<open>commitLocked\<close>, so each property of a commit is proved
  once and each property of a queue transition is a fact about \<open>plan\<close>.
\<close>

datatype plan = Reject | Unchanged | Install "chatQueue option" string

definition moveTarget :: "nat \<Rightarrow> int \<Rightarrow> nat" where
  "moveTarget n to_ix = (if to_ix < 0 then 0 else if int n \<le> to_ix then n - 1 else nat to_ix)"

fun planOp :: "qop \<Rightarrow> chatQueue option \<Rightarrow> chatQueue \<Rightarrow> plan" where
  "planOp (OpAppend fresh now it) e q =
     Install (Some (bump (q\<lparr>items := items q @ [stampItem fresh now it]\<rparr>))) ''append send queue''"
| "planOp (OpRemove i) e q = (case itemIndex (items q) i of None \<Rightarrow> Reject
     | Some k \<Rightarrow> Install (Some (bump (q\<lparr>items := take k (items q) @ drop (Suc k) (items q)\<rparr>)))
                  ''remove from send queue'')"
| "planOp (OpMove i to_ix) e q = (case itemIndex (items q) i of None \<Rightarrow> Reject
     | Some k \<Rightarrow> (let t = moveTarget (length (items q)) to_ix in
         if k = t then Unchanged
         else Install (Some (bump (q\<lparr>items := moveItems (items q) k t\<rparr>))) ''move send queue item''))"
| "planOp OpClear e q = (if items q = [] then Unchanged
     else Install (Some (bump (q\<lparr>items := []\<rparr>))) ''clear send queue'')"
| "planOp (OpBegin fresh) e q = (case dispatching q of Some d \<Rightarrow> Unchanged
     | None \<Rightarrow> (case items q of [] \<Rightarrow> Unchanged
         | it # rest \<Rightarrow>
             Install (Some (bump (q\<lparr>items := rest, dispatching := Some (reserveItem fresh it)\<rparr>)))
               ''begin send queue dispatch''))"
| "planOp (OpAttempt did cursor) e q = (case inFlight q did of None \<Rightarrow> Reject
     | Some d \<Rightarrow> Install (Some (bump (q\<lparr>dispatching := Some (d\<lparr>dispatchState := DispatchAttempted,
                     historyCursor := cursor\<rparr>)\<rparr>))) ''mark send queue dispatch attempted'')"
| "planOp (OpComplete did) e q = (case inFlight q did of None \<Rightarrow> Reject
     | Some d \<Rightarrow> Install (Some (bump (q\<lparr>dispatching := None\<rparr>))) ''complete send queue dispatch'')"
| "planOp (OpRestore did) e q = (case inFlight q did of None \<Rightarrow> Reject
     | Some d \<Rightarrow> Install (Some (bump (q\<lparr>dispatching := None, items := d # items q\<rparr>)))
                  ''restore send queue dispatch'')"
| "planOp OpClaim e q = (case items q of [] \<Rightarrow> Unchanged
     | it # rest \<Rightarrow> Install (Some (bump (q\<lparr>items := rest\<rparr>))) ''claim send queue head'')"
| "planOp (OpRestoreHead it) e q =
     Install (Some (bump (q\<lparr>items := it # items q\<rparr>))) ''restore send queue head''"
| "planOp OpDelete e q = (case e of None \<Rightarrow> Unchanged
     | Some prior \<Rightarrow> Install None ''delete send queue'')"
| "planOp OpBump e q = Install (Some (bump q)) ''bump send queue revision''"

definition runPlan :: "env \<Rightarrow> string \<Rightarrow> plan \<Rightarrow> qstore \<Rightarrow> qerror option \<times> qstore" where
  "runPlan os c p s = (case p of
       Reject \<Rightarrow> (Some ErrItemNotFound, s)
     | Unchanged \<Rightarrow> (None, s)
     | Install nxt msg \<Rightarrow> commitLocked os c (queueOf s c) nxt msg s)"

lemma cloneImages_id [simp]: "cloneImages imgs = imgs"
  by (simp add: cloneImages_def map_idI)

lemma items_bump: "(bump q)\<lparr>items := xs\<rparr> = bump (q\<lparr>items := xs\<rparr>)"
  by (simp add: bump_def)

lemma settle_commit:
  "(case settle os c prior q' msg s of ((_, err), s') \<Rightarrow> (err, s')) = commitLocked os c prior (Some q') msg s"
  by (simp add: settle_def split: prod.splits option.splits)

lemma moveTarget_clamp:
  "0 < n \<Longrightarrow> int (moveTarget n to_ix) =
     (let to1 = (if to_ix < 0 then 0 else to_ix) in if int n \<le> to1 then int n - 1 else to1)"
  by (auto simp: moveTarget_def Let_def)

lemma itemIndex_Some: "itemIndex its i = Some k \<Longrightarrow> k < length its \<and> itemID (its ! k) = i"
  using index_of_Some by (fastforce simp: itemIndex_def)

lemma Move_plan: "Move os c i to_ix s = runPlan os c (planOp (OpMove i to_ix) (chats s c) (queueOf s c)) s"
proof (cases "itemIndex (items (queueOf s c)) i")
  case None
  then show ?thesis by (simp add: Move_def runPlan_def)
next
  case (Some k)
  then have "0 < length (items (queueOf s c))"
    using itemIndex_Some by fastforce
  note clamp = moveTarget_clamp [OF this, of to_ix, unfolded Let_def, symmetric]
  show ?thesis
    unfolding Move_def planOp.simps Let_def Some option.case clamp
    by (simp add: runPlan_def)
qed

text \<open>Every operation is its plan.\<close>

lemma runOp_plan: "runOp os c op s = runPlan os c (planOp op (chats s c) (queueOf s c)) s"
proof (cases op)
  case (OpAppend fresh now it)
  then show ?thesis
    by (simp add: Append_def runPlan_def items_bump Let_def split: prod.splits option.splits)
next
  case (OpRemove i)
  then show ?thesis by (simp add: Remove_def runPlan_def Let_def split: option.splits)
next
  case (OpMove i to_ix)
  then show ?thesis by (simp add: Move_plan)
next
  case OpClear
  then show ?thesis by (simp add: Clear_def runPlan_def Let_def)
next
  case (OpBegin fresh)
  then show ?thesis
    by (simp add: BeginDispatch_def runPlan_def Let_def
        split: prod.splits option.splits list.splits)
next
  case (OpAttempt did cursor)
  then show ?thesis
    by (simp add: MarkDispatchAttempted_def runPlan_def Let_def settle_commit split: option.splits)
next
  case (OpComplete did)
  then show ?thesis
    by (simp add: CompleteDispatch_def runPlan_def Let_def settle_commit split: option.splits)
next
  case (OpRestore did)
  then show ?thesis
    by (simp add: RestoreDispatch_def runPlan_def Let_def settle_commit split: option.splits)
next
  case OpClaim
  then show ?thesis
    by (simp add: ClaimHead_def runPlan_def Let_def split: prod.splits option.splits list.splits)
next
  case (OpRestoreHead it)
  then show ?thesis by (simp add: RestoreHead_def runPlan_def Let_def settle_commit)
next
  case OpDelete
  then show ?thesis by (auto simp: Delete_def runPlan_def queueOf_def split: option.splits)
next
  case OpBump
  then show ?thesis by (simp add: Bump_def runPlan_def Let_def settle_commit)
qed


subsection \<open>Commits\<close>

lemma commit_success:
  assumes "commitLocked os c prior nxt msg s = (None, s')"
  shows "chats s' = (chats s)(c := nxt)"
    and "target (qfs s') = Doc \<lparr>version = 1, diskChats = chats s'\<rparr>"
proof -
  let ?d = "\<lparr>version = 1, diskChats = (chats s)(c := nxt)\<rparr>"
  obtain err f where p: "persistLocked os ?d (qfs s) = (err, f)" by force
  with assms have "err = None" and s': "s' = s\<lparr>chats := (chats s)(c := nxt), qfs := f\<rparr>"
    by (auto simp: commitLocked_def Let_def split: option.splits)
  with p queue_file.success_installs [of os ?d "qfs s"]
  show "chats s' = (chats s)(c := nxt)"
    and "target (qfs s') = Doc \<lparr>version = 1, diskChats = chats s'\<rparr>" by auto
qed

lemma commit_failure:
  assumes "commitLocked os c prior nxt msg s = (Some e, s')"
  shows "chats s' = (chats s)(c \<mapsto> prior)"
    and "target (qfs s') = (if queueRenamed os
           then Doc \<lparr>version = 1, diskChats = (chats s)(c := nxt)\<rparr> else target (qfs s))"
proof -
  let ?d = "\<lparr>version = 1, diskChats = (chats s)(c := nxt)\<rparr>"
  obtain err f where p: "persistLocked os ?d (qfs s) = (err, f)" by force
  with assms have s': "s' = s\<lparr>chats := (chats s)(c \<mapsto> prior), qfs := f\<rparr>"
    by (auto simp: commitLocked_def Let_def split: option.splits)
  with p queue_file.target_install [of os ?d "qfs s"]
  show "chats s' = (chats s)(c \<mapsto> prior)"
    and "target (qfs s') = (if queueRenamed os
           then Doc \<lparr>version = 1, diskChats = (chats s)(c := nxt)\<rparr> else target (qfs s))" by auto
qed

lemma commit_reports: "commitLocked os c prior nxt msg s = (Some e, s') \<Longrightarrow> e \<noteq> ErrItemNotFound"
  by (auto simp: commitLocked_def Let_def split: prod.splits option.splits)

lemmas commit_facts = commit_success commit_failure

lemma queueOf_other: "chats s' = (chats s)(c := nxt) \<Longrightarrow> c' \<noteq> c \<Longrightarrow> queueOf s' c' = queueOf s c'"
  by (simp add: queueOf_def)

text \<open>The four ways an operation can end.\<close>

lemma runOp_cases:
  assumes "runOp os c op s = (err, s')"
  obtains (rejected) "planOp op (chats s c) (queueOf s c) = Reject"
      "err = Some ErrItemNotFound" "s' = s"
  | (unchanged) "planOp op (chats s c) (queueOf s c) = Unchanged" "err = None" "s' = s"
  | (committed) nxt msg where "planOp op (chats s c) (queueOf s c) = Install nxt msg" "err = None"
      "chats s' = (chats s)(c := nxt)" "target (qfs s') = Doc \<lparr>version = 1, diskChats = chats s'\<rparr>"
  | (rolled_back) nxt msg e where "planOp op (chats s c) (queueOf s c) = Install nxt msg"
      "err = Some e" "e \<noteq> ErrItemNotFound" "chats s' = (chats s)(c \<mapsto> queueOf s c)"
      "target (qfs s') = (if queueRenamed os
         then Doc \<lparr>version = 1, diskChats = (chats s)(c := nxt)\<rparr> else target (qfs s))"
proof (cases "planOp op (chats s c) (queueOf s c)")
  case (Install nxt msg)
  then have com: "commitLocked os c (queueOf s c) nxt msg s = (err, s')"
    using assms by (simp add: runOp_plan runPlan_def)
  show thesis
  proof (cases err)
    case None
    from committed [OF Install None] commit_success [OF com [unfolded None]] show thesis by blast
  next
    case (Some e)
    from rolled_back [OF Install Some] commit_failure [OF com [unfolded Some]]
      commit_reports [OF com [unfolded Some]] show thesis by blast
  qed
next
  case Reject
  with assms have "err = Some ErrItemNotFound" "s' = s" by (simp_all add: runOp_plan runPlan_def)
  with rejected [OF Reject] show thesis by blast
next
  case Unchanged
  with assms have "err = None" "s' = s" by (simp_all add: runOp_plan runPlan_def)
  with unchanged [OF Unchanged] show thesis by blast
qed

lemma runOp_other_chat: "runOp os c op s = (err, s') \<Longrightarrow> c' \<noteq> c \<Longrightarrow> queueOf s' c' = queueOf s c'"
  by (erule runOp_cases) (auto simp: queueOf_def)

lemma runOp_error_keeps: "runOp os c op s = (Some e, s') \<Longrightarrow> queueOf s' c' = queueOf s c'"
  by (erule runOp_cases) (auto simp: queueOf_def)

subsection \<open>The outbox contract\<close>

text \<open>
  Clients see an ordered list of undelivered messages, the first of which may be in flight. An
  outbox is that view: whether a message is in flight, and the identifiers in delivery order.
\<close>

type_synonym outbox = "bool \<times> string list"

definition outstanding :: "chatQueue \<Rightarrow> item list" where
  "outstanding q = (case dispatching q of None \<Rightarrow> [] | Some d \<Rightarrow> [d]) @ items q"

definition outboxOf :: "chatQueue \<Rightarrow> outbox" where
  "outboxOf q = (dispatching q \<noteq> None, map itemID (outstanding q))"

definition flying :: "outbox \<Rightarrow> string list" where
  "flying b = (if fst b then take 1 (snd b) else [])"

definition waiting :: "outbox \<Rightarrow> string list" where
  "waiting b = (if fst b then drop 1 (snd b) else snd b)"

fun outboxStep :: "qop \<Rightarrow> outbox \<Rightarrow> outbox" where
  "outboxStep (OpAppend fresh now it) b =
     (fst b, snd b @ [if itemID it = [] then fresh else itemID it])"
| "outboxStep (OpRemove i) b = (fst b, flying b @ remove1 i (waiting b))"
| "outboxStep (OpMove i to_ix) b =
     (let t = moveTarget (length (waiting b)) to_ix; rest = remove1 i (waiting b)
      in (fst b, flying b @ take t rest @ i # drop t rest))"
| "outboxStep OpClear b = (fst b, flying b)"
| "outboxStep (OpBegin fresh) b = (snd b \<noteq> [], snd b)"
| "outboxStep (OpAttempt did cursor) b = b"
| "outboxStep (OpComplete did) b = (False, drop 1 (snd b))"
| "outboxStep (OpRestore did) b = (False, snd b)"
| "outboxStep OpClaim b = (fst b, flying b @ drop 1 (waiting b))"
| "outboxStep (OpRestoreHead it) b = (fst b, flying b @ itemID it # waiting b)"
| "outboxStep OpDelete b = (False, [])"
| "outboxStep OpBump b = b"

lemma flying_outboxOf [simp]:
  "flying (outboxOf q) = (case dispatching q of None \<Rightarrow> [] | Some d \<Rightarrow> [itemID d])"
  by (simp add: flying_def outboxOf_def outstanding_def split: option.splits)

lemma waiting_outboxOf [simp]: "waiting (outboxOf q) = map itemID (items q)"
  by (simp add: waiting_def outboxOf_def outstanding_def split: option.splits)

lemma outbox_parts: "snd b = flying b @ waiting b"
  by (simp add: flying_def waiting_def append_take_drop_id)

lemma outboxOf_bump [simp]: "outboxOf (bump q) = outboxOf q"
  by (simp add: outboxOf_def outstanding_def bump_def)

lemma itemID_stampItem [simp]:
  "itemID (stampItem fresh now it) = (if itemID it = [] then fresh else itemID it)"
  by (simp add: stampItem_def Let_def)

lemma itemID_reserveItem [simp]: "itemID (reserveItem fresh it) = itemID it"
  by (simp add: reserveItem_def Let_def)

lemma remove_index:
  "itemIndex its i = Some k \<Longrightarrow> map itemID (take k its @ drop (Suc k) its) = remove1 i (map itemID its)"
proof (induction its arbitrary: k)
  case (Cons x its)
  then show ?case by (cases "itemID x = i") (auto simp: itemIndex_def)
qed (simp add: itemIndex_def)

text \<open>The slice surgery of \<open>Move\<close> is "cut out and insert".\<close>

lemma moveItems_insert:
  assumes "k < length its" and "t < length its"
  shows "moveItems its k t =
    (let cut = take k its @ drop (Suc k) its in take t cut @ its ! k # drop t cut)"
proof -
  define cut where "cut = take k its @ drop (Suc k) its"
  have len: "length cut = length its - 1" using assms by (simp add: cut_def)
  then have t: "t \<le> length cut" using assms by simp
  have "take (t + 1) (cut @ [zeroItem]) @
      take (length (cut @ [zeroItem]) - (t + 1)) (drop t (cut @ [zeroItem])) =
      take (Suc t) (cut @ [zeroItem]) @ drop t cut"
    using t by simp
  moreover have "length (take (Suc t) (cut @ [zeroItem])) = Suc t" using t by simp
  ultimately show ?thesis
    using t unfolding moveItems_def Let_def cut_def [symmetric, unfolded Suc_eq_plus1]
    by (simp add: list_update_append list_update_take_drop flip: cut_def)
qed


lemma plan_outbox:
  assumes "planOp op e q = Install (Some q') msg"
  shows "outboxOf q' = outboxStep op (outboxOf q)"
proof (cases op)
  case (OpRemove i)
  with assms show ?thesis
    by (auto simp: outboxOf_def outstanding_def remove_index [symmetric] bump_def flying_def waiting_def
        split: option.splits)
next
  case (OpMove i t)
  from assms OpMove obtain k where k: "itemIndex (items q) i = Some k"
    and q': "q' = bump (q\<lparr>items := moveItems (items q) k (moveTarget (length (items q)) t)\<rparr>)"
    by (auto simp: Let_def split: option.splits if_splits)
  let ?t = "moveTarget (length (items q)) t"
  let ?cut = "take k (items q) @ drop (Suc k) (items q)"
  from itemIndex_Some [OF k] have len: "k < length (items q)" and i: "itemID (items q ! k) = i"
    by auto
  then have "?t < length (items q)" by (auto simp: moveTarget_def)
  with len have "moveItems (items q) k ?t = take ?t ?cut @ items q ! k # drop ?t ?cut"
    by (simp add: moveItems_insert Let_def)
  with i have "map itemID (moveItems (items q) k ?t)
      = take ?t (map itemID ?cut) @ i # drop ?t (map itemID ?cut)"
    by (simp add: take_map drop_map)
  then have "map itemID (moveItems (items q) k ?t)
      = (let rest = remove1 i (map itemID (items q)) in take ?t rest @ i # drop ?t rest)"
    by (simp only: remove_index [OF k] Let_def)
  then show ?thesis
    using OpMove q' by (simp add: outboxOf_def outstanding_def bump_def Let_def flying_def waiting_def
        split: option.splits)
qed (use assms in \<open>auto simp: outboxOf_def outstanding_def bump_def flying_def waiting_def inFlight_def
      split: option.splits list.splits if_splits\<close>)

lemma put_back:
  "k < length xs \<Longrightarrow> take k (take k xs @ drop (Suc k) xs) @ xs ! k # drop k (take k xs @ drop (Suc k) xs) = xs"
  by (simp add: id_take_nth_drop [symmetric])

lemma plan_unchanged_outbox:
  assumes "planOp op (chats s c) (queueOf s c) = Unchanged"
  shows "outboxStep op (outboxOf (queueOf s c)) = outboxOf (queueOf s c)"
proof (cases op)
  case (OpMove i t)
  let ?q = "queueOf s c"
  from assms OpMove obtain k where k: "itemIndex (items ?q) i = Some k"
    and t: "moveTarget (length (items ?q)) t = k"
    by (auto simp: Let_def split: option.splits if_splits)
  from itemIndex_Some [OF k] have len: "k < length (items ?q)" and i: "itemID (items ?q ! k) = i"
    by auto
  have "take k (remove1 i (map itemID (items ?q))) @ i # drop k (remove1 i (map itemID (items ?q)))
      = map itemID (items ?q)"
    unfolding remove_index [OF k, symmetric]
    using arg_cong [where f = "map itemID", OF put_back [OF len]] i by (simp add: take_map drop_map)
  then show ?thesis
    using OpMove t by (simp add: Let_def) (simp add: outboxOf_def outstanding_def split: option.splits)
qed (use assms in \<open>auto simp: outboxOf_def outstanding_def zeroQueue_def queueOf_def inFlight_def flying_def
      waiting_def split: option.splits list.splits if_splits\<close>)


subsection \<open>Ledger of a chat\<close>

text \<open>
  A ghost ledger counts, by identifier, the messages a chat accepted, those it reported as
  delivered and those a caller took out. Reachable pairs of store and ledger are all executions:
  operations on this chat and on other chats with arbitrary answers of the system, and restarts
  from a file that agrees with memory.
\<close>

record ledger =
  accepted :: "string multiset"
  delivered :: "string multiset"
  dropped :: "string multiset"

definition noLedger :: ledger where
  "noLedger = \<lparr>accepted = {#}, delivered = {#}, dropped = {#}\<rparr>"

fun recordOp :: "qop \<Rightarrow> outbox \<Rightarrow> ledger \<Rightarrow> ledger" where
  "recordOp (OpAppend fresh now it) b L =
     L\<lparr>accepted := add_mset (if itemID it = [] then fresh else itemID it) (accepted L)\<rparr>"
| "recordOp (OpRestoreHead it) b L = L\<lparr>accepted := add_mset (itemID it) (accepted L)\<rparr>"
| "recordOp (OpComplete did) b L = L\<lparr>delivered := mset (take 1 (snd b)) + delivered L\<rparr>"
| "recordOp (OpRemove i) b L = L\<lparr>dropped := add_mset i (dropped L)\<rparr>"
| "recordOp OpClear b L = L\<lparr>dropped := mset (waiting b) + dropped L\<rparr>"
| "recordOp OpClaim b L = L\<lparr>dropped := mset (take 1 (waiting b)) + dropped L\<rparr>"
| "recordOp OpDelete b L = L\<lparr>dropped := mset (snd b) + dropped L\<rparr>"
| "recordOp _ b L = L"

definition synced :: "qstore \<Rightarrow> bool" where
  "synced s \<longleftrightarrow> (\<exists>s'. Load (qfs s) = Inr s' \<and> (\<forall>c. queueOf s' c = queueOf s c))"

definition freshStore :: "diskState fs \<Rightarrow> qstore" where
  "freshStore f = \<lparr>chats = Map.empty, qfs = f\<rparr>"

inductive queue_run :: "string \<Rightarrow> qstore \<Rightarrow> ledger \<Rightarrow> bool" for c where
  start: "queue_run c (freshStore f) noLedger"
| step_done: "queue_run c s L \<Longrightarrow> runOp os c op s = (None, s') \<Longrightarrow>
     queue_run c s' (recordOp op (outboxOf (queueOf s c)) L)"
| step_failed: "queue_run c s L \<Longrightarrow> runOp os c op s = (Some e, s') \<Longrightarrow> queue_run c s' L"
| step_other: "queue_run c s L \<Longrightarrow> c' \<noteq> c \<Longrightarrow> runOp os c' op s = (err, s') \<Longrightarrow> queue_run c s' L"
| restart: "queue_run c s L \<Longrightarrow> synced s \<Longrightarrow> Load (qfs s) = Inr s' \<Longrightarrow> queue_run c s' L"

lemma outbox_step_conserves:
  assumes "outboxStep op b = b'"
    and "\<And>i. op = OpRemove i \<Longrightarrow> i \<in> set (waiting b)"
    and "\<And>i t. op = OpMove i t \<Longrightarrow> i \<in> set (waiting b)"
  shows "accepted (recordOp op b L) + mset (snd b) + delivered L + dropped L =
    accepted L + mset (snd b') + delivered (recordOp op b L) + dropped (recordOp op b L)"
proof -
  have parts: "mset (snd b) = mset (flying b) + mset (waiting b)"
    by (simp add: outbox_parts [of b] flip: mset_append)
  have split1: "mset (take 1 xs) + mset (drop 1 xs) = mset xs" for xs :: "string list"
    by (metis append_take_drop_id mset_append)
  have move: "mset (drop t xs) + mset (take t xs) = mset xs" for t and xs :: "string list"
    by (metis append_take_drop_id mset_append union_commute)
  show ?thesis
    using assms parts split1 [of "waiting b"] split1 [of "snd b"]
    by (cases op) (auto simp: Let_def ac_simps move)
qed

lemma itemIndex_mem: "itemIndex its i = Some k \<Longrightarrow> i \<in> itemID ` set its"
  using itemIndex_Some nth_mem by blast

lemma planned_members:
  assumes "planOp op e q \<noteq> Reject"
  shows "op = OpRemove i \<Longrightarrow> i \<in> set (waiting (outboxOf q))"
    and "op = OpMove i t \<Longrightarrow> i \<in> set (waiting (outboxOf q))"
  using assms by (auto dest: itemIndex_mem split: option.splits)

lemma queueOf_commit: "chats s' = (chats s)(c := nxt) \<Longrightarrow>
    queueOf s' c = (case nxt of None \<Rightarrow> zeroQueue | Some q \<Rightarrow> q)"
  by (simp add: queueOf_def split: option.splits)

lemma runOp_outbox:
  assumes "runOp os c op s = (None, s')"
  shows "outboxOf (queueOf s' c) = outboxStep op (outboxOf (queueOf s c))"
    and "planOp op (chats s c) (queueOf s c) \<noteq> Reject"
  using assms
proof (atomize (full), cases rule: runOp_cases)
  case (committed nxt msg)
  show "outboxOf (queueOf s' c) = outboxStep op (outboxOf (queueOf s c)) \<and>
      planOp op (chats s c) (queueOf s c) \<noteq> Reject"
  proof (cases nxt)
    case None
    with committed(1) have "op = OpDelete"
      by (cases op) (auto simp: Let_def split: option.splits list.splits if_splits)
    with committed None show ?thesis
      by (simp add: queueOf_commit outboxOf_def outstanding_def zeroQueue_def)
  next
    case (Some q')
    with committed show ?thesis by (simp add: queueOf_commit plan_outbox)
  qed
qed (auto simp: plan_unchanged_outbox)

lemma queue_run_conserves:
  "queue_run c s L \<Longrightarrow>
     accepted L = mset (snd (outboxOf (queueOf s c))) + delivered L + dropped L"
proof (induction rule: queue_run.induct)
  case (start f)
  show ?case
    by (simp add: freshStore_def noLedger_def queueOf_def zeroQueue_def outboxOf_def outstanding_def)
next
  case (step_done s L os op s')
  note planned = planned_members [OF runOp_outbox(2) [OF step_done(2)]]
  from outbox_step_conserves [OF runOp_outbox(1) [OF step_done(2), symmetric] planned, where L = L]
  show ?case using step_done.IH by (simp add: ac_simps)
next
  case (step_failed s L os op e s')
  then show ?case by (simp add: runOp_error_keeps)
next
  case (step_other s L c' os op err s')
  then show ?case by (simp add: runOp_other_chat)
next
  case (restart s L s')
  then show ?case by (auto simp: synced_def)
qed


lemma commit_persisted:
  "commitLocked os c prior nxt msg s = (None, s') \<Longrightarrow>
     fst (persistLocked os \<lparr>version = 1, diskChats = (chats s)(c := nxt)\<rparr> (qfs s)) = None"
  by (simp add: commitLocked_def Let_def split: prod.splits option.splits)

text \<open>A commit with no fault, used to evaluate concrete executions.\<close>

definition putQueue :: "qstore \<Rightarrow> string \<Rightarrow> chatQueue option \<Rightarrow> qstore" where
  "putQueue s c nxt = s\<lparr>chats := (chats s)(c := nxt),
     qfs := (qfs s)\<lparr>target := Doc \<lparr>version = 1, diskChats = (chats s)(c := nxt)\<rparr>\<rparr>\<rparr>"

lemma persist_healthy: "persistLocked healthy d f = (None, f\<lparr>target := Doc d\<rparr>)"
  by (simp add: persistLocked_def staged_install_def)

lemma commit_healthy [simp]: "commitLocked healthy c prior nxt msg s = (None, putQueue s c nxt)"
  by (simp add: commitLocked_def Let_def persist_healthy putQueue_def)

lemma queueOf_putQueue [simp]: "queueOf (putQueue s c (Some q)) c = q"
  by (simp add: putQueue_def queueOf_def)

lemma runOp_healthy:
  "planOp op (chats s c) (queueOf s c) \<noteq> Reject \<Longrightarrow>
     runOp healthy c op s = (None, snd (runOp healthy c op s))"
  by (cases "planOp op (chats s c) (queueOf s c)") (auto simp: runOp_plan runPlan_def prod_eq_iff)

subsection \<open>Properties\<close>

text \<open>C2: every operation of the send queue that succeeds acts on the ordered outbox exactly as the
  abstract contract says (append at the end, remove and move among the waiting messages, reserve
  and restore without reordering, complete the head), and touches no other chat.\<close>

theorem queue_refines_outbox:
  assumes "runOp os c op s = (None, s')"
  shows "outboxOf (queueOf s' c) = outboxStep op (outboxOf (queueOf s c))
    \<and> (\<forall>c'. c' \<noteq> c \<longrightarrow> queueOf s' c' = queueOf s c')"
  using assms runOp_outbox(1) runOp_other_chat by blast

theorem queue_refines_outbox_witness:
  "outboxOf (queueOf (snd (runOp healthy ''chat'' (OpAppend ''id'' 7 zeroItem)
     (freshStore \<lparr>target = Missing, temps = 0\<rparr>))) ''chat'') = (False, [''id''])"
proof -
  let ?s = "freshStore \<lparr>target = Missing, temps = 0\<rparr>"
  have "runOp healthy ''chat'' (OpAppend ''id'' 7 zeroItem) ?s =
      (None, snd (runOp healthy ''chat'' (OpAppend ''id'' 7 zeroItem) ?s))"
    by (rule runOp_healthy) simp
  note conjunct1 [OF queue_refines_outbox [OF this]]
  also have "outboxStep (OpAppend ''id'' 7 zeroItem) (outboxOf (queueOf ?s ''chat'')) = (False, [''id''])"
    by (simp add: freshStore_def queueOf_def zeroQueue_def outboxOf_def outstanding_def zeroItem_def)
  finally show ?thesis .
qed






lemma Load_doc:
  "target f = Doc \<lparr>version = 1, diskChats = m\<rparr> \<Longrightarrow> Load f = Inr \<lparr>chats = m, qfs = f\<rparr>"
  by (simp add: Load_def option.map_ident)

lemma queueOf_chats: "chats s = chats s' \<Longrightarrow> queueOf s c = queueOf s' c"
  by (simp add: queueOf_def)

lemma synced_runOp:
  assumes "synced s" and "runOp os c op s = (err, s')" and "err = None \<or> \<not> queueRenamed os"
  shows "synced s'"
  using assms(2)
proof (cases rule: runOp_cases)
  case (committed nxt msg)
  then show ?thesis unfolding synced_def by (auto simp: Load_doc queueOf_def)
next
  case (rolled_back nxt msg e)
  with assms(3) have "target (qfs s') = target (qfs s)" by simp
  with assms(1) obtain r where "Load (qfs s) = Inr r" and "\<forall>c. queueOf r c = queueOf s c"
    by (auto simp: synced_def)
  then have "Load (qfs s') = Inr (r\<lparr>qfs := qfs s'\<rparr>)"
    using \<open>target (qfs s') = target (qfs s)\<close> by (auto simp: Load_def split: content.splits if_splits)
  moreover have "queueOf (r\<lparr>qfs := qfs s'\<rparr>) c = queueOf s' c" for c
    using \<open>\<forall>c. queueOf r c = queueOf s c\<close> rolled_back(4) by (auto simp: queueOf_def)
  ultimately show ?thesis unfolding synced_def by blast
qed (use assms(1) in simp_all)

text \<open>a restart after a successful operation finds every chat's queue as it was, and the first
  dispatch after the restart is exactly the message that was in flight, with its delivery
  identity, before any later message and without another write.\<close>

theorem queue_restart_resumes:
  assumes "synced s" and "runOp os c op s = (None, s')"
  shows "\<exists>r. Load (qfs s') = Inr r \<and> (\<forall>c'. Snapshot r c' = Snapshot s' c') \<and>
    (\<forall>c' d os' fresh. dispatching (queueOf s' c') = Some d \<longrightarrow>
       BeginDispatch os' fresh c' r = ((d, True, None), r))"
proof -
  from synced_runOp [OF assms] obtain r where "Load (qfs s') = Inr r" and "\<forall>c. queueOf r c = queueOf s' c"
    by (auto simp: synced_def)
  then show ?thesis by (auto simp: Snapshot_def BeginDispatch_def)
qed

theorem queue_restart_resumes_witness:
  "\<exists>r. Load (qfs (snd (runOp healthy ''chat'' (OpAppend ''id'' 7 zeroItem)
      (freshStore \<lparr>target = Missing, temps = 0\<rparr>)))) = Inr r"
proof -
  let ?s = "freshStore \<lparr>target = Missing, temps = 0\<rparr>" and ?op = "OpAppend ''id'' 7 zeroItem"
  have "synced ?s" by (auto simp: synced_def freshStore_def Load_def)
  moreover have "runOp healthy ''chat'' ?op ?s = (None, snd (runOp healthy ''chat'' ?op ?s))"
    by (rule runOp_healthy) simp
  ultimately show ?thesis using queue_restart_resumes by blast
qed

text \<open>Memory and the state file part ways when the rename succeeded but a later stage failed:
  \<open>Append\<close> reports an error and memory is rolled back, yet the file holds the message, so it
  reappears after a restart.\<close>

theorem queue_append_late_failure:
  assumes "queueRenamed os" and "first_failure os (queueFinish os) \<noteq> None"
  shows "\<exists>e s' r. Append os fresh now c it s = (([], revision (queueOf s c), Some e), s')
    \<and> Snapshot s' c = Snapshot s c \<and> Load (qfs s') = Inr r
    \<and> items (queueOf r c) = items (queueOf s c) @ [stampItem fresh now it]"
proof -
  let ?q = "bump ((queueOf s c)\<lparr>items := items (queueOf s c) @ [stampItem fresh now it]\<rparr>)"
  obtain err s' where com: "commitLocked os c (queueOf s c) (Some ?q) ''append send queue'' s = (err, s')"
    by force
  have fails: "fst (persistLocked os d f) \<noteq> None" for d f
    using assms(2) staged_install_success [of os queuePrepare "queueWrite os" "queueFinish os" d f]
    unfolding persistLocked_def by metis
  have "err \<noteq> None"
    using commit_persisted [of os c "queueOf s c" "Some ?q" "''append send queue''" s s'] com fails
    by auto
  then obtain e where e: "err = Some e" by blast
  have app: "Append os fresh now c it s = (([], revision (queueOf s c), Some e), s')"
    using com e by (simp add: Append_def items_bump Let_def)
  have "runOp os c (OpAppend fresh now it) s = (Some e, s')" using app by simp
  from runOp_error_keeps [OF this] have "Snapshot s' c = Snapshot s c" by (simp add: Snapshot_def)
  moreover have "Load (qfs s') = Inr \<lparr>chats = (chats s)(c \<mapsto> ?q), qfs = qfs s'\<rparr>"
    using commit_failure(2) [OF com [unfolded e]] assms(1) by (simp add: Load_doc)
  moreover have "items (queueOf \<lparr>chats = (chats s)(c \<mapsto> ?q), qfs = qfs s'\<rparr> c)
      = items (queueOf s c) @ [stampItem fresh now it]"
    by (simp add: queueOf_def bump_def)
  ultimately show ?thesis using app by blast
qed

theorem queue_append_late_failure_witness:
  "\<exists>e s' r. Append (\<lambda>st. if st = SyncDir then Some ''EIO'' else None) ''id'' 7 ''chat'' zeroItem
       (freshStore \<lparr>target = Missing, temps = 0\<rparr>) = (([], 0, Some e), s')
     \<and> Load (qfs s') = Inr r \<and> items (queueOf r ''chat'') = [stampItem ''id'' 7 zeroItem]"
proof -
  let ?os = "\<lambda>st. if st = SyncDir then Some ''EIO'' else None"
  let ?s = "freshStore \<lparr>target = Missing, temps = 0\<rparr>"
  have "queueRenamed ?os"
    by (simp add: queueRenamed_def reaches_rename_def first_failure_None queuePrepare_def queueWrite_def)
  moreover have "first_failure ?os (queueFinish ?os) \<noteq> None"
    by (simp add: queueFinish_def)
  ultimately show ?thesis
    using queue_append_late_failure [of ?os "''id''" 7 "''chat''" zeroItem ?s]
    by (auto simp: freshStore_def queueOf_def zeroQueue_def)
qed


lemma commit_done:
  "commitLocked os c prior (Some q') msg s = (None, s') \<Longrightarrow> queueOf s' c = q'"
  by (drule commit_success(1)) (simp add: queueOf_def)

lemma settle_done: "settle os c prior q' msg s = ((r, None), s') \<Longrightarrow> queueOf s' c = q'"
  by (auto simp: settle_def dest: commit_done split: prod.splits option.splits)

lemma begin_done:
  assumes "BeginDispatch os fresh c s = ((d, ok, None), s')"
    and "dispatching (queueOf s c) = None" and "items (queueOf s c) = it # rest"
  shows "d = reserveItem fresh it \<and> ok \<and>
    queueOf s' c = bump ((queueOf s c)\<lparr>items := rest, dispatching := Some d\<rparr>)"
  using assms by (auto simp: BeginDispatch_def Let_def dest: commit_done split: prod.splits option.splits)

lemma begin_reserves:
  assumes "BeginDispatch os fresh c s = ((d, True, None), s')" and "dispatching (queueOf s c) = None"
  obtains it rest where "items (queueOf s c) = it # rest" "d = reserveItem fresh it"
    "dispatching (queueOf s' c) = Some d"
  using assms that begin_done [OF assms]
  by (cases "items (queueOf s c)") (auto simp: BeginDispatch_def bump_def)

lemma attempt_done:
  assumes "MarkDispatchAttempted os c did cursor s = ((r, None), s')"
    and "dispatching (queueOf s c) = Some d"
  shows "dispatching (queueOf s' c) = Some (d\<lparr>dispatchState := DispatchAttempted, historyCursor := cursor\<rparr>)"
  using assms
  by (auto simp: MarkDispatchAttempted_def inFlight_def Let_def bump_def dest: settle_done split: if_splits)

lemma append_done:
  assumes "Append os fresh now c it s = ((i, r, None), s')"
  shows "queueOf s' c = bump ((queueOf s c)\<lparr>items := items (queueOf s c) @ [stampItem fresh now it]\<rparr>)"
  using assms
  by (auto simp: Append_def items_bump Let_def dest: commit_done split: prod.splits option.splits)

lemma restore_done:
  assumes "RestoreDispatch os c did s = ((r, None), s')" and "dispatching (queueOf s c) = Some d"
  shows "queueOf s' c = bump ((queueOf s c)\<lparr>dispatching := None, items := d # items (queueOf s c)\<rparr>)"
  using assms
  by (auto simp: RestoreDispatch_def inFlight_def Let_def dest: settle_done split: if_splits)

lemma reserve_again:
  "deliveryID (reserveItem fresh it) \<noteq> [] \<Longrightarrow>
     reserveItem fresh' ((reserveItem fresh it)\<lparr>dispatchState := x, historyCursor := y\<rparr>) = reserveItem fresh it"
  by (simp add: reserveItem_def Let_def)

text \<open>A reserved message keeps its delivery identity through an attempt and a restore: the next
  dispatch of the chat is the same item, reserved again, even with newer messages waiting.\<close>

theorem queue_dispatch_identity_stable:
  assumes "BeginDispatch os1 fresh c s = ((d, True, None), s1)" and "fresh \<noteq> []"
    and "dispatching (queueOf s c) = None"
    and "MarkDispatchAttempted os2 c (deliveryID d) cursor s1 = ((r2, None), s2)"
    and "Append os3 fresh3 now c it s2 = ((i3, r3, None), s3)"
    and "RestoreDispatch os4 c (deliveryID d) s3 = ((r4, None), s4)"
    and "BeginDispatch os5 fresh5 c s4 = ((d5, ok5, None), s5)"
  shows "d5 = d \<and> ok5 \<and> deliveryID d \<noteq> [] \<and> dispatchState d = DispatchReserved"
proof -
  obtain it0 rest where d: "d = reserveItem fresh it0" and s1: "dispatching (queueOf s1 c) = Some d"
    using begin_reserves [OF assms(1,3)] by metis
  have named: "deliveryID d \<noteq> []" and state: "dispatchState d = DispatchReserved"
    using assms(2) by (simp_all add: d reserveItem_def Let_def)
  let ?d = "d\<lparr>dispatchState := DispatchAttempted, historyCursor := cursor\<rparr>"
  have "dispatching (queueOf s3 c) = Some ?d"
    using attempt_done [OF assms(4) s1] append_done [OF assms(5)] by (simp add: bump_def)
  from restore_done [OF assms(6) this]
  have "dispatching (queueOf s4 c) = None" and "items (queueOf s4 c) = ?d # items (queueOf s3 c)"
    by (simp_all add: bump_def)
  from begin_done [OF assms(7) this] have "d5 = reserveItem fresh5 ?d" and ok5 by auto
  moreover have "reserveItem fresh5 ?d = d" using reserve_again named unfolding d by blast
  ultimately show ?thesis using named state by simp
qed

theorem queue_dispatch_identity_stable_witness:
  "\<exists>d s4 s5. BeginDispatch healthy ''d2'' ''c'' s4 = ((d, True, None), s5) \<and> deliveryID d = ''d1''"
proof -
  let ?it = "zeroItem\<lparr>itemID := ''m''\<rparr>" and ?new = "zeroItem\<lparr>itemID := ''n''\<rparr>"
  let ?s = "putQueue (freshStore \<lparr>target = Missing, temps = 0\<rparr>) ''c'' (Some (zeroQueue\<lparr>items := [?it]\<rparr>))"
  let ?d = "reserveItem ''d1'' ?it"
  let ?r1 = "BeginDispatch healthy ''d1'' ''c'' ?s"
  let ?r2 = "MarkDispatchAttempted healthy ''c'' (deliveryID ?d) ''e9'' (snd ?r1)"
  let ?r3 = "Append healthy ''x'' 5 ''c'' ?new (snd ?r2)"
  let ?r4 = "RestoreDispatch healthy ''c'' (deliveryID ?d) (snd ?r3)"
  let ?r5 = "BeginDispatch healthy ''d2'' ''c'' (snd ?r4)"
  have r1: "?r1 = ((?d, True, None), snd ?r1)"
    by (simp add: BeginDispatch_def zeroQueue_def Let_def)
  moreover have d0: "dispatching (queueOf ?s ''c'') = None" by (simp add: zeroQueue_def)
  moreover have r2: "?r2 = ((fst (fst ?r2), None), snd ?r2)"
    by (simp add: BeginDispatch_def MarkDispatchAttempted_def settle_def inFlight_def bump_def zeroQueue_def
        Let_def)
  moreover have r3: "?r3 = ((fst (fst ?r3), fst (snd (fst ?r3)), None), snd ?r3)"
    by (simp add: Append_def Let_def)
  moreover from begin_reserves [OF r1 d0] have "dispatching (queueOf (snd ?r1) ''c'') = Some ?d"
    by metis
  with attempt_done [OF r2] append_done [OF r3]
  have "inFlight (queueOf (snd ?r3) ''c'') (deliveryID ?d) \<noteq> None"
    by (simp add: inFlight_def bump_def)
  then have r4: "?r4 = ((fst (fst ?r4), None), snd ?r4)"
    by (auto simp: RestoreDispatch_def settle_def Let_def)
  moreover have "snd (snd (fst ?r5)) = None"
    by (simp add: BeginDispatch_def Let_def split: option.splits list.splits)
  then obtain d5 ok5 s5 where r5: "?r5 = ((d5, ok5, None), s5)" by (cases ?r5) auto
  ultimately have d5: "d5 = ?d" and ok5: "ok5 = True"
    using queue_dispatch_identity_stable [of healthy "''d1''" "''c''" ?s ?d] by blast+
  have "deliveryID d5 = ''d1''" unfolding d5 by (simp add: reserveItem_def zeroItem_def Let_def)
  then show ?thesis using r5 [unfolded ok5] by blast
qed

text \<open>Every successful operation either leaves the store as it is, deletes the chat, or advances
  the chat's revision by exactly one (in \<open>int64\<close> arithmetic).\<close>

theorem queue_revision_step:
  assumes "runOp os c op s = (None, s')"
  shows "s' = s \<or> (op = OpDelete \<and> chats s' c = None) \<or>
    revision (queueOf s' c) = wrap64 (revision (queueOf s c) + 1)"
  using assms
proof (cases rule: runOp_cases)
  case (committed nxt msg)
  then show ?thesis
    by (cases op) (auto simp: queueOf_def bump_def Let_def split: option.splits list.splits if_splits)
qed simp_all

end
