(* ===== verification/Json.thy ===== *)
theory Json
  imports Prelude
begin

text \<open>
  The parts of Go's standard library for text that the modelled code calls: \<open>bytes.TrimSpace\<close>,
  and \<open>encoding/json\<close>: the grammar the scanner accepts (with its nesting limit), string
  unquoting, and decoding into struct fields (case-insensitive member names, the last one wins,
  \<open>null\<close> leaves a field alone, a wrong type is an error). Texts are valid UTF-8; Go's repair of
  invalid bytes is not modelled. The parsers take fuel; \<open>parse_fuel\<close> shows that the length of the
  input is always enough.
\<close>

subsection \<open>Trimming\<close>

definition spaceSeqs :: "string list" where
  "spaceSeqs =
    [[CHR 0x09], [CHR 0x0A], [CHR 0x0B], [CHR 0x0C], [CHR 0x0D], [CHR 0x20],
     [CHR 0xC2, CHR 0x85], [CHR 0xC2, CHR 0xA0], [CHR 0xE1, CHR 0x9A, CHR 0x80],
     [CHR 0xE2, CHR 0x80, CHR 0x80], [CHR 0xE2, CHR 0x80, CHR 0x81],
     [CHR 0xE2, CHR 0x80, CHR 0x82], [CHR 0xE2, CHR 0x80, CHR 0x83],
     [CHR 0xE2, CHR 0x80, CHR 0x84], [CHR 0xE2, CHR 0x80, CHR 0x85],
     [CHR 0xE2, CHR 0x80, CHR 0x86], [CHR 0xE2, CHR 0x80, CHR 0x87],
     [CHR 0xE2, CHR 0x80, CHR 0x88], [CHR 0xE2, CHR 0x80, CHR 0x89],
     [CHR 0xE2, CHR 0x80, CHR 0x8A], [CHR 0xE2, CHR 0x80, CHR 0xA8],
     [CHR 0xE2, CHR 0x80, CHR 0xA9], [CHR 0xE2, CHR 0x80, CHR 0xAF],
     [CHR 0xE2, CHR 0x81, CHR 0x9F], [CHR 0xE3, CHR 0x80, CHR 0x80]]"

fun stripPrefix :: "'a list \<Rightarrow> 'a list \<Rightarrow> 'a list option" where
  "stripPrefix [] s = Some s"
| "stripPrefix (p # ps) [] = None"
| "stripPrefix (p # ps) (c # cs) = (if p = c then stripPrefix ps cs else None)"

fun stripAny :: "string list \<Rightarrow> string \<Rightarrow> string option" where
  "stripAny [] s = None"
| "stripAny (p # ps) s = (case stripPrefix p s of Some r \<Rightarrow> Some r | None \<Rightarrow> stripAny ps s)"

fun trimLeft :: "nat \<Rightarrow> string list \<Rightarrow> string \<Rightarrow> string" where
  "trimLeft 0 seqs s = s"
| "trimLeft (Suc n) seqs s = (case stripAny seqs s of Some r \<Rightarrow> trimLeft n seqs r | None \<Rightarrow> s)"

definition trimSpace :: "string \<Rightarrow> string" where
  "trimSpace s =
     (let l = trimLeft (length s) spaceSeqs s
      in rev (trimLeft (length l) (map rev spaceSeqs) (rev l)))"

lemma stripPrefix_append: "stripPrefix p s = Some r \<longleftrightarrow> s = p @ r"
  by (induction p s rule: stripPrefix.induct) auto

lemma stripAny_suffix: "stripAny ps s = Some r \<Longrightarrow> \<exists>p \<in> set ps. s = p @ r"
  by (induction ps) (auto simp: stripPrefix_append split: option.splits)

lemma trimLeft_suffix: "\<exists>p. s = p @ trimLeft n seqs s"
proof (induction n arbitrary: s)
  case (Suc n)
  show ?case
  proof (cases "stripAny seqs s")
    case (Some r)
    from stripAny_suffix [OF this] obtain p where "s = p @ r" by blast
    with Suc.IH [of r] Some show ?thesis by (metis append.assoc option.case(2) trimLeft.simps(2))
  qed simp
qed simp

lemma length_trimLeft: "length (trimLeft n seqs s) \<le> length s"
  using trimLeft_suffix [of s n seqs] by (metis le_add2 length_append)

lemma length_trimSpace: "length (trimSpace s) \<le> length s"
  unfolding trimSpace_def Let_def length_rev
  using length_trimLeft order_trans length_rev by metis

subsection \<open>Values\<close>

datatype json =
    JNull
  | JBool bool
  | JNum string
  | JStr string
  | JArr "json list"
  | JObj "(string \<times> json) list"

definition isWs :: "char \<Rightarrow> bool" where
  "isWs c \<longleftrightarrow> c = CHR '' '' \<or> c = CHR 0x09 \<or> c = CHR 0x0A \<or> c = CHR 0x0D"

definition skipWs :: "string \<Rightarrow> string" where
  "skipWs s = dropWhile isWs s"

definition isDigit :: "char \<Rightarrow> bool" where
  "isDigit c \<longleftrightarrow> (48::nat) \<le> of_char c \<and> of_char c \<le> (57::nat)"

text \<open>Evaluation rules on the bits of a character.\<close>

lemma isDigit_code [code]:
  "isDigit (Char b0 b1 b2 b3 b4 b5 b6 b7) \<longleftrightarrow> \<not> b7 \<and> \<not> b6 \<and> b5 \<and> b4 \<and> (\<not> b3 \<or> \<not> b2 \<and> \<not> b1)"
  by (cases b0; cases b1; cases b2; cases b3; cases b4; cases b5; cases b6; cases b7)
    (simp_all add: isDigit_def of_char_def)

definition isControl :: "char \<Rightarrow> bool" where
  "isControl c \<longleftrightarrow> (of_char c :: nat) < 32"

lemma isControl_code [code]: "isControl (Char b0 b1 b2 b3 b4 b5 b6 b7) \<longleftrightarrow> \<not> b5 \<and> \<not> b6 \<and> \<not> b7"
  by (cases b0; cases b1; cases b2; cases b3; cases b4; cases b5; cases b6; cases b7)
    (simp_all add: isControl_def of_char_def)

fun hexVal :: "char \<Rightarrow> nat option" where
  "hexVal c = (let n = (of_char c :: nat) in
     if 48 \<le> n \<and> n \<le> 57 then Some (n - 48)
     else if 97 \<le> n \<and> n \<le> 102 then Some (n - 87)
     else if 65 \<le> n \<and> n \<le> 70 then Some (n - 55) else None)"

definition hex4 :: "char \<Rightarrow> char \<Rightarrow> char \<Rightarrow> char \<Rightarrow> nat option" where
  "hex4 a b c d = (case (hexVal a, hexVal b, hexVal c, hexVal d) of
     (Some a, Some b, Some c, Some d) \<Rightarrow> Some (((a * 16 + b) * 16 + c) * 16 + d)
   | _ \<Rightarrow> None)"

definition utf8 :: "nat \<Rightarrow> string" where
  "utf8 n = map char_of (if n < 0x80 then [n]
     else if n < 0x800 then [0xC0 + n div 64, 0x80 + n mod 64]
     else if n < 0x10000 then [0xE0 + n div 4096, 0x80 + n div 64 mod 64, 0x80 + n mod 64]
     else [0xF0 + n div 262144, 0x80 + n div 4096 mod 64, 0x80 + n div 64 mod 64, 0x80 + n mod 64])"

fun unescape :: "char \<Rightarrow> char option" where
  "unescape c =
     (if c = CHR 0x22 \<or> c = CHR ''/'' \<or> c = CHR 0x5C then Some c
      else if c = CHR ''b'' then Some (CHR 0x08) else if c = CHR ''f'' then Some (CHR 0x0C)
      else if c = CHR ''n'' then Some (CHR 0x0A) else if c = CHR ''r'' then Some (CHR 0x0D)
      else if c = CHR ''t'' then Some (CHR 0x09) else None)"

definition combine :: "string \<Rightarrow> (string \<times> string) option \<Rightarrow> (string \<times> string) option" where
  "combine x r = map_option (\<lambda>(s, t). (x @ s, t)) r"

definition surrogatePair :: "nat \<Rightarrow> nat \<Rightarrow> nat option" where
  "surrogatePair hi lo =
     (if 0xD800 \<le> hi \<and> hi < 0xDC00 \<and> 0xDC00 \<le> lo \<and> lo < 0xE000
      then Some (0x10000 + (hi - 0xD800) * 1024 + (lo - 0xDC00)) else None)"

definition isSurrogate :: "nat \<Rightarrow> bool" where
  "isSurrogate n \<longleftrightarrow> 0xD800 \<le> n \<and> n < 0xE000"

text \<open>An escape after its backslash: the text it denotes and the rest.\<close>

definition scanUnicode :: "string \<Rightarrow> (string \<times> string) option" where
  "scanUnicode s = (case s of
       h1 # h2 # h3 # h4 # r \<Rightarrow>
         (case hex4 h1 h2 h3 h4 of
            None \<Rightarrow> None
          | Some n \<Rightarrow>
              (if isSurrogate n then
                 (case r of
                    b # u # k1 # k2 # k3 # k4 # r' \<Rightarrow>
                      (case (if b = CHR 0x5C \<and> u = CHR ''u''
                             then Option.bind (hex4 k1 k2 k3 k4) (surrogatePair n) else None) of
                         Some m \<Rightarrow> Some (utf8 m, r')
                       | None \<Rightarrow> Some (utf8 0xFFFD, r))
                  | _ \<Rightarrow> Some (utf8 0xFFFD, r))
               else Some (utf8 n, r)))
     | _ \<Rightarrow> None)"

definition scanEscape :: "string \<Rightarrow> (string \<times> string) option" where
  "scanEscape s = (case s of
       [] \<Rightarrow> None
     | e # es \<Rightarrow> (if e = CHR ''u'' then scanUnicode es
                 else map_option (\<lambda>x. ([x], es)) (unescape e)))"

lemma scanUnicode_length: "scanUnicode s = Some (x, r) \<Longrightarrow> length r < length s"
  by (auto simp: scanUnicode_def split: list.splits option.splits if_splits)

lemma scanEscape_length: "scanEscape s = Some (x, r) \<Longrightarrow> length r < length s"
  by (auto simp: scanEscape_def dest: scanUnicode_length split: list.splits if_splits simp del: unescape.simps)

text \<open>A string body after its opening quote: the unquoted text and what follows the closing quote.\<close>

function scanString :: "string \<Rightarrow> (string \<times> string) option" where
  "scanString [] = None"
| "scanString (c # cs) =
     (if c = CHR 0x22 then Some ([], cs)
      else if c = CHR 0x5C then
        (case scanEscape cs of None \<Rightarrow> None | Some (x, r) \<Rightarrow> combine x (scanString r))
      else if isControl c then None
      else combine [c] (scanString cs))"
  by pat_completeness auto
termination
  by (relation "measure length") (auto dest: scanEscape_length)

definition takeDigits :: "string \<Rightarrow> string \<times> string" where
  "takeDigits s = (takeWhile isDigit s, dropWhile isDigit s)"

fun scanFraction :: "string \<Rightarrow> (string \<times> string) option" where
  "scanFraction (c # cs) =
     (if c = CHR ''.'' then
        (case takeDigits cs of (d, r) \<Rightarrow> if d = [] then None else Some (c # d, r))
      else Some ([], c # cs))"
| "scanFraction [] = Some ([], [])"

fun scanExponent :: "string \<Rightarrow> (string \<times> string) option" where
  "scanExponent (c # cs) =
     (if c = CHR ''e'' \<or> c = CHR ''E'' then
        (let (sg, r) = (case cs of x # xs \<Rightarrow> if x = CHR ''+'' \<or> x = CHR ''-'' then ([x], xs) else ([], cs)
                        | [] \<Rightarrow> ([], []));
             (d, r') = takeDigits r
         in if d = [] then None else Some (c # sg @ d, r'))
      else Some ([], c # cs))"
| "scanExponent [] = Some ([], [])"

definition scanNumber :: "string \<Rightarrow> (string \<times> string) option" where
  "scanNumber s =
     (let (sg, r) = (case s of c # cs \<Rightarrow> if c = CHR ''-'' then ([c], cs) else ([], s) | [] \<Rightarrow> ([], []));
          (ip, r1) = (case r of c # cs \<Rightarrow> if c = CHR ''0'' then ([c], cs) else takeDigits r | [] \<Rightarrow> ([], []))
      in if ip = [] then None
         else (case scanFraction r1 of
                 None \<Rightarrow> None
               | Some (fr, r2) \<Rightarrow>
                   (case scanExponent r2 of None \<Rightarrow> None | Some (ex, r3) \<Rightarrow> Some (sg @ ip @ fr @ ex, r3))))"

definition maxNestingDepth :: int where
  "maxNestingDepth = 10000"

fun parseValue :: "nat \<Rightarrow> int \<Rightarrow> string \<Rightarrow> (json \<times> string) option"
  and parseElems :: "nat \<Rightarrow> int \<Rightarrow> string \<Rightarrow> (json list \<times> string) option"
  and parseMembers :: "nat \<Rightarrow> int \<Rightarrow> string \<Rightarrow> ((string \<times> json) list \<times> string) option" where
  "parseValue 0 d s = None"
| "parseValue (Suc n) d s =
     (case s of
        [] \<Rightarrow> None
      | c # cs \<Rightarrow>
          (if c = CHR 0x22 then map_option (\<lambda>(t, r). (JStr t, r)) (scanString cs)
           else if c = CHR ''['' then
             (if d \<le> 0 then None
              else case skipWs cs of
                     [] \<Rightarrow> None
                   | e # es \<Rightarrow> (if e = CHR '']'' then Some (JArr [], es)
                               else map_option (\<lambda>(vs, r). (JArr vs, r)) (parseElems n (d - 1) (e # es))))
           else if c = CHR ''{'' then
             (if d \<le> 0 then None
              else case skipWs cs of
                     [] \<Rightarrow> None
                   | e # es \<Rightarrow> (if e = CHR ''}'' then Some (JObj [], es)
                               else map_option (\<lambda>(ms, r). (JObj ms, r)) (parseMembers n (d - 1) (e # es))))
           else if c = CHR ''t'' then map_option (\<lambda>r. (JBool True, r)) (stripPrefix ''rue'' cs)
           else if c = CHR ''f'' then map_option (\<lambda>r. (JBool False, r)) (stripPrefix ''alse'' cs)
           else if c = CHR ''n'' then map_option (\<lambda>r. (JNull, r)) (stripPrefix ''ull'' cs)
           else map_option (\<lambda>(t, r). (JNum t, r)) (scanNumber (c # cs))))"
| "parseElems 0 d s = None"
| "parseElems (Suc n) d s =
     (case parseValue n d s of
        None \<Rightarrow> None
      | Some (v, r) \<Rightarrow>
          (case skipWs r of
             [] \<Rightarrow> None
           | c # cs \<Rightarrow>
               (if c = CHR '']'' then Some ([v], cs)
                else if c = CHR '','' then
                  map_option (\<lambda>(vs, t). (v # vs, t)) (parseElems n d (skipWs cs))
                else None)))"
| "parseMembers 0 d s = None"
| "parseMembers (Suc n) d s =
     (case s of
        [] \<Rightarrow> None
      | q # qs \<Rightarrow>
          (if q \<noteq> CHR 0x22 then None
           else (case scanString qs of
                   None \<Rightarrow> None
                 | Some (k, r) \<Rightarrow>
                     (case skipWs r of
                        [] \<Rightarrow> None
                      | c # cs \<Rightarrow>
                          (if c \<noteq> CHR '':'' then None
                           else (case parseValue n d (skipWs cs) of
                                   None \<Rightarrow> None
                                 | Some (v, r') \<Rightarrow>
                                     (case skipWs r' of
                                        [] \<Rightarrow> None
                                      | e # es \<Rightarrow>
                                          (if e = CHR ''}'' then Some ([(k, v)], es)
                                           else if e = CHR '','' then
                                             map_option (\<lambda>(ms, t). ((k, v) # ms, t))
                                               (parseMembers n d (skipWs es))
                                           else None))))))))"

definition parseJson :: "string \<Rightarrow> json option" where
  "parseJson s =
     (case parseValue (Suc (2 * length s)) maxNestingDepth (skipWs s) of
        Some (v, r) \<Rightarrow> if skipWs r = [] then Some v else None
      | None \<Rightarrow> None)"

definition validJson :: "string \<Rightarrow> bool" where
  "validJson s \<longleftrightarrow> parseJson s \<noteq> None"


subsection \<open>Enough fuel\<close>

lemma length_skipWs: "length (skipWs s) \<le> length s"
  by (simp add: skipWs_def length_dropWhile_le)

lemma skipWs_Cons_length: "skipWs s = c # cs \<Longrightarrow> length cs < length s"
  using length_skipWs [of s] by simp

lemma combine_Some: "combine x r = Some (s, t) \<longleftrightarrow> (\<exists>s'. r = Some (s', t) \<and> s = x @ s')"
  by (auto simp: combine_def)

lemma scanString_length: "scanString s = Some (t, r) \<Longrightarrow> length r < length s"
proof (induction s arbitrary: t r rule: scanString.induct)
  case (2 c cs)
  then show ?case
    by (fastforce simp: combine_Some dest: scanEscape_length split: if_splits option.splits)
qed simp

lemma takeDigits_length: "takeDigits s = (d, r) \<Longrightarrow> length r \<le> length s"
  by (auto simp: takeDigits_def length_dropWhile_le)

lemma scanFraction_length: "scanFraction s = Some (t, r) \<Longrightarrow> length r \<le> length s"
  by (induction s rule: scanFraction.induct)
    (auto dest!: takeDigits_length split: if_splits prod.splits)

lemma scanExponent_length: "scanExponent s = Some (t, r) \<Longrightarrow> length r \<le> length s"
  by (induction s rule: scanExponent.induct)
    (auto dest!: takeDigits_length split: if_splits prod.splits list.splits)

lemma takeDigits_shorter: "takeDigits s = (d, r) \<Longrightarrow> d \<noteq> [] \<Longrightarrow> length r < length s"
  unfolding takeDigits_def
  by (metis Pair_inject append_Nil le_neq_implies_less length_append length_dropWhile_le
      length_0_conv add_cancel_left_left takeWhile_dropWhile_id)

lemma scanNumber_length:
  assumes "scanNumber s = Some (t, r)"
  shows "length r < length s"
proof -
  obtain sg r0 where sg: "(case s of c # cs \<Rightarrow> if c = CHR ''-'' then ([c], cs) else ([], s)
      | [] \<Rightarrow> ([], [])) = (sg, r0)" by force
  obtain ip r1 where ip: "(case r0 of c # cs \<Rightarrow> if c = CHR ''0'' then ([c], cs) else takeDigits r0
      | [] \<Rightarrow> ([], [])) = (ip, r1)" by force
  from assms sg ip obtain fr r2 ex where "ip \<noteq> []" and "scanFraction r1 = Some (fr, r2)"
    and "scanExponent r2 = Some (ex, r)"
    by (auto simp: scanNumber_def split: if_splits option.splits)
  moreover have "length r0 \<le> length s" using sg by (auto split: list.splits if_splits)
  moreover have "length r1 < length r0"
    using ip \<open>ip \<noteq> []\<close> by (auto dest: takeDigits_shorter split: list.splits if_splits)
  ultimately show ?thesis
    by (meson le_less_trans less_le_trans scanFraction_length scanExponent_length)
qed

lemma stripPrefix_length: "stripPrefix p s = Some r \<Longrightarrow> length r \<le> length s"
  by (simp add: stripPrefix_append)

lemma less_Suc_trans: "x < Suc a \<Longrightarrow> a < b \<Longrightarrow> x < Suc b"
  by simp

lemma parse_length:
  "parseValue n d s = Some (v, r) \<Longrightarrow> length r < length s"
  "parseElems n d s = Some (vs, r) \<Longrightarrow> length r < length s"
  "parseMembers n d s = Some (ms, r) \<Longrightarrow> length r < length s"
proof (induction n d s and n d s and n d s arbitrary: v r and vs r and ms r
    rule: parseValue_parseElems_parseMembers.induct)
  case (2 n d s)
  then show ?case
    by (auto split: list.splits if_splits option.splits
        dest!: scanString_length scanNumber_length stripPrefix_length skipWs_Cons_length)
      (blast intro: less_Suc_trans)+
next
  case (4 n d s)
  from 4(3) obtain w r1 c cs where v: "parseValue n d s = Some (w, r1)" and ws: "skipWs r1 = c # cs"
    and rest: "(c = CHR '']'' \<and> r = cs) \<or> (\<exists>us. c = CHR '','' \<and> parseElems n d (skipWs cs) = Some (us, r))"
    by (auto split: list.splits if_splits option.splits)
  have "length cs < length s" using 4(1) [OF v] skipWs_Cons_length [OF ws] by simp
  moreover have "length r < length (skipWs cs)" if "parseElems n d (skipWs cs) = Some (us, r)" "c = CHR '',''" for us
    using 4(2) [OF v refl ws] that by simp
  ultimately show ?case
    using rest length_skipWs [of cs] by (auto dest: less_le_trans)
next
  case (6 n d s)
  from 6(3) obtain qs k r0 c0 cs0 w r1 c cs where s: "s = CHR 0x22 # qs" and k: "scanString qs = Some (k, r0)"
    and c0: "skipWs r0 = CHR '':'' # cs0" and v: "parseValue n d (skipWs cs0) = Some (w, r1)"
    and ws: "skipWs r1 = c # cs"
    and rest: "(c = CHR ''}'' \<and> r = cs) \<or> (\<exists>us. c = CHR '','' \<and> parseMembers n d (skipWs cs) = Some (us, r))"
    by (auto split: list.splits if_splits option.splits)
  have "length r1 < length (skipWs cs0)" using 6(1) [OF s _ k refl c0] v by simp
  then have "length cs < length s"
    using scanString_length [OF k] skipWs_Cons_length [OF c0] skipWs_Cons_length [OF ws]
      length_skipWs [of cs0] s by simp
  moreover have "length r < length (skipWs cs)" if "parseMembers n d (skipWs cs) = Some (us, r)" "c = CHR '',''" for us
    using 6(2) [OF s _ k refl c0 _ v refl ws] that by simp
  ultimately show ?case
    using rest length_skipWs [of cs] by (auto dest: less_le_trans)
qed simp_all


lemma parse_fuel:
  "2 * length s < n \<Longrightarrow> 2 * length s < m \<Longrightarrow> parseValue n d s = parseValue m d s"
  "2 * length s + 1 < n \<Longrightarrow> 2 * length s + 1 < m \<Longrightarrow> parseElems n d s = parseElems m d s"
  "2 * length s + 1 < n \<Longrightarrow> 2 * length s + 1 < m \<Longrightarrow> parseMembers n d s = parseMembers m d s"
proof (induction n d s and n d s and n d s arbitrary: m and m and m
    rule: parseValue_parseElems_parseMembers.induct)
  case (2 n d s)
  from 2(4) obtain k where m: "m = Suc k" by (cases m) auto
  have "parseElems n (d - 1) (e # es) = parseElems k (d - 1) (e # es)"
    if "s = CHR ''['' # cs" "\<not> d \<le> 0" "skipWs cs = e # es" "e \<noteq> CHR '']''" for cs e es
    using 2(1) [OF that(1) _ _ that(2,3,4), of k] 2(3,4) m that(1) skipWs_Cons_length [OF that(3)] by simp
  moreover have "parseMembers n (d - 1) (e # es) = parseMembers k (d - 1) (e # es)"
    if "s = CHR ''{'' # cs" "\<not> d \<le> 0" "skipWs cs = e # es" "e \<noteq> CHR ''}''" for cs e es
    using 2(2) [OF that(1) _ _ _ that(2,3,4), of k] 2(3,4) m that(1) skipWs_Cons_length [OF that(3)] by simp
  ultimately show ?case
    unfolding m by (cases s) (auto split: list.splits)
next
  case (4 n d s)
  from 4(4) obtain k where m: "m = Suc k" by (cases m) auto
  have v: "parseValue n d s = parseValue k d s" using 4(1) [of k] 4(3,4) m by simp
  have "parseElems n d (skipWs cs) = parseElems k d (skipWs cs)"
    if "parseValue n d s = Some (w, r)" "skipWs r = CHR '','' # cs" for w r cs
    using 4(2) [OF that(1) refl that(2), of k] parse_length(1) [OF that(1)] skipWs_Cons_length [OF that(2)]
      length_skipWs [of cs] 4(3,4) m by simp
  then show ?case
    unfolding m by (auto simp flip: v split: option.splits list.splits)
next
  case (6 n d s)
  from 6(4) obtain k where m: "m = Suc k" by (cases m) auto
  have v: "parseValue n d (skipWs cs) = parseValue k d (skipWs cs)"
    if "s = CHR 0x22 # qs" "scanString qs = Some (x, r)" "skipWs r = CHR '':'' # cs" for qs x r cs
    using 6(1) [OF that(1) _ that(2) refl that(3), of k] scanString_length [OF that(2)]
      skipWs_Cons_length [OF that(3)] length_skipWs [of cs] 6(3,4) m that(1) by simp
  have ms: "parseMembers n d (skipWs es) = parseMembers k d (skipWs es)"
    if "s = CHR 0x22 # qs" "scanString qs = Some (x, r)" "skipWs r = CHR '':'' # cs"
      "parseValue n d (skipWs cs) = Some (w, r')" "skipWs r' = CHR '','' # es" for qs x r cs w r' es
    using 6(2) [OF that(1) _ that(2) refl that(3) _ that(4) refl that(5), of k] scanString_length [OF that(2)]
      skipWs_Cons_length [OF that(3)] skipWs_Cons_length [OF that(5)] parse_length(1) [OF that(4)]
      length_skipWs [of cs] length_skipWs [of es] 6(3,4) m that(1) by simp
  show ?case
    unfolding m by (auto simp: v [symmetric] ms [symmetric] split: option.splits list.splits)
qed simp_all

text \<open>More fuel than \<open>parseJson\<close> uses never changes its answer.\<close>

lemma parseJson_fuel:
  "2 * length s < n \<Longrightarrow> parseJson s =
     (case parseValue n maxNestingDepth (skipWs s) of
        Some (v, r) \<Rightarrow> if skipWs r = [] then Some v else None | None \<Rightarrow> None)"
  using parse_fuel(1) [of "skipWs s" "Suc (2 * length s)" n maxNestingDepth] length_skipWs [of s]
  by (simp add: parseJson_def)

subsection \<open>Decoding into struct fields\<close>

text \<open>
  \<open>json.Unmarshal\<close> matches member names case-insensitively: ASCII letters, and the two other
  code points whose simple folding is an ASCII letter (long s and the Kelvin sign).
\<close>

definition upper :: "char \<Rightarrow> char" where
  "upper c = (if (97::nat) \<le> of_char c \<and> of_char c \<le> (122::nat) then char_of ((of_char c :: nat) - 32) else c)"

lemma upper_code [code]:
  "upper (Char b0 b1 b2 b3 b4 b5 b6 b7) =
     (if \<not> b7 \<and> b6 \<and> b5 \<and> (b0 \<or> b1 \<or> b2 \<or> b3 \<or> b4) \<and> \<not> (b4 \<and> b3 \<and> (b2 \<or> b1 \<and> b0))
      then Char b0 b1 b2 b3 b4 False b6 b7 else Char b0 b1 b2 b3 b4 b5 b6 b7)"
  by (cases b0; cases b1; cases b2; cases b3; cases b4; cases b5; cases b6; cases b7)
    (simp_all add: upper_def of_char_def char_of_def bit_iff_odd)

fun foldKey :: "string \<Rightarrow> string" where
  "foldKey (a # b # c # r) =
     (if [a, b, c] = [CHR 0xE2, CHR 0x84, CHR 0xAA] then CHR ''K'' # foldKey r
      else if [a, b] = [CHR 0xC5, CHR 0xBF] then CHR ''S'' # foldKey (c # r)
      else upper a # foldKey (b # c # r))"
| "foldKey [a, b] =
     (if [a, b] = [CHR 0xC5, CHR 0xBF] then ''S'' else foldKey [a] @ foldKey [b])"
| "foldKey [a] = [upper a]"
| "foldKey [] = []"

text \<open>The members decoded into the field \<open>key\<close>, in document order.\<close>

definition fieldValues :: "string \<Rightarrow> (string \<times> json) list \<Rightarrow> json list" where
  "fieldValues key ms = map snd (filter (\<lambda>(k, v). foldKey k = foldKey key) ms)"

text \<open>A \<open>string\<close> field; \<open>None\<close> is Go's \<open>UnmarshalTypeError\<close>, which a later member does not undo.\<close>

definition stringField :: "string \<Rightarrow> (string \<times> json) list \<Rightarrow> string option" where
  "stringField key ms =
     foldl (\<lambda>acc v. case acc of None \<Rightarrow> None
        | Some t \<Rightarrow> (case v of JStr x \<Rightarrow> Some x | JNull \<Rightarrow> Some t | _ \<Rightarrow> None)) (Some []) (fieldValues key ms)"

text \<open>A \<open>json.RawMessage\<close> field: the last value, \<open>null\<close> included; \<open>None\<close> when absent.\<close>

definition rawField :: "string \<Rightarrow> (string \<times> json) list \<Rightarrow> json option" where
  "rawField key ms = (let vs = fieldValues key ms in if vs = [] then None else Some (last vs))"

definition decimal :: "string \<Rightarrow> int" where
  "decimal s = foldl (\<lambda>n c. 10 * n + int (of_char c) - 48) 0 s"

text \<open>An \<open>int\<close> field: the number's text must be a decimal integer in the \<open>int64\<close> range.\<close>

definition intText :: "string \<Rightarrow> int option" where
  "intText t =
     (let (neg, ds) = (case t of c # cs \<Rightarrow> if c = CHR ''-'' then (True, cs) else (False, t) | [] \<Rightarrow> (False, []));
          n = (if neg then - decimal ds else decimal ds)
      in if ds \<noteq> [] \<and> list_all isDigit ds \<and> min_int64 \<le> n \<and> n \<le> max_int64 then Some n else None)"

definition intField :: "string \<Rightarrow> (string \<times> json) list \<Rightarrow> int option" where
  "intField key ms =
     foldl (\<lambda>acc v. case acc of None \<Rightarrow> None
        | Some t \<Rightarrow> (case v of JNum x \<Rightarrow> intText x | JNull \<Rightarrow> Some t | _ \<Rightarrow> None)) (Some 0) (fieldValues key ms)"

text \<open>The members of a document decoded into a struct: \<open>null\<close> decodes as no members.\<close>

definition structMembers :: "json \<Rightarrow> (string \<times> json) list option" where
  "structMembers v = (case v of JObj ms \<Rightarrow> Some ms | JNull \<Rightarrow> Some [] | _ \<Rightarrow> None)"

text \<open>\<open>json.Compact\<close>: the valid document without the white space between tokens.\<close>

fun compactText :: "bool \<Rightarrow> string \<Rightarrow> string" where
  "compactText inString [] = []"
| "compactText inString (c # cs) =
     (if inString then
        (if c = CHR 0x5C then (case cs of [] \<Rightarrow> [c] | e # es \<Rightarrow> c # e # compactText True es)
         else c # compactText (c \<noteq> CHR 0x22) cs)
      else if isWs c then compactText False cs
      else c # compactText (c = CHR 0x22) cs)"

definition jsonCompact :: "string \<Rightarrow> string option" where
  "jsonCompact s = (if validJson s then Some (compactText False s) else None)"

end
