(* ===== verification/ColdHistory.thy ===== *)
theory ColdHistory
  imports Json
begin

text \<open>
  The first pass of \<open>internal/coldhistory/coldhistory.go\<close>: options, bounded line reading, parsing
  of session headers and entries, the index budget, and \<open>index\<close>, which turns a JSONL session file
  into the active branch (root to leaf). A file is its bytes; a reader is the bytes not yet
  consumed together with what the system answers at their end (\<open>None\<close> for end of file). The
  cancellation state of the context is a function of the loop counter at which it is polled.
\<close>

subsection \<open>Data\<close>

record header =
  headerRaw :: string
  headerType :: string
  headerID :: string
  headerVersion :: int
  headerTimestamp :: string
  headerCWD :: string
  headerParent :: string

record entryRef =
  refID :: string
  parentID :: string
  refOffset :: nat
  refLength :: nat
  refLine :: nat

record resumeCursor =
  cursorSession :: string
  firstEntryID :: string
  lastEntryID :: string
  historyComplete :: bool

record metadata =
  metaResume :: "resumeCursor option"
  metaHeader :: header
  leafID :: string
  total :: nat

datatype cherr =
    ErrEmpty
  | ErrInvalidHeader nat nat
  | ErrCorruptLine nat nat
  | ErrLineTooLong
  | ErrDuplicateID string
  | ErrBrokenBranch string string
  | ErrBranchCycle string
  | IndexBudgetError int int int
  | ErrInvalidOptions string
  | ErrEntryNotOnBranch string
  | ErrIO string
  | ErrCancelled string
  | ErrCallback string

record options =
  resolveResume :: "(metadata \<Rightarrow> cherr + resumeCursor option) option"
  optResume :: "resumeCursor option"
  chunkBytes :: int
  maxLineBytes :: int
  pageBytes :: int
  pageEntries :: int
  tailBytes :: int
  indexBytes :: int
  skipWarm :: bool
  noCache :: bool

definition zeroOptions :: options where
  "zeroOptions = \<lparr>resolveResume = None, optResume = None, chunkBytes = 0, maxLineBytes = 0,
     pageBytes = 0, pageEntries = 0, tailBytes = 0, indexBytes = 0, skipWarm = False, noCache = False\<rparr>"

definition DefaultChunkBytes :: int where "DefaultChunkBytes = 65536"
definition DefaultMaxLineBytes :: int where "DefaultMaxLineBytes = 4194304"
definition DefaultPageBytes :: int where "DefaultPageBytes = 4194304"
definition DefaultPageEntries :: int where "DefaultPageEntries = 100"
definition DefaultIndexBytes :: int where "DefaultIndexBytes = 67108864"
definition DefaultTailEntries :: int where "DefaultTailEntries = 60"
definition DefaultWarmChunk :: int where "DefaultWarmChunk = 100"

text \<open>Zero fields select the defaults; the result is the \<open>normalizedOptions\<close> of the source.\<close>

definition normalizeOptions :: "options \<Rightarrow> cherr + options" where
  "normalizeOptions opt =
     (let o1 = (if chunkBytes opt = 0 then opt\<lparr>chunkBytes := DefaultChunkBytes\<rparr> else opt);
          o2 = (if maxLineBytes o1 = 0 then o1\<lparr>maxLineBytes := DefaultMaxLineBytes\<rparr> else o1);
          o3 = (if pageBytes o2 = 0 then o2\<lparr>pageBytes := DefaultPageBytes\<rparr> else o2);
          o4 = (if pageEntries o3 = 0 then o3\<lparr>pageEntries := DefaultPageEntries\<rparr> else o3);
          o5 = (if indexBytes o4 = 0 then o4\<lparr>indexBytes := DefaultIndexBytes\<rparr> else o4)
      in if chunkBytes o5 < 1 \<or> maxLineBytes o5 < 1 \<or> pageBytes o5 < 1 \<or> pageEntries o5 < 1
            \<or> indexBytes o5 < 1
         then Inl (ErrInvalidOptions ''all bounds must be positive'')
         else if tailBytes o5 < 0
         then Inl (ErrInvalidOptions ''TailBytes must not be negative'')
         else if pageBytes o5 < maxLineBytes o5
         then Inl (ErrInvalidOptions ''MaxLineBytes exceeds PageBytes'')
         else Inr o5)"

definition normalizeTailFirst :: "int \<Rightarrow> int \<Rightarrow> cherr + (int \<times> int)" where
  "normalizeTailFirst tailEntries warmChunk =
     (let t = (if tailEntries = 0 then DefaultTailEntries else tailEntries);
          w = (if warmChunk = 0 then DefaultWarmChunk else warmChunk)
      in if t < 1 \<or> w < 1 then Inl (ErrInvalidOptions ''tail and warm bounds must be positive'')
         else Inr (t, w))"

subsection \<open>The index budget\<close>

record indexBudget =
  budgetLimit :: int
  budgetUsed :: int

text \<open>
  On a 64-bit platform a string header is 16 bytes and an \<open>entryRef\<close> 56, so the fixed charge is
  \<open>3 * 56 + 3 * (16 + 8)\<close>. Subtractions and sums are \<open>int64\<close>.
\<close>

definition fixedEntryBytes :: int where
  "fixedEntryBytes = 3 * 56 + 3 * (16 + 8)"

definition reserveEntry :: "indexBudget \<Rightarrow> entryRef \<Rightarrow> cherr + indexBudget" where
  "reserveEntry b ref =
     (let required = fixedEntryBytes + int (length (refID ref)) + int (length (parentID ref)) in
      if wrap64 (budgetLimit b - budgetUsed b) < required then
        (let sum = wrap64 (budgetUsed b + required);
             sum = (if sum < budgetUsed b then max_int64 else sum)
         in Inl (IndexBudgetError (budgetLimit b) (budgetUsed b) sum))
      else Inr (b\<lparr>budgetUsed := wrap64 (budgetUsed b + required)\<rparr>))"

subsection \<open>Reading lines\<close>

abbreviation NL :: char where
  "NL \<equiv> CHR 0x0A"

datatype rerr = RNone | REOF | RIO string | RTooLong

definition endErr :: "string option \<Rightarrow> rerr" where
  "endErr e = (case e of None \<Rightarrow> REOF | Some m \<Rightarrow> RIO m)"

text \<open>
  \<open>bufio.Reader.ReadSlice\<close> on a buffer of \<open>n\<close> bytes: up to and including the first newline of
  the buffered bytes, a full buffer (\<open>None\<close>, \<open>ErrBufferFull\<close>), or the rest with the end's error.
\<close>

record fragmentRead =
  fragment :: string
  fragRest :: string
  fragErr :: "rerr option"

definition readSlice :: "nat \<Rightarrow> string option \<Rightarrow> string \<Rightarrow> fragmentRead" where
  "readSlice n e rest =
     (if NL \<in> set (take n rest)
      then \<lparr>fragment = takeWhile (\<lambda>c. c \<noteq> NL) rest @ [NL],
             fragRest = drop 1 (dropWhile (\<lambda>c. c \<noteq> NL) rest), fragErr = Some RNone\<rparr>
      else if n \<le> length rest
      then \<lparr>fragment = take n rest, fragRest = drop n rest, fragErr = None\<rparr>
      else \<lparr>fragment = rest, fragRest = [], fragErr = Some (endErr e)\<rparr>)"

text \<open>\<open>bufio.NewReaderSize\<close> uses at least sixteen bytes.\<close>

definition bufSize :: "int \<Rightarrow> nat" where
  "bufSize chunk = max 16 (nat chunk)"

record lineRead =
  lineText :: string
  lineTerminated :: bool
  lineConsumed :: nat
  lineErr :: rerr

function readLineLoop ::
  "nat \<Rightarrow> int \<Rightarrow> string option \<Rightarrow> string \<Rightarrow> nat \<Rightarrow> string \<Rightarrow> lineRead \<times> string" where
  "readLineLoop k maxB e line consumed rest =
     (let sl = readSlice (Suc k) e rest;
          consumed' = consumed + length (fragment sl);
          terminated = (if fragment sl = [] then False else last (fragment sl) = NL);
          content = (if terminated then butlast (fragment sl) else fragment sl)
      in if maxB - int (length line) < int (length content)
         then (\<lparr>lineText = [], lineTerminated = terminated, lineConsumed = consumed',
                lineErr = RTooLong\<rparr>, fragRest sl)
         else (case fragErr sl of
                 None \<Rightarrow> readLineLoop k maxB e (line @ content) consumed' (fragRest sl)
               | Some err \<Rightarrow> (\<lparr>lineText = line @ content, lineTerminated = terminated,
                              lineConsumed = consumed', lineErr = err\<rparr>, fragRest sl)))"
  by pat_completeness auto
termination
  by (relation "measure (\<lambda>(k, maxB, e, line, consumed, rest). length rest)")
    (auto simp: readSlice_def split: if_splits)

declare readLineLoop.simps [simp del]

definition readLine :: "int \<Rightarrow> int \<Rightarrow> string option \<Rightarrow> string \<Rightarrow> lineRead \<times> string" where
  "readLine chunk maxB e rest = readLineLoop (bufSize chunk - 1) maxB e [] 0 rest"

subsection \<open>Parsing\<close>

definition parseHeader :: "string \<Rightarrow> header option" where
  "parseHeader raw =
     (case Option.bind (parseJson raw) structMembers of
        None \<Rightarrow> None
      | Some ms \<Rightarrow>
          (case (stringField ''type'' ms, stringField ''id'' ms, intField ''version'' ms,
                 stringField ''timestamp'' ms, stringField ''cwd'' ms, stringField ''parentSession'' ms) of
             (Some ty, Some i, Some v, Some ts, Some cwd, Some par) \<Rightarrow>
               (if ty \<noteq> ''session'' \<or> i = [] then None
                else Some \<lparr>headerRaw = raw, headerType = ty, headerID = i, headerVersion = v,
                           headerTimestamp = ts, headerCWD = cwd, headerParent = par\<rparr>)
           | _ \<Rightarrow> None))"

definition parseEntry :: "string \<Rightarrow> nat \<Rightarrow> nat \<Rightarrow> nat \<Rightarrow> entryRef option" where
  "parseEntry raw offset len line =
     (case Option.bind (parseJson raw) structMembers of
        None \<Rightarrow> None
      | Some ms \<Rightarrow>
          (case (stringField ''type'' ms, stringField ''id'' ms) of
             (Some ty, Some i) \<Rightarrow>
               (if ty = [] \<or> ty = ''session'' \<or> i = [] then None
                else (case rawField ''parentId'' ms of
                        None \<Rightarrow> None
                      | Some JNull \<Rightarrow> Some \<lparr>refID = i, parentID = [], refOffset = offset,
                                           refLength = len, refLine = line\<rparr>
                      | Some (JStr p) \<Rightarrow> Some \<lparr>refID = i, parentID = p, refOffset = offset,
                                              refLength = len, refLine = line\<rparr>
                      | Some _ \<Rightarrow> None))
           | _ \<Rightarrow> None))"

subsection \<open>The index pass\<close>

record ixState =
  ixRefs :: "entryRef list"
  ixByID :: "string \<rightharpoonup> nat"
  ixBudget :: indexBudget
  ixHeader :: "header option"

definition addEntry :: "ixState \<Rightarrow> entryRef \<Rightarrow> cherr + ixState" where
  "addEntry s ref =
     (if ixByID s (refID ref) \<noteq> None then Inl (ErrDuplicateID (refID ref))
      else (case reserveEntry (ixBudget s) ref of
              Inl err \<Rightarrow> Inl err
            | Inr b \<Rightarrow> Inr (s\<lparr>ixBudget := b, ixByID := (ixByID s)(refID ref \<mapsto> length (ixRefs s)),
                               ixRefs := ixRefs s @ [ref]\<rparr>)))"

text \<open>
  One line of the loop body: \<open>Inl\<close> an error return, \<open>Inr (True, s)\<close> a \<open>break\<close>.
\<close>

definition indexLine :: "lineRead \<Rightarrow> nat \<Rightarrow> nat \<Rightarrow> ixState \<Rightarrow> cherr + (bool \<times> ixState)" where
  "indexLine lr lineNumber start s =
     (let meaningful = trimSpace (lineText lr) in
      if meaningful = [] then Inr (False, s)
      else (case ixHeader s of
              None \<Rightarrow>
                (case parseHeader meaningful of
                   None \<Rightarrow> Inl (ErrInvalidHeader lineNumber start)
                 | Some h \<Rightarrow> Inr (False, s\<lparr>ixHeader := Some h\<rparr>))
            | Some _ \<Rightarrow>
                (case parseEntry meaningful start (lineConsumed lr) lineNumber of
                   None \<Rightarrow> (if \<not> lineTerminated lr \<and> lineErr lr = REOF then Inr (True, s)
                            else Inl (ErrCorruptLine lineNumber start))
                 | Some ref \<Rightarrow>
                     (case addEntry s ref of Inl err \<Rightarrow> Inl err | Inr s' \<Rightarrow> Inr (False, s')))))"

text \<open>
  The reading loop. The context is polled once per line, at the number of lines read so far. The
  recursion ends because a line that was read without an error consumed its newline.
\<close>

lemma readSlice_RNone:
  assumes "fragErr (readSlice (Suc k) e rest) = Some RNone"
  shows "length (fragRest (readSlice (Suc k) e rest)) < length rest"
proof -
  have "NL \<in> set (take (Suc k) rest)"
    using assms by (auto simp: readSlice_def endErr_def split: if_splits option.splits)
  moreover from this have "NL \<in> set rest" by (rule in_set_takeD)
  moreover from this have "dropWhile (\<lambda>c. c \<noteq> NL) rest \<noteq> []" by (auto simp: dropWhile_eq_Nil_conv)
  moreover have "length (dropWhile (\<lambda>c. c \<noteq> NL) rest) \<le> length rest" by (rule length_dropWhile_le)
  ultimately show ?thesis by (cases "dropWhile (\<lambda>c. c \<noteq> NL) rest") (auto simp: readSlice_def)
qed

lemma readLineLoop_progress:
  "readLineLoop k maxB e line consumed rest = (lr, rest') \<Longrightarrow> lineErr lr = RNone \<Longrightarrow>
     length rest' < length rest"
proof (induction k maxB e line consumed rest arbitrary: lr rest' rule: readLineLoop.induct)
  case (1 k maxB e line consumed rest)
  let ?sl = "readSlice (Suc k) e rest"
  show ?case
  proof (cases "fragErr ?sl")
    case None
    have shorter: "length (fragRest ?sl) < length rest"
      using None by (auto simp: readSlice_def split: if_splits)
    let ?c = "if if fragment ?sl = [] then False else last (fragment ?sl) = NL
      then butlast (fragment ?sl) else fragment ?sl"
    from "1.prems" have fits: "\<not> maxB - int (length line) < int (length ?c)"
      and eq: "readLineLoop k maxB e (line @ ?c) (consumed + length (fragment ?sl)) (fragRest ?sl) = (lr, rest')"
      by (auto simp: readLineLoop.simps [of k maxB e line consumed rest] None Let_def split: if_splits)
    from "1.IH" [OF refl refl refl refl fits None eq "1.prems"(2)] shorter show ?thesis by simp
  next
    case (Some err)
    with "1.prems" have "err = RNone" and "fragRest ?sl = rest'"
      by (auto simp: readLineLoop.simps [of k maxB e line consumed rest] Let_def split: if_splits)
    with Some readSlice_RNone show ?thesis by blast
  qed
qed

lemma readLine_progress:
  "readLine chunk maxB e rest = (lr, rest') \<Longrightarrow> lineErr lr = RNone \<Longrightarrow> length rest' < length rest"
  unfolding readLine_def by (rule readLineLoop_progress)

function indexLoop ::
  "(nat \<Rightarrow> string option) \<Rightarrow> options \<Rightarrow> string option \<Rightarrow> nat \<Rightarrow> nat \<Rightarrow> ixState \<Rightarrow> string
     \<Rightarrow> cherr + ixState" where
  "indexLoop ctx opts e lineNumber offset s rest =
     (case ctx lineNumber of
        Some c \<Rightarrow> Inl (ErrCancelled c)
      | None \<Rightarrow>
          (case readLine (chunkBytes opts) (maxLineBytes opts) e rest of
             (lr, rest') \<Rightarrow>
               (if lineConsumed lr = 0 \<and> lineErr lr = REOF then Inr s
                else (case indexLine lr (Suc lineNumber) offset s of
                        Inl err \<Rightarrow> Inl err
                      | Inr (torn, s') \<Rightarrow>
                          (if torn then Inr s'
                           else (case lineErr lr of
                                   RNone \<Rightarrow> indexLoop ctx opts e (Suc lineNumber)
                                              (offset + lineConsumed lr) s' rest'
                                 | REOF \<Rightarrow> Inr s'
                                 | RIO m \<Rightarrow> Inl (ErrIO m)
                                 | RTooLong \<Rightarrow> Inl ErrLineTooLong))))))"
  by pat_completeness auto
termination
  by (relation "measure (\<lambda>(ctx, opts, e, n, off, s, rest). length rest)")
    (auto intro: readLine_progress [OF sym])

declare indexLoop.simps [simp del]

text \<open>
  The walk from the leaf towards the root, bounded by the number of entries: the branch built so
  far has as many entries as the file exactly when some entry repeats.
\<close>

function walkBranch ::
  "entryRef list \<Rightarrow> (string \<rightharpoonup> nat) \<Rightarrow> entryRef list \<Rightarrow> entryRef \<Rightarrow> cherr + entryRef list" where
  "walkBranch refs byID branch current =
     (if length refs \<le> length branch then Inl (ErrBranchCycle (refID current))
      else (let branch' = branch @ [current] in
            if parentID current = [] then Inr branch'
            else (case byID (parentID current) of
                    None \<Rightarrow> Inl (ErrBrokenBranch (refID current) (parentID current))
                  | Some i \<Rightarrow> walkBranch refs byID branch' (refs ! i))))"
  by pat_completeness auto
termination
  by (relation "measure (\<lambda>(refs, byID, branch, current). length refs - length branch)") auto

declare walkBranch.simps [simp del]

definition ixStart :: "options \<Rightarrow> ixState" where
  "ixStart opts = \<lparr>ixRefs = [], ixByID = Map.empty,
     ixBudget = \<lparr>budgetLimit = indexBytes opts, budgetUsed = 0\<rparr>, ixHeader = None\<rparr>"

definition index ::
  "(nat \<Rightarrow> string option) \<Rightarrow> options \<Rightarrow> string option \<Rightarrow> string \<Rightarrow> cherr + (metadata \<times> entryRef list)" where
  "index ctx opts e content =
     (case indexLoop ctx opts e 0 0 (ixStart opts) content of
        Inl err \<Rightarrow> Inl err
      | Inr s \<Rightarrow>
          (case ixHeader s of
             None \<Rightarrow> Inl ErrEmpty
           | Some h \<Rightarrow>
               (if ixRefs s = []
                then Inr (\<lparr>metaResume = None, metaHeader = h, leafID = [], total = 0\<rparr>, [])
                else (let leaf = last (ixRefs s) in
                      case walkBranch (ixRefs s) (ixByID s) [] leaf of
                        Inl err \<Rightarrow> Inl err
                      | Inr branch \<Rightarrow>
                          Inr (\<lparr>metaResume = None, metaHeader = h, leafID = refID leaf,
                                total = length branch\<rparr>, rev branch)))))"

section \<open>Correctness\<close>

subsection \<open>Lines do not depend on the buffer\<close>

text \<open>
  What a line read returns, without buffers: the bytes before the next newline, unless they exceed
  the limit. \<open>readLineLoop\<close> assembles the same line from fragments of any buffer size.
\<close>

definition lineSpec :: "string option \<Rightarrow> string \<Rightarrow> lineRead \<times> string" where
  "lineSpec e rest =
     (let l = takeWhile (\<lambda>c. c \<noteq> NL) rest in
      (\<lparr>lineText = l, lineTerminated = (NL \<in> set rest),
        lineConsumed = length l + (if NL \<in> set rest then 1 else 0),
        lineErr = (if NL \<in> set rest then RNone else endErr e)\<rparr>,
       drop 1 (dropWhile (\<lambda>c. c \<noteq> NL) rest)))"

lemma takeWhile_full_buffer:
  "NL \<notin> set (take n rest) \<Longrightarrow>
     takeWhile (\<lambda>c. c \<noteq> NL) rest = take n rest @ takeWhile (\<lambda>c. c \<noteq> NL) (drop n rest)
     \<and> dropWhile (\<lambda>c. c \<noteq> NL) rest = dropWhile (\<lambda>c. c \<noteq> NL) (drop n rest)
     \<and> (NL \<in> set rest \<longleftrightarrow> NL \<in> set (drop n rest))"
proof -
  assume a: "NL \<notin> set (take n rest)"
  have "takeWhile (\<lambda>c. c \<noteq> NL) (take n rest @ drop n rest)
      = take n rest @ takeWhile (\<lambda>c. c \<noteq> NL) (drop n rest)"
    using a by (intro takeWhile_append2) auto
  moreover have "dropWhile (\<lambda>c. c \<noteq> NL) (take n rest @ drop n rest)
      = dropWhile (\<lambda>c. c \<noteq> NL) (drop n rest)"
    using a by (intro dropWhile_append2) auto
  moreover have "NL \<in> set rest \<longleftrightarrow> NL \<in> set (drop n rest)"
    using a set_append [of "take n rest" "drop n rest"] by (metis Un_iff append_take_drop_id)
  ultimately show ?thesis by simp
qed

lemma takeWhile_NL_notin [simp]: "NL \<notin> set (takeWhile (\<lambda>c. c \<noteq> NL) xs)"
  using set_takeWhileD by fastforce

lemma no_newline_last: "NL \<notin> set xs \<Longrightarrow> (if xs = [] then False else last xs = NL) = False"
  by (metis last_in_set)

lemma readLineLoop_full:
  assumes "readSlice (Suc k) e rest = \<lparr>fragment = t, fragRest = r, fragErr = None\<rparr>" and "NL \<notin> set t"
  shows "readLineLoop k maxB e line consumed rest =
    (if maxB - int (length line) < int (length t)
     then (\<lparr>lineText = [], lineTerminated = False, lineConsumed = consumed + length t,
            lineErr = RTooLong\<rparr>, r)
     else readLineLoop k maxB e (line @ t) (consumed + length t) r)"
proof -
  have "t = [] \<or> last t \<noteq> NL" using no_newline_last [OF assms(2)] by presburger
  then show ?thesis by (subst readLineLoop.simps) (auto simp: Let_def assms(1))
qed

lemma readLineLoop_correct:
  assumes "int (length line) \<le> maxB"
  shows "case lineSpec e rest of (lr, rest') \<Rightarrow>
    if maxB < int (length line + length (lineText lr))
    then lineErr (fst (readLineLoop k maxB e line consumed rest)) = RTooLong
      \<and> lineText (fst (readLineLoop k maxB e line consumed rest)) = []
    else readLineLoop k maxB e line consumed rest =
      (lr\<lparr>lineText := line @ lineText lr, lineConsumed := consumed + lineConsumed lr\<rparr>, rest')"
  using assms
proof (induction k maxB e line consumed rest rule: readLineLoop.induct)
  case (1 k maxB e line consumed rest)
  let ?l = "takeWhile (\<lambda>c. c \<noteq> NL) rest"
  consider (newline) "NL \<in> set (take (Suc k) rest)"
    | (full) "NL \<notin> set (take (Suc k) rest)" "Suc k \<le> length rest"
    | (end_) "NL \<notin> set (take (Suc k) rest)" "\<not> Suc k \<le> length rest" by blast
  then show ?case
  proof cases
    case newline
    then have "NL \<in> set rest" by (rule in_set_takeD)
    with newline "1.prems" show ?thesis
      by (simp add: readLineLoop.simps [of k maxB e line consumed rest] readSlice_def lineSpec_def Let_def)
  next
    case end_
    then have no: "NL \<notin> set rest" by simp
    then have l: "?l = rest" by (auto simp: takeWhile_eq_all_conv)
    have d: "dropWhile (\<lambda>c. c \<noteq> NL) rest = []" using no by (auto simp: dropWhile_eq_Nil_conv)
    show ?thesis
      using end_ "1.prems" no no_newline_last [OF no]
      by (auto simp: readLineLoop.simps [of k maxB e line consumed rest] readSlice_def lineSpec_def Let_def l d)
  next
    case full
    let ?t = "take (Suc k) rest" and ?r = "drop (Suc k) rest"
    note split = takeWhile_full_buffer [OF full(1)]
    have slice: "readSlice (Suc k) e rest = \<lparr>fragment = ?t, fragRest = ?r, fragErr = None\<rparr>" using full by (simp add: readSlice_def)
    show ?thesis
    proof (cases "maxB - int (length line) < int (length ?t)")
      case True
      then have "lineErr (fst (readLineLoop k maxB e line consumed rest)) = RTooLong
          \<and> lineText (fst (readLineLoop k maxB e line consumed rest)) = []"
        using readLineLoop_full [OF slice full(1)] by simp
      moreover have "maxB < int (length line + length ?l)" using True split by simp
      ultimately show ?thesis by (simp add: lineSpec_def Let_def)
    next
      case False
      then have unfold: "readLineLoop k maxB e line consumed rest
          = readLineLoop k maxB e (line @ ?t) (consumed + length ?t) ?r"
        using readLineLoop_full [OF slice full(1)] by simp
      from False have "int (length (line @ ?t)) \<le> maxB" by simp
      with "1.IH" [OF refl refl refl refl, unfolded slice fragmentRead.simps no_newline_last [OF full(1)] if_False]
        False
      have "case lineSpec e ?r of (lr, rest') \<Rightarrow>
        if maxB < int (length (line @ ?t) + length (lineText lr))
        then lineErr (fst (readLineLoop k maxB e (line @ ?t) (consumed + length ?t) ?r)) = RTooLong
          \<and> lineText (fst (readLineLoop k maxB e (line @ ?t) (consumed + length ?t) ?r)) = []
        else readLineLoop k maxB e (line @ ?t) (consumed + length ?t) ?r =
          (lr\<lparr>lineText := (line @ ?t) @ lineText lr, lineConsumed := (consumed + length ?t) + lineConsumed lr\<rparr>, rest')"
        by (auto split: if_splits)
      then show ?thesis
        unfolding unfold using split by (auto simp: lineSpec_def Let_def split: if_splits)
    qed
  qed
qed

lemma readLine_fits:
  assumes "0 \<le> maxB" and "int (length (takeWhile (\<lambda>c. c \<noteq> NL) rest)) \<le> maxB"
  shows "readLine chunk maxB e rest = lineSpec e rest"
proof -
  have "lineText (fst (lineSpec e rest)) = takeWhile (\<lambda>c. c \<noteq> NL) rest" by (simp add: lineSpec_def Let_def)
  with readLineLoop_correct [where line = "[]" and maxB = maxB and e = e and rest = rest and k = "bufSize chunk - 1" and consumed = 0] assms show ?thesis
    by (cases "lineSpec e rest") (simp add: readLine_def)
qed

lemma readLine_too_long:
  assumes "0 \<le> maxB" and "maxB < int (length (takeWhile (\<lambda>c. c \<noteq> NL) rest))"
  shows "\<exists>t n r. readLine chunk maxB e rest =
    (\<lparr>lineText = [], lineTerminated = t, lineConsumed = n, lineErr = RTooLong\<rparr>, r)"
proof -
  have "lineText (fst (lineSpec e rest)) = takeWhile (\<lambda>c. c \<noteq> NL) rest" by (simp add: lineSpec_def Let_def)
  with readLineLoop_correct [where line = "[]" and maxB = maxB and e = e and rest = rest and k = "bufSize chunk - 1" and consumed = 0] assms
  have "lineErr (fst (readLine chunk maxB e rest)) = RTooLong \<and> lineText (fst (readLine chunk maxB e rest)) = []"
    by (cases "lineSpec e rest") (simp add: readLine_def)
  then show ?thesis by (cases "readLine chunk maxB e rest"; cases "fst (readLine chunk maxB e rest)") auto
qed

end
