(* ===== verification/ColdIndex.thy ===== *)
theory ColdIndex
  imports ColdHistory
begin

text \<open>
  What the index pass computes: a reference reading of a session file as numbered line slices, and
  the proof that \<open>index\<close> succeeds exactly on the files the reference accepts and then returns the
  unique chain of parent links from a root to the last entry of the file.
\<close>

subsection \<open>The reference reading\<close>

record slice =
  sliceNo :: nat
  sliceOffset :: nat
  sliceText :: string
  sliceTerminated :: bool

lemma drop_line_shorter: "rest \<noteq> [] \<Longrightarrow> length (drop 1 (dropWhile p rest)) < length rest"
  using length_dropWhile_le [of p rest] by (cases rest) (auto simp: less_Suc_eq_le)

function slicesFrom :: "nat \<Rightarrow> nat \<Rightarrow> string \<Rightarrow> slice list" where
  "slicesFrom n off rest =
     (if rest = [] then []
      else (let l = takeWhile (\<lambda>c. c \<noteq> NL) rest; t = (NL \<in> set rest) in
            \<lparr>sliceNo = Suc n, sliceOffset = off, sliceText = l, sliceTerminated = t\<rparr>
            # slicesFrom (Suc n) (off + length l + (if t then 1 else 0)) (drop 1 (dropWhile (\<lambda>c. c \<noteq> NL) rest))))"
  by pat_completeness auto
termination
  by (relation "measure (\<lambda>(n, off, rest). length rest)") (use drop_line_shorter in auto)

declare slicesFrom.simps [simp del]

definition sliceLength :: "slice \<Rightarrow> nat" where
  "sliceLength sl = length (sliceText sl) + (if sliceTerminated sl then 1 else 0)"

definition parseSlice :: "slice \<Rightarrow> entryRef option" where
  "parseSlice sl = parseEntry (trimSpace (sliceText sl)) (sliceOffset sl) (sliceLength sl) (sliceNo sl)"

text \<open>A malformed line is tolerated only as an unterminated last line, the trace of a torn append.\<close>

fun entriesOf :: "slice list \<Rightarrow> entryRef list option" where
  "entriesOf [] = Some []"
| "entriesOf (sl # sls) =
     (case parseSlice sl of
        Some r \<Rightarrow> map_option ((#) r) (entriesOf sls)
      | None \<Rightarrow> if sliceTerminated sl then None else Some [])"

definition nonblank :: "slice list \<Rightarrow> slice list" where
  "nonblank sls = filter (\<lambda>sl. trimSpace (sliceText sl) \<noteq> []) sls"

definition fileEntries :: "string \<Rightarrow> (header \<times> entryRef list) option" where
  "fileEntries content =
     (case nonblank (slicesFrom 0 0 content) of
        [] \<Rightarrow> None
      | sl # sls \<Rightarrow>
          (case (parseHeader (trimSpace (sliceText sl)), entriesOf sls) of
             (Some h, Some refs) \<Rightarrow> Some (h, refs)
           | _ \<Rightarrow> None))"

definition entryCharge :: "entryRef \<Rightarrow> int" where
  "entryCharge r = fixedEntryBytes + int (length (refID r)) + int (length (parentID r))"

definition withinBounds :: "options \<Rightarrow> string \<Rightarrow> entryRef list \<Rightarrow> bool" where
  "withinBounds opts content refs \<longleftrightarrow>
     (\<forall>sl \<in> set (slicesFrom 0 0 content). int (length (sliceText sl)) \<le> maxLineBytes opts)
     \<and> sum_list (map entryCharge refs) \<le> indexBytes opts"

text \<open>The chain of parent links that ends in the given leaf and starts at an entry without parent.\<close>

definition rootChain :: "entryRef list \<Rightarrow> entryRef \<Rightarrow> entryRef list \<Rightarrow> bool" where
  "rootChain refs leaf b \<longleftrightarrow>
     b \<noteq> [] \<and> last b = leaf \<and> parentID (hd b) = [] \<and> set b \<subseteq> set refs
     \<and> successively (\<lambda>p c. parentID c = refID p) b"

subsection \<open>The reading loop\<close>

lemma indexLoop_end [simp]: "ctx n = None \<Longrightarrow> 0 \<le> maxLineBytes opts \<Longrightarrow>
    indexLoop ctx opts None n off s [] = Inr s"
  by (subst indexLoop.simps) (simp add: readLine_fits lineSpec_def endErr_def)

lemma indexLoop_too_long:
  assumes "ctx n = None" and "0 \<le> maxLineBytes opts"
    and "maxLineBytes opts < int (length (takeWhile (\<lambda>c. c \<noteq> NL) rest))"
  shows "indexLoop ctx opts e n off s rest = Inl ErrLineTooLong"
proof -
  obtain t k r where "readLine (chunkBytes opts) (maxLineBytes opts) e rest =
      (\<lparr>lineText = [], lineTerminated = t, lineConsumed = k, lineErr = RTooLong\<rparr>, r)"
    using readLine_too_long assms by blast
  moreover have "trimSpace [] = []" by (simp add: trimSpace_def)
  ultimately show ?thesis using assms(1) by (subst indexLoop.simps) (simp add: indexLine_def)
qed

definition sliceRead :: "slice \<Rightarrow> lineRead" where
  "sliceRead sl = \<lparr>lineText = sliceText sl, lineTerminated = sliceTerminated sl,
     lineConsumed = sliceLength sl, lineErr = (if sliceTerminated sl then RNone else REOF)\<rparr>"

lemma indexLoop_line:
  assumes "ctx n = None" and "0 \<le> maxLineBytes opts" and "rest \<noteq> []"
    and "slicesFrom n off rest = sl # sls"
    and "int (length (sliceText sl)) \<le> maxLineBytes opts"
  shows "indexLoop ctx opts None n off s rest =
    (case indexLine (sliceRead sl) (Suc n) off s of
       Inl err \<Rightarrow> Inl err
     | Inr (torn, s') \<Rightarrow>
         if torn \<or> \<not> sliceTerminated sl then Inr s'
         else indexLoop ctx opts None (Suc n) (off + sliceLength sl) s'
                (drop 1 (dropWhile (\<lambda>c. c \<noteq> NL) rest)))"
proof -
  from assms(3,4) have sl: "sl = \<lparr>sliceNo = Suc n, sliceOffset = off,
      sliceText = takeWhile (\<lambda>c. c \<noteq> NL) rest, sliceTerminated = (NL \<in> set rest)\<rparr>"
    by (simp add: slicesFrom.simps [of n off rest] Let_def)
  have pos: "NL \<notin> set rest \<Longrightarrow> takeWhile (\<lambda>c. c \<noteq> NL) rest \<noteq> []"
    using assms(3) by (cases rest) auto
  show ?thesis
    using assms(1,2,5) pos
    by (subst indexLoop.simps)
      (auto simp: readLine_fits lineSpec_def Let_def sl sliceRead_def sliceLength_def endErr_def
        split: sum.splits prod.splits)
qed

text \<open>The state of the scan is determined by the header seen and the entries read.\<close>

definition stateOf :: "options \<Rightarrow> header option \<Rightarrow> entryRef list \<Rightarrow> ixState" where
  "stateOf opts h refs = \<lparr>ixRefs = refs, ixByID = (\<lambda>i. index_of (\<lambda>r. refID r = i) refs),
     ixBudget = \<lparr>budgetLimit = indexBytes opts, budgetUsed = sum_list (map entryCharge refs)\<rparr>, ixHeader = h\<rparr>"

definition admissible :: "options \<Rightarrow> entryRef list \<Rightarrow> bool" where
  "admissible opts refs \<longleftrightarrow> distinct (map refID refs) \<and> sum_list (map entryCharge refs) \<le> indexBytes opts"

lemma ixStart_stateOf: "ixStart opts = stateOf opts None []"
  by (simp add: ixStart_def stateOf_def)

lemma entryCharge_pos: "0 < entryCharge r"
  by (simp add: entryCharge_def fixedEntryBytes_def)

lemma sum_entryCharge_nonneg: "0 \<le> sum_list (map entryCharge refs)"
  using entryCharge_pos by (induction refs) (auto intro: add_nonneg_nonneg simp: less_imp_le)

lemma admissible_snoc: "admissible opts (refs @ [r]) \<longleftrightarrow>
    admissible opts refs \<and> refID r \<notin> refID ` set refs
    \<and> sum_list (map entryCharge refs) + entryCharge r \<le> indexBytes opts"
  using entryCharge_pos [of r] by (auto simp: admissible_def)

lemma admissible_prefix: "admissible opts (refs @ later) \<Longrightarrow> admissible opts refs"
  using sum_entryCharge_nonneg [of later] by (auto simp: admissible_def)

text \<open>No arithmetic of the budget wraps, and an entry is refused exactly when the budget is exceeded.\<close>

lemma addEntry_stateOf:
  assumes "admissible opts refs" and "indexBytes opts \<le> max_int64"
  shows "(\<exists>err. addEntry (stateOf opts h refs) r = Inl err) \<longleftrightarrow> \<not> admissible opts (refs @ [r])"
    and "admissible opts (refs @ [r]) \<Longrightarrow> addEntry (stateOf opts h refs) r = Inr (stateOf opts h (refs @ [r]))"
proof -
  let ?u = "sum_list (map entryCharge refs)"
  have u: "0 \<le> ?u" "?u \<le> indexBytes opts"
    using assms(1) sum_entryCharge_nonneg by (auto simp: admissible_def)
  have free: "wrap64 (indexBytes opts - ?u) = indexBytes opts - ?u"
    using u assms(2) by (intro wrap64_id) (auto simp: min_int64_def max_int64_def)
  have dup: "ixByID (stateOf opts h refs) (refID r) = None \<longleftrightarrow> refID r \<notin> refID ` set refs"
    by (auto simp: stateOf_def index_of_None image_iff)
  have ext: "(\<lambda>i. index_of (\<lambda>r. refID r = i) refs)(refID r \<mapsto> length refs)
      = (\<lambda>i. index_of (\<lambda>r. refID r = i) (refs @ [r]))" if new: "refID r \<notin> refID ` set refs"
  proof
    fix i
    have "index_of (\<lambda>x. refID x = refID r) refs = None"
      using new by (auto simp: index_of_None image_iff)
    then show "((\<lambda>i. index_of (\<lambda>r. refID r = i) refs)(refID r \<mapsto> length refs)) i
      = index_of (\<lambda>r. refID r = i) (refs @ [r])"
      by (cases "i = refID r") (auto simp: index_of_append split: option.splits)
  qed
  have charge: "fixedEntryBytes + int (length (refID r)) + int (length (parentID r)) = entryCharge r"
    by (simp add: entryCharge_def)
  have room: "?u + entryCharge r \<le> indexBytes opts \<Longrightarrow> wrap64 (?u + entryCharge r) = ?u + entryCharge r"
    using u assms(2) entryCharge_pos [of r] by (intro wrap64_id) (auto simp: min_int64_def max_int64_def)
  show "(\<exists>err. addEntry (stateOf opts h refs) r = Inl err) \<longleftrightarrow> \<not> admissible opts (refs @ [r])"
    using assms(1) dup free charge
    by (auto simp: addEntry_def admissible_snoc reserveEntry_def Let_def stateOf_def)
  show "addEntry (stateOf opts h refs) r = Inr (stateOf opts h (refs @ [r]))"
    if "admissible opts (refs @ [r])"
    using that dup free charge room ext
    by (auto simp: addEntry_def admissible_snoc reserveEntry_def Let_def stateOf_def)
qed

lemma indexLine_blank: "trimSpace (sliceText sl) = [] \<Longrightarrow> indexLine (sliceRead sl) n off s = Inr (False, s)"
  by (simp add: indexLine_def sliceRead_def)

lemma indexLine_entry:
  assumes "trimSpace (sliceText sl) \<noteq> []" and "ixHeader s = Some h"
  shows "indexLine (sliceRead sl) (sliceNo sl) (sliceOffset sl) s =
    (case parseSlice sl of
       None \<Rightarrow> if sliceTerminated sl then Inl (ErrCorruptLine (sliceNo sl) (sliceOffset sl)) else Inr (True, s)
     | Some r \<Rightarrow> (case addEntry s r of Inl err \<Rightarrow> Inl err | Inr s' \<Rightarrow> Inr (False, s')))"
  using assms by (auto simp: indexLine_def sliceRead_def parseSlice_def split: option.splits)

lemma nonblank_simps [simp]:
  "nonblank [] = []"
  "nonblank (sl # sls) = (if trimSpace (sliceText sl) = [] then nonblank sls else sl # nonblank sls)"
  by (simp_all add: nonblank_def)

lemma slicesFrom_Nil [simp]: "slicesFrom n off [] = []"
  by (simp add: slicesFrom.simps)

lemma slicesFrom_unterminated:
  "NL \<notin> set rest \<Longrightarrow> slicesFrom n off (drop 1 (dropWhile (\<lambda>c. c \<noteq> NL) rest)) = []"
  by (subst dropWhile_eq_Nil_conv [THEN iffD2]) auto

lemma indexLoop_entries:
  assumes "\<forall>n. ctx n = None" and "0 \<le> maxLineBytes opts" and "indexBytes opts \<le> max_int64"
    and "admissible opts refs"
  shows "indexLoop ctx opts None n off (stateOf opts (Some h) refs) rest = Inr s' \<longleftrightarrow>
    (\<forall>sl \<in> set (slicesFrom n off rest). int (length (sliceText sl)) \<le> maxLineBytes opts)
    \<and> (\<exists>later. entriesOf (nonblank (slicesFrom n off rest)) = Some later
         \<and> admissible opts (refs @ later) \<and> s' = stateOf opts (Some h) (refs @ later))"
  using assms(4)
proof (induction n off rest arbitrary: refs rule: slicesFrom.induct)
  case (1 n off rest)
  show ?case
  proof (cases "rest = []")
    case True
    with assms "1.prems" show ?thesis by auto
  next
    case False
    let ?l = "takeWhile (\<lambda>c. c \<noteq> NL) rest" and ?t = "NL \<in> set rest"
    let ?r = "drop 1 (dropWhile (\<lambda>c. c \<noteq> NL) rest)"
    define sl where "sl = \<lparr>sliceNo = Suc n, sliceOffset = off, sliceText = ?l, sliceTerminated = ?t\<rparr>"
    have no: "sliceNo sl = Suc n" "sliceOffset sl = off" by (simp_all add: sl_def)
    have sls: "slicesFrom n off rest = sl # slicesFrom (Suc n) (off + sliceLength sl) ?r"
      using False by (simp add: slicesFrom.simps [of n off rest] Let_def sl_def sliceLength_def)
    have last: "\<not> sliceTerminated sl \<Longrightarrow> slicesFrom (Suc n) (off + sliceLength sl) ?r = []"
      using slicesFrom_unterminated by (simp add: sl_def)
    have off: "off + length ?l + (if ?t then 1 else 0) = off + sliceLength sl"
      by (simp add: sl_def sliceLength_def)
    have IH: "admissible opts refs' \<Longrightarrow>
      indexLoop ctx opts None (Suc n) (off + sliceLength sl) (stateOf opts (Some h) refs') ?r = Inr s' \<longleftrightarrow>
      (\<forall>x \<in> set (slicesFrom (Suc n) (off + sliceLength sl) ?r). int (length (sliceText x)) \<le> maxLineBytes opts)
      \<and> (\<exists>later. entriesOf (nonblank (slicesFrom (Suc n) (off + sliceLength sl) ?r)) = Some later
         \<and> admissible opts (refs' @ later) \<and> s' = stateOf opts (Some h) (refs' @ later))" for refs'
      by (rule "1.IH" [OF False refl refl, unfolded off])
    show ?thesis
    proof (cases "int (length ?l) \<le> maxLineBytes opts")
      case False
      then have "indexLoop ctx opts None n off (stateOf opts (Some h) refs) rest = Inl ErrLineTooLong"
        using assms(1,2) by (intro indexLoop_too_long) auto
      with False show ?thesis unfolding sls by (auto simp: sl_def)
    next
      case True
      then have fits: "int (length (sliceText sl)) \<le> maxLineBytes opts" by (simp add: sl_def)
      note step = indexLoop_line [OF assms(1)[rule_format] assms(2) False sls fits,
          where s = "stateOf opts (Some h) refs"]
      have hdr: "ixHeader (stateOf opts (Some h) refs) = Some h" by (simp add: stateOf_def)
      show ?thesis
      proof (cases "trimSpace (sliceText sl) = []")
        case True
        with step IH [OF "1.prems"] last sls fits "1.prems" show ?thesis
          by (cases "sliceTerminated sl") (auto simp: indexLine_blank)
      next
        case nb: False
        note step = step [unfolded indexLine_entry [OF nb hdr, unfolded no]]
        show ?thesis
        proof (cases "parseSlice sl")
          case None
          with step nb last sls fits "1.prems" show ?thesis by (cases "sliceTerminated sl") auto
        next
          case (Some r)
          show ?thesis
          proof (cases "admissible opts (refs @ [r])")
            case True
            note added = addEntry_stateOf(2) [OF "1.prems" assms(3) True]
            show ?thesis
            proof (cases "sliceTerminated sl")
              case closed: True
              then have "indexLoop ctx opts None n off (stateOf opts (Some h) refs) rest
                = indexLoop ctx opts None (Suc n) (off + sliceLength sl) (stateOf opts (Some h) (refs @ [r])) ?r"
                using step Some added by simp
              then show ?thesis using IH [OF True] fits nb Some by (simp add: sls) blast
            next
              case unterm: False
              then have "indexLoop ctx opts None n off (stateOf opts (Some h) refs) rest
                = Inr (stateOf opts (Some h) (refs @ [r]))"
                using step Some added by simp
              then show ?thesis using True last [OF unterm] fits nb Some by (auto simp: sls)
            qed
          next
            case refused: False
            then obtain err where "addEntry (stateOf opts (Some h) refs) r = Inl err"
              using addEntry_stateOf(1) [OF "1.prems" assms(3)] by blast
            moreover have "\<not> admissible opts (refs @ r # later)" for later
              using refused admissible_prefix [of opts "refs @ [r]" later] by auto
            ultimately show ?thesis using step Some nb sls fits by auto
          qed
        qed
      qed
    qed
  qed
qed

lemma admissible_Nil [simp]: "admissible opts [] \<longleftrightarrow> 0 \<le> indexBytes opts"
  by (simp add: admissible_def)

lemma indexLine_header:
  assumes "trimSpace (sliceText sl) \<noteq> []"
  shows "indexLine (sliceRead sl) n off (stateOf opts None refs) =
    (case parseHeader (trimSpace (sliceText sl)) of
       None \<Rightarrow> Inl (ErrInvalidHeader n off)
     | Some h \<Rightarrow> Inr (False, stateOf opts (Some h) refs))"
  using assms by (auto simp: indexLine_def sliceRead_def stateOf_def split: option.splits)

lemma indexLoop_file:
  assumes "\<forall>n. ctx n = None" and "0 \<le> maxLineBytes opts" and "indexBytes opts \<le> max_int64"
    and "0 \<le> indexBytes opts"
  shows "indexLoop ctx opts None n off (stateOf opts None []) rest = Inr s' \<longleftrightarrow>
    (\<forall>sl \<in> set (slicesFrom n off rest). int (length (sliceText sl)) \<le> maxLineBytes opts)
    \<and> (case nonblank (slicesFrom n off rest) of
         [] \<Rightarrow> s' = stateOf opts None []
       | sl # sls \<Rightarrow> (\<exists>h later. parseHeader (trimSpace (sliceText sl)) = Some h \<and> entriesOf sls = Some later
            \<and> admissible opts later \<and> s' = stateOf opts (Some h) later))"
proof (induction n off rest rule: slicesFrom.induct)
  case (1 n off rest)
  show ?case
  proof (cases "rest = []")
    case True
    with assms show ?thesis by auto
  next
    case False
    let ?l = "takeWhile (\<lambda>c. c \<noteq> NL) rest" and ?t = "NL \<in> set rest"
    let ?r = "drop 1 (dropWhile (\<lambda>c. c \<noteq> NL) rest)"
    define sl where "sl = \<lparr>sliceNo = Suc n, sliceOffset = off, sliceText = ?l, sliceTerminated = ?t\<rparr>"
    have sls: "slicesFrom n off rest = sl # slicesFrom (Suc n) (off + sliceLength sl) ?r"
      using False by (simp add: slicesFrom.simps [of n off rest] Let_def sl_def sliceLength_def)
    have last: "\<not> sliceTerminated sl \<Longrightarrow> slicesFrom (Suc n) (off + sliceLength sl) ?r = []"
      using slicesFrom_unterminated by (simp add: sl_def)
    have off: "off + length ?l + (if ?t then 1 else 0) = off + sliceLength sl"
      by (simp add: sl_def sliceLength_def)
    note IH = "1.IH" [OF False refl refl, unfolded off]
    show ?thesis
    proof (cases "int (length ?l) \<le> maxLineBytes opts")
      case False
      then have "indexLoop ctx opts None n off (stateOf opts None []) rest = Inl ErrLineTooLong"
        using assms(1,2) by (intro indexLoop_too_long) auto
      with False show ?thesis unfolding sls by (auto simp: sl_def)
    next
      case True
      then have fits: "int (length (sliceText sl)) \<le> maxLineBytes opts" by (simp add: sl_def)
      note step = indexLoop_line [OF assms(1)[rule_format] assms(2) False sls fits,
          where s = "stateOf opts None []"]
      show ?thesis
      proof (cases "trimSpace (sliceText sl) = []")
        case True
        with step IH last fits show ?thesis
          by (cases "sliceTerminated sl") (auto simp: indexLine_blank sls)
      next
        case nb: False
        show ?thesis
        proof (cases "parseHeader (trimSpace (sliceText sl))")
          case None
          with step nb show ?thesis by (auto simp: indexLine_header sls)
        next
          case (Some h)
          with step nb last fits show ?thesis
            using indexLoop_entries [OF assms(1-3), of "[]" "Suc n" "off + sliceLength sl" h ?r s'] assms(4)
            by (cases "sliceTerminated sl") (auto simp: indexLine_header sls)
        qed
      qed
    qed
  qed
qed

subsection \<open>The walk to the root\<close>

definition entryLink :: "entryRef \<Rightarrow> entryRef \<Rightarrow> bool" where
  "entryLink c p \<longleftrightarrow> parentID c \<noteq> [] \<and> parentID c = refID p"

definition idIndex :: "entryRef list \<Rightarrow> string \<Rightarrow> nat option" where
  "idIndex refs = (\<lambda>i. index_of (\<lambda>r. refID r = i) refs)"

lemma idIndex_Some: "idIndex refs i = Some k \<Longrightarrow> k < length refs \<and> refID (refs ! k) = i"
  by (auto simp: idIndex_def dest: index_of_Some)

lemma idIndex_unique:
  assumes "distinct (map refID refs)" and "r \<in> set refs"
  shows "\<exists>k. idIndex refs (refID r) = Some k \<and> refs ! k = r"
proof -
  obtain k where k: "idIndex refs (refID r) = Some k"
    using assms(2) index_of_None [of "\<lambda>x. refID x = refID r" refs]
    by (auto simp: idIndex_def)
  then have "k < length refs" and "refID (refs ! k) = refID r" by (auto dest: idIndex_Some)
  with assms have "refs ! k = r" by (auto simp: distinct_map inj_on_def)
  with k show ?thesis by blast
qed

text \<open>
  Every outcome of the walk is justified by the entries of the file: a broken branch by an entry
  whose parent does not exist, a cycle by a path longer than the number of entries.
\<close>

definition walkJustified :: "entryRef list \<Rightarrow> entryRef \<Rightarrow> cherr + entryRef list \<Rightarrow> bool" where
  "walkJustified refs leaf out = (case out of
       Inr b \<Rightarrow> b \<noteq> [] \<and> hd b = leaf \<and> parentID (last b) = [] \<and> set b \<subseteq> set refs \<and> successively entryLink b
     | Inl err \<Rightarrow>
         (\<exists>c \<in> set refs. err = ErrBrokenBranch (refID c) (parentID c) \<and> parentID c \<noteq> []
            \<and> parentID c \<notin> refID ` set refs)
         \<or> (\<exists>xs. err = ErrBranchCycle (refID (last xs)) \<and> length xs = Suc (length refs) \<and> set xs \<subseteq> set refs
              \<and> successively entryLink xs))"

lemma walkBranch_outcome:
  assumes "set (branch @ [current]) \<subseteq> set refs" and "successively entryLink (branch @ [current])"
    and "hd (branch @ [current]) = leaf" and "length branch \<le> length refs"
  shows "walkJustified refs leaf (walkBranch refs (idIndex refs) branch current)"
  using assms
proof (induction refs "idIndex refs" branch current rule: walkBranch.induct)
  case (1 refs branch current)
  show ?case
  proof (cases "length refs \<le> length branch")
    case True
    with "1.prems" have "length (branch @ [current]) = Suc (length refs)" by simp
    moreover have "walkBranch refs (idIndex refs) branch current = Inl (ErrBranchCycle (refID (last (branch @ [current]))))"
      using True by (simp add: walkBranch.simps)
    ultimately show ?thesis using "1.prems"(1,2)
      by (auto simp: walkJustified_def intro!: exI [of _ "branch @ [current]"])
  next
    case False
    show ?thesis
    proof (cases "parentID current = []")
      case True
      with False "1.prems" show ?thesis
        by (simp add: walkJustified_def walkBranch.simps [of refs "idIndex refs" branch current])
    next
      case child: False
      show ?thesis
      proof (cases "idIndex refs (parentID current)")
        case None
        then have "parentID current \<notin> refID ` set refs" by (auto simp: idIndex_def index_of_None)
        with None False child "1.prems" show ?thesis
          by (auto simp: walkJustified_def walkBranch.simps [of refs "idIndex refs" branch current])
      next
        case (Some k)
        from idIndex_Some [OF Some] have k: "refs ! k \<in> set refs" "refID (refs ! k) = parentID current" by auto
        from "1.hyps" [OF False refl child Some] k child False "1.prems"
        have "walkJustified refs leaf (walkBranch refs (idIndex refs) (branch @ [current]) (refs ! k))"
          by (auto simp: successively_append_iff entryLink_def hd_append)
        with False child Some show ?thesis by (simp add: walkBranch.simps [of refs "idIndex refs" branch current])
      qed
    qed
  qed
qed

text \<open>Following parent links is deterministic, so a root chain is determined by its leaf.\<close>

lemma rootChain_snoc:
  assumes "rootChain refs leaf b" and "\<forall>r \<in> set refs. refID r \<noteq> []"
  shows "(parentID leaf = [] \<and> b = [leaf]) \<or>
    (\<exists>b' p. b = b' @ [leaf] \<and> rootChain refs p b' \<and> p \<in> set refs \<and> parentID leaf = refID p)"
proof -
  from assms(1) obtain b' where b: "b = b' @ [leaf]"
    by (metis append_butlast_last_id rootChain_def)
  show ?thesis
  proof (cases "b' = []")
    case True
    with assms(1) b show ?thesis by (simp add: rootChain_def)
  next
    case False
    with assms(1) b have "rootChain refs (last b') b'" "last b' \<in> set refs" "parentID leaf = refID (last b')"
      by (auto simp: rootChain_def successively_append_iff)
    with b show ?thesis by blast
  qed
qed

lemma rootChain_unique:
  assumes "distinct (map refID refs)" and "\<forall>r \<in> set refs. refID r \<noteq> []"
    and "rootChain refs leaf b" and "rootChain refs leaf b'"
  shows "b = b'"
  using assms(3,4)
proof (induction b arbitrary: leaf b' rule: length_induct)
  case (1 b)
  from rootChain_snoc [OF "1.prems"(1) assms(2)] show ?case
  proof
    assume "parentID leaf = [] \<and> b = [leaf]"
    with rootChain_snoc [OF "1.prems"(2) assms(2)] assms(2) show ?thesis by auto
  next
    assume "\<exists>c p. b = c @ [leaf] \<and> rootChain refs p c \<and> p \<in> set refs \<and> parentID leaf = refID p"
    then obtain c p where c: "b = c @ [leaf]" "rootChain refs p c" "p \<in> set refs" "parentID leaf = refID p"
      by blast
    with rootChain_snoc [OF "1.prems"(2) assms(2)] assms(2)
    obtain c' p' where c': "b' = c' @ [leaf]" "rootChain refs p' c'" "p' \<in> set refs" "parentID leaf = refID p'"
      by auto
    from c c' assms(1) have "p' = p" by (auto simp: distinct_map inj_on_def)
    with c c' "1.IH" have "c = c'" by auto
    with c c' show ?thesis by simp
  qed
qed

lemma rootChain_take:
  "rootChain refs leaf b \<Longrightarrow> i < length b \<Longrightarrow> rootChain refs (b ! i) (take (Suc i) b)"
  by (auto simp: rootChain_def successively_conv_nth last_conv_nth hd_conv_nth nth_take dest: in_set_takeD)

lemma rootChain_distinct:
  assumes "distinct (map refID refs)" and "\<forall>r \<in> set refs. refID r \<noteq> []" and "rootChain refs leaf b"
  shows "distinct b" and "length b \<le> length refs"
proof -
  show d: "distinct b"
    unfolding distinct_conv_nth
  proof (intro allI impI)
    fix i j assume "i < length b" "j < length b" "i \<noteq> j"
    then have "take (Suc i) b \<noteq> take (Suc j) b" by (metis Suc_inject Suc_leI length_take min_absorb2)
    with \<open>i < length b\<close> \<open>j < length b\<close> rootChain_take [OF assms(3)] rootChain_unique [OF assms(1,2)]
    show "b ! i \<noteq> b ! j" by metis
  qed
  then have "length b = card (set b)" by (simp add: distinct_card)
  also have "\<dots> \<le> card (set refs)" using assms(3) by (intro card_mono) (auto simp: rootChain_def)
  also have "\<dots> \<le> length refs" by (rule card_length)
  finally show "length b \<le> length refs" .
qed

lemma walkBranch_follows:
  assumes "distinct (map refID refs)" and "\<forall>r \<in> set refs. refID r \<noteq> []"
  shows "rootChain refs leaf (rev (branch @ current # ups)) \<Longrightarrow>
    walkBranch refs (idIndex refs) branch current = Inr (branch @ current # ups)"
proof (induction ups arbitrary: branch current)
  case Nil
  with rootChain_distinct(2) [OF assms Nil] show ?case
    by (subst walkBranch.simps) (simp add: rootChain_def)
next
  case (Cons p ups)
  from Cons.prems have "parentID current = refID p" "p \<in> set refs"
    by (auto simp: rootChain_def successively_append_iff)
  with assms idIndex_unique [of refs p] obtain k where "idIndex refs (parentID current) = Some k" "refs ! k = p"
    by auto
  moreover have "parentID current \<noteq> []" using \<open>parentID current = refID p\<close> \<open>p \<in> set refs\<close> assms(2) by auto
  moreover have "length branch < length refs" using rootChain_distinct(2) [OF assms Cons.prems] by simp
  ultimately show ?case using Cons by (subst walkBranch.simps) simp
qed

lemma walkBranch_iff:
  assumes "distinct (map refID refs)" and "\<forall>r \<in> set refs. refID r \<noteq> []" and "leaf \<in> set refs"
  shows "walkBranch refs (idIndex refs) [] leaf = Inr b \<longleftrightarrow> rootChain refs leaf (rev b)"
proof
  assume w: "walkBranch refs (idIndex refs) [] leaf = Inr b"
  from walkBranch_outcome [of "[]" leaf refs leaf] assms(3) w
  have "b \<noteq> []" "hd b = leaf" "parentID (last b) = []" "set b \<subseteq> set refs" "successively entryLink b"
    by (auto simp: walkJustified_def)
  moreover from this(5) have "successively (\<lambda>c p. parentID c = refID p) b"
    by (rule successively_mono) (auto simp: entryLink_def)
  ultimately show "rootChain refs leaf (rev b)"
    by (simp add: rootChain_def last_rev hd_rev)
next
  assume c: "rootChain refs leaf (rev b)"
  then obtain ups where "b = leaf # ups" by (metis hd_Cons_tl last_rev rev_is_Nil_conv rootChain_def)
  with c walkBranch_follows [OF assms(1,2), of leaf "[]" leaf ups]
  show "walkBranch refs (idIndex refs) [] leaf = Inr b" by simp
qed

subsection \<open>The index pass as a whole\<close>

lemma parseEntry_Some:
  "parseEntry raw off len n = Some r \<Longrightarrow>
     refID r \<noteq> [] \<and> refOffset r = off \<and> refLength r = len \<and> refLine r = n"
  by (auto simp: parseEntry_def split: option.splits if_splits json.splits)

lemma entriesOf_Some:
  "entriesOf sls = Some refs \<Longrightarrow> list_all2 (\<lambda>sl r. parseSlice sl = Some r) (take (length refs) sls) refs"
proof (induction sls arbitrary: refs)
  case (Cons sl sls)
  then show ?case by (cases "parseSlice sl") (auto split: if_splits)
qed simp

lemma entriesOf_ids: "entriesOf sls = Some refs \<Longrightarrow> \<forall>r \<in> set refs. refID r \<noteq> []"
proof (induction sls arbitrary: refs)
  case (Cons sl sls)
  then show ?case
    by (cases "parseSlice sl") (auto split: if_splits simp: parseSlice_def dest: parseEntry_Some)
qed simp

lemma fileEntries_ids: "fileEntries content = Some (h, refs) \<Longrightarrow> \<forall>r \<in> set refs. refID r \<noteq> []"
  by (auto simp: fileEntries_def split: list.splits option.splits dest: entriesOf_ids)

definition branchMeta :: "header \<Rightarrow> entryRef list \<Rightarrow> entryRef list \<Rightarrow> metadata" where
  "branchMeta h refs b = \<lparr>metaResume = None, metaHeader = h,
     leafID = (if refs = [] then [] else refID (last refs)), total = length b\<rparr>"

definition activeBranch :: "entryRef list \<Rightarrow> entryRef list \<Rightarrow> bool" where
  "activeBranch refs b \<longleftrightarrow> (if refs = [] then b = [] else rootChain refs (last refs) b)"

lemma index_stateOf:
  assumes "indexLoop ctx opts e 0 0 (ixStart opts) content = Inr (stateOf opts (Some h) refs)"
    and "distinct (map refID refs)" and "\<forall>r \<in> set refs. refID r \<noteq> []"
  shows "index ctx opts e content = Inr (m, b) \<longleftrightarrow> activeBranch refs b \<and> m = branchMeta h refs b"
proof (cases "refs = []")
  case True
  with assms(1) show ?thesis
    by (auto simp: index_def stateOf_def activeBranch_def branchMeta_def)
next
  case False
  then have "last refs \<in> set refs" by simp
  from walkBranch_iff [OF assms(2,3) this, of "rev b"]
  have "walkBranch refs (idIndex refs) [] (last refs) = Inr (rev b) \<longleftrightarrow> activeBranch refs b"
    using False by (simp add: activeBranch_def)
  moreover have "index ctx opts e content = Inr (m, b) \<longleftrightarrow>
      walkBranch refs (idIndex refs) [] (last refs) = Inr (rev b) \<and> m = branchMeta h refs b"
    using False assms(1)
    by (cases "walkBranch refs (idIndex refs) [] (last refs)")
      (auto simp: index_def stateOf_def idIndex_def Let_def branchMeta_def)
  ultimately show ?thesis by simp
qed

lemma stateOf_inject [simp]:
  "stateOf opts h refs = stateOf opts h' refs' \<longleftrightarrow> h = h' \<and> refs = refs'"
  by (auto simp: stateOf_def)

lemma indexLoop_stateOf:
  assumes "\<forall>n. ctx n = None" and "1 \<le> maxLineBytes opts" and "1 \<le> indexBytes opts"
    and "indexBytes opts \<le> max_int64"
  shows "indexLoop ctx opts None 0 0 (ixStart opts) content = Inr (stateOf opts (Some h) refs) \<longleftrightarrow>
      fileEntries content = Some (h, refs) \<and> distinct (map refID refs) \<and> withinBounds opts content refs"
    and "indexLoop ctx opts None 0 0 (ixStart opts) content = Inr s \<Longrightarrow>
      \<exists>h refs. s = stateOf opts h refs"
proof -
  note loop = indexLoop_file [OF assms(1) _ assms(4), where n = 0 and off = 0 and rest = content, folded ixStart_stateOf]
  show "indexLoop ctx opts None 0 0 (ixStart opts) content = Inr (stateOf opts (Some h) refs) \<longleftrightarrow>
      fileEntries content = Some (h, refs) \<and> distinct (map refID refs) \<and> withinBounds opts content refs"
    using assms(2,3) loop [of "stateOf opts (Some h) refs"]
    by (auto simp: fileEntries_def withinBounds_def admissible_def ixStart_stateOf split: list.splits option.splits)
  show "\<exists>h refs. s = stateOf opts h refs" if "indexLoop ctx opts None 0 0 (ixStart opts) content = Inr s"
    using that assms(2,3) loop [of s] by (cases "nonblank (slicesFrom 0 0 content)") (auto simp: ixStart_stateOf)
qed

lemma index_iff:
  assumes "\<forall>n. ctx n = None" and "1 \<le> maxLineBytes opts" and "1 \<le> indexBytes opts"
    and "indexBytes opts \<le> max_int64"
  shows "index ctx opts None content = Inr (m, b) \<longleftrightarrow>
    (\<exists>h refs. fileEntries content = Some (h, refs) \<and> distinct (map refID refs)
       \<and> withinBounds opts content refs \<and> activeBranch refs b \<and> m = branchMeta h refs b)"
proof (cases "indexLoop ctx opts None 0 0 (ixStart opts) content")
  case (Inl err)
  then have "fileEntries content = Some (h, refs) \<Longrightarrow> distinct (map refID refs) \<Longrightarrow>
      \<not> withinBounds opts content refs" for h refs
    using indexLoop_stateOf(1) [OF assms, of content h refs] by auto
  moreover have "index ctx opts None content \<noteq> Inr (m, b)" using Inl by (simp add: index_def)
  ultimately show ?thesis by blast
next
  case (Inr s)
  then obtain h refs where s: "s = stateOf opts h refs" using indexLoop_stateOf(2) [OF assms] by blast
  show ?thesis
  proof (cases h)
    case None
    with Inr s have "fileEntries content = Some (h', refs') \<Longrightarrow> distinct (map refID refs') \<Longrightarrow>
        \<not> withinBounds opts content refs'" for h' refs'
      using indexLoop_stateOf(1) [OF assms, of content h' refs'] by auto
    moreover have "index ctx opts None content \<noteq> Inr (m, b)" using Inr s None by (simp add: index_def stateOf_def)
    ultimately show ?thesis by blast
  next
    case (Some h')
    from Inr s Some indexLoop_stateOf(1) [OF assms, of content h' refs]
    have f: "fileEntries content = Some (h', refs)" "distinct (map refID refs)" "withinBounds opts content refs"
      by auto
    from index_stateOf [OF _ f(2) fileEntries_ids [OF f(1)]] Inr s Some f show ?thesis by auto
  qed
qed


lemma index_scan:
  assumes "\<forall>n. ctx n = None" and "1 \<le> maxLineBytes opts" and "1 \<le> indexBytes opts"
    and "indexBytes opts \<le> max_int64" and "index ctx opts None content = Inr (m, b)"
  shows "\<exists>h refs. fileEntries content = Some (h, refs) \<and> distinct (map refID refs)
    \<and> withinBounds opts content refs \<and> activeBranch refs b \<and> m = branchMeta h refs b"
  using index_iff [OF assms(1-4)] assms(5) by blast

text \<open>
  C4: With a live context, a readable file and positive bounds, \<open>index\<close> succeeds exactly when the
  first non-blank line is a session header, every later non-blank line is an entry (a malformed
  unterminated last line apart), ids are unique, every line fits \<open>MaxLineBytes\<close>, the charges of
  all entries fit \<open>IndexBytes\<close> and the last entry has a chain of parents to a root. The branch it
  returns is that chain, root first, and the metadata describes it.
\<close>
theorem index_characterised:
  assumes "\<forall>n. ctx n = None" and "1 \<le> maxLineBytes opts" and "1 \<le> indexBytes opts"
    and "indexBytes opts \<le> max_int64"
  shows "index ctx opts None content = Inr (m, b) \<longleftrightarrow>
    (\<exists>h refs. fileEntries content = Some (h, refs) \<and> distinct (map refID refs)
       \<and> withinBounds opts content refs \<and> activeBranch refs b \<and> m = branchMeta h refs b)"
  by (rule index_iff [OF assms])

definition demoFile :: string where
  "demoFile = ''{\"type\":\"session\",\"id\":\"s\"}'' @ [NL] @ ''{\"type\":\"m\",\"id\":\"a\",\"parentId\":null}'' @ [NL]
     @ ''{\"type\":\"m\",\"id\":\"b\",\"parentId\":\"a\"}'' @ [NL] @ ''{\"ty''"

definition demoRefs :: "entryRef list" where
  "demoRefs = [\<lparr>refID = ''a'', parentID = [], refOffset = 28, refLength = 38, refLine = 2\<rparr>,
               \<lparr>refID = ''b'', parentID = ''a'', refOffset = 66, refLength = 37, refLine = 3\<rparr>]"

definition demoHeader :: header where
  "demoHeader = \<lparr>headerRaw = ''{\"type\":\"session\",\"id\":\"s\"}'', headerType = ''session'', headerID = ''s'',
     headerVersion = 0, headerTimestamp = [], headerCWD = [], headerParent = []\<rparr>"

definition demoOptions :: options where
  "demoOptions = zeroOptions\<lparr>chunkBytes := 3, maxLineBytes := 60, pageBytes := 60, pageEntries := 2, indexBytes := 500\<rparr>"

lemma demoEntries: "fileEntries demoFile = Some (demoHeader, demoRefs)"
  by code_simp

lemma demoBounds:
  "distinct (map refID demoRefs) \<and> withinBounds demoOptions demoFile demoRefs \<and> activeBranch demoRefs demoRefs"
  by code_simp

lemma demo_index:
  "index (\<lambda>_. None) demoOptions None demoFile = Inr (branchMeta demoHeader demoRefs demoRefs, demoRefs)"
  by code_simp

theorem index_characterised_witness:
  "index (\<lambda>_. None) demoOptions None demoFile = Inr (branchMeta demoHeader demoRefs demoRefs, demoRefs)"
proof -
  have "1 \<le> maxLineBytes demoOptions" "1 \<le> indexBytes demoOptions" "indexBytes demoOptions \<le> max_int64"
    by (simp_all add: demoOptions_def max_int64_def)
  from index_characterised [OF _ this, of "\<lambda>_. None" demoFile "branchMeta demoHeader demoRefs demoRefs" demoRefs]
    demoEntries demoBounds show ?thesis by blast
qed

subsection \<open>Errors of the walk\<close>

lemma indexLine_no_cycle: "indexLine lr n off s \<noteq> Inl (ErrBranchCycle i)"
  by (auto simp: indexLine_def addEntry_def reserveEntry_def Let_def
      split: option.splits if_splits sum.splits)

lemma indexLoop_no_cycle: "indexLoop ctx opts e n off s rest \<noteq> Inl (ErrBranchCycle i)"
proof (induction ctx opts e n off s rest rule: indexLoop.induct)
  case (1 ctx opts e n off s rest)
  obtain lr r where rd: "readLine (chunkBytes opts) (maxLineBytes opts) e rest = (lr, r)"
    by (cases "readLine (chunkBytes opts) (maxLineBytes opts) e rest")
  note IH = "1.IH" [OF _ rd [symmetric] _ _ refl]
  show ?case
    by (subst indexLoop.simps)
      (use IH indexLine_no_cycle rd in \<open>auto split: option.splits sum.splits rerr.splits\<close>)
qed

lemma long_path_cycles:
  assumes "set xs \<subseteq> set refs" and "length refs < length xs" and "successively entryLink xs"
  shows "\<exists>c. c \<noteq> [] \<and> set c \<subseteq> set refs \<and> successively entryLink c \<and> entryLink (last c) (hd c)"
proof -
  have "card (set xs) \<le> length refs"
    using assms(1) by (meson List.finite_set card_length card_mono le_trans)
  with assms(2) have "\<not> distinct xs" using distinct_card by fastforce
  then obtain i j where ij: "i < j" "j < length xs" "xs ! i = xs ! j"
    by (metis distinct_conv_nth nat_neq_iff)
  let ?c = "take (j - i) (drop i xs)"
  have len: "length ?c = j - i" and ne: "?c \<noteq> []" using ij by auto
  have nth: "k < j - i \<Longrightarrow> ?c ! k = xs ! (i + k)" for k using ij by simp
  have "last ?c = xs ! (j - 1)" using ij len ne nth [of "j - i - 1"] by (simp add: last_conv_nth)
  moreover have "hd ?c = xs ! j" using ij ne nth [of 0] by (simp add: hd_conv_nth)
  moreover have "entryLink (xs ! (j - 1)) (xs ! j)"
    using assms(3) ij by (metis Suc_pred' gr_implies_not0 not_gr_zero successively_conv_nth)
  moreover have "successively entryLink ?c"
    using assms(3) len nth ij by (auto simp: successively_conv_nth)
  moreover have "set ?c \<subseteq> set refs" using assms(1) by (meson in_set_dropD in_set_takeD subset_iff)
  ultimately show ?thesis using ne by metis
qed

text \<open>
  \<open>index\<close> reports a branch cycle only when the file really has one: the entries of the file
  contain a closed chain of parent links, and no root chain leads to the last entry. The bound
  \<open>len(branch) >= len(refs)\<close> never rejects a long acyclic branch.
\<close>
theorem index_cycle_is_real:
  assumes "\<forall>n. ctx n = None" and "1 \<le> maxLineBytes opts" and "1 \<le> indexBytes opts"
    and "indexBytes opts \<le> max_int64" and "index ctx opts None content = Inl (ErrBranchCycle i)"
  shows "\<exists>h refs. fileEntries content = Some (h, refs) \<and> (\<nexists>b. rootChain refs (last refs) b)
    \<and> (\<exists>c. c \<noteq> [] \<and> set c \<subseteq> set refs \<and> successively entryLink c \<and> entryLink (last c) (hd c))"
proof -
  obtain s where s: "indexLoop ctx opts None 0 0 (ixStart opts) content = Inr s"
    using assms(5) indexLoop_no_cycle [of ctx opts None 0 0 "ixStart opts" content i]
    by (cases "indexLoop ctx opts None 0 0 (ixStart opts) content") (auto simp: index_def)
  from indexLoop_stateOf(2) [OF assms(1-4) s] obtain h' refs where st: "s = stateOf opts h' refs" by blast
  obtain h where h: "h' = Some h"
    using assms(5) s st by (cases h') (auto simp: index_def stateOf_def)
  from s st h indexLoop_stateOf(1) [OF assms(1-4), of content h refs]
  have f: "fileEntries content = Some (h, refs)" and d: "distinct (map refID refs)" by auto
  have ne: "refs \<noteq> []" and w: "walkBranch refs (idIndex refs) [] (last refs) = Inl (ErrBranchCycle i)"
    using assms(5) s st h
    by (auto simp: index_def stateOf_def Let_def idIndex_def split: if_splits sum.splits)
  have "walkJustified refs (last refs) (walkBranch refs (idIndex refs) [] (last refs))"
    using ne by (intro walkBranch_outcome) auto
  with w obtain xs where "length xs = Suc (length refs)" "set xs \<subseteq> set refs" "successively entryLink xs"
    by (auto simp: walkJustified_def)
  with long_path_cycles [of xs refs]
  have cyc: "\<exists>c. c \<noteq> [] \<and> set c \<subseteq> set refs \<and> successively entryLink c \<and> entryLink (last c) (hd c)" by simp
  have "\<nexists>b. rootChain refs (last refs) b"
    using walkBranch_iff [OF d fileEntries_ids [OF f], of "last refs" "rev b" for b] ne w by auto
  with f cyc show ?thesis by blast
qed

definition cyclicFile :: string where
  "cyclicFile = ''{\"type\":\"session\",\"id\":\"s\"}'' @ [NL] @ ''{\"type\":\"m\",\"id\":\"a\",\"parentId\":\"a\"}''"

theorem index_cycle_is_real_witness:
  "index (\<lambda>_. None) demoOptions None cyclicFile = Inl (ErrBranchCycle ''a'')
   \<and> (\<exists>h refs. fileEntries cyclicFile = Some (h, refs) \<and> (\<nexists>b. rootChain refs (last refs) b)
        \<and> (\<exists>c. c \<noteq> [] \<and> set c \<subseteq> set refs \<and> successively entryLink c \<and> entryLink (last c) (hd c)))"
proof -
  have b: "1 \<le> maxLineBytes demoOptions" "1 \<le> indexBytes demoOptions" "indexBytes demoOptions \<le> max_int64"
    by (simp_all add: demoOptions_def max_int64_def)
  have "index (\<lambda>_. None) demoOptions None cyclicFile = Inl (ErrBranchCycle ''a'')" by code_simp
  with index_cycle_is_real [OF _ b this] show ?thesis by simp
qed

subsection \<open>Buffers\<close>

lemma indexLoop_buffer:
  assumes "0 \<le> maxLineBytes opts"
  shows "indexLoop ctx (opts\<lparr>chunkBytes := k\<rparr>) e n off s rest = indexLoop ctx opts e n off s rest"
  using assms
proof (induction ctx opts e n off s rest rule: indexLoop.induct)
  case (1 ctx opts e n off s rest)
  show ?case
  proof (cases "ctx n = None \<and> maxLineBytes opts < int (length (takeWhile (\<lambda>c. c \<noteq> NL) rest))")
    case True
    with "1.prems" show ?thesis by (simp add: indexLoop_too_long)
  next
    case False
    show ?thesis
    proof (cases "ctx n")
      case None
      with False "1.prems" have rd: "readLine j (maxLineBytes opts) e rest = lineSpec e rest" for j
        by (intro readLine_fits) auto
      obtain lr r where sp: "lineSpec e rest = (lr, r)" by (cases "lineSpec e rest")
      have IH: "\<not> (lineConsumed lr = 0 \<and> lineErr lr = REOF) \<Longrightarrow> indexLine lr (Suc n) off s = Inr (False, s') \<Longrightarrow>
          lineErr lr = RNone \<Longrightarrow>
          indexLoop ctx (opts\<lparr>chunkBytes := k\<rparr>) e (Suc n) (off + lineConsumed lr) s' r
            = indexLoop ctx opts e (Suc n) (off + lineConsumed lr) s' r" for s'
        by (rule "1.IH" [OF None _ _ _ refl]) (use rd sp "1.prems" in auto)
      show ?thesis
        using IH None rd sp
        by (simp add: indexLoop.simps [of ctx opts e n off s rest]
            indexLoop.simps [of ctx "opts\<lparr>chunkBytes := k\<rparr>" e n off s rest] split: sum.splits rerr.splits)
    next
      case (Some c)
      then show ?thesis by (simp add: indexLoop.simps)
    qed
  qed
qed

text \<open>
  The result of indexing does not depend on \<open>ChunkBytes\<close>: assembling lines from buffer
  fragments of any size gives the same lines, offsets, lengths, limits and errors.
\<close>
theorem index_buffer_independent:
  assumes "0 \<le> maxLineBytes opts"
  shows "index ctx (opts\<lparr>chunkBytes := k\<rparr>) e content = index ctx opts e content"
  using indexLoop_buffer [OF assms, of ctx k e 0 0 "ixStart opts" content]
  by (simp add: index_def ixStart_def)

theorem index_buffer_independent_witness:
  "0 \<le> maxLineBytes demoOptions
   \<and> index (\<lambda>_. None) (demoOptions\<lparr>chunkBytes := 65536\<rparr>) None cyclicFile
     = index (\<lambda>_. None) demoOptions None cyclicFile"
  using index_buffer_independent [of demoOptions "\<lambda>_. None" 65536 None cyclicFile]
  by (simp add: demoOptions_def)

end
