(* ===== verification/ColdPages.thy ===== *)
theory ColdPages
  imports ColdIndex "HOL-Library.Sublist"
begin

text \<open>
  The second pass of \<open>internal/coldhistory\<close>: records are read back through their coordinates and
  emitted as bounded pages (\<open>emitRange\<close>, \<open>emitHeadRange\<close>, \<open>emitWarmRanges\<close>, \<open>emitTailFirst\<close>,
  \<open>tailFirst\<close>), and \<open>before.go\<close> returns one page before a cursor. The page callback and the
  cancellation of the context are functions of what has been delivered and of the number of polls.
\<close>

subsection \<open>Records\<close>

text \<open>
  The \<open>io.ReadFull\<close> loop; \<open>k\<close> is \<open>chunkBytes - 1\<close>. A short read is the error of \<open>ReadFull\<close>.
\<close>

function readRecordLoop :: "nat \<Rightarrow> string \<Rightarrow> nat \<Rightarrow> nat \<Rightarrow> string \<Rightarrow> string option" where
  "readRecordLoop k content pos remaining raw =
     (if remaining = 0 then Some raw
      else (let want = min (Suc k) remaining;
                got = take want (drop pos content);
                raw' = raw @ got
            in if length got < want then None
               else readRecordLoop k content (pos + want) (remaining - want) raw'))"
  by pat_completeness auto
termination
  by (relation "measure (\<lambda>(k, content, pos, remaining, raw). remaining)") auto

declare readRecordLoop.simps [simp del]

definition readRecord :: "string \<Rightarrow> entryRef \<Rightarrow> int \<Rightarrow> string option" where
  "readRecord content ref chunk =
     (case readRecordLoop (nat chunk - 1) content (refOffset ref) (refLength ref) [] of
        None \<Rightarrow> None
      | Some bytes \<Rightarrow> (let raw = trimSpace bytes in if validJson raw then Some raw else None))"

subsection \<open>Pages\<close>

record page =
  pageEntriesOf :: "string list"
  pageStart :: nat
  pageFinal :: bool
  pageHead :: bool

record emitEnv =
  envCtx :: "nat \<Rightarrow> string option"
  envEmit :: "metadata \<Rightarrow> page list \<Rightarrow> page \<Rightarrow> string option"
  envFile :: string
  envOpts :: options
  envMeta :: metadata

record emitState =
  delivered :: "page list"
  polls :: nat

definition emitStart :: emitState where
  "emitStart = \<lparr>delivered = [], polls = 0\<rparr>"

definition emitPage :: "emitEnv \<Rightarrow> page \<Rightarrow> emitState \<Rightarrow> cherr option \<times> emitState" where
  "emitPage env pg st =
     (map_option ErrCallback (envEmit env (envMeta env) (delivered st) pg),
      st\<lparr>delivered := delivered st @ [pg]\<rparr>)"

text \<open>One \<open>ctx.Err()\<close> poll followed by \<open>readRecord\<close>, as every loop over entries starts.\<close>

definition fetch :: "emitEnv \<Rightarrow> entryRef \<Rightarrow> emitState \<Rightarrow> (cherr + string) \<times> emitState" where
  "fetch env ref st =
     (case envCtx env (polls st) of
        Some c \<Rightarrow> Inl (ErrCancelled c)
      | None \<Rightarrow> (case readRecord (envFile env) ref (chunkBytes (envOpts env)) of
                  None \<Rightarrow> Inl (ErrCorruptLine (refLine ref) (refOffset ref))
                | Some raw \<Rightarrow> Inr raw),
      st\<lparr>polls := Suc (polls st)\<rparr>)"

definition pageFull :: "options \<Rightarrow> string list \<Rightarrow> nat \<Rightarrow> string \<Rightarrow> bool" where
  "pageFull opts page bytes raw \<longleftrightarrow>
     page \<noteq> [] \<and> (pageEntries opts \<le> int (length page) \<or> pageBytes opts < int (bytes + length raw))"

fun emitRangeLoop ::
  "emitEnv \<Rightarrow> bool \<Rightarrow> string list \<Rightarrow> nat \<Rightarrow> nat \<Rightarrow> entryRef list \<Rightarrow> emitState \<Rightarrow> cherr option \<times> emitState" where
  "emitRangeLoop env complete page bytes start [] st = (None, st)"
| "emitRangeLoop env complete page bytes start (ref # refs) st =
     (let (r, st1) = fetch env ref st in
      case r of
        Inl err \<Rightarrow> (Some err, st1)
      | Inr raw \<Rightarrow>
          (if pageFull (envOpts env) page bytes raw then
             (let (err, st2) = emitPage env \<lparr>pageEntriesOf = page, pageStart = start, pageFinal = False,
                                             pageHead = False\<rparr> st1;
                  start' = start + length page
              in if err \<noteq> None then (err, st2)
                 else if refs = [] then
                   emitPage env \<lparr>pageEntriesOf = [raw], pageStart = start', pageFinal = complete, pageHead = False\<rparr> st2
                 else emitRangeLoop env complete [raw] (length raw) start' refs st2)
           else if refs = [] then
             emitPage env \<lparr>pageEntriesOf = page @ [raw], pageStart = start, pageFinal = complete, pageHead = False\<rparr> st1
           else emitRangeLoop env complete (page @ [raw]) (bytes + length raw) start refs st1))"

text \<open>
  The backward loop: \<open>refs\<close> is the part of the range still to visit, newest first; \<open>page\<close> is in
  arrival order and reversed when it is flushed; \<open>i\<close> is the branch index of the next entry.
\<close>

fun emitHeadLoop ::
  "emitEnv \<Rightarrow> bool \<Rightarrow> string list \<Rightarrow> nat \<Rightarrow> nat \<Rightarrow> nat \<Rightarrow> entryRef list \<Rightarrow> emitState \<Rightarrow> cherr option \<times> emitState" where
  "emitHeadLoop env complete page bytes pageTop i [] st = (None, st)"
| "emitHeadLoop env complete page bytes pageTop i (ref # refs) st =
     (let (r, st1) = fetch env ref st in
      case r of
        Inl err \<Rightarrow> (Some err, st1)
      | Inr raw \<Rightarrow>
          (if pageFull (envOpts env) page bytes raw then
             (let (err, st2) = emitPage env \<lparr>pageEntriesOf = rev page, pageStart = pageTop + 1 - length page,
                                             pageFinal = False, pageHead = True\<rparr> st1
              in if err \<noteq> None then (err, st2)
                 else if refs = [] then
                   emitPage env \<lparr>pageEntriesOf = [raw], pageStart = i, pageFinal = complete, pageHead = True\<rparr> st2
                 else emitHeadLoop env complete [raw] (length raw) i (i - 1) refs st2)
           else
             (let pageTop' = (if page = [] then i else pageTop); page' = page @ [raw] in
              if refs = [] then
                emitPage env \<lparr>pageEntriesOf = rev page', pageStart = pageTop' + 1 - length page',
                               pageFinal = complete, pageHead = True\<rparr> st1
              else emitHeadLoop env complete page' (bytes + length raw) pageTop' (i - 1) refs st1)))"

definition branchRange :: "entryRef list \<Rightarrow> nat \<Rightarrow> nat \<Rightarrow> entryRef list" where
  "branchRange branch lo hi = take (hi - lo) (drop lo branch)"

definition emitHeadRange ::
  "emitEnv \<Rightarrow> entryRef list \<Rightarrow> nat \<Rightarrow> nat \<Rightarrow> bool \<Rightarrow> emitState \<Rightarrow> cherr option \<times> emitState" where
  "emitHeadRange env branch lo hi complete st =
     emitHeadLoop env complete [] 0 (hi - 1) (hi - 1) (rev (branchRange branch lo hi)) st"

definition emitRange ::
  "emitEnv \<Rightarrow> entryRef list \<Rightarrow> nat \<Rightarrow> nat \<Rightarrow> bool \<Rightarrow> bool \<Rightarrow> emitState \<Rightarrow> cherr option \<times> emitState" where
  "emitRange env branch lo hi head complete st =
     (if lo = hi then
        (if complete then emitPage env \<lparr>pageEntriesOf = [], pageStart = lo, pageFinal = True, pageHead = head\<rparr> st
         else (None, st))
      else if head then emitHeadRange env branch lo hi complete st
      else emitRangeLoop env complete [] 0 lo (branchRange branch lo hi) st)"

definition emitBranch :: "emitEnv \<Rightarrow> entryRef list \<Rightarrow> emitState \<Rightarrow> cherr option \<times> emitState" where
  "emitBranch env branch st = emitRange env branch 0 (length branch) False True st"

text \<open>\<open>w\<close> is \<open>warmChunk - 1\<close>.\<close>

function emitWarmRanges ::
  "emitEnv \<Rightarrow> entryRef list \<Rightarrow> nat \<Rightarrow> nat \<Rightarrow> emitState \<Rightarrow> cherr option \<times> emitState" where
  "emitWarmRanges env branch pos w st =
     (if pos = 0 then (None, st)
      else (let start = pos - Suc w;
                (err, st1) = emitRange env branch start pos True (start = 0) st
            in if err \<noteq> None then (err, st1) else emitWarmRanges env branch start w st1))"
  by pat_completeness auto
termination
  by (relation "measure (\<lambda>(env, branch, pos, w, st). pos)") auto

declare emitWarmRanges.simps [simp del]

text \<open>The byte-bounded tail: \<open>refs\<close> newest first, \<open>i\<close> the branch index of the next entry.\<close>

fun tailScan ::
  "emitEnv \<Rightarrow> nat \<Rightarrow> nat \<Rightarrow> nat \<Rightarrow> nat \<Rightarrow> entryRef list \<Rightarrow> emitState \<Rightarrow> (cherr + nat) \<times> emitState" where
  "tailScan env n tailStart used i [] st = (Inr tailStart, st)"
| "tailScan env n tailStart used i (ref # refs) st =
     (let (r, st1) = fetch env ref st in
      case r of
        Inl err \<Rightarrow> (Inl err, st1)
      | Inr raw \<Rightarrow>
          (if i < n - 1 \<and> tailBytes (envOpts env) < int (used + length raw) then (Inr (i + 1), st1)
           else tailScan env n tailStart (used + length raw) (i - 1) refs st1))"

definition emitTailFirst ::
  "emitEnv \<Rightarrow> entryRef list \<Rightarrow> nat \<Rightarrow> nat \<Rightarrow> emitState \<Rightarrow> cherr option \<times> emitState" where
  "emitTailFirst env branch tailEntries w st =
     (let n = length branch;
          tailStart = n - tailEntries;
          (t, st1) = (if 0 < tailBytes (envOpts env)
                      then tailScan env n tailStart 0 (n - 1) (rev (branchRange branch tailStart n)) st
                      else (Inr tailStart, st))
      in case t of
           Inl err \<Rightarrow> (Some err, st1)
         | Inr start \<Rightarrow>
             (let (err, st2) = emitRange env branch start n False (start = 0 \<or> skipWarm (envOpts env)) st1
              in if err \<noteq> None then (err, st2)
                 else if skipWarm (envOpts env) then (None, st2)
                 else emitWarmRanges env branch start w st2))"

text \<open>The last index of an id on the branch, as the scan over the whole branch leaves it.\<close>

fun lastIndexOf :: "string \<Rightarrow> nat \<Rightarrow> entryRef list \<Rightarrow> nat option \<Rightarrow> nat option" where
  "lastIndexOf i k [] found = found"
| "lastIndexOf i k (r # rs) found = lastIndexOf i (Suc k) rs (if refID r = i then Some k else found)"

text \<open>The cursor is accepted when it names this session and a range of the branch.\<close>

definition acceptCursor :: "metadata \<Rightarrow> entryRef list \<Rightarrow> resumeCursor option \<Rightarrow> (resumeCursor \<times> nat \<times> nat) option" where
  "acceptCursor m branch cursor =
     (case cursor of
        None \<Rightarrow> None
      | Some c \<Rightarrow>
          (if cursorSession c \<noteq> headerID (metaHeader m) then None
           else (case (lastIndexOf (firstEntryID c) 0 branch None, lastIndexOf (lastEntryID c) 0 branch None) of
                   (Some firstIx, Some lastIx) \<Rightarrow>
                     (if firstIx \<le> lastIx \<and> (\<not> historyComplete c \<or> firstIx = 0) then Some (c, firstIx, lastIx) else None)
                 | _ \<Rightarrow> None)))"

definition tailFirst ::
  "emitEnv \<Rightarrow> entryRef list \<Rightarrow> nat \<Rightarrow> nat \<Rightarrow> emitState \<Rightarrow> (cherr + metadata) \<times> emitState" where
  "tailFirst env branch tailEntries w st =
     (let opts = envOpts env; m = envMeta env in
      case (case resolveResume opts of None \<Rightarrow> Inr (optResume opts) | Some resolve \<Rightarrow> resolve m) of
        Inl err \<Rightarrow> (Inl err, st)
      | Inr cursor \<Rightarrow>
          (case acceptCursor m branch cursor of
             Some (c, firstIx, lastIx) \<Rightarrow>
               (let m' = m\<lparr>metaResume := Some c\<rparr>; env' = env\<lparr>envMeta := m'\<rparr>;
                    final = (skipWarm opts \<or> firstIx = 0);
                    (err, st1) =
                      (if lastIx + 1 = length branch
                       then emitPage env' \<lparr>pageEntriesOf = [], pageStart = lastIx + 1, pageFinal = final, pageHead = False\<rparr> st
                       else emitRange env' branch (lastIx + 1) (length branch) False final st)
                in case err of
                     Some x \<Rightarrow> (Inl x, st1)
                   | None \<Rightarrow>
                       (if skipWarm opts then (Inr m', st1)
                        else (let (err2, st2) = emitWarmRanges env' branch firstIx w st1
                              in case err2 of Some x \<Rightarrow> (Inl x, st2) | None \<Rightarrow> (Inr m', st2))))
           | None \<Rightarrow>
               (let (err, st1) = emitTailFirst env branch tailEntries w st
                in case err of Some x \<Rightarrow> (Inl x, st1) | None \<Rightarrow> (Inr m, st1))))"

subsection \<open>The page before a cursor\<close>

record beforePage =
  beforeEntries :: "string list"
  beforeStart :: nat
  beforeComplete :: bool

fun beforeLoop ::
  "emitEnv \<Rightarrow> int \<Rightarrow> string list \<Rightarrow> nat \<Rightarrow> entryRef list \<Rightarrow> emitState \<Rightarrow> (cherr + string list) \<times> emitState" where
  "beforeLoop env limit entries bytes [] st = (Inr entries, st)"
| "beforeLoop env limit entries bytes (ref # refs) st =
     (if limit \<le> int (length entries) then (Inr entries, st)
      else (let (r, st1) = fetch env ref st in
            case r of
              Inl err \<Rightarrow> (Inl err, st1)
            | Inr raw \<Rightarrow>
                (if entries \<noteq> [] \<and> pageBytes (envOpts env) < int (bytes + length raw) then (Inr entries, st1)
                 else beforeLoop env limit (entries @ [raw]) (bytes + length raw) refs st1)))"

definition beforeFromIndex ::
  "emitEnv \<Rightarrow> entryRef list \<Rightarrow> string \<Rightarrow> int \<Rightarrow> emitState \<Rightarrow> cherr + beforePage" where
  "beforeFromIndex env branch beforeID limit st =
     (case index_of (\<lambda>r. refID r = beforeID) branch of
        None \<Rightarrow> Inl (ErrEntryNotOnBranch beforeID)
      | Some before \<Rightarrow>
          (case fst (beforeLoop env limit [] 0 (rev (take before branch)) st) of
             Inl err \<Rightarrow> Inl err
           | Inr entries \<Rightarrow>
               (let start = before - length entries in
                Inr \<lparr>beforeEntries = rev entries, beforeStart = start, beforeComplete = (start = 0)\<rparr>)))"

section \<open>Correctness\<close>

subsection \<open>Reading an indexed record back\<close>

lemma readRecordLoop_spec:
  "readRecordLoop k content pos remaining raw =
     (if pos + remaining \<le> length content \<or> remaining = 0
      then Some (raw @ take remaining (drop pos content)) else None)"
proof (induction k content pos remaining raw rule: readRecordLoop.induct)
  case (1 k content pos remaining raw)
  show ?case
  proof (cases "remaining = 0")
    case False
    let ?w = "min (Suc k) remaining"
    show ?thesis
    proof (cases "length (take ?w (drop pos content)) < ?w")
      case True
      with False show ?thesis by (subst readRecordLoop.simps) (auto simp: Let_def)
    next
      case fits: False
      then have "take remaining (drop pos content)
        = take ?w (drop pos content) @ take (remaining - ?w) (drop (pos + ?w) content)"
        using take_add [of ?w "remaining - ?w" "drop pos content"] by (simp add: add.commute)
      moreover have "readRecordLoop k content pos remaining raw =
        readRecordLoop k content (pos + ?w) (remaining - ?w) (raw @ take ?w (drop pos content))"
        using False fits by (subst readRecordLoop.simps) (auto simp: Let_def)
      moreover have "pos + ?w + (remaining - ?w) \<le> length content \<or> remaining - ?w = 0
        \<longleftrightarrow> pos + remaining \<le> length content \<or> remaining = 0"
        using fits False by auto
      ultimately show ?thesis using "1.IH" [OF False refl refl refl fits] by simp
    qed
  qed (simp add: readRecordLoop.simps)
qed

lemma readRecord_spec:
  "readRecord content ref chunk =
     (if refOffset ref + refLength ref \<le> length content \<or> refLength ref = 0
      then (let raw = trimSpace (take (refLength ref) (drop (refOffset ref) content))
            in if validJson raw then Some raw else None)
      else None)"
  by (simp add: readRecord_def readRecordLoop_spec)

text \<open>The newline that ends a record is trimmed away.\<close>

lemma stripAny_snoc_newline:
  assumes "\<forall>p \<in> set seqs. p \<noteq> [] \<and> (p = [NL] \<or> NL \<notin> set p)" and "[NL] \<in> set seqs" and "s \<noteq> []"
  shows "stripAny seqs (s @ [NL]) = map_option (\<lambda>r. r @ [NL]) (stripAny seqs s)"
proof -
  have one: "stripPrefix p (s @ [NL]) = map_option (\<lambda>r. r @ [NL]) (stripPrefix p s)"
    if "p = [NL] \<or> NL \<notin> set p" for p
  proof -
    have "s @ [NL] = p @ r \<Longrightarrow> \<exists>r'. r = r' @ [NL] \<and> s = p @ r'" for r
    proof (cases r rule: rev_cases)
      case Nil
      assume "s @ [NL] = p @ r"
      with Nil have "p = s @ [NL]" by simp
      with that assms(3) show ?thesis by auto
    qed auto
    then have "stripPrefix p (s @ [NL]) = Some r \<Longrightarrow> \<exists>r'. stripPrefix p s = Some r' \<and> r = r' @ [NL]" for r
      by (fastforce simp: stripPrefix_append)
    moreover have "stripPrefix p s = Some r \<Longrightarrow> stripPrefix p (s @ [NL]) = Some (r @ [NL])" for r
      by (simp add: stripPrefix_append)
    ultimately show ?thesis by (cases "stripPrefix p (s @ [NL])"; cases "stripPrefix p s") fastforce+
  qed
  show ?thesis using assms(1)
  proof (induction seqs)
    case (Cons p ps)
    then have "stripPrefix p (s @ [NL]) = map_option (\<lambda>r. r @ [NL]) (stripPrefix p s)" by (intro one) auto
    with Cons show ?case by (auto split: option.splits)
  qed simp
qed

lemma spaceSeqs_newline:
  "\<forall>p \<in> set spaceSeqs. p \<noteq> [] \<and> (p = [NL] \<or> NL \<notin> set p)" "[NL] \<in> set spaceSeqs"
  by (simp_all add: spaceSeqs_def)

lemma stripAny_newline: "stripAny spaceSeqs [NL] = Some []" "stripAny (map rev spaceSeqs) (NL # s) = Some s"
  by (simp_all add: spaceSeqs_def)

lemma stripAny_shorter: "stripAny spaceSeqs s = Some r \<Longrightarrow> length r < length s"
  using stripAny_suffix [of spaceSeqs s r] spaceSeqs_newline(1) by fastforce

lemma trimLeft_snoc_newline:
  "length s \<le> n \<Longrightarrow> trimLeft (Suc n) spaceSeqs (s @ [NL]) =
     (if trimLeft n spaceSeqs s = [] then [] else trimLeft n spaceSeqs s @ [NL])"
proof (induction n arbitrary: s)
  case 0
  then show ?case by (simp add: stripAny_newline)
next
  case (Suc n)
  show ?case
  proof (cases "s = []")
    case True
    have "stripAny spaceSeqs [] = None" by (simp add: spaceSeqs_def)
    then have "trimLeft m spaceSeqs [] = []" for m by (cases m) auto
    with True show ?thesis by (simp add: stripAny_newline)
  next
    case False
    show ?thesis
    proof (cases "stripAny spaceSeqs s")
      case None
      with False stripAny_snoc_newline [OF spaceSeqs_newline False] show ?thesis
        by (simp del: trimLeft.simps(2) add: trimLeft.simps(2) [of "Suc n"] trimLeft.simps(2) [of n])
    next
      case (Some r)
      with Suc.prems stripAny_shorter [OF Some] have "length r \<le> n" by simp
      from Suc.IH [OF this] Some stripAny_snoc_newline [OF spaceSeqs_newline False] show ?thesis
        by (simp del: trimLeft.simps(2) add: trimLeft.simps(2) [of "Suc n" _ "s @ [NL]"] trimLeft.simps(2) [of n _ s])
    qed
  qed
qed

lemma trimSpace_newline: "trimSpace (s @ [NL]) = trimSpace s"
  using trimLeft_snoc_newline [of s "length s"]
  by (auto simp: trimSpace_def Let_def stripAny_newline)

lemma slicesFrom_text:
  assumes "sl \<in> set (slicesFrom n off rest)" and "rest = drop off content" and "off \<le> length content"
  shows "sliceOffset sl + sliceLength sl \<le> length content
    \<and> take (sliceLength sl) (drop (sliceOffset sl) content)
      = sliceText sl @ (if sliceTerminated sl then [NL] else [])"
  using assms
proof (induction n off rest rule: slicesFrom.induct)
  case (1 n off rest)
  let ?l = "takeWhile (\<lambda>c. c \<noteq> NL) rest" and ?r = "drop 1 (dropWhile (\<lambda>c. c \<noteq> NL) rest)"
  let ?t = "if NL \<in> set rest then [NL] else []"
  have split: "rest = (?l @ ?t) @ ?r"
  proof (cases "NL \<in> set rest")
    case True
    then have ne: "dropWhile (\<lambda>c. c \<noteq> NL) rest \<noteq> []" by (auto simp: dropWhile_eq_Nil_conv)
    with hd_dropWhile [OF ne] have "dropWhile (\<lambda>c. c \<noteq> NL) rest = NL # ?r"
      by (cases "dropWhile (\<lambda>c. c \<noteq> NL) rest") auto
    with True show ?thesis using takeWhile_dropWhile_id [of "\<lambda>c. c \<noteq> NL" rest] by simp
  next
    case False
    then have l: "?l = rest" and d: "dropWhile (\<lambda>c. c \<noteq> NL) rest = []"
      by (auto simp: takeWhile_eq_all_conv dropWhile_eq_Nil_conv)
    from False show ?thesis by (simp add: l d)
  qed
  let ?k = "length (?l @ ?t)"
  have tk: "take ?k rest = ?l @ ?t" "drop ?k rest = ?r"
    using split by (metis append_eq_conv_conj)+
  have len: "off + ?k \<le> length content"
    using "1.prems"(2,3) split by (metis add_le_cancel_left le_add_diff_inverse length_append length_drop le_add1)
  have rest: "rest \<noteq> []" using "1.prems"(1) by auto
  have cases: "sl = \<lparr>sliceNo = Suc n, sliceOffset = off, sliceText = ?l, sliceTerminated = NL \<in> set rest\<rparr>
      \<or> sl \<in> set (slicesFrom (Suc n) (off + length ?l + (if NL \<in> set rest then 1 else 0)) ?r)"
    using "1.prems"(1) rest by (simp add: slicesFrom.simps [of n off rest] Let_def)
  have off: "off + length ?l + (if NL \<in> set rest then 1 else 0) = off + ?k" by simp
  from cases show ?case
  proof
    assume "sl = \<lparr>sliceNo = Suc n, sliceOffset = off, sliceText = ?l, sliceTerminated = NL \<in> set rest\<rparr>"
    with tk(1) len "1.prems"(2) show ?thesis by (auto simp: sliceLength_def split: if_splits)
  next
    assume "sl \<in> set (slicesFrom (Suc n) (off + length ?l + (if NL \<in> set rest then 1 else 0)) ?r)"
    moreover have "?r = drop (off + ?k) content" using tk(2) "1.prems"(2) by (simp add: add.commute)
    ultimately show ?thesis using "1.IH" [OF rest refl refl] len unfolding off by blast
  qed
qed

lemma parseEntry_valid: "parseEntry raw off len n = Some r \<Longrightarrow> validJson raw"
  by (cases "parseJson raw") (auto simp: parseEntry_def validJson_def)

lemma entriesOf_slice:
  "entriesOf sls = Some refs \<Longrightarrow> r \<in> set refs \<Longrightarrow> \<exists>sl \<in> set sls. parseSlice sl = Some r"
proof (induction sls arbitrary: refs)
  case (Cons sl sls)
  then show ?case by (cases "parseSlice sl") (auto split: if_splits)
qed simp

lemma fileEntries_readable:
  assumes "fileEntries content = Some (h, refs)" and "r \<in> set refs"
  shows "\<exists>raw. readRecord content r chunk = Some raw \<and> parseEntry raw (refOffset r) (refLength r) (refLine r) = Some r"
proof -
  from assms obtain sl where sl: "sl \<in> set (slicesFrom 0 0 content)" and ps: "parseSlice sl = Some r"
    by (fastforce simp: fileEntries_def nonblank_def split: list.splits option.splits dest: entriesOf_slice
        dest!: arg_cong [of _ _ set])
  from slicesFrom_text [OF sl] have
    bytes: "sliceOffset sl + sliceLength sl \<le> length content"
      "trimSpace (take (sliceLength sl) (drop (sliceOffset sl) content)) = trimSpace (sliceText sl)"
    by (auto simp: trimSpace_newline)
  from ps have co: "refOffset r = sliceOffset sl" "refLength r = sliceLength sl" "refLine r = sliceNo sl"
    by (auto simp: parseSlice_def dest: parseEntry_Some)
  with ps have "parseEntry (trimSpace (sliceText sl)) (refOffset r) (refLength r) (refLine r) = Some r"
    by (simp add: parseSlice_def)
  with bytes co show ?thesis by (auto simp: readRecord_spec Let_def dest: parseEntry_valid)
qed

text \<open>
  C5: Every entry of an indexed branch can be read back from the unchanged file, whatever the
  chunk size: the bytes at its offset and length are the trimmed JSON line the index parsed, and
  parsing them again gives the same coordinates.
\<close>
theorem indexed_records_readable:
  assumes "\<forall>n. ctx n = None" and "1 \<le> maxLineBytes opts" and "1 \<le> indexBytes opts"
    and "indexBytes opts \<le> max_int64" and "index ctx opts None content = Inr (m, branch)" and "r \<in> set branch"
  shows "\<exists>raw. readRecord content r chunk = Some raw \<and> parseEntry raw (refOffset r) (refLength r) (refLine r) = Some r"
proof -
  from index_scan [OF assms(1-5)] obtain h refs where "fileEntries content = Some (h, refs)" "activeBranch refs branch"
    by blast
  moreover from this(2) assms(6) have "r \<in> set refs" by (auto simp: activeBranch_def rootChain_def split: if_splits)
  ultimately show ?thesis using fileEntries_readable by blast
qed

theorem indexed_records_readable_witness:
  "index (\<lambda>_. None) demoOptions None demoFile = Inr (branchMeta demoHeader demoRefs demoRefs, demoRefs)
   \<and> (\<exists>raw. readRecord demoFile (demoRefs ! 1) 7 = Some raw
        \<and> parseEntry raw (refOffset (demoRefs ! 1)) (refLength (demoRefs ! 1)) (refLine (demoRefs ! 1)) = Some (demoRefs ! 1))"
proof -
  have b: "1 \<le> maxLineBytes demoOptions" "1 \<le> indexBytes demoOptions" "indexBytes demoOptions \<le> max_int64"
    by (simp_all add: demoOptions_def max_int64_def)
  have "demoRefs ! 1 \<in> set demoRefs" by (simp add: demoRefs_def)
  from demo_index indexed_records_readable [OF _ b demo_index this, of 7] show ?thesis by simp
qed

subsection \<open>Pages of a range\<close>

text \<open>The greedy grouping both loops perform, and the pages it gives in either direction.\<close>

fun pack :: "options \<Rightarrow> string list \<Rightarrow> nat \<Rightarrow> string list \<Rightarrow> string list list" where
  "pack opts page bytes [] = [page]"
| "pack opts page bytes (raw # raws) =
     (if pageFull opts page bytes raw then page # pack opts [raw] (length raw) raws
      else pack opts (page @ [raw]) (bytes + length raw) raws)"

fun ascPages :: "bool \<Rightarrow> nat \<Rightarrow> string list list \<Rightarrow> page list" where
  "ascPages complete start [] = []"
| "ascPages complete start (g # gs) =
     \<lparr>pageEntriesOf = g, pageStart = start, pageFinal = (gs = [] \<and> complete), pageHead = False\<rparr>
     # ascPages complete (start + length g) gs"

fun descPages :: "bool \<Rightarrow> nat \<Rightarrow> string list list \<Rightarrow> page list" where
  "descPages complete hi [] = []"
| "descPages complete hi (g # gs) =
     \<lparr>pageEntriesOf = rev g, pageStart = hi - length g, pageFinal = (gs = [] \<and> complete), pageHead = True\<rparr>
     # descPages complete (hi - length g) gs"

lemma concat_pack: "concat (pack opts page bytes raws) = page @ raws"
  by (induction raws arbitrary: page bytes) auto

lemma pack_ne [simp]: "pack opts page bytes raws \<noteq> []"
  by (induction raws arbitrary: page bytes) auto

definition groupOK :: "options \<Rightarrow> string list \<Rightarrow> bool" where
  "groupOK opts g \<longleftrightarrow> g \<noteq> [] \<and> int (length g) \<le> pageEntries opts
     \<and> (int (sum_list (map length g)) \<le> pageBytes opts \<or> length g = 1)"

lemma pack_groupOK:
  assumes "1 \<le> pageEntries opts" and "page = [] \<and> raws \<noteq> [] \<or> groupOK opts page"
    and "bytes = sum_list (map length page)"
  shows "\<forall>g \<in> set (pack opts page bytes raws). groupOK opts g"
  using assms(2,3)
proof (induction raws arbitrary: page bytes)
  case (Cons raw raws)
  have single: "groupOK opts [raw]" using assms(1) by (simp add: groupOK_def)
  show ?case
  proof (cases "pageFull opts page bytes raw")
    case True
    then have "groupOK opts page" using Cons.prems by (auto simp: pageFull_def)
    with True Cons.IH [of "[raw]" "length raw"] single show ?thesis by simp
  next
    case False
    have "groupOK opts (page @ [raw])"
      using False Cons.prems single by (cases "page = []") (auto simp: pageFull_def groupOK_def)
    with False Cons.IH [of "page @ [raw]" "bytes + length raw"] Cons.prems(2) show ?thesis by simp
  qed
qed auto

definition quiet :: "emitEnv \<Rightarrow> bool" where
  "quiet env \<longleftrightarrow> (\<forall>n. envCtx env n = None) \<and> (\<forall>m ds pg. envEmit env m ds pg = None)"

definition recordsOf :: "emitEnv \<Rightarrow> entryRef list \<Rightarrow> string list \<Rightarrow> bool" where
  "recordsOf env refs raws \<longleftrightarrow>
     list_all2 (\<lambda>r raw. readRecord (envFile env) r (chunkBytes (envOpts env)) = Some raw) refs raws"

text \<open>
  A run delivers \<open>ps\<close>: what it hands to the callback is a prefix of \<open>ps\<close>, all of it when it reports
  success, and it succeeds when neither the context nor the callback fails.
\<close>

definition delivers :: "emitEnv \<Rightarrow> emitState \<Rightarrow> cherr option \<times> emitState \<Rightarrow> page list \<Rightarrow> bool" where
  "delivers env st res ps \<longleftrightarrow>
     (\<exists>qs. prefix qs ps \<and> delivered (snd res) = delivered st @ qs \<and> (fst res = None \<longrightarrow> qs = ps))
     \<and> (quiet env \<longrightarrow> fst res = None)"

lemma delivers_error:
  "\<not> quiet env \<Longrightarrow> delivered st' = delivered st \<Longrightarrow> delivers env st (Some err, st') ps"
  by (auto simp: delivers_def)

lemma delivers_nothing: "delivered st' = delivered st \<Longrightarrow> delivers env st (None, st') []"
  by (auto simp: delivers_def)

lemma emitPage_delivers: "delivers env st (emitPage env pg st) [pg]"
  by (auto simp: delivers_def emitPage_def quiet_def)

lemma delivers_state: "delivered st' = delivered st \<Longrightarrow> delivers env st' res ps \<Longrightarrow> delivers env st res ps"
  by (auto simp: delivers_def)

lemma delivers_seq:
  assumes "delivers env st (err, st1) ps" and "err = None \<Longrightarrow> delivers env st1 res qs"
  shows "delivers env st (if err \<noteq> None then (err, st1) else res) (ps @ qs)"
proof (cases "err = None")
  case True
  with assms show ?thesis by (fastforce simp: delivers_def)
next
  case False
  with assms(1) show ?thesis by (auto simp: delivers_def)
qed

lemma fetch_ok:
  assumes "readRecord (envFile env) ref (chunkBytes (envOpts env)) = Some raw"
  shows "(\<exists>err. \<not> quiet env \<and> fetch env ref st = (Inl err, st\<lparr>polls := Suc (polls st)\<rparr>))
    \<or> fetch env ref st = (Inr raw, st\<lparr>polls := Suc (polls st)\<rparr>)"
  using assms by (cases "envCtx env (polls st)") (auto simp: fetch_def quiet_def)

lemma emitRangeLoop_delivers:
  assumes "recordsOf env refs raws" and "refs \<noteq> []"
  shows "delivers env st (emitRangeLoop env complete page bytes start refs st)
    (ascPages complete start (pack (envOpts env) page bytes raws))"
  using assms
proof (induction refs arbitrary: raws page bytes start st)
  case (Cons ref refs)
  then obtain raw raws' where raws: "raws = raw # raws'"
    and raw: "readRecord (envFile env) ref (chunkBytes (envOpts env)) = Some raw"
    and rest: "recordsOf env refs raws'"
    by (auto simp: recordsOf_def list_all2_Cons1)
  let ?st = "st\<lparr>polls := Suc (polls st)\<rparr>"
  have nil: "refs = [] \<Longrightarrow> raws' = []" using rest by (simp add: recordsOf_def)
  from fetch_ok [OF raw, of st] show ?case
  proof
    assume "\<exists>err. \<not> quiet env \<and> fetch env ref st = (Inl err, ?st)"
    then show ?thesis by (auto intro!: delivers_error)
  next
    assume f: "fetch env ref st = (Inr raw, ?st)"
    have cont: "delivers env st' (if refs = []
          then emitPage env \<lparr>pageEntriesOf = pg, pageStart = s', pageFinal = complete, pageHead = False\<rparr> st'
          else emitRangeLoop env complete pg bb s' refs st')
        (ascPages complete s' (pack (envOpts env) pg bb raws'))" for pg bb s' st'
      using Cons.IH [OF rest] nil emitPage_delivers by (cases "refs = []") auto
    show ?thesis
    proof (cases "pageFull (envOpts env) page bytes raw")
      case True
      let ?pg = "\<lparr>pageEntriesOf = page, pageStart = start, pageFinal = False, pageHead = False\<rparr>"
      obtain err st2 where e: "emitPage env ?pg ?st = (err, st2)" by (cases "emitPage env ?pg ?st")
      have "delivers env ?st (err, st2) [?pg]" using emitPage_delivers e by metis
      from delivers_seq [OF this cont [of st2 "[raw]" "start + length page" "length raw"]] True f e raws
      show ?thesis by (auto simp: Let_def intro: delivers_state [of ?st])
    next
      case False
      with cont [of ?st "page @ [raw]" start "bytes + length raw"] f raws
      show ?thesis by (auto simp: Let_def intro: delivers_state [of ?st])
    qed
  qed
qed simp

lemma emitHeadLoop_delivers:
  assumes "recordsOf env refs raws" and "refs \<noteq> []" and "length refs \<le> Suc i"
    and "if page = [] then hi = Suc i else pageTop = i + length page \<and> hi = Suc pageTop"
  shows "delivers env st (emitHeadLoop env complete page bytes pageTop i refs st)
    (descPages complete hi (pack (envOpts env) page bytes raws))"
  using assms
proof (induction refs arbitrary: raws page bytes pageTop i hi st)
  case (Cons ref refs)
  then obtain raw raws' where raws: "raws = raw # raws'"
    and raw: "readRecord (envFile env) ref (chunkBytes (envOpts env)) = Some raw"
    and rest: "recordsOf env refs raws'"
    by (auto simp: recordsOf_def list_all2_Cons1)
  let ?st = "st\<lparr>polls := Suc (polls st)\<rparr>"
  have nil: "refs = [] \<Longrightarrow> raws' = []" using rest by (simp add: recordsOf_def)
  from fetch_ok [OF raw, of st] show ?case
  proof
    assume "\<exists>err. \<not> quiet env \<and> fetch env ref st = (Inl err, ?st)"
    then show ?thesis by (auto intro!: delivers_error)
  next
    assume f: "fetch env ref st = (Inr raw, ?st)"
    have cont: "delivers env st' (if refs = []
          then emitPage env \<lparr>pageEntriesOf = rev pg, pageStart = Suc top - length pg, pageFinal = complete, pageHead = True\<rparr> st'
          else emitHeadLoop env complete pg bb top (i - 1) refs st')
        (descPages complete (Suc top) (pack (envOpts env) pg bb raws'))"
      if "pg \<noteq> []" "top = i + length pg - 1" for pg bb top st'
    proof (cases "refs = []")
      case True
      with nil emitPage_delivers show ?thesis by simp
    next
      case False
      with Cons.prems(3) have i: "1 \<le> i" "length refs \<le> Suc (i - 1)" by (cases refs; auto)+
      with that have "if pg = [] then Suc top = Suc (i - 1) else top = i - 1 + length pg \<and> Suc top = Suc top"
        by (cases pg) auto
      from Cons.IH [OF rest False i(2) this] False show ?thesis by simp
    qed
    show ?thesis
    proof (cases "pageFull (envOpts env) page bytes raw")
      case True
      then have page: "page \<noteq> []" by (simp add: pageFull_def)
      with Cons.prems(4) have hi: "hi = Suc pageTop" "Suc pageTop - length page = Suc i" by auto
      let ?pg = "\<lparr>pageEntriesOf = rev page, pageStart = Suc pageTop - length page, pageFinal = False, pageHead = True\<rparr>"
      obtain err st2 where e: "emitPage env ?pg ?st = (err, st2)" by (cases "emitPage env ?pg ?st")
      have "delivers env ?st (err, st2) [?pg]" using emitPage_delivers e by metis
      from delivers_seq [OF this cont [of "[raw]" i st2 "length raw"]] True f e raws hi
      show ?thesis by (auto simp: Let_def intro: delivers_state [of ?st])
    next
      case False
      let ?top = "if page = [] then i else pageTop"
      have "?top = i + length (page @ [raw]) - 1" "hi = Suc ?top" using Cons.prems(4) by (auto split: if_splits)
      with cont [of "page @ [raw]" ?top ?st "bytes + length raw"] f raws False
      show ?thesis by (auto simp: Let_def intro: delivers_state [of ?st] split: if_splits)
    qed
  qed
qed simp

lemma recordsOf_length: "recordsOf env refs raws \<Longrightarrow> length refs = length raws"
  by (auto simp: recordsOf_def dest: list_all2_lengthD)

lemma recordsOf_range:
  "recordsOf env branch raws \<Longrightarrow> recordsOf env (branchRange branch lo hi) (take (hi - lo) (drop lo raws))"
  by (simp add: recordsOf_def branchRange_def list_all2_takeI list_all2_dropI)

lemma recordsOf_rev: "recordsOf env refs raws \<Longrightarrow> recordsOf env (rev refs) (rev raws)"
  by (simp add: recordsOf_def)

definition rangePages :: "options \<Rightarrow> string list \<Rightarrow> nat \<Rightarrow> nat \<Rightarrow> bool \<Rightarrow> bool \<Rightarrow> page list" where
  "rangePages opts raws lo hi head complete =
     (let part = take (hi - lo) (drop lo raws) in
      if lo = hi then
        (if complete then [\<lparr>pageEntriesOf = [], pageStart = lo, pageFinal = True, pageHead = head\<rparr>] else [])
      else if head then descPages complete hi (pack opts [] 0 (rev part))
      else ascPages complete lo (pack opts [] 0 part))"

lemma emitRange_delivers:
  assumes "recordsOf env branch raws" and "lo \<le> hi" and "hi \<le> length branch"
  shows "delivers env st (emitRange env branch lo hi head complete st)
    (rangePages (envOpts env) raws lo hi head complete)"
proof (cases "lo = hi")
  case True
  then show ?thesis by (auto simp: emitRange_def rangePages_def emitPage_delivers delivers_nothing)
next
  case False
  with assms have ne: "branchRange branch lo hi \<noteq> []" and len: "length (branchRange branch lo hi) = hi - lo"
    by (auto simp: branchRange_def)
  note rec = recordsOf_range [OF assms(1), of lo hi]
  have "delivers env st (emitHeadRange env branch lo hi complete st)
      (descPages complete hi (pack (envOpts env) [] 0 (rev (take (hi - lo) (drop lo raws)))))"
    unfolding emitHeadRange_def
    by (rule emitHeadLoop_delivers) (use recordsOf_rev [OF rec] ne len False assms(2) in auto)
  moreover have "delivers env st (emitRangeLoop env complete [] 0 lo (branchRange branch lo hi) st)
      (ascPages complete lo (pack (envOpts env) [] 0 (take (hi - lo) (drop lo raws))))"
    by (rule emitRangeLoop_delivers [OF rec ne])
  ultimately show ?thesis using False by (simp add: emitRange_def rangePages_def Let_def)
qed

function warmPages :: "options \<Rightarrow> string list \<Rightarrow> nat \<Rightarrow> nat \<Rightarrow> page list" where
  "warmPages opts raws pos w =
     (if pos = 0 then []
      else rangePages opts raws (pos - Suc w) pos True (pos - Suc w = 0) @ warmPages opts raws (pos - Suc w) w)"
  by pat_completeness auto
termination
  by (relation "measure (\<lambda>(opts, raws, pos, w). pos)") auto

declare warmPages.simps [simp del]

lemma emitWarmRanges_delivers:
  assumes "recordsOf env branch raws"
  shows "pos \<le> length branch \<Longrightarrow>
    delivers env st (emitWarmRanges env branch pos w st) (warmPages (envOpts env) raws pos w)"
proof (induction pos arbitrary: st rule: less_induct)
  case (less pos)
  show ?case
  proof (cases "pos = 0")
    case True
    then show ?thesis by (simp add: emitWarmRanges.simps warmPages.simps delivers_nothing)
  next
    case False
    let ?start = "pos - Suc w"
    obtain err st1 where e: "emitRange env branch ?start pos True (?start = 0) st = (err, st1)"
      by (cases "emitRange env branch ?start pos True (?start = 0) st")
    have "delivers env st (err, st1) (rangePages (envOpts env) raws ?start pos True (?start = 0))"
      using emitRange_delivers [OF assms, of ?start pos st True "?start = 0"] less.prems e by simp
    from delivers_seq [OF this less.IH [of ?start st1]] False less.prems e show ?thesis
      by (subst emitWarmRanges.simps, subst warmPages.simps) (simp add: Let_def)
  qed
qed

subsection \<open>Tail first\<close>

fun tailCut :: "options \<Rightarrow> nat \<Rightarrow> nat \<Rightarrow> nat \<Rightarrow> nat \<Rightarrow> string list \<Rightarrow> nat" where
  "tailCut opts n tailStart used i [] = tailStart"
| "tailCut opts n tailStart used i (raw # raws) =
     (if i < n - 1 \<and> tailBytes opts < int (used + length raw) then i + 1
      else tailCut opts n tailStart (used + length raw) (i - 1) raws)"

lemma tailScan_cut:
  assumes "recordsOf env refs raws"
  shows "delivered (snd (tailScan env n tailStart used i refs st)) = delivered st
    \<and> (case fst (tailScan env n tailStart used i refs st) of
         Inl err \<Rightarrow> \<not> quiet env
       | Inr k \<Rightarrow> k = tailCut (envOpts env) n tailStart used i raws)"
  using assms
proof (induction refs arbitrary: raws used i st)
  case (Cons ref refs)
  then obtain raw raws' where raws: "raws = raw # raws'"
    and raw: "readRecord (envFile env) ref (chunkBytes (envOpts env)) = Some raw"
    and rest: "recordsOf env refs raws'"
    by (auto simp: recordsOf_def list_all2_Cons1)
  let ?st = "st\<lparr>polls := Suc (polls st)\<rparr>"
  from fetch_ok [OF raw, of st] Cons.IH [OF rest, of "used + length raw" "i - 1" ?st] show ?case
    unfolding raws by (auto simp: Let_def split: sum.splits)
qed (simp add: recordsOf_def)

lemma tailCut_le:
  "tailStart < n \<Longrightarrow> i < n \<Longrightarrow> tailCut opts n tailStart used i raws < n"
  by (induction raws arbitrary: used i) (auto intro: less_imp_diff_less)

definition tailStartOf :: "options \<Rightarrow> nat \<Rightarrow> string list \<Rightarrow> nat" where
  "tailStartOf opts tailEntries raws =
     (let n = length raws; t = n - tailEntries in
      if 0 < tailBytes opts then tailCut opts n t 0 (n - 1) (rev (drop t raws)) else t)"

definition tailPages :: "options \<Rightarrow> string list \<Rightarrow> nat \<Rightarrow> nat \<Rightarrow> page list" where
  "tailPages opts raws tailEntries w =
     (let n = length raws; t = tailStartOf opts tailEntries raws in
      rangePages opts raws t n False (t = 0 \<or> skipWarm opts)
      @ (if skipWarm opts then [] else warmPages opts raws t w))"

lemma tailStartOf_bound:
  assumes "1 \<le> tailEntries"
  shows "tailStartOf opts tailEntries raws \<le> length raws"
    and "raws \<noteq> [] \<Longrightarrow> tailStartOf opts tailEntries raws < length raws"
proof -
  have "tailStartOf opts tailEntries raws < length raws" if "raws \<noteq> []"
  proof -
    from that assms have "length raws - tailEntries < length raws" "length raws - 1 < length raws"
      by (cases raws; auto)+
    from tailCut_le [OF this] this(1) show ?thesis by (simp add: tailStartOf_def Let_def)
  qed
  moreover have "raws = [] \<Longrightarrow> tailStartOf opts tailEntries raws = 0"
    by (simp add: tailStartOf_def Let_def)
  ultimately show "tailStartOf opts tailEntries raws \<le> length raws"
    and "raws \<noteq> [] \<Longrightarrow> tailStartOf opts tailEntries raws < length raws"
    by (cases "raws = []"; force)+
qed

lemma emitTailFirst_delivers:
  assumes "recordsOf env branch raws" and "1 \<le> tailEntries"
  shows "delivers env st (emitTailFirst env branch tailEntries w st) (tailPages (envOpts env) raws tailEntries w)"
proof -
  let ?n = "length branch" and ?o = "envOpts env"
  let ?t = "?n - tailEntries"
  have n: "length raws = ?n" using recordsOf_length [OF assms(1)] by simp
  let ?scan = "if 0 < tailBytes ?o then tailScan env ?n ?t 0 (?n - 1) (rev (branchRange branch ?t ?n)) st else (Inr ?t, st)"
  obtain r st1 where sc: "?scan = (r, st1)" by (cases ?scan)
  have rev: "recordsOf env (rev (branchRange branch ?t ?n)) (rev (drop ?t raws))"
    using recordsOf_rev [OF recordsOf_range [OF assms(1), of ?t ?n]] n by simp
  have scan: "delivered st1 = delivered st"
      "case r of Inl err \<Rightarrow> \<not> quiet env | Inr k \<Rightarrow> k = tailStartOf ?o tailEntries raws"
    using tailScan_cut [OF rev, of ?n ?t 0 "?n - 1" st] sc n
    by (auto simp: tailStartOf_def Let_def split: if_splits sum.splits)
  show ?thesis
  proof (cases r)
    case (Inl err)
    with sc scan show ?thesis by (auto simp: emitTailFirst_def Let_def intro: delivers_error)
  next
    case (Inr k)
    with scan have k: "k = tailStartOf ?o tailEntries raws" by simp
    have kb: "k \<le> ?n" using tailStartOf_bound(1) [OF assms(2), of ?o raws] k n by simp
    obtain err st2 where e: "emitRange env branch k ?n False (k = 0 \<or> skipWarm ?o) st1 = (err, st2)"
      by (cases "emitRange env branch k ?n False (k = 0 \<or> skipWarm ?o) st1")
    have "delivers env st1 (err, st2) (rangePages ?o raws k ?n False (k = 0 \<or> skipWarm ?o))"
      using emitRange_delivers [OF assms(1) kb order_refl, of st1 False "k = 0 \<or> skipWarm ?o"] e by simp
    moreover have "delivers env st2 (if skipWarm ?o then (None, st2) else emitWarmRanges env branch k w st2)
        (if skipWarm ?o then [] else warmPages ?o raws k w)"
      using emitWarmRanges_delivers [OF assms(1) kb, of st2 w] by (simp add: delivers_nothing)
    ultimately have "delivers env st1
        (if err \<noteq> None then (err, st2) else if skipWarm ?o then (None, st2) else emitWarmRanges env branch k w st2)
        (tailPages ?o raws tailEntries w)"
      unfolding tailPages_def Let_def k [symmetric] n by (rule delivers_seq)
    with scan(1) sc Inr e show ?thesis
      by (auto simp: emitTailFirst_def Let_def intro: delivers_state)
  qed
qed

text \<open>The pages of a resume: the entries after the cursor, then the ranges before its first entry.\<close>

definition resumePages :: "options \<Rightarrow> string list \<Rightarrow> nat \<Rightarrow> nat \<Rightarrow> nat \<Rightarrow> page list" where
  "resumePages opts raws firstIx lastIx w =
     (let n = length raws; final = (skipWarm opts \<or> firstIx = 0) in
      (if lastIx + 1 = n
       then [\<lparr>pageEntriesOf = [], pageStart = lastIx + 1, pageFinal = final, pageHead = False\<rparr>]
       else rangePages opts raws (lastIx + 1) n False final)
      @ (if skipWarm opts then [] else warmPages opts raws firstIx w))"

definition cursorOf :: "emitEnv \<Rightarrow> cherr + resumeCursor option" where
  "cursorOf env = (case resolveResume (envOpts env) of
     None \<Rightarrow> Inr (optResume (envOpts env)) | Some resolve \<Rightarrow> resolve (envMeta env))"

definition tailFirstPages :: "emitEnv \<Rightarrow> entryRef list \<Rightarrow> string list \<Rightarrow> nat \<Rightarrow> nat \<Rightarrow> page list" where
  "tailFirstPages env branch raws tailEntries w =
     (case cursorOf env of
        Inl err \<Rightarrow> []
      | Inr cursor \<Rightarrow>
          (case acceptCursor (envMeta env) branch cursor of
             Some (c, firstIx, lastIx) \<Rightarrow> resumePages (envOpts env) raws firstIx lastIx w
           | None \<Rightarrow> tailPages (envOpts env) raws tailEntries w))"

lemma lastIndexOf_bound:
  "(\<forall>f. found = Some f \<longrightarrow> f < k + length rs) \<Longrightarrow> lastIndexOf i k rs found = Some x \<Longrightarrow> x < k + length rs"
proof (induction rs arbitrary: k found)
  case (Cons r rs)
  have "\<forall>f. (if refID r = i then Some k else found) = Some f \<longrightarrow> f < Suc k + length rs"
    using Cons.prems(1) by auto
  from Cons.IH [OF this] Cons.prems(2) show ?case by simp
qed simp

lemma acceptCursor_bounds:
  "acceptCursor m branch cursor = Some (c, f, l) \<Longrightarrow> f \<le> l \<and> l < length branch"
  by (auto simp: acceptCursor_def split: option.splits if_splits dest: lastIndexOf_bound [of None 0, simplified])

definition failureOf :: "(cherr + 'a) \<times> emitState \<Rightarrow> cherr option \<times> emitState" where
  "failureOf res = (case fst res of Inl err \<Rightarrow> Some err | Inr _ \<Rightarrow> None, snd res)"

lemma delivers_meta: "delivers (env\<lparr>envMeta := m\<rparr>) st res ps = delivers env st res ps"
  by (simp add: delivers_def quiet_def)

lemma tailFirst_delivers:
  assumes "recordsOf env branch raws" and "1 \<le> tailEntries" and "\<exists>cursor. cursorOf env = Inr cursor"
  shows "delivers env st (failureOf (tailFirst env branch tailEntries w st)) (tailFirstPages env branch raws tailEntries w)"
proof -
  from assms(3) obtain cursor where cu: "cursorOf env = Inr cursor" by blast
  let ?o = "envOpts env"
  show ?thesis
  proof (cases "acceptCursor (envMeta env) branch cursor")
    case None
    obtain err st1 where e: "emitTailFirst env branch tailEntries w st = (err, st1)"
      by (cases "emitTailFirst env branch tailEntries w st")
    have "failureOf (tailFirst env branch tailEntries w st) = (err, st1)"
      using cu None e by (cases err) (simp_all add: tailFirst_def Let_def failureOf_def cursorOf_def)
    moreover have "delivers env st (err, st1) (tailPages ?o raws tailEntries w)"
      using emitTailFirst_delivers [OF assms(1,2), of st w] e by simp
    ultimately show ?thesis using cu None by (simp add: tailFirstPages_def)
  next
    case (Some a)
    then obtain c f l where acc: "acceptCursor (envMeta env) branch cursor = Some (c, f, l)" by (cases a) auto
    then have fl: "f \<le> l" "l < length branch" by (auto dest: acceptCursor_bounds)
    have n: "length raws = length branch" using recordsOf_length [OF assms(1)] by simp
    let ?env = "env\<lparr>envMeta := (envMeta env)\<lparr>metaResume := Some c\<rparr>\<rparr>"
    let ?final = "skipWarm ?o \<or> f = 0"
    let ?first = "if l + 1 = length branch
      then emitPage ?env \<lparr>pageEntriesOf = [], pageStart = l + 1, pageFinal = ?final, pageHead = False\<rparr> st
      else emitRange ?env branch (l + 1) (length branch) False ?final st"
    obtain err st1 where e: "?first = (err, st1)" by (cases ?first)
    have rec: "recordsOf ?env branch raws" using assms(1) by (simp add: recordsOf_def)
    have "delivers ?env st (err, st1)
      (if l + 1 = length raws then [\<lparr>pageEntriesOf = [], pageStart = l + 1, pageFinal = ?final, pageHead = False\<rparr>]
       else rangePages ?o raws (l + 1) (length raws) False ?final)"
    proof (cases "l + 1 = length branch")
      case True
      then have "(err, st1) = emitPage ?env \<lparr>pageEntriesOf = [], pageStart = l + 1, pageFinal = ?final, pageHead = False\<rparr> st"
        using e by simp
      with True n show ?thesis by (simp add: emitPage_delivers)
    next
      case False
      then have "(err, st1) = emitRange ?env branch (l + 1) (length branch) False ?final st" using e by simp
      with False n emitRange_delivers [OF rec, of "l + 1" "length branch" st False ?final] fl show ?thesis by simp
    qed
    moreover have "delivers ?env st1 (if skipWarm ?o then (None, st1) else emitWarmRanges ?env branch f w st1)
        (if skipWarm ?o then [] else warmPages ?o raws f w)"
      using emitWarmRanges_delivers [OF rec, of f st1 w] fl by (simp add: delivers_nothing)
    ultimately have d: "delivers ?env st
        (if err \<noteq> None then (err, st1) else if skipWarm ?o then (None, st1) else emitWarmRanges ?env branch f w st1)
        (resumePages ?o raws f l w)"
      unfolding resumePages_def Let_def by (rule delivers_seq)
    have "failureOf (tailFirst env branch tailEntries w st)
      = (if err \<noteq> None then (err, st1) else if skipWarm ?o then (None, st1) else emitWarmRanges ?env branch f w st1)"
      using cu acc e
      by (cases "emitWarmRanges ?env branch f w st1")
        (auto simp: tailFirst_def Let_def failureOf_def cursorOf_def split: option.splits)
    with d cu acc show ?thesis by (simp add: tailFirstPages_def delivers_meta)
  qed
qed

subsection \<open>What a consumer rebuilds\<close>

text \<open>The browser appends ordinary pages and prepends \<open>Head\<close> pages.\<close>

definition applyPage :: "string list \<Rightarrow> page \<Rightarrow> string list" where
  "applyPage held pg = (if pageHead pg then pageEntriesOf pg @ held else held @ pageEntriesOf pg)"

lemma apply_ascPages: "foldl applyPage held (ascPages complete start gs) = held @ concat gs"
  by (induction gs arbitrary: held start) (auto simp: applyPage_def)

lemma apply_descPages: "foldl applyPage held (descPages complete hi gs) = rev (concat gs) @ held"
  by (induction gs arbitrary: held hi) (auto simp: applyPage_def)

lemma apply_rangePages:
  "lo \<le> hi \<Longrightarrow> hi \<le> length raws \<Longrightarrow>
     foldl applyPage held (rangePages opts raws lo hi head complete) =
       (if head then take (hi - lo) (drop lo raws) @ held else held @ take (hi - lo) (drop lo raws))"
  by (auto simp: rangePages_def Let_def apply_ascPages apply_descPages concat_pack applyPage_def)

lemma apply_warmPages:
  "pos \<le> length raws \<Longrightarrow> foldl applyPage held (warmPages opts raws pos w) = take pos raws @ held"
proof (induction pos arbitrary: held rule: less_induct)
  case (less pos)
  show ?case
  proof (cases "pos = 0")
    case True
    then show ?thesis by (simp add: warmPages.simps)
  next
    case False
    let ?s = "pos - Suc w"
    have "take pos raws = take ?s raws @ take (pos - ?s) (drop ?s raws)"
      using take_add [of ?s "pos - ?s" raws] by simp
    with False less.prems less.IH [of ?s] show ?thesis
      by (subst warmPages.simps) (simp add: apply_rangePages)
  qed
qed

text \<open>The part of the branch the consumer holds before the stream: what its accepted cursor names.\<close>

definition heldEntries :: "emitEnv \<Rightarrow> entryRef list \<Rightarrow> string list \<Rightarrow> string list" where
  "heldEntries env branch raws =
     (case cursorOf env of
        Inl err \<Rightarrow> []
      | Inr cursor \<Rightarrow>
          (case acceptCursor (envMeta env) branch cursor of
             Some (c, f, l) \<Rightarrow> take (l + 1 - f) (drop f raws)
           | None \<Rightarrow> []))"

lemma apply_tailFirstPages:
  assumes "recordsOf env branch raws" and "1 \<le> tailEntries" and "cursorOf env = Inr cursor"
    and "\<not> skipWarm (envOpts env)"
  shows "foldl applyPage (heldEntries env branch raws) (tailFirstPages env branch raws tailEntries w) = raws"
proof (cases "acceptCursor (envMeta env) branch cursor")
  case None
  have "tailStartOf (envOpts env) tailEntries raws \<le> length raws" by (rule tailStartOf_bound(1) [OF assms(2)])
  with None assms(3,4) show ?thesis
    by (simp add: heldEntries_def tailFirstPages_def tailPages_def Let_def apply_rangePages apply_warmPages)
next
  case (Some a)
  then obtain c f l where acc: "acceptCursor (envMeta env) branch cursor = Some (c, f, l)" by (cases a) auto
  then have fl: "f \<le> l" "l < length raws"
    using recordsOf_length [OF assms(1)] by (auto dest: acceptCursor_bounds)
  have "raws = take f raws @ take (l + 1 - f) (drop f raws) @ drop (l + 1) raws"
    using fl by (metis append_take_drop_id drop_drop le_SucI le_add_diff_inverse2 Suc_eq_plus1)
  with acc fl assms(3,4) show ?thesis
    by (simp add: heldEntries_def tailFirstPages_def resumePages_def Let_def apply_rangePages apply_warmPages applyPage_def)
qed

definition pageSound :: "options \<Rightarrow> string list \<Rightarrow> page \<Rightarrow> bool" where
  "pageSound opts raws pg \<longleftrightarrow>
     pageStart pg + length (pageEntriesOf pg) \<le> length raws
     \<and> pageEntriesOf pg = take (length (pageEntriesOf pg)) (drop (pageStart pg) raws)
     \<and> int (length (pageEntriesOf pg)) \<le> pageEntries opts
     \<and> (int (sum_list (map length (pageEntriesOf pg))) \<le> pageBytes opts \<or> length (pageEntriesOf pg) = 1)"

definition finalLast :: "page list \<Rightarrow> bool" where
  "finalLast ps \<longleftrightarrow> ps \<noteq> [] \<and> (\<forall>p \<in> set (butlast ps). \<not> pageFinal p) \<and> pageFinal (last ps)"

lemma groupOK_rev: "groupOK opts g \<Longrightarrow> groupOK opts (rev g)"
  by (simp add: groupOK_def rev_map [symmetric])

lemma pageSound_group:
  "groupOK opts g \<Longrightarrow> start + length g \<le> length raws \<Longrightarrow> g = take (length g) (drop start raws) \<Longrightarrow>
     pageSound opts raws \<lparr>pageEntriesOf = g, pageStart = start, pageFinal = f, pageHead = h\<rparr>"
  by (simp add: pageSound_def groupOK_def)

lemma ascPages_sound:
  "\<forall>g \<in> set gs. groupOK opts g \<Longrightarrow> start + length (concat gs) \<le> length raws \<Longrightarrow>
     concat gs = take (length (concat gs)) (drop start raws) \<Longrightarrow>
     \<forall>pg \<in> set (ascPages complete start gs). pageSound opts raws pg"
proof (induction gs arbitrary: start)
  case (Cons g gs)
  from Cons.prems(3) have "g @ concat gs = take (length g) (drop start raws)
      @ take (length (concat gs)) (drop (start + length g) raws)"
    by (simp add: take_add add.commute)
  moreover have "length (take (length g) (drop start raws)) = length g" using Cons.prems(2) by simp
  ultimately have "g = take (length g) (drop start raws)"
    and "concat gs = take (length (concat gs)) (drop (start + length g) raws)"
    by (simp_all add: append_eq_append_conv)
  with Cons.IH [of "start + length g"] Cons.prems pageSound_group [of opts g start raws] show ?case by simp
qed simp

lemma descPages_sound:
  "\<forall>g \<in> set gs. groupOK opts g \<Longrightarrow> length (concat gs) \<le> hi \<Longrightarrow> hi \<le> length raws \<Longrightarrow>
     rev (concat gs) = take (length (concat gs)) (drop (hi - length (concat gs)) raws) \<Longrightarrow>
     \<forall>pg \<in> set (descPages complete hi gs). pageSound opts raws pg"
proof (induction gs arbitrary: hi)
  case (Cons g gs)
  let ?c = "length (concat gs)"
  have k: "hi - length (concat (g # gs)) + ?c = hi - length g" using Cons.prems(2) by simp
  have "take (length (concat (g # gs))) (drop (hi - length (concat (g # gs))) raws)
      = take ?c (drop (hi - length (concat (g # gs))) raws) @ take (length g) (drop (hi - length g) raws)"
    using take_add [of ?c "length g" "drop (hi - length (concat (g # gs))) raws"] k by (simp add: add.commute)
  with Cons.prems(4) have eq: "rev (concat gs) @ rev g
      = take ?c (drop (hi - length (concat (g # gs))) raws) @ take (length g) (drop (hi - length g) raws)"
    by simp
  have len: "length (take ?c (drop (hi - length (concat (g # gs))) raws)) = ?c" using Cons.prems(2,3) by simp
  from eq len have "rev g = take (length g) (drop (hi - length g) raws)"
    and "rev (concat gs) = take ?c (drop (hi - length g - ?c) raws)"
    by (simp_all add: append_eq_append_conv diff_diff_eq)
  with Cons.IH [of "hi - length g"] Cons.prems pageSound_group [OF groupOK_rev, of opts g "hi - length g" raws]
  show ?case by simp
qed simp

lemma rangePages_sound:
  assumes "1 \<le> pageEntries opts" and "lo \<le> hi" and "hi \<le> length raws" and "0 \<le> pageBytes opts"
  shows "\<forall>pg \<in> set (rangePages opts raws lo hi head complete). pageSound opts raws pg"
proof (cases "lo = hi")
  case True
  with assms show ?thesis by (auto simp: rangePages_def pageSound_def)
next
  case False
  let ?part = "take (hi - lo) (drop lo raws)"
  from False assms have part: "?part \<noteq> []" "length ?part = hi - lo" by auto
  have "\<forall>pg \<in> set (ascPages complete lo (pack opts [] 0 ?part)). pageSound opts raws pg"
    by (rule ascPages_sound) (use pack_groupOK [OF assms(1), of "[]" ?part 0] part assms in \<open>auto simp: concat_pack\<close>)
  moreover have "\<forall>pg \<in> set (descPages complete hi (pack opts [] 0 (rev ?part))). pageSound opts raws pg"
    by (rule descPages_sound)
      (use pack_groupOK [OF assms(1), of "[]" "rev ?part" 0] part assms in \<open>auto simp: concat_pack\<close>)
  ultimately show ?thesis using False by (simp add: rangePages_def Let_def)
qed

lemma warmPages_sound:
  assumes "1 \<le> pageEntries opts" and "0 \<le> pageBytes opts"
  shows "pos \<le> length raws \<Longrightarrow> \<forall>pg \<in> set (warmPages opts raws pos w). pageSound opts raws pg"
proof (induction pos rule: less_induct)
  case (less pos)
  from rangePages_sound [OF assms(1) _ less.prems assms(2), of "pos - Suc w"] less.IH [of "pos - Suc w"] less.prems
  show ?case by (subst warmPages.simps) auto
qed

lemma pages_Nil [simp]: "ascPages c start gs = [] \<longleftrightarrow> gs = []" "descPages c hi gs = [] \<longleftrightarrow> gs = []"
  by (cases gs; simp)+

lemma finalLast_Cons: "finalLast (p # ps) \<longleftrightarrow> (if ps = [] then pageFinal p else \<not> pageFinal p \<and> finalLast ps)"
  by (auto simp: finalLast_def)

lemma finalLast_asc: "gs \<noteq> [] \<Longrightarrow> finalLast (ascPages True start gs)"
  by (induction gs arbitrary: start rule: list_nonempty_induct) (simp_all add: finalLast_Cons)

lemma finalLast_desc: "gs \<noteq> [] \<Longrightarrow> finalLast (descPages True hi gs)"
  by (induction gs arbitrary: hi rule: list_nonempty_induct) (simp_all add: finalLast_Cons)

lemma not_final_asc: "\<forall>p \<in> set (ascPages False start gs). \<not> pageFinal p"
  by (induction False start gs rule: ascPages.induct) auto

lemma not_final_desc: "\<forall>p \<in> set (descPages False hi gs). \<not> pageFinal p"
  by (induction False hi gs rule: descPages.induct) auto

lemma finalLast_range: "finalLast (rangePages opts raws lo hi head True)"
  by (auto simp: rangePages_def Let_def finalLast_asc finalLast_desc finalLast_def [of "[_]"])

lemma not_final_range: "\<forall>p \<in> set (rangePages opts raws lo hi head False). \<not> pageFinal p"
  using not_final_asc not_final_desc by (auto simp: rangePages_def Let_def)

lemma finalLast_append: "\<forall>p \<in> set ps. \<not> pageFinal p \<Longrightarrow> finalLast qs \<Longrightarrow> finalLast (ps @ qs)"
  by (auto simp: finalLast_def butlast_append)

lemma finalLast_warm: "0 < pos \<Longrightarrow> finalLast (warmPages opts raws pos w)"
proof (induction pos rule: less_induct)
  case (less pos)
  show ?case
  proof (cases "pos - Suc w = 0")
    case True
    with less.prems show ?thesis
      by (subst warmPages.simps) (simp add: finalLast_range warmPages.simps [of _ _ 0])
  next
    case False
    with less.prems less.IH [of "pos - Suc w"] show ?thesis
      by (subst warmPages.simps) (auto intro!: finalLast_append not_final_range [rule_format])
  qed
qed

lemma tailFirstPages_sound:
  assumes "recordsOf env branch raws" and "1 \<le> tailEntries" and "cursorOf env = Inr cursor"
    and "1 \<le> pageEntries (envOpts env)" and "0 \<le> pageBytes (envOpts env)"
  shows "(\<forall>pg \<in> set (tailFirstPages env branch raws tailEntries w). pageSound (envOpts env) raws pg)
    \<and> finalLast (tailFirstPages env branch raws tailEntries w)"
proof -
  let ?o = "envOpts env"
  have final: "finalLast (ps @ (if skipWarm ?o then [] else warmPages ?o raws k w))"
    if "finalLast ps \<longleftrightarrow> k = 0 \<or> skipWarm ?o" "k = 0 \<or> skipWarm ?o \<or> (\<forall>p \<in> set ps. \<not> pageFinal p)" for ps k
    using that finalLast_warm [of k ?o raws w] warmPages.simps [of ?o raws 0 w] finalLast_append
    by (cases "k = 0"; cases "skipWarm ?o") auto
  have range: "finalLast (rangePages ?o raws lo hi head c) \<longleftrightarrow> c" if "lo < hi" for lo hi head c
    using finalLast_range [of ?o raws lo hi head] not_final_range [of ?o raws lo hi head]
    by (cases c) (auto simp: finalLast_def)
  show ?thesis
  proof (cases "acceptCursor (envMeta env) branch cursor")
    case None
    let ?t = "tailStartOf ?o tailEntries raws"
    have t: "?t \<le> length raws" "raws \<noteq> [] \<Longrightarrow> ?t < length raws" using tailStartOf_bound [OF assms(2)] by auto
    have "finalLast (tailPages ?o raws tailEntries w)"
    proof (cases "raws = []")
      case True
      with t have "?t = 0" by simp
      with True show ?thesis
        by (auto simp: tailPages_def Let_def warmPages.simps [of _ _ 0] finalLast_range)
    next
      case False
      have "?t = 0 \<or> skipWarm ?o
          \<or> (\<forall>p \<in> set (rangePages ?o raws ?t (length raws) False (?t = 0 \<or> skipWarm ?o)). \<not> pageFinal p)"
        using not_final_range by auto
      from final [OF range [OF t(2) [OF False]] this] show ?thesis
        unfolding tailPages_def Let_def .
    qed
    with None assms(3) t rangePages_sound [OF assms(4) t(1) order_refl assms(5)] warmPages_sound [OF assms(4,5) t(1)]
    show ?thesis by (auto simp: tailFirstPages_def tailPages_def Let_def)
  next
    case (Some a)
    then obtain c f l where acc: "acceptCursor (envMeta env) branch cursor = Some (c, f, l)" by (cases a) auto
    then have fl: "f \<le> l" "l < length raws" "f \<le> length raws" "l + 1 \<le> length raws"
      using recordsOf_length [OF assms(1)] by (auto dest: acceptCursor_bounds)
    let ?first = "if l + 1 = length raws
      then [\<lparr>pageEntriesOf = [], pageStart = l + 1, pageFinal = (skipWarm ?o \<or> f = 0), pageHead = False\<rparr>]
      else rangePages ?o raws (l + 1) (length raws) False (skipWarm ?o \<or> f = 0)"
    have "finalLast ?first \<longleftrightarrow> f = 0 \<or> skipWarm ?o"
      using range [of "l + 1" "length raws" False "skipWarm ?o \<or> f = 0"] fl by (auto simp: finalLast_def)
    moreover have "f = 0 \<or> skipWarm ?o \<or> (\<forall>p \<in> set ?first. \<not> pageFinal p)"
      using not_final_range by auto
    ultimately have "finalLast (resumePages ?o raws f l w)"
      unfolding resumePages_def Let_def by (rule final)
    moreover have "pageSound ?o raws \<lparr>pageEntriesOf = [], pageStart = length raws, pageFinal = b, pageHead = False\<rparr>" for b
      using assms(4,5) by (simp add: pageSound_def)
    ultimately show ?thesis
      using acc assms(3) fl rangePages_sound [OF assms(4) fl(4) order_refl assms(5)] warmPages_sound [OF assms(4,5) fl(3)]
      by (auto simp: tailFirstPages_def resumePages_def Let_def split: if_splits)
  qed
qed



text \<open>
  With a live context and a callback that accepts every page, a tail-first stream over readable
  records completes; and a stream that is cancelled or refused has delivered a prefix of exactly
  the pages that the completed stream delivers.
\<close>
theorem tail_first_completes:
  assumes "recordsOf env branch raws" and "1 \<le> tailEntries" and "cursorOf env = Inr cursor"
  shows "(quiet env \<longrightarrow> (\<exists>m. fst (tailFirst env branch tailEntries w emitStart) = Inr m))
    \<and> (\<forall>ctx cb. prefix (delivered (snd (tailFirst (env\<lparr>envCtx := ctx, envEmit := cb\<rparr>) branch tailEntries w emitStart)))
          (delivered (snd (tailFirst (env\<lparr>envCtx := \<lambda>_. None, envEmit := \<lambda>_ _ _. None\<rparr>) branch tailEntries w emitStart))))"
proof -
  let ?q = "env\<lparr>envCtx := \<lambda>_. None, envEmit := \<lambda>_ _ _. None\<rparr>"
  let ?ps = "tailFirstPages env branch raws tailEntries w"
  have same: "recordsOf (env\<lparr>envCtx := ctx, envEmit := cb\<rparr>) branch raws"
      "cursorOf (env\<lparr>envCtx := ctx, envEmit := cb\<rparr>) = Inr cursor"
      "tailFirstPages (env\<lparr>envCtx := ctx, envEmit := cb\<rparr>) branch raws tailEntries w = ?ps" for ctx cb
    using assms(1,3)
    by (simp_all add: recordsOf_def cursorOf_def tailFirstPages_def cong: option.case_cong sum.case_cong)
  have "delivers ?q emitStart (failureOf (tailFirst ?q branch tailEntries w emitStart)) ?ps"
    using tailFirst_delivers [OF same(1) assms(2), where st = emitStart and w = w] same by metis
  moreover have "quiet ?q" by (simp add: quiet_def)
  ultimately have "delivered (snd (tailFirst ?q branch tailEntries w emitStart)) = ?ps"
    by (auto simp: delivers_def failureOf_def emitStart_def)
  moreover have "prefix (delivered (snd (tailFirst (env\<lparr>envCtx := ctx, envEmit := cb\<rparr>) branch tailEntries w emitStart))) ?ps" for ctx cb
    using tailFirst_delivers [OF same(1) [where ctx = ctx and cb = cb] assms(2), where st = emitStart and w = w] same
    by (auto simp: delivers_def failureOf_def emitStart_def)
  moreover have "quiet env \<Longrightarrow> \<exists>m. fst (tailFirst env branch tailEntries w emitStart) = Inr m"
    using tailFirst_delivers [OF assms(1,2), of emitStart w] assms(3)
    by (cases "fst (tailFirst env branch tailEntries w emitStart)") (auto simp: delivers_def failureOf_def)
  ultimately show ?thesis by simp
qed

subsection \<open>Paging backwards\<close>

definition withinPage :: "options \<Rightarrow> int \<Rightarrow> string list \<Rightarrow> bool" where
  "withinPage opts limit out \<longleftrightarrow> int (length out) \<le> limit
     \<and> (int (sum_list (map length out)) \<le> pageBytes opts \<or> length out = 1)"

definition cutBefore :: "options \<Rightarrow> int \<Rightarrow> string list \<Rightarrow> string \<Rightarrow> bool" where
  "cutBefore opts limit out raw \<longleftrightarrow> limit \<le> int (length out)
     \<or> out \<noteq> [] \<and> pageBytes opts < int (sum_list (map length out) + length raw)"

definition beforeSpec :: "options \<Rightarrow> int \<Rightarrow> string list \<Rightarrow> string list \<Rightarrow> string list \<Rightarrow> bool" where
  "beforeSpec opts limit entries raws out \<longleftrightarrow>
     (\<exists>k \<le> length raws. out = entries @ take k raws \<and> (k = 0 \<or> withinPage opts limit out)
        \<and> (k < length raws \<longrightarrow> cutBefore opts limit out (raws ! k)))"

lemma beforeSpec_step:
  assumes "withinPage opts limit (entries @ [raw])" and "beforeSpec opts limit (entries @ [raw]) raws out"
  shows "beforeSpec opts limit entries (raw # raws) out"
proof -
  from assms(2) obtain k where k: "k \<le> length raws" "out = (entries @ [raw]) @ take k raws"
      "k = 0 \<or> withinPage opts limit out" "k < length raws \<longrightarrow> cutBefore opts limit out (raws ! k)"
    unfolding beforeSpec_def by blast
  with assms(1) have "withinPage opts limit out" by (cases "k = 0") auto
  with k show ?thesis unfolding beforeSpec_def by (intro exI [of _ "Suc k"]) auto
qed

lemma beforeLoop_result:
  assumes "recordsOf env refs raws" and "bytes = sum_list (map length entries)"
  shows "case fst (beforeLoop env limit entries bytes refs st) of
      Inl err \<Rightarrow> \<not> quiet env
    | Inr out \<Rightarrow> beforeSpec (envOpts env) limit entries raws out"
  using assms
proof (induction refs arbitrary: raws entries bytes st)
  case Nil
  then show ?case by (simp add: recordsOf_def beforeSpec_def)
next
  case (Cons ref refs)
  then obtain raw raws' where raws: "raws = raw # raws'"
    and raw: "readRecord (envFile env) ref (chunkBytes (envOpts env)) = Some raw"
    and rest: "recordsOf env refs raws'"
    by (auto simp: recordsOf_def list_all2_Cons1)
  let ?st = "st\<lparr>polls := Suc (polls st)\<rparr>"
  have stop: "cutBefore (envOpts env) limit entries raw \<Longrightarrow> beforeSpec (envOpts env) limit entries raws entries"
    unfolding beforeSpec_def raws by (intro exI [of _ 0]) auto
  show ?case
  proof (cases "limit \<le> int (length entries)")
    case True
    with stop show ?thesis by (simp add: cutBefore_def)
  next
    case room: False
    from fetch_ok [OF raw, of st] show ?thesis
    proof
      assume "\<exists>err. \<not> quiet env \<and> fetch env ref st = (Inl err, ?st)"
      with room show ?thesis by auto
    next
      assume f: "fetch env ref st = (Inr raw, ?st)"
      show ?thesis
      proof (cases "entries \<noteq> [] \<and> pageBytes (envOpts env) < int (bytes + length raw)")
        case True
        with room f Cons.prems(2) stop show ?thesis by (auto simp: cutBefore_def)
      next
        case fits: False
        let ?go = "fst (beforeLoop env limit (entries @ [raw]) (bytes + length raw) refs ?st)"
        have eq: "fst (beforeLoop env limit entries bytes (ref # refs) st) = ?go"
          using room f fits by auto
        have "withinPage (envOpts env) limit (entries @ [raw])"
          using room fits Cons.prems(2) by (auto simp: withinPage_def)
        with Cons.IH [OF rest, of "bytes + length raw" "entries @ [raw]" ?st] Cons.prems(2)
        show ?thesis unfolding eq raws by (cases ?go) (auto intro: beforeSpec_step)
      qed
    qed
  qed
qed

lemma recordsOf_take: "recordsOf env branch raws \<Longrightarrow> recordsOf env (take k branch) (take k raws)"
  by (simp add: recordsOf_def list_all2_takeI)

lemma before_result:
  assumes "recordsOf env branch raws" and "1 \<le> limit" and "beforeFromIndex env branch beforeID limit st = Inr pg"
  shows "\<exists>before. index_of (\<lambda>r. refID r = beforeID) branch = Some before
    \<and> beforeStart pg \<le> before \<and> (0 < before \<longrightarrow> beforeStart pg < before)
    \<and> beforeEntries pg = take (before - beforeStart pg) (drop (beforeStart pg) raws)
    \<and> (beforeComplete pg \<longleftrightarrow> beforeStart pg = 0)
    \<and> int (length (beforeEntries pg)) \<le> limit
    \<and> (int (sum_list (map length (beforeEntries pg))) \<le> pageBytes (envOpts env) \<or> length (beforeEntries pg) \<le> 1)
    \<and> (0 < beforeStart pg \<longrightarrow> int (length (beforeEntries pg)) = limit
         \<or> pageBytes (envOpts env) < int (sum_list (map length (beforeEntries pg)) + length (raws ! (beforeStart pg - 1))))"
proof -
  from assms(3) obtain before where b: "index_of (\<lambda>r. refID r = beforeID) branch = Some before"
    by (auto simp: beforeFromIndex_def split: option.splits)
  then have bl: "before < length branch" "before < length raws"
    using recordsOf_length [OF assms(1)] by (auto dest: index_of_Some)
  let ?raws = "rev (take before raws)"
  have rec: "recordsOf env (rev (take before branch)) ?raws"
    using assms(1) by (intro recordsOf_rev recordsOf_take)
  obtain out where o: "fst (beforeLoop env limit [] 0 (rev (take before branch)) st) = Inr out"
    and pg: "pg = \<lparr>beforeEntries = rev out, beforeStart = before - length out, beforeComplete = (before - length out = 0)\<rparr>"
    using assms(3) b by (auto simp: beforeFromIndex_def Let_def split: sum.splits)
  from beforeLoop_result [OF rec, of 0 "[]" limit st] o have "beforeSpec (envOpts env) limit [] ?raws out" by simp
  then obtain k where k: "k \<le> before" "out = take k ?raws" "k = 0 \<or> withinPage (envOpts env) limit out"
      "k < before \<longrightarrow> cutBefore (envOpts env) limit out (?raws ! k)"
    unfolding beforeSpec_def using bl by auto
  have len: "length out = k" using k(1,2) bl by simp
  have ent: "rev out = take k (drop (before - k) raws)"
    using k(1,2) bl by (simp add: take_rev drop_take)
  have prog: "0 < before \<Longrightarrow> 0 < k" using k(1,4) len assms(2) by (cases k) (auto simp: cutBefore_def)
  have nth: "k < before \<Longrightarrow> ?raws ! k = raws ! (before - k - 1)" using bl by (simp add: rev_nth)
  have sums: "sum_list (map length (rev out)) = sum_list (map length out)" by (simp add: rev_map [symmetric])
  have start: "beforeStart pg = before - k" and entries: "beforeEntries pg = rev out"
    and complete: "beforeComplete pg \<longleftrightarrow> before - k = 0" using pg len by simp_all
  have room: "int k \<le> limit" using k(3) len assms(2) by (auto simp: withinPage_def)
  have bytes: "int (sum_list (map length out)) \<le> pageBytes (envOpts env) \<or> k \<le> 1"
    using k(3) len by (auto simp: withinPage_def)
  have cut: "k < before \<Longrightarrow> int k = limit
      \<or> pageBytes (envOpts env) < int (sum_list (map length out) + length (raws ! (before - k - 1)))"
    using k(4) len room nth by (auto simp: cutBefore_def)
  have span: "before - (before - k) = k" using k(1) by simp
  show ?thesis
    unfolding start entries complete length_rev len sums span
    using b prog ent room bytes cut k(1) by (intro exI [of _ before] conjI impI) auto
qed

text \<open>
  A page before a cursor is the contiguous run of records that ends just before the cursor
  entry, in branch order: at most \<open>limit\<close> records and at most \<open>PageBytes\<close> bytes (one larger
  record apart), never empty when a record precedes, and not extendable: an older record is left
  out only because the count is used up or it would exceed the byte bound. \<open>HistoryComplete\<close>
  holds exactly when the page starts at the root.
\<close>
theorem before_page_contiguous:
  assumes "recordsOf env branch raws" and "1 \<le> limit" and "beforeFromIndex env branch beforeID limit st = Inr pg"
  shows "\<exists>before. index_of (\<lambda>r. refID r = beforeID) branch = Some before
    \<and> beforeStart pg \<le> before \<and> (0 < before \<longrightarrow> beforeStart pg < before)
    \<and> beforeEntries pg = take (before - beforeStart pg) (drop (beforeStart pg) raws)
    \<and> (beforeComplete pg \<longleftrightarrow> beforeStart pg = 0)
    \<and> int (length (beforeEntries pg)) \<le> limit
    \<and> (int (sum_list (map length (beforeEntries pg))) \<le> pageBytes (envOpts env) \<or> length (beforeEntries pg) \<le> 1)
    \<and> (0 < beforeStart pg \<longrightarrow> int (length (beforeEntries pg)) = limit
         \<or> pageBytes (envOpts env) < int (sum_list (map length (beforeEntries pg)) + length (raws ! (beforeStart pg - 1))))"
  by (rule before_result [OF assms])

text \<open>A client that pages back from an entry until \<open>HistoryComplete\<close>.\<close>

fun pageBack :: "emitEnv \<Rightarrow> entryRef list \<Rightarrow> int \<Rightarrow> nat \<Rightarrow> string \<Rightarrow> string list option" where
  "pageBack env branch limit 0 beforeID = None"
| "pageBack env branch limit (Suc k) beforeID =
     (case beforeFromIndex env branch beforeID limit emitStart of
        Inl err \<Rightarrow> None
      | Inr pg \<Rightarrow>
          (if beforeComplete pg then Some (beforeEntries pg)
           else map_option (\<lambda>older. older @ beforeEntries pg)
                  (pageBack env branch limit k (refID (branch ! beforeStart pg)))))"

lemma pageBack_mono:
  "pageBack env branch limit k i = Some xs \<Longrightarrow> k \<le> k' \<Longrightarrow> pageBack env branch limit k' i = Some xs"
proof (induction k arbitrary: k' i xs)
  case (Suc k)
  then obtain k'' where k': "k' = Suc k''" "k \<le> k''" by (cases k') auto
  from Suc.prems(1) show ?case
    unfolding k' by (auto split: sum.splits if_splits dest: Suc.IH [OF _ k'(2)])
qed simp


subsection \<open>A concrete file\<close>

definition demoEnv :: emitEnv where
  "demoEnv = \<lparr>envCtx = (\<lambda>_. None), envEmit = (\<lambda>_ _ _. None), envFile = demoFile, envOpts = demoOptions,
     envMeta = branchMeta demoHeader demoRefs demoRefs\<rparr>"

definition demoRaws :: "string list" where
  "demoRaws = [''{\"type\":\"m\",\"id\":\"a\",\"parentId\":null}'', ''{\"type\":\"m\",\"id\":\"b\",\"parentId\":\"a\"}'']"

definition demoPages :: "page list" where
  "demoPages =
     [\<lparr>pageEntriesOf = [demoRaws ! 1], pageStart = 1, pageFinal = False, pageHead = False\<rparr>,
      \<lparr>pageEntriesOf = [demoRaws ! 0], pageStart = 0, pageFinal = True, pageHead = True\<rparr>]"

lemma demoRecords: "recordsOf demoEnv demoRefs demoRaws"
  by code_simp

lemma demoTailFirst:
  "tailFirst demoEnv demoRefs 1 0 emitStart =
     (Inr (branchMeta demoHeader demoRefs demoRefs), \<lparr>delivered = demoPages, polls = 2\<rparr>)"
  by code_simp

lemma demoQuiet: "quiet demoEnv"
  by (simp add: quiet_def demoEnv_def)

lemma demoCursor: "cursorOf demoEnv = Inr None"
  by (simp add: cursorOf_def demoEnv_def demoOptions_def zeroOptions_def)



theorem tail_first_completes_witness:
  "(\<exists>m. fst (tailFirst demoEnv demoRefs 1 0 emitStart) = Inr m)
   \<and> (\<forall>ctx cb. prefix (delivered (snd (tailFirst (demoEnv\<lparr>envCtx := ctx, envEmit := cb\<rparr>) demoRefs 1 0 emitStart)))
       (delivered (snd (tailFirst (demoEnv\<lparr>envCtx := \<lambda>_. None, envEmit := \<lambda>_ _ _. None\<rparr>) demoRefs 1 0 emitStart))))"
  using tail_first_completes [OF demoRecords order_refl demoCursor, of 0] demoQuiet by blast

lemma demoBefore:
  "beforeFromIndex demoEnv demoRefs ''b'' 100 emitStart =
     Inr \<lparr>beforeEntries = [demoRaws ! 0], beforeStart = 0, beforeComplete = True\<rparr>"
  by code_simp

theorem before_page_contiguous_witness:
  "\<exists>before. index_of (\<lambda>r. refID r = ''b'') demoRefs = Some before
     \<and> [demoRaws ! 0] = take (before - 0) (drop 0 demoRaws)"
  using before_page_contiguous [OF demoRecords _ demoBefore] by auto


end
