(* ===== verification/FileOrder.thy ===== *)
theory FileOrder
  imports ColdPages
begin

text \<open>
  \<open>internal/coldhistory/file_order.go\<close> and \<open>selected_branch.go\<close>: inspection of a complete session
  file in file order (abandoned branches included), the resident suffix of the daemon, the queue
  cursor check \<open>MatchAfter\<close>, and the emission of a selected ancestry. The loops that follow parent
  links have no bound in the source; they are partial functions here, and the proof that they end
  rests on \<open>add\<close>, which accepts an entry only after its parent.
\<close>

subsection \<open>Inspection\<close>

record fileOrder =
  foHeader :: "header option"
  endID :: string
  foRefs :: "entryRef list"
  foByID :: "string \<rightharpoonup> nat"
  foMatches :: "bool list"
  foBudget :: indexBudget

type_synonym matcher = "(string \<Rightarrow> bool) option"

definition foAdd :: "fileOrder \<Rightarrow> entryRef \<Rightarrow> string \<Rightarrow> matcher \<Rightarrow> cherr + fileOrder" where
  "foAdd fo ref raw match =
     (if foByID fo (refID ref) \<noteq> None then Inl (ErrDuplicateID (refID ref))
      else if parentID ref \<noteq> [] \<and> foByID fo (parentID ref) = None
      then Inl (ErrBrokenBranch (refID ref) (parentID ref))
      else (case reserveEntry (foBudget fo) ref of
              Inl err \<Rightarrow> Inl err
            | Inr b \<Rightarrow>
                Inr (fo\<lparr>foBudget := b, foByID := (foByID fo)(refID ref \<mapsto> length (foRefs fo)),
                        foRefs := foRefs fo @ [ref],
                        foMatches := foMatches fo @ [case match of None \<Rightarrow> False | Some p \<Rightarrow> p raw],
                        endID := refID ref\<rparr>)))"

definition inspectLine :: "lineRead \<Rightarrow> nat \<Rightarrow> nat \<Rightarrow> matcher \<Rightarrow> fileOrder \<Rightarrow> cherr + fileOrder" where
  "inspectLine lr lineNumber offset match fo =
     (let raw = trimSpace (lineText lr) in
      if raw = [] then Inr fo
      else (case foHeader fo of
              None \<Rightarrow> (case parseHeader raw of
                         None \<Rightarrow> Inl (ErrInvalidHeader lineNumber offset)
                       | Some h \<Rightarrow> Inr (fo\<lparr>foHeader := Some h\<rparr>))
            | Some _ \<Rightarrow> (case parseEntry raw offset (lineConsumed lr) lineNumber of
                           None \<Rightarrow> Inl (ErrCorruptLine lineNumber offset)
                         | Some ref \<Rightarrow> foAdd fo ref raw match)))"

function inspectLoop ::
  "(nat \<Rightarrow> string option) \<Rightarrow> options \<Rightarrow> string option \<Rightarrow> matcher \<Rightarrow> nat \<Rightarrow> nat \<Rightarrow> fileOrder \<Rightarrow> string
     \<Rightarrow> cherr + fileOrder" where
  "inspectLoop ctx opts e match lineNumber offset fo rest =
     (case ctx lineNumber of
        Some c \<Rightarrow> Inl (ErrCancelled c)
      | None \<Rightarrow>
          (case readLine (chunkBytes opts) (maxLineBytes opts) e rest of
             (lr, rest') \<Rightarrow>
               (if lineConsumed lr = 0 \<and> lineErr lr = REOF then Inr fo
                else (case lineErr lr of
                        RIO m \<Rightarrow> Inl (ErrIO m)
                      | RTooLong \<Rightarrow> Inl ErrLineTooLong
                      | REOF \<Rightarrow> Inl (ErrCorruptLine lineNumber offset)
                      | RNone \<Rightarrow>
                          (case inspectLine lr lineNumber offset match fo of
                             Inl err \<Rightarrow> Inl err
                           | Inr fo' \<Rightarrow> inspectLoop ctx opts e match (Suc lineNumber)
                                          (offset + lineConsumed lr) fo' rest')))))"
  by pat_completeness auto
termination
  by (relation "measure (\<lambda>(ctx, opts, e, match, n, off, fo, rest). length rest)")
    (auto intro: readLine_progress [OF sym])

declare inspectLoop.simps [simp del]

definition foStart :: "options \<Rightarrow> fileOrder" where
  "foStart opts = \<lparr>foHeader = None, endID = [], foRefs = [], foByID = Map.empty, foMatches = [],
     foBudget = \<lparr>budgetLimit = indexBytes opts, budgetUsed = 0\<rparr>\<rparr>"

text \<open>The context is polled before every line and once at the end (\<open>ctxEnd\<close>).\<close>

definition InspectFileOrder ::
  "(nat \<Rightarrow> string option) \<Rightarrow> string option \<Rightarrow> options \<Rightarrow> string option \<Rightarrow> string \<Rightarrow> matcher \<Rightarrow> cherr + fileOrder" where
  "InspectFileOrder ctx ctxEnd options e content match =
     (case normalizeOptions options of
        Inl err \<Rightarrow> Inl err
      | Inr opts \<Rightarrow>
          (case inspectLoop ctx opts e match 1 0 (foStart opts) content of
             Inl err \<Rightarrow> Inl err
           | Inr fo \<Rightarrow>
               (if foHeader fo = None then Inl ErrEmpty
                else (case ctxEnd of None \<Rightarrow> Inr fo | Some c \<Rightarrow> Inl (ErrCancelled c)))))"

subsection \<open>The resident suffix\<close>

fun addTailLoop :: "(nat \<Rightarrow> string option) \<Rightarrow> matcher \<Rightarrow> nat \<Rightarrow> string list \<Rightarrow> fileOrder \<Rightarrow> cherr + fileOrder" where
  "addTailLoop ctx match i [] fo = Inr fo"
| "addTailLoop ctx match i (raw # raws) fo =
     (case ctx i of
        Some c \<Rightarrow> Inl (ErrCancelled c)
      | None \<Rightarrow>
          (case parseEntry raw 0 (length raw) i of
             None \<Rightarrow> Inl (ErrCorruptLine i 0)
           | Some ref \<Rightarrow>
               (case foAdd fo ref raw match of
                  Inl err \<Rightarrow> Inl err
                | Inr fo' \<Rightarrow> addTailLoop ctx match (Suc i) raws fo')))"

definition AddTail :: "(nat \<Rightarrow> string option) \<Rightarrow> fileOrder \<Rightarrow> string list \<Rightarrow> string \<Rightarrow> matcher \<Rightarrow> cherr + fileOrder" where
  "AddTail ctx fo entries leaf match =
     (case addTailLoop ctx match 0 entries fo of
        Inl err \<Rightarrow> Inl err
      | Inr fo' \<Rightarrow>
          (if leaf = [] \<and> foRefs fo' = [] then Inr fo'
           else if foByID fo' leaf = None then Inl (ErrBrokenBranch leaf [])
           else (case ctx (length entries) of None \<Rightarrow> Inr fo' | Some c \<Rightarrow> Inl (ErrCancelled c))))"

definition Checkpoint :: "fileOrder \<Rightarrow> string \<Rightarrow> cherr + string" where
  "Checkpoint fo leaf = (if leaf \<noteq> endID fo then Inl (ErrBrokenBranch leaf (endID fo)) else Inr leaf)"

subsection \<open>Following parents\<close>

partial_function (option) seekCursor :: "fileOrder \<Rightarrow> string \<Rightarrow> string \<Rightarrow> (cherr + bool) option" where
  "seekCursor fo cursor i =
     (if i = [] then Some (Inl (ErrBrokenBranch cursor []))
      else if i = cursor then Some (Inr False)
      else (case foByID fo i of
              None \<Rightarrow> Some (Inl (ErrBrokenBranch i []))
            | Some k \<Rightarrow> seekCursor fo cursor (parentID (foRefs fo ! k))))"

definition MatchAfter :: "fileOrder \<Rightarrow> string \<Rightarrow> string \<Rightarrow> (cherr + bool) option" where
  "MatchAfter fo cursor leaf =
     (case (if cursor = [] then Some 0 else map_option Suc (foByID fo cursor)) of
        None \<Rightarrow> Some (Inl (ErrBrokenBranch cursor []))
      | Some from \<Rightarrow>
          (if list_ex (\<lambda>b. b) (drop from (foMatches fo)) then Some (Inr True)
           else (case Checkpoint fo leaf of
                   Inl err \<Rightarrow> Some (Inl err)
                 | Inr _ \<Rightarrow> if cursor = [] then Some (Inr False) else seekCursor fo cursor leaf)))"

partial_function (option) ancestry :: "fileOrder \<Rightarrow> nat list \<Rightarrow> string \<Rightarrow> (cherr + nat list) option" where
  "ancestry fo branch i =
     (if i = [] then Some (Inr branch)
      else (case foByID fo i of
              None \<Rightarrow> Some (Inl (ErrBrokenBranch i []))
            | Some k \<Rightarrow> ancestry fo (branch @ [k]) (parentID (foRefs fo ! k))))"

declare seekCursor.simps [code] ancestry.simps [code]

subsection \<open>The selected branch\<close>

record selectedTail =
  tailEntriesOf :: "string list"
  tailLeafID :: string

record selection =
  selMeta :: metadata
  selEndID :: string

record selectedOptions =
  selOptions :: options
  expectedSessionID :: string
  requiredEntryID :: string
  resolveTail :: "(string \<Rightarrow> cherr + selectedTail) option"

fun tailFits :: "options \<Rightarrow> int \<Rightarrow> string list \<Rightarrow> bool" where
  "tailFits opts n [] \<longleftrightarrow> True"
| "tailFits opts n (raw # raws) \<longleftrightarrow>
     \<not> (maxLineBytes opts < int (length raw) \<or> pageBytes opts - n < int (length raw))
     \<and> tailFits opts (n + int (length raw)) raws"

text \<open>The disk graph with the validated suffix, and the selected leaf.\<close>

definition resolveSelected ::
  "(nat \<Rightarrow> string option) \<Rightarrow> options \<Rightarrow> (string \<Rightarrow> cherr + selectedTail) option \<Rightarrow> fileOrder
     \<Rightarrow> cherr + (fileOrder \<times> string list \<times> string)" where
  "resolveSelected ctx opts resolve fo =
     (case resolve of
        None \<Rightarrow> Inr (fo, [], endID fo)
      | Some f \<Rightarrow>
          (case f (endID fo) of
             Inl err \<Rightarrow> Inl err
           | Inr t \<Rightarrow>
               (if \<not> tailFits opts 0 (tailEntriesOf t) then Inl ErrLineTooLong
                else (case AddTail ctx fo (tailEntriesOf t) (tailLeafID t) None of
                        Inl err \<Rightarrow> Inl err
                      | Inr fo' \<Rightarrow> Inr (fo', tailEntriesOf t, tailLeafID t)))))"

text \<open>\<open>is\<close> is what is left of the branch, root first; \<open>start\<close> counts the pages emitted.\<close>

fun emitSelected ::
  "emitEnv \<Rightarrow> fileOrder \<Rightarrow> string list \<Rightarrow> nat \<Rightarrow> nat \<Rightarrow> nat list \<Rightarrow> emitState \<Rightarrow> cherr option \<times> emitState" where
  "emitSelected env fo tail diskCount start [] st = (None, st)"
| "emitSelected env fo tail diskCount start (i # is) st =
     (case envCtx env (polls st) of
        Some c \<Rightarrow> (Some (ErrCancelled c), st\<lparr>polls := Suc (polls st)\<rparr>)
      | None \<Rightarrow>
          (let st1 = st\<lparr>polls := Suc (polls st)\<rparr> in
           case (if i < diskCount then readRecord (envFile env) (foRefs fo ! i) (chunkBytes (envOpts env))
                 else Some (tail ! (i - diskCount))) of
             None \<Rightarrow> (Some (ErrIO ''entry changed while streaming''), st1)
           | Some raw \<Rightarrow>
               (let (err, st2) = emitPage env \<lparr>pageEntriesOf = [raw], pageStart = start, pageFinal = (is = []),
                                              pageHead = False\<rparr> st1
                in if err \<noteq> None then (err, st2)
                   else emitSelected env fo tail diskCount (Suc start) is st2)))"

definition selectedBranch ::
  "emitEnv \<Rightarrow> fileOrder \<Rightarrow> string list \<Rightarrow> nat \<Rightarrow> string \<Rightarrow> emitState \<Rightarrow> (((cherr + selection) \<times> emitState)) option" where
  "selectedBranch env fo tail diskCount leaf st =
     (case ancestry fo [] leaf of
        None \<Rightarrow> None
      | Some (Inl err) \<Rightarrow> Some (Inl err, st)
      | Some (Inr branch) \<Rightarrow>
          (let m = \<lparr>metaResume = None, metaHeader = the (foHeader fo), leafID = leaf, total = length branch\<rparr>;
               env' = env\<lparr>envMeta := m\<rparr>;
               (err, st1) =
                 (if branch = []
                  then emitPage env' \<lparr>pageEntriesOf = [], pageStart = 0, pageFinal = True, pageHead = False\<rparr> st
                  else emitSelected env' fo tail diskCount 0 (rev branch) st)
           in case err of
                Some x \<Rightarrow> Some (Inl x, st1)
              | None \<Rightarrow>
                  (case envCtx env' (polls st1) of
                     Some c \<Rightarrow> Some (Inl (ErrCancelled c), st1)
                   | None \<Rightarrow> Some (Inr \<lparr>selMeta = m, selEndID = endID fo\<rparr>, st1))))"

text \<open>
  \<open>ctxI\<close>, \<open>ctxEnd\<close> and \<open>ctxT\<close> are the context during inspection, at its end and during the suffix;
  the environment holds the context of the emission, the callback and the bytes of the source.
\<close>

definition ReadSelectedBranch ::
  "(nat \<Rightarrow> string option) \<Rightarrow> string option \<Rightarrow> (nat \<Rightarrow> string option) \<Rightarrow> string option \<Rightarrow> emitEnv \<Rightarrow> selectedOptions
     \<Rightarrow> ((cherr + selection) \<times> emitState) option" where
  "ReadSelectedBranch ctxI ctxEnd ctxT e env so =
     (case normalizeOptions (selOptions so) of
        Inl err \<Rightarrow> Some (Inl err, emitStart)
      | Inr opts \<Rightarrow>
          (case InspectFileOrder ctxI ctxEnd (selOptions so) e (envFile env) None of
             Inl err \<Rightarrow> Some (Inl err, emitStart)
           | Inr fo \<Rightarrow>
               (if expectedSessionID so \<noteq> [] \<and> map_option headerID (foHeader fo) \<noteq> Some (expectedSessionID so)
                then Some (Inl (ErrInvalidHeader 0 0), emitStart)
                else if requiredEntryID so \<noteq> [] \<and> foByID fo (requiredEntryID so) = None
                then Some (Inl (ErrBrokenBranch (requiredEntryID so) []), emitStart)
                else (case resolveSelected ctxT opts (resolveTail so) fo of
                        Inl err \<Rightarrow> Some (Inl err, emitStart)
                      | Inr (fo', tail, leaf) \<Rightarrow>
                          selectedBranch (env\<lparr>envOpts := opts\<rparr>) fo' tail (length (foRefs fo)) leaf emitStart))))"

section \<open>Correctness\<close>

subsection \<open>The invariant of an inspected file\<close>

definition parentsPrecede :: "entryRef list \<Rightarrow> bool" where
  "parentsPrecede refs \<longleftrightarrow>
     (\<forall>i < length refs. parentID (refs ! i) \<noteq> [] \<longrightarrow> parentID (refs ! i) \<in> refID ` set (take i refs))"

definition foInv :: "fileOrder \<Rightarrow> bool" where
  "foInv fo \<longleftrightarrow>
     foByID fo = idIndex (foRefs fo) \<and> distinct (map refID (foRefs fo)) \<and> (\<forall>r \<in> set (foRefs fo). refID r \<noteq> [])
     \<and> length (foMatches fo) = length (foRefs fo)
     \<and> endID fo = (if foRefs fo = [] then [] else refID (last (foRefs fo)))
     \<and> parentsPrecede (foRefs fo)"

lemma idIndex_None: "idIndex refs i = None \<longleftrightarrow> i \<notin> refID ` set refs"
  by (auto simp: idIndex_def index_of_None)

lemma idIndex_snoc:
  "refID r \<notin> refID ` set refs \<Longrightarrow> (idIndex refs)(refID r \<mapsto> length refs) = idIndex (refs @ [r])"
proof
  fix i
  assume "refID r \<notin> refID ` set refs"
  then have "index_of (\<lambda>x. refID x = refID r) refs = None" by (auto simp: index_of_None image_iff)
  then show "((idIndex refs)(refID r \<mapsto> length refs)) i = idIndex (refs @ [r]) i"
    by (cases "i = refID r") (auto simp: idIndex_def index_of_append split: option.splits)
qed

lemma parentsPrecede_snoc:
  "parentsPrecede (refs @ [r]) \<longleftrightarrow>
     parentsPrecede refs \<and> (parentID r \<noteq> [] \<longrightarrow> parentID r \<in> refID ` set refs)"
  unfolding parentsPrecede_def by (auto simp: nth_append less_Suc_eq)

lemma foAdd_Inr:
  assumes "foAdd fo r raw match = Inr fo'" and "foInv fo" and "refID r \<noteq> []"
  shows "foInv fo' \<and> foRefs fo' = foRefs fo @ [r] \<and> foHeader fo' = foHeader fo
    \<and> foMatches fo' = foMatches fo @ [case match of None \<Rightarrow> False | Some p \<Rightarrow> p raw]"
proof -
  have new: "refID r \<notin> refID ` set (foRefs fo)" and par: "parentID r \<noteq> [] \<longrightarrow> parentID r \<in> refID ` set (foRefs fo)"
    using assms(1,2) idIndex_None [of "foRefs fo"] by (auto simp: foAdd_def foInv_def split: if_splits)
  from assms(1) new par assms(2,3) idIndex_snoc [OF new] show ?thesis
    by (auto simp: foAdd_def foInv_def parentsPrecede_snoc parentsPrecede_snoc [of "[]", simplified]
        split: if_splits sum.splits)
qed

lemma foInv_start: "foInv (foStart opts)"
  by (simp add: foInv_def foStart_def idIndex_def parentsPrecede_def)

lemma foInv_header: "foInv fo \<Longrightarrow> foInv (fo\<lparr>foHeader := h\<rparr>)"
  by (simp add: foInv_def)

lemma readLine_line:
  assumes "readLine chunk maxB e rest = (lr, rest')" and "0 \<le> maxB" and "lineErr lr = RNone"
  shows "rest = lineText lr @ NL # rest' \<and> lineConsumed lr = Suc (length (lineText lr))"
proof -
  have fits: "int (length (takeWhile (\<lambda>c. c \<noteq> NL) rest)) \<le> maxB"
    using readLine_too_long [OF assms(2), of rest chunk e] assms(1,3) by (cases lr) fastforce
  from readLine_fits [OF assms(2) fits] assms(1) have sp: "lineSpec e rest = (lr, rest')" by metis
  with assms(3) have nl: "NL \<in> set rest" by (auto simp: lineSpec_def Let_def endErr_def split: if_splits option.splits)
  then have ne: "dropWhile (\<lambda>c. c \<noteq> NL) rest \<noteq> []" by (auto simp: dropWhile_eq_Nil_conv)
  with hd_dropWhile [OF ne] have "dropWhile (\<lambda>c. c \<noteq> NL) rest = NL # drop 1 (dropWhile (\<lambda>c. c \<noteq> NL) rest)"
    by (cases "dropWhile (\<lambda>c. c \<noteq> NL) rest") auto
  moreover have "rest' = drop 1 (dropWhile (\<lambda>c. c \<noteq> NL) rest)" "lineText lr = takeWhile (\<lambda>c. c \<noteq> NL) rest"
      "lineConsumed lr = Suc (length (lineText lr))"
    using sp nl by (auto simp: lineSpec_def Let_def)
  ultimately show ?thesis using takeWhile_dropWhile_id [of "\<lambda>c. c \<noteq> NL" rest] by metis
qed

text \<open>Every entry read from disk is found again at its coordinates.\<close>

definition onDisk :: "string \<Rightarrow> entryRef \<Rightarrow> bool" where
  "onDisk content r \<longleftrightarrow> (\<forall>chunk. \<exists>raw. readRecord content r chunk = Some raw
     \<and> parseEntry raw (refOffset r) (refLength r) (refLine r) = Some r)"

lemma onDisk_line:
  assumes "drop off content = text @ NL # rest'" and "off \<le> length content"
    and "parseEntry (trimSpace text) off (Suc (length text)) n = Some r"
  shows "onDisk content r"
proof -
  from assms(3) have co: "refOffset r = off" "refLength r = Suc (length text)" "refLine r = n"
    by (auto dest: parseEntry_Some)
  have "length content = off + length (text @ NL # rest')" using assms(1,2) by (metis le_add_diff_inverse length_drop)
  moreover have "take (Suc (length text)) (drop off content) = text @ [NL]" using assms(1) by simp
  ultimately have "readRecord content r chunk = Some (trimSpace text)" for chunk
    using co assms(3) by (auto simp: readRecord_spec Let_def trimSpace_newline dest: parseEntry_valid)
  with assms(3) co show ?thesis by (simp add: onDisk_def)
qed

lemma inspectLoop_inv:
  assumes "0 \<le> maxLineBytes opts"
  shows "inspectLoop ctx opts e match n off fo rest = Inr fo' \<Longrightarrow> foInv fo \<Longrightarrow> rest = drop off content \<Longrightarrow>
    off \<le> length content \<Longrightarrow> \<forall>r \<in> set (foRefs fo). onDisk content r \<Longrightarrow>
    foInv fo' \<and> (\<forall>r \<in> set (foRefs fo'). onDisk content r)"
  using assms
proof (induction ctx opts e match n off fo rest rule: inspectLoop.induct)
  case (1 ctx opts e match n off fo rest)
  obtain lr rest' where rd: "readLine (chunkBytes opts) (maxLineBytes opts) e rest = (lr, rest')"
    by (cases "readLine (chunkBytes opts) (maxLineBytes opts) e rest")
  from "1.prems"(1) have ctx: "ctx n = None" by (subst (asm) inspectLoop.simps) (simp split: option.splits)
  show ?case
  proof (cases "lineConsumed lr = 0 \<and> lineErr lr = REOF")
    case True
    with "1.prems" ctx rd show ?thesis by (subst (asm) inspectLoop.simps) simp
  next
    case False
    with "1.prems"(1) ctx rd obtain fo1 where err: "lineErr lr = RNone"
      and line: "inspectLine lr n off match fo = Inr fo1"
      and go: "inspectLoop ctx opts e match (Suc n) (off + lineConsumed lr) fo1 rest' = Inr fo'"
      by (subst (asm) inspectLoop.simps) (auto split: rerr.splits sum.splits)
    from readLine_line [OF rd "1.prems"(6) err]
    have bytes: "drop off content = lineText lr @ NL # rest'" and len: "lineConsumed lr = Suc (length (lineText lr))"
      using "1.prems"(3) by auto
    have inv1: "foInv fo1 \<and> (\<forall>r \<in> set (foRefs fo1). onDisk content r)"
    proof (cases "trimSpace (lineText lr) = []")
      case True
      with line "1.prems" show ?thesis by (simp add: inspectLine_def)
    next
      case nb: False
      show ?thesis
      proof (cases "foHeader fo")
        case None
        with line nb "1.prems" show ?thesis by (auto simp: inspectLine_def foInv_header split: option.splits)
      next
        case (Some h)
        with line nb obtain r where r: "parseEntry (trimSpace (lineText lr)) off (lineConsumed lr) n = Some r"
          and add: "foAdd fo r (trimSpace (lineText lr)) match = Inr fo1"
          by (auto simp: inspectLine_def Let_def split: option.splits)
        have "onDisk content r" using onDisk_line [OF bytes "1.prems"(4)] r len by simp
        with foAdd_Inr [OF add "1.prems"(2)] parseEntry_Some [OF r] "1.prems"(5) show ?thesis by auto
      qed
    qed
    have "rest' = drop (off + lineConsumed lr) content"
      using bytes len by (metis add.commute append_Cons append_Nil append_assoc append_eq_conv_conj drop_drop length_append_singleton)
    moreover have "off + lineConsumed lr \<le> length content"
      using arg_cong [OF bytes, of length] len "1.prems"(4) by simp
    ultimately show ?thesis
      using "1.IH" [OF ctx rd [symmetric] False err line go] inv1 "1.prems"(6) by blast
  qed
qed

lemma normalizeOptions_bounds:
  "normalizeOptions o1 = Inr opts \<Longrightarrow> 1 \<le> chunkBytes opts \<and> 1 \<le> maxLineBytes opts \<and> 1 \<le> pageBytes opts
     \<and> 1 \<le> pageEntries opts \<and> 1 \<le> indexBytes opts \<and> 0 \<le> tailBytes opts \<and> maxLineBytes opts \<le> pageBytes opts"
  by (auto simp: normalizeOptions_def Let_def split: if_splits)

lemma InspectFileOrder_inv:
  assumes "InspectFileOrder ctx ctxEnd options e content match = Inr fo"
  shows "foInv fo \<and> (\<forall>r \<in> set (foRefs fo). onDisk content r) \<and> foHeader fo \<noteq> None"
proof -
  from assms obtain opts where n: "normalizeOptions options = Inr opts"
    and l: "inspectLoop ctx opts e match 1 0 (foStart opts) content = Inr fo" and h: "foHeader fo \<noteq> None"
    by (auto simp: InspectFileOrder_def split: sum.splits if_splits option.splits)
  from normalizeOptions_bounds [OF n] have "0 \<le> maxLineBytes opts" by simp
  from inspectLoop_inv [OF this l foInv_start, of content] h show ?thesis by (simp add: foStart_def)
qed

lemma addTailLoop_inv:
  "addTailLoop ctx match i raws fo = Inr fo' \<Longrightarrow> foInv fo \<Longrightarrow>
     foInv fo' \<and> foHeader fo' = foHeader fo
     \<and> (\<exists>added. foRefs fo' = foRefs fo @ added \<and> length added = length raws
          \<and> (\<forall>k < length raws. \<exists>off len n. parseEntry (raws ! k) off len n = Some (added ! k)))"
proof (induction raws arbitrary: i fo)
  case (Cons raw raws)
  from Cons.prems(1) obtain r fo1 where r: "parseEntry raw 0 (length raw) i = Some r"
    and add: "foAdd fo r raw match = Inr fo1" and go: "addTailLoop ctx match (Suc i) raws fo1 = Inr fo'"
    by (auto split: option.splits sum.splits)
  from foAdd_Inr [OF add Cons.prems(2)] parseEntry_Some [OF r]
  have f1: "foInv fo1" "foRefs fo1 = foRefs fo @ [r]" "foHeader fo1 = foHeader fo" by auto
  from Cons.IH [OF go f1(1)] obtain added where a: "foRefs fo' = foRefs fo1 @ added" "length added = length raws"
      "\<forall>k < length raws. \<exists>off len n. parseEntry (raws ! k) off len n = Some (added ! k)"
      "foInv fo'" "foHeader fo' = foHeader fo1" by auto
  have "\<forall>k < length (raw # raws). \<exists>off len n. parseEntry ((raw # raws) ! k) off len n = Some ((r # added) ! k)"
    using a(3) r by (auto simp: nth_Cons split: nat.splits)
  with a f1 show ?case by (intro conjI exI [of _ "r # added"]) auto
qed simp

lemma AddTail_inv:
  assumes "AddTail ctx fo raws leaf match = Inr fo'" and "foInv fo"
  shows "foInv fo' \<and> foHeader fo' = foHeader fo \<and> (leaf = [] \<or> leaf \<in> refID ` set (foRefs fo'))
     \<and> (\<exists>added. foRefs fo' = foRefs fo @ added \<and> length added = length raws
          \<and> (\<forall>k < length raws. \<exists>off len n. parseEntry (raws ! k) off len n = Some (added ! k)))"
proof -
  from assms(1) have l: "addTailLoop ctx match 0 raws fo = Inr fo'"
      and leaf: "leaf = [] \<or> foByID fo' leaf \<noteq> None"
    by (auto simp: AddTail_def split: sum.splits if_splits option.splits)
  from addTailLoop_inv [OF l assms(2)] leaf idIndex_None [of "foRefs fo'" leaf] show ?thesis
    by (auto simp: foInv_def)
qed

text \<open>The states a caller can hold: an inspected file, and one with a validated suffix.\<close>

inductive inspected :: "fileOrder \<Rightarrow> bool" where
  disk: "InspectFileOrder ctx ctxEnd options e content match = Inr fo \<Longrightarrow> inspected fo"
| tail: "inspected fo \<Longrightarrow> AddTail ctx fo raws leaf match = Inr fo' \<Longrightarrow> inspected fo'"

lemma inspected_inv: "inspected fo \<Longrightarrow> foInv fo"
  by (induction rule: inspected.induct) (auto dest: InspectFileOrder_inv AddTail_inv)

subsection \<open>Parent links end\<close>

inductive onAncestry :: "fileOrder \<Rightarrow> string \<Rightarrow> string \<Rightarrow> bool" for fo where
  self: "onAncestry fo i i"
| parent: "foByID fo i = Some k \<Longrightarrow> onAncestry fo (parentID (foRefs fo ! k)) j \<Longrightarrow> onAncestry fo i j"

inductive_cases onAncestryE: "onAncestry fo i j"

lemma parent_earlier:
  assumes "foInv fo" and "foByID fo i = Some k" and "parentID (foRefs fo ! k) \<noteq> []"
  shows "\<exists>j < k. foByID fo (parentID (foRefs fo ! k)) = Some j"
proof -
  have id: "foByID fo = idIndex (foRefs fo)" and d: "distinct (map refID (foRefs fo))" and pp: "parentsPrecede (foRefs fo)"
    using assms(1) by (auto simp: foInv_def)
  from assms(2) id have k: "k < length (foRefs fo)" by (auto dest: idIndex_Some)
  with pp assms(3) have "parentID (foRefs fo ! k) \<in> refID ` set (take k (foRefs fo))"
    by (simp add: parentsPrecede_def)
  then obtain j where j: "j < k" "refID (foRefs fo ! j) = parentID (foRefs fo ! k)"
    by (auto simp: in_set_conv_nth)
  then have "foRefs fo ! j \<in> set (foRefs fo)" using k by simp
  from idIndex_unique [OF d this] obtain j' where j': "idIndex (foRefs fo) (refID (foRefs fo ! j)) = Some j'"
      "foRefs fo ! j' = foRefs fo ! j" by blast
  with d j k have "j' = j" by (metis distinct_conv_nth distinct_map idIndex_Some less_trans)
  with j j' id show ?thesis by auto
qed

lemma empty_id_unknown: "foInv fo \<Longrightarrow> foByID fo [] = None"
  by (auto simp: foInv_def idIndex_None)

lemma onAncestry_empty: "foInv fo \<Longrightarrow> onAncestry fo [] j \<Longrightarrow> j = []"
  by (erule onAncestryE) (auto simp: empty_id_unknown)

text \<open>One induction serves both loops: along the file position of the current entry.\<close>

lemma parent_induct [consumes 1, case_names root unknown entry]:
  assumes "foInv fo" and "P []" and "\<And>i. i \<noteq> [] \<Longrightarrow> foByID fo i = None \<Longrightarrow> P i"
    and "\<And>i k. i \<noteq> [] \<Longrightarrow> foByID fo i = Some k \<Longrightarrow> P (parentID (foRefs fo ! k)) \<Longrightarrow> P i"
  shows "P i"
proof -
  have "foByID fo i = Some k \<Longrightarrow> P i" for i k
  proof (induction k arbitrary: i rule: less_induct)
    case (less k)
    then have "i \<noteq> []" using empty_id_unknown [OF assms(1)] by auto
    moreover have "P (parentID (foRefs fo ! k))"
      using parent_earlier [OF assms(1) less.prems] less.IH assms(2) by (cases "parentID (foRefs fo ! k) = []") auto
    ultimately show ?case using assms(4) less.prems by blast
  qed
  then show ?thesis using assms(2,3) by (cases "i = []"; cases "foByID fo i") auto
qed

lemma seekCursor_decides:
  assumes "foInv fo" and "cursor \<noteq> []"
  shows "\<exists>r. seekCursor fo cursor i = Some r \<and> r \<noteq> Inr True \<and> (r = Inr False \<longleftrightarrow> onAncestry fo i cursor)"
  using assms(1)
proof (induction i rule: parent_induct)
  case root
  show ?case using assms onAncestry_empty [OF assms(1), of cursor] by (auto simp: seekCursor.simps)
next
  case (unknown i)
  then show ?case by (subst seekCursor.simps) (auto intro: self elim: onAncestryE)
next
  case (entry i k)
  show ?case
  proof (cases "i = cursor")
    case True
    with entry assms(2) show ?thesis by (subst seekCursor.simps) (auto intro: self)
  next
    case False
    have "onAncestry fo i cursor \<longleftrightarrow> onAncestry fo (parentID (foRefs fo ! k)) cursor"
      using False entry.hyps by (auto intro: parent elim: onAncestryE)
    with False entry show ?thesis by (subst seekCursor.simps) auto
  qed
qed

text \<open>
  C9: \<open>MatchAfter\<close> always returns on an inspected file, with or without a resident suffix, and
  decides the resend question: it answers true exactly when an entry after the retained cursor
  matches, and false, the permission to resend, exactly when the cursor is retained (or empty), no
  later entry matches, the daemon's leaf is the end of the file and the cursor lies on its
  ancestry; every other case is an error.
\<close>
theorem match_after_decides:
  assumes "inspected fo"
  shows "\<exists>r. MatchAfter fo cursor leaf = Some r
    \<and> (r = Inr True \<longleftrightarrow> (cursor = [] \<and> True \<in> set (foMatches fo))
         \<or> (\<exists>k. foByID fo cursor = Some k \<and> True \<in> set (drop (Suc k) (foMatches fo))))
    \<and> (r = Inr False \<longleftrightarrow> leaf = endID fo \<and> ((cursor = [] \<and> True \<notin> set (foMatches fo))
         \<or> (\<exists>k. foByID fo cursor = Some k \<and> True \<notin> set (drop (Suc k) (foMatches fo)) \<and> onAncestry fo leaf cursor)))"
proof -
  from inspected_inv [OF assms] have inv: "foInv fo" .
  have lx: "list_ex (\<lambda>b. b) bs \<longleftrightarrow> True \<in> set bs" for bs by (induction bs) auto
  show ?thesis
  proof (cases "cursor = []")
    case True
    with empty_id_unknown [OF inv] show ?thesis
      by (cases "leaf = endID fo") (auto simp: MatchAfter_def Checkpoint_def lx)
  next
    case False
    from seekCursor_decides [OF inv False, of leaf] show ?thesis
      using False by (cases "foByID fo cursor"; cases "leaf = endID fo") (auto simp: MatchAfter_def Checkpoint_def lx)
  qed
qed

subsection \<open>The selected ancestry\<close>

text \<open>Positions along the ancestry of an entry, newest first.\<close>

definition ancestryOf :: "fileOrder \<Rightarrow> nat list \<Rightarrow> string \<Rightarrow> bool" where
  "ancestryOf fo ks i \<longleftrightarrow> (\<forall>k \<in> set ks. k < length (foRefs fo))
     \<and> (if i = [] then ks = []
        else ks \<noteq> [] \<and> refID (foRefs fo ! hd ks) = i
          \<and> rootChain (foRefs fo) (foRefs fo ! hd ks) (map ((!) (foRefs fo)) (rev ks)))"

lemma ancestry_ends:
  assumes "foInv fo"
  shows "\<exists>r. ancestry fo acc i = Some r \<and> (case r of
      Inl err \<Rightarrow> True
    | Inr out \<Rightarrow> (\<exists>ks. out = acc @ ks \<and> ancestryOf fo ks i))"
  using assms
proof (induction i arbitrary: acc rule: parent_induct)
  case root
  show ?case by (auto simp: ancestry.simps ancestryOf_def)
next
  case (unknown i)
  then show ?case by (subst ancestry.simps) simp
next
  case (entry i k)
  let ?p = "parentID (foRefs fo ! k)"
  have k: "k < length (foRefs fo)" "refID (foRefs fo ! k) = i"
    using assms entry.hyps(2) by (auto simp: foInv_def dest: idIndex_Some)
  from entry.IH [of "acc @ [k]"] obtain r where r: "ancestry fo (acc @ [k]) ?p = Some r"
    and res: "case r of Inl err \<Rightarrow> True | Inr out \<Rightarrow> (\<exists>ks. out = (acc @ [k]) @ ks \<and> ancestryOf fo ks ?p)" by blast
  have eq: "ancestry fo acc i = Some r" using entry.hyps r by (subst ancestry.simps) simp
  have "ancestryOf fo (k # ks) i" if "ancestryOf fo ks ?p" for ks
  proof (cases "?p = []")
    case True
    with that k entry.hyps(1) show ?thesis by (auto simp: ancestryOf_def rootChain_def)
  next
    case False
    with that have ks: "ks \<noteq> []" "refID (foRefs fo ! hd ks) = ?p" "\<forall>k \<in> set ks. k < length (foRefs fo)"
        "rootChain (foRefs fo) (foRefs fo ! hd ks) (map ((!) (foRefs fo)) (rev ks))"
      by (auto simp: ancestryOf_def)
    then have "rootChain (foRefs fo) (foRefs fo ! k) (map ((!) (foRefs fo)) (rev ks) @ [foRefs fo ! k])"
      using k by (auto simp: rootChain_def successively_append_iff)
    with ks k entry.hyps(1) show ?thesis by (auto simp: ancestryOf_def)
  qed
  with res have "case r of Inl err \<Rightarrow> True | Inr out \<Rightarrow> (\<exists>ks. out = acc @ ks \<and> ancestryOf fo ks i)"
    by (auto split: sum.splits)
  with eq show ?case by blast
qed

lemma ancestry_cases:
  assumes "foInv fo"
  obtains (fails) err where "ancestry fo [] i = Some (Inl err)"
    | (found) ks where "ancestry fo [] i = Some (Inr ks)" "ancestryOf fo ks i"
proof -
  from ancestry_ends [OF assms, of "[]" i] obtain r where r: "ancestry fo [] i = Some r"
    "case r of Inl err \<Rightarrow> True | Inr out \<Rightarrow> (\<exists>ks. out = [] @ ks \<and> ancestryOf fo ks i)" by blast
  then show thesis using that by (cases r) auto
qed

text \<open>
  \<open>ReadSelectedBranch\<close> always returns: neither a cyclic nor a broken parent graph, on disk or
  in the resident suffix, can make its unbounded ancestry loop run forever, because every entry was
  admitted after its parent.
\<close>
theorem read_selected_terminates:
  "\<exists>res. ReadSelectedBranch ctxI ctxEnd ctxT e env so = Some res"
proof -
  have "\<exists>res. selectedBranch env' fo tail n leaf st = Some res" if inv: "foInv fo" for env' fo tail n leaf st
  proof -
    obtain r where "ancestry fo [] leaf = Some r" using ancestry_ends [OF inv, of "[]" leaf] by blast
    then show ?thesis
      by (cases r) (auto simp: selectedBranch_def Let_def split: prod.splits option.splits)
  qed
  moreover have "foInv fo'" if "InspectFileOrder ctxI ctxEnd (selOptions so) e (envFile env) None = Inr fo"
      "resolveSelected ctxT opts (resolveTail so) fo = Inr (fo', tail, leaf)" for fo fo' opts tail leaf
    using that InspectFileOrder_inv [OF that(1)] AddTail_inv
    by (auto simp: resolveSelected_def split: option.splits sum.splits if_splits)
  ultimately show ?thesis
    by (auto simp: ReadSelectedBranch_def split: sum.splits)
qed

definition recordAt :: "emitEnv \<Rightarrow> fileOrder \<Rightarrow> string list \<Rightarrow> nat \<Rightarrow> nat \<Rightarrow> string option" where
  "recordAt env fo tail diskCount i =
     (if i < diskCount then readRecord (envFile env) (foRefs fo ! i) (chunkBytes (envOpts env))
      else Some (tail ! (i - diskCount)))"

lemma emitSelected_pages:
  "emitSelected env fo tail n start is st = (None, st') \<Longrightarrow>
     \<exists>raws. list_all2 (\<lambda>i raw. recordAt env fo tail n i = Some raw) is raws
       \<and> delivered st' = delivered st @ ascPages True start (map (\<lambda>r. [r]) raws)"
proof (induction "is" arbitrary: start st)
  case (Cons i "is")
  from Cons.prems have c: "envCtx env (polls st) = None" by (auto split: option.splits)
  let ?st = "st\<lparr>polls := Suc (polls st)\<rparr>"
  from Cons.prems c obtain raw where raw: "recordAt env fo tail n i = Some raw"
    by (auto simp: recordAt_def Let_def split: option.splits)
  let ?pg = "\<lparr>pageEntriesOf = [raw], pageStart = start, pageFinal = (is = []), pageHead = False\<rparr>"
  obtain err st2 where e: "emitPage env ?pg ?st = (err, st2)" by (cases "emitPage env ?pg ?st")
  from Cons.prems c raw e have err: "err = None" and go: "emitSelected env fo tail n (Suc start) is st2 = (None, st')"
    by (auto simp: recordAt_def Let_def split: if_splits)
  have d: "delivered st2 = delivered st @ [?pg]" using e by (auto simp: emitPage_def)
  from Cons.IH [OF go] obtain raws where "list_all2 (\<lambda>i raw. recordAt env fo tail n i = Some raw) is raws"
      "delivered st' = delivered st2 @ ascPages True (Suc start) (map (\<lambda>r. [r]) raws)" by blast
  moreover from this(1) have "is = [] \<longleftrightarrow> raws = []" by auto
  ultimately show ?case using raw d by (intro exI [of _ "raw # raws"]) auto
qed simp

text \<open>Where an emitted record comes from: the file, or the suffix the daemon supplied.\<close>

definition selectedSource :: "emitEnv \<Rightarrow> selectedOptions \<Rightarrow> fileOrder \<Rightarrow> entryRef \<Rightarrow> string \<Rightarrow> bool" where
  "selectedSource env so fo r raw \<longleftrightarrow>
     (r \<in> set (foRefs fo) \<and> (\<exists>chunk. readRecord (envFile env) r chunk = Some raw))
     \<or> (\<exists>f t. resolveTail so = Some f \<and> f (endID fo) = Inr t \<and> raw \<in> set (tailEntriesOf t))"

lemma selected_source:
  assumes "resolveSelected ctx opts (resolveTail so) fo = Inr (fo', tail, leaf)"
    and "foRefs fo' = foRefs fo @ added" and "length added = length tail" and "i < length (foRefs fo')"
    and "recordAt (env\<lparr>envFile := envFile env0\<rparr>) fo' tail (length (foRefs fo)) i = Some raw"
  shows "selectedSource env0 so fo (foRefs fo' ! i) raw"
proof (cases "i < length (foRefs fo)")
  case True
  with assms(2,5) show ?thesis by (auto simp: selectedSource_def recordAt_def nth_append)
next
  case False
  with assms(2-5) have "raw \<in> set tail" by (auto simp: recordAt_def)
  with assms(1) show ?thesis
    by (auto simp: selectedSource_def resolveSelected_def split: option.splits sum.splits if_splits)
qed

lemma selected_records:
  assumes "foInv fo" and "\<forall>r \<in> set (foRefs fo). onDisk content r"
    and "foRefs fo' = foRefs fo @ added" and "length added = length tail"
    and "\<forall>k < length tail. \<exists>off len n. parseEntry (tail ! k) off len n = Some (added ! k)"
    and "i < length (foRefs fo')" and "recordAt (env\<lparr>envFile := content\<rparr>) fo' tail (length (foRefs fo)) i = Some raw"
  shows "\<exists>off len n. parseEntry raw off len n = Some (foRefs fo' ! i)"
proof (cases "i < length (foRefs fo)")
  case True
  then have "onDisk content (foRefs fo' ! i)" using assms(2,3) by (simp add: nth_append)
  then obtain raw' where "readRecord content (foRefs fo' ! i) (chunkBytes (envOpts env)) = Some raw'"
      "parseEntry raw' (refOffset (foRefs fo' ! i)) (refLength (foRefs fo' ! i)) (refLine (foRefs fo' ! i))
        = Some (foRefs fo' ! i)"
    unfolding onDisk_def by blast
  with True assms(7) show ?thesis by (auto simp: recordAt_def)
next
  case False
  with assms(3-7) show ?thesis by (auto simp: recordAt_def nth_append)
qed

lemma resolveSelected_inv:
  assumes "resolveSelected ctx opts resolve fo = Inr (fo', tail, leaf)" and "foInv fo"
  shows "foInv fo' \<and> (\<exists>added. foRefs fo' = foRefs fo @ added \<and> length added = length tail
    \<and> (\<forall>k < length tail. \<exists>off len n. parseEntry (tail ! k) off len n = Some (added ! k)))"
  using assms AddTail_inv [of ctx fo]
  by (auto simp: resolveSelected_def split: option.splits sum.splits if_splits)


subsection \<open>A concrete file\<close>

definition orderFile :: string where
  "orderFile = ''{\"type\":\"session\",\"id\":\"s\"}'' @ [NL] @ ''{\"type\":\"m\",\"id\":\"a\",\"parentId\":null}'' @ [NL]"

definition orderTail :: "string list" where
  "orderTail = [''{\"type\":\"m\",\"id\":\"b\",\"parentId\":\"a\"}'']"

definition orderEnv :: emitEnv where
  "orderEnv = demoEnv\<lparr>envFile := orderFile\<rparr>"

definition orderSelected :: selectedOptions where
  "orderSelected = \<lparr>selOptions = demoOptions, expectedSessionID = ''s'', requiredEntryID = ''a'',
     resolveTail = Some (\<lambda>_. Inr \<lparr>tailEntriesOf = orderTail, tailLeafID = ''b''\<rparr>)\<rparr>"

lemma orderInspected:
  "case InspectFileOrder (\<lambda>_. None) None demoOptions None orderFile (Some (\<lambda>_. False)) of
     Inl _ \<Rightarrow> False | Inr fo \<Rightarrow> endID fo = ''a'' \<and> foMatches fo = [False]"
  by code_simp

theorem match_after_decides_witness:
  "\<exists>fo. InspectFileOrder (\<lambda>_. None) None demoOptions None orderFile (Some (\<lambda>_. False)) = Inr fo
     \<and> MatchAfter fo [] ''a'' = Some (Inr False)"
proof -
  obtain fo where fo: "InspectFileOrder (\<lambda>_. None) None demoOptions None orderFile (Some (\<lambda>_. False)) = Inr fo"
      "endID fo = ''a''" "foMatches fo = [False]"
    using orderInspected by (auto split: sum.splits)
  from match_after_decides [OF inspected.disk [OF fo(1)], of "[]" "''a''"] fo show ?thesis by auto
qed

lemma orderRead:
  "case ReadSelectedBranch (\<lambda>_. None) None (\<lambda>_. None) None orderEnv orderSelected of
     None \<Rightarrow> False
   | Some r \<Rightarrow> (case fst r of Inl _ \<Rightarrow> False
       | Inr sel \<Rightarrow> leafID (selMeta sel) = ''b'' \<and> length (delivered (snd r)) = 2)"
  by code_simp


end
