(* ===== verification/LinkedList.thy ===== *)
theory LinkedList
  imports Prelude
begin

text \<open>
  Go's \<open>container/list\<close> as the caches of the program use it: a sequence of elements with identity
  (a \<open>*list.Element\<close> is its number) and a value that may be replaced in place. A cache keeps a map
  from keys to elements beside the list; \<open>keyed\<close> is the agreement between the two.
\<close>

record 'a clist =
  elems :: "(nat \<times> 'a) list"
  nextElem :: nat

definition newList :: "'a clist" where
  "newList = \<lparr>elems = [], nextElem = 0\<rparr>"

definition pushFront :: "'a \<Rightarrow> 'a clist \<Rightarrow> nat \<times> 'a clist" where
  "pushFront v l = (nextElem l, l\<lparr>elems := (nextElem l, v) # elems l, nextElem := Suc (nextElem l)\<rparr>)"

definition pushBack :: "'a \<Rightarrow> 'a clist \<Rightarrow> nat \<times> 'a clist" where
  "pushBack v l = (nextElem l, l\<lparr>elems := elems l @ [(nextElem l, v)], nextElem := Suc (nextElem l)\<rparr>)"

definition removeElem :: "nat \<Rightarrow> 'a clist \<Rightarrow> 'a clist" where
  "removeElem e l = l\<lparr>elems := filter (\<lambda>p. fst p \<noteq> e) (elems l)\<rparr>"

definition elemValue :: "'a clist \<Rightarrow> nat \<Rightarrow> 'a option" where
  "elemValue l e = map_of (elems l) e"

definition moveToFront :: "nat \<Rightarrow> 'a clist \<Rightarrow> 'a clist" where
  "moveToFront e l = (case elemValue l e of
     None \<Rightarrow> l | Some v \<Rightarrow> l\<lparr>elems := (e, v) # filter (\<lambda>p. fst p \<noteq> e) (elems l)\<rparr>)"

definition moveToBack :: "nat \<Rightarrow> 'a clist \<Rightarrow> 'a clist" where
  "moveToBack e l = (case elemValue l e of
     None \<Rightarrow> l | Some v \<Rightarrow> l\<lparr>elems := filter (\<lambda>p. fst p \<noteq> e) (elems l) @ [(e, v)]\<rparr>)"

definition setValue :: "nat \<Rightarrow> 'a \<Rightarrow> 'a clist \<Rightarrow> 'a clist" where
  "setValue e v l = l\<lparr>elems := map (\<lambda>p. if fst p = e then (e, v) else p) (elems l)\<rparr>"

definition listLen :: "'a clist \<Rightarrow> nat" where
  "listLen l = length (elems l)"

definition listValues :: "'a clist \<Rightarrow> 'a list" where
  "listValues l = map snd (elems l)"

subsection \<open>Well-formed lists\<close>

definition clistOK :: "'a clist \<Rightarrow> bool" where
  "clistOK l \<longleftrightarrow> distinct (map fst (elems l)) \<and> (\<forall>p \<in> set (elems l). fst p < nextElem l)"

lemma clistOK_new [simp]: "clistOK newList"
  by (simp add: clistOK_def newList_def)

lemma clistOK_push:
  "clistOK l \<Longrightarrow> clistOK (snd (pushFront v l))" "clistOK l \<Longrightarrow> clistOK (snd (pushBack v l))"
  by (auto simp: clistOK_def pushFront_def pushBack_def less_Suc_eq)

lemma distinct_map_filter_fst: "distinct (map fst xs) \<Longrightarrow> distinct (map fst (filter P xs))"
  by (induction xs) auto

lemma clistOK_remove: "clistOK l \<Longrightarrow> clistOK (removeElem e l)"
  by (auto simp: clistOK_def removeElem_def distinct_map_filter_fst)

lemma elemValue_bound: "clistOK l \<Longrightarrow> elemValue l e = Some v \<Longrightarrow> e < nextElem l"
  by (auto simp: clistOK_def elemValue_def dest: map_of_SomeD)

lemma clistOK_move:
  assumes "clistOK l"
  shows "clistOK (moveToFront e l)" and "clistOK (moveToBack e l)"
  using assms elemValue_bound [OF assms, of e]
  by (auto simp: clistOK_def moveToFront_def moveToBack_def distinct_map_filter_fst split: option.splits)

lemma fst_setValue: "map fst (elems (setValue e v l)) = map fst (elems l)"
  by (auto simp: setValue_def)

lemma clistOK_setValue: "clistOK l \<Longrightarrow> clistOK (setValue e v l)"
  unfolding clistOK_def fst_setValue by (auto simp: setValue_def)

lemma elemValue_iff: "clistOK l \<Longrightarrow> elemValue l e = Some v \<longleftrightarrow> (e, v) \<in> set (elems l)"
  by (simp add: clistOK_def elemValue_def)

subsection \<open>The key map\<close>

definition keyed :: "('a \<Rightarrow> 'k) \<Rightarrow> ('k \<rightharpoonup> nat) \<Rightarrow> 'a clist \<Rightarrow> bool" where
  "keyed key idx l \<longleftrightarrow> clistOK l \<and> (\<forall>k e. idx k = Some e \<longleftrightarrow> (\<exists>v. (e, v) \<in> set (elems l) \<and> key v = k))"

lemma keyed_new [simp]: "keyed key Map.empty newList"
  by (simp add: keyed_def newList_def clistOK_def)

lemma keyed_lookup:
  assumes "keyed key idx l" and "idx k = Some e"
  obtains v where "elemValue l e = Some v" and "key v = k" and "(e, v) \<in> set (elems l)"
  using assms by (auto simp: keyed_def elemValue_iff)

lemma keyed_entry: "keyed key idx l \<Longrightarrow> (e, v) \<in> set (elems l) \<Longrightarrow> idx (key v) = Some e"
  by (auto simp: keyed_def)

lemma keyed_value: "keyed key idx l \<Longrightarrow> (e, v) \<in> set (elems l) \<Longrightarrow> (e, w) \<in> set (elems l) \<Longrightarrow> v = w"
  by (metis elemValue_iff keyed_def option.inject)

lemma keyed_None: "keyed key idx l \<Longrightarrow> idx k = None \<longleftrightarrow> k \<notin> key ` set (listValues l)"
proof -
  assume k: "keyed key idx l"
  have "k \<in> key ` set (listValues l) \<longleftrightarrow> (\<exists>e v. (e, v) \<in> set (elems l) \<and> key v = k)"
    by (force simp: listValues_def)
  also have "\<dots> \<longleftrightarrow> (\<exists>e. idx k = Some e)" using k unfolding keyed_def by blast
  finally show ?thesis by auto
qed

lemma keyed_distinct:
  assumes "keyed key idx l"
  shows "distinct (map key (listValues l))"
proof -
  have fst: "distinct (map fst (elems l))" using assms by (simp add: keyed_def clistOK_def)
  have "inj_on (\<lambda>p. key (snd p)) (set (elems l))"
  proof
    fix p q assume "p \<in> set (elems l)" "q \<in> set (elems l)" "key (snd p) = key (snd q)"
    then have "idx (key (snd p)) = Some (fst p)" "idx (key (snd p)) = Some (fst q)"
      using assms by (auto simp: keyed_def) (metis prod.collapse)+
    then have "fst p = fst q" by simp
    with fst \<open>p \<in> _\<close> \<open>q \<in> _\<close> show "p = q" by (metis distinct_map inj_on_def)
  qed
  then show ?thesis using fst by (auto simp: listValues_def distinct_map comp_def)
qed

lemma keyedI:
  assumes "clistOK l" and "\<And>k e. idx k = Some e \<Longrightarrow> \<exists>v. (e, v) \<in> set (elems l) \<and> key v = k"
    and "\<And>e v. (e, v) \<in> set (elems l) \<Longrightarrow> idx (key v) = Some e"
  shows "keyed key idx l"
  unfolding keyed_def using assms by blast

lemma keyed_ok: "keyed key idx l \<Longrightarrow> clistOK l"
  by (simp add: keyed_def)

lemma keyed_mem: "keyed key idx l \<Longrightarrow> idx k = Some e \<Longrightarrow> \<exists>v. (e, v) \<in> set (elems l) \<and> key v = k"
  unfolding keyed_def by blast

lemma keyed_push:
  assumes "keyed key idx l" and "idx (key v) = None" and "clistOK l'"
    and "set (elems l') = insert (nextElem l, v) (set (elems l))"
  shows "keyed key (idx(key v \<mapsto> nextElem l)) l'"
proof (rule keyedI [OF assms(3)])
  fix k e assume "(idx(key v \<mapsto> nextElem l)) k = Some e"
  then show "\<exists>w. (e, w) \<in> set (elems l') \<and> key w = k"
    using keyed_mem [OF assms(1), of k e] assms(4) by (auto split: if_splits)
next
  fix e w assume "(e, w) \<in> set (elems l')"
  then show "(idx(key v \<mapsto> nextElem l)) (key w) = Some e"
    using keyed_entry [OF assms(1), of e w] assms(2,4) by auto
qed

lemma keyed_pushFront:
  "keyed key idx l \<Longrightarrow> idx (key v) = None \<Longrightarrow> keyed key (idx(key v \<mapsto> nextElem l)) (snd (pushFront v l))"
  using keyed_push [of key idx l v "snd (pushFront v l)"] clistOK_push(1) [OF keyed_ok, of key idx l v]
  by (simp add: pushFront_def)

lemma keyed_pushBack:
  "keyed key idx l \<Longrightarrow> idx (key v) = None \<Longrightarrow> keyed key (idx(key v \<mapsto> nextElem l)) (snd (pushBack v l))"
  using keyed_push [of key idx l v "snd (pushBack v l)"] clistOK_push(2) [OF keyed_ok, of key idx l v]
  by (simp add: pushBack_def)

lemma keyed_remove:
  assumes "keyed key idx l" and "idx k = Some e"
  shows "keyed key (idx(k := None)) (removeElem e l)"
proof (rule keyedI [OF clistOK_remove [OF keyed_ok [OF assms(1)]]])
  obtain w where w: "(e, w) \<in> set (elems l)" "key w = k" using keyed_mem [OF assms] by blast
  have iff: "(f, v) \<in> set (elems l) \<Longrightarrow> f = e \<longleftrightarrow> key v = k" for f v
    using keyed_entry [OF assms(1), of f v] assms(2) keyed_value [OF assms(1) w(1), of v] w(2)
    by (metis option.inject)
  show "\<exists>v. (f, v) \<in> set (elems (removeElem e l)) \<and> key v = j" if "(idx(k := None)) j = Some f" for j f
  proof -
    from that have "j \<noteq> k" and "idx j = Some f" by (auto split: if_splits)
    with keyed_mem [OF assms(1), of j f] iff [of f] show ?thesis by (auto simp: removeElem_def)
  qed
  show "(idx(k := None)) (key v) = Some f" if "(f, v) \<in> set (elems (removeElem e l))" for f v
    using that iff [of f v] keyed_entry [OF assms(1), of f v] by (auto simp: removeElem_def)
qed

lemma keyed_set:
  assumes "keyed key idx l" and "clistOK l'" and "set (elems l') = set (elems l)"
  shows "keyed key idx l'"
  by (rule keyedI [OF assms(2)]) (use keyed_mem [OF assms(1)] keyed_entry [OF assms(1)] assms(3) in auto)

lemma set_moved:
  assumes "clistOK l"
  shows "set (elems (moveToFront e l)) = set (elems l)" and "set (elems (moveToBack e l)) = set (elems l)"
proof -
  have "insert (e, v) {p \<in> set (elems l). fst p \<noteq> e} = set (elems l)" if "elemValue l e = Some v" for v
  proof -
    have mem: "(e, v) \<in> set (elems l)" using that elemValue_iff [OF assms] by simp
    have "p = (e, v)" if "p \<in> set (elems l)" "fst p = e" for p
      using that elemValue_iff [OF assms, of e "snd p"] \<open>elemValue l e = Some v\<close> by (metis option.inject prod.collapse)
    with mem show ?thesis by blast
  qed
  then show "set (elems (moveToFront e l)) = set (elems l)" and "set (elems (moveToBack e l)) = set (elems l)"
    by (auto simp: moveToFront_def moveToBack_def split: option.splits)
qed

lemma keyed_move:
  assumes "keyed key idx l"
  shows "keyed key idx (moveToFront e l)" and "keyed key idx (moveToBack e l)"
  by (rule keyed_set [OF assms]; simp add: clistOK_move set_moved keyed_ok [OF assms])+

lemma elems_setValue:
  assumes "(e, w) \<in> set (elems l)"
  shows "(f, x) \<in> set (elems (setValue e v l)) \<longleftrightarrow> (if f = e then x = v else (f, x) \<in> set (elems l))"
  using assms by (cases "f = e") (auto simp: setValue_def image_iff split: if_splits intro: bexI [of _ "(e, w)"])

lemma keyed_setValue:
  assumes "keyed key idx l" and "idx (key v) = Some e"
  shows "keyed key idx (setValue e v l)"
proof (rule keyedI [OF clistOK_setValue [OF keyed_ok [OF assms(1)]]])
  obtain w where w: "(e, w) \<in> set (elems l)" "key w = key v" using keyed_mem [OF assms] by blast
  note mem = elems_setValue [OF w(1), of _ _ v]
  show "\<exists>x. (f, x) \<in> set (elems (setValue e v l)) \<and> key x = k" if f: "idx k = Some f" for k f
  proof (cases "f = e")
    case True
    obtain x where x: "(f, x) \<in> set (elems l)" "key x = k" using keyed_mem [OF assms(1) f] by blast
    with True keyed_value [OF assms(1) w(1), of x] w(2) have "key v = k" by simp
    with True show ?thesis by (auto simp: mem)
  next
    case False
    with keyed_mem [OF assms(1) f] show ?thesis by (auto simp: mem)
  qed
  show "idx (key x) = Some f" if "(f, x) \<in> set (elems (setValue e v l))" for f x
    using that keyed_entry [OF assms(1), of f x] assms(2) by (auto simp: mem split: if_splits)
qed

subsection \<open>Least recently used\<close>

text \<open>
  The contract of a bounded cache that keeps its keys in order of last use. \<open>hist\<close> lists the
  tracked keys, oldest first; \<open>touch k a\<close> uses key \<open>k\<close> with argument \<open>a\<close>. Keys may be exempt from
  tracking. \<open>trim\<close> keeps the newest \<open>cap\<close> keys.
\<close>

definition trim :: "nat \<Rightarrow> 'k list \<Rightarrow> 'k list" where
  "trim cap ks = drop (length ks - cap) ks"

lemma length_trim: "length (trim cap ks) \<le> cap"
  by (simp add: trim_def)

lemma trim_id [simp]: "length ks \<le> cap \<Longrightarrow> trim cap ks = ks"
  by (simp add: trim_def)

lemma remdups_snoc: "remdups (ks @ [k]) = filter (\<lambda>x. x \<noteq> k) (remdups ks) @ [k]"
  by (induction ks) auto

lemma trim_filter:
  assumes "distinct xs"
  shows "trim cap (filter (\<lambda>x. x \<noteq> k) (trim cap xs) @ [k]) = trim cap (filter (\<lambda>x. x \<noteq> k) xs @ [k])"
proof (cases "length xs \<le> cap")
  case False
  let ?n = "length xs - cap"
  define old where "old = take ?n xs"
  define new where "new = drop ?n xs"
  have xs: "xs = old @ new" and len: "length new = cap" using False by (simp_all add: old_def new_def)
  have t: "trim cap xs = new" by (simp add: trim_def new_def)
  show ?thesis
  proof (cases "k \<in> set new")
    case True
    with xs assms have "k \<notin> set old" by auto
    moreover have "length (filter (\<lambda>x. x \<noteq> k) new) = cap - 1"
    proof -
      have "distinct new" using xs assms by simp
      then have "length (filter (\<lambda>x. x \<noteq> k) new) = card (set new - {k})"
        by (simp add: distinct_card [symmetric] set_diff_eq)
      also have "\<dots> = cap - 1" using True len \<open>distinct new\<close> by (simp add: distinct_card)
      finally show ?thesis .
    qed
    moreover have "1 \<le> cap" using True len by (cases cap) auto
    ultimately show ?thesis unfolding t by (simp add: xs trim_def)
  next
    case new: False
    then have "filter (\<lambda>x. x \<noteq> k) new = new" by (auto simp: filter_id_conv)
    then show ?thesis unfolding t by (simp add: xs trim_def len)
  qed
qed simp

locale lru =
  fixes cap :: nat
    and inv :: "'s \<Rightarrow> bool"
    and hist :: "'s \<Rightarrow> 'k list"
    and exempt :: "'s \<Rightarrow> 'k set"
    and touch :: "'k \<Rightarrow> 'a \<Rightarrow> 's \<Rightarrow> 's"
  assumes touch_inv: "inv s \<Longrightarrow> inv (touch k a s)"
    and touch_exempt: "inv s \<Longrightarrow> exempt (touch k a s) = exempt s"
    and touch_hist: "inv s \<Longrightarrow> k \<notin> exempt s \<Longrightarrow>
      hist (touch k a s) = trim cap (filter (\<lambda>x. x \<noteq> k) (hist s) @ [k])"
    and hist_distinct: "inv s \<Longrightarrow> distinct (hist s)"
begin

definition touches :: "('k \<times> 'a) list \<Rightarrow> 's \<Rightarrow> 's" where
  "touches us s = fold (\<lambda>(k, a). touch k a) us s"

lemma touches_inv: "inv s \<Longrightarrow> inv (touches us s) \<and> exempt (touches us s) = exempt s"
  by (induction us arbitrary: s) (auto simp: touches_def touch_inv touch_exempt)

text \<open>Only the order of last uses matters: the cache holds its newest \<open>cap\<close> distinct keys.\<close>

lemma hist_touches:
  assumes "inv s" and "hist s = []" and "fst ` set us \<inter> exempt s = {}"
  shows "hist (touches us s) = trim cap (remdups (map fst us))"
  using assms(3)
proof (induction us rule: rev_induct)
  case Nil
  then show ?case by (simp add: touches_def assms(2))
next
  case (snoc u us)
  let ?s = "touches us s"
  have step: "touches (us @ [u]) s = touch (fst u) (snd u) ?s" by (simp add: touches_def split_beta)
  have "inv ?s" "fst u \<notin> exempt ?s" using touches_inv [OF assms(1), of us] snoc.prems by auto
  then have "hist (touches (us @ [u]) s) = trim cap (filter (\<lambda>x. x \<noteq> fst u) (hist ?s) @ [fst u])"
    using touch_hist by (simp add: step)
  also have "\<dots> = trim cap (filter (\<lambda>x. x \<noteq> fst u) (remdups (map fst us)) @ [fst u])"
    using snoc by (simp add: trim_filter)
  finally show ?case by (simp add: remdups_snoc)
qed

lemma touches_bounded:
  "inv s \<Longrightarrow> hist s = [] \<Longrightarrow> fst ` set us \<inter> exempt s = {} \<Longrightarrow> length (hist (touches us s)) \<le> cap"
  by (simp add: hist_touches length_trim)

end

end
