(* ===== verification/IndexCache.thy ===== *)
theory IndexCache
  imports ColdPages LinkedList
begin

text \<open>
  \<open>internal/coldhistory/indexcache.go\<close> and the file-based entry points of \<open>coldhistory.go\<close> and
  \<open>before.go\<close>: the identity-fenced LRU of index results, \<open>withSessionFile\<close>, \<open>Stream\<close>,
  \<open>StreamTailFirst\<close> and \<open>StreamBefore\<close>. What the operating system answers for a path is a record;
  the hash function is a parameter. Times are instants, the zero time is \<open>None\<close>.
\<close>

subsection \<open>The cache\<close>

record fileIdentity =
  device :: nat
  inode :: nat
  fileSize :: nat
  modTime :: int
  changeTime :: "int option"
  digest :: string

definition identityMatches :: "fileIdentity \<Rightarrow> fileIdentity \<Rightarrow> bool" where
  "identityMatches f g \<longleftrightarrow> device f = device g \<and> inode f = inode g \<and> fileSize f = fileSize g
     \<and> modTime f = modTime g \<and> changeTime f = changeTime g \<and> digest f = digest g"

record cachedIndex =
  cachedPath :: string
  cachedIdentity :: fileIdentity
  cachedMeta :: metadata
  cachedBranch :: "entryRef list"
  cachedMaxLine :: int
  cachedIndexBytes :: int

record indexCache =
  cacheCapacity :: nat
  cacheOrder :: "cachedIndex clist"
  byPath :: "string \<rightharpoonup> nat"
  cacheHits :: nat

definition DefaultIndexCacheFiles :: nat where
  "DefaultIndexCacheFiles = 8"

definition newIndexCache :: "nat \<Rightarrow> indexCache" where
  "newIndexCache cap = \<lparr>cacheCapacity = cap, cacheOrder = newList, byPath = Map.empty, cacheHits = 0\<rparr>"

definition cacheEvict :: "nat \<Rightarrow> cachedIndex \<Rightarrow> indexCache \<Rightarrow> indexCache" where
  "cacheEvict e entry c =
     c\<lparr>cacheOrder := removeElem e (cacheOrder c), byPath := (byPath c)(cachedPath entry := None)\<rparr>"

definition cacheGet ::
  "string \<Rightarrow> fileIdentity \<Rightarrow> options \<Rightarrow> indexCache \<Rightarrow> (metadata \<times> entryRef list) option \<times> indexCache" where
  "cacheGet path identity opts c =
     (case byPath c path of
        None \<Rightarrow> (None, c)
      | Some e \<Rightarrow>
          (case elemValue (cacheOrder c) e of
             None \<Rightarrow> (None, c)
           | Some entry \<Rightarrow>
               (if \<not> identityMatches (cachedIdentity entry) identity \<or> cachedMaxLine entry \<noteq> maxLineBytes opts
                   \<or> cachedIndexBytes entry \<noteq> indexBytes opts
                then (None, cacheEvict e entry c)
                else (Some (cachedMeta entry, cachedBranch entry),
                      c\<lparr>cacheOrder := moveToFront e (cacheOrder c), cacheHits := Suc (cacheHits c)\<rparr>))))"

function cacheShrink :: "indexCache \<Rightarrow> indexCache" where
  "cacheShrink c =
     (if cacheCapacity c < listLen (cacheOrder c)
      then (let oldest = last (elems (cacheOrder c)) in cacheShrink (cacheEvict (fst oldest) (snd oldest) c))
      else c)"
  by pat_completeness auto
termination
proof (relation "measure (\<lambda>c. listLen (cacheOrder c))", goal_cases)
  case (2 c oldest)
  then have "elems (cacheOrder c) \<noteq> []" by (auto simp: listLen_def)
  then obtain ps p where "elems (cacheOrder c) = ps @ [p]" by (metis append_butlast_last_id)
  with 2 show ?case by (auto simp: listLen_def removeElem_def cacheEvict_def less_Suc_eq_le)
qed simp

declare cacheShrink.simps [simp del]

definition cachePut :: "cachedIndex \<Rightarrow> indexCache \<Rightarrow> indexCache" where
  "cachePut entry c =
     (case byPath c (cachedPath entry) of
        Some e \<Rightarrow> c\<lparr>cacheOrder := setValue e entry (moveToFront e (cacheOrder c))\<rparr>
      | None \<Rightarrow>
          (let p = pushFront entry (cacheOrder c) in
           cacheShrink (c\<lparr>cacheOrder := snd p, byPath := (byPath c)(cachedPath entry \<mapsto> fst p)\<rparr>)))"

subsection \<open>Entry points\<close>

record sessionFile =
  openErr :: "string option"
  statErr :: "string option"
  statIdentity :: fileIdentity
  hashErr :: "string option"
  seekErr :: "string option"
  fileBytes :: string
  fileEnd :: "string option"

text \<open>
  \<open>ctx0\<close> is the poll before hashing, \<open>ctx\<close> the polls of the index pass, \<open>read\<close> the work on the index
  and the open file.
\<close>

definition withSessionFile ::
  "string option \<Rightarrow> (nat \<Rightarrow> string option) \<Rightarrow> (string \<Rightarrow> string) \<Rightarrow> sessionFile \<Rightarrow> string \<Rightarrow> options
     \<Rightarrow> (metadata \<Rightarrow> entryRef list \<Rightarrow> cherr + 'a) \<Rightarrow> indexCache \<Rightarrow> (cherr + 'a) \<times> indexCache" where
  "withSessionFile ctx0 ctx sha f path opts read c =
     (case openErr f of Some m \<Rightarrow> (Inl (ErrIO m), c)
      | None \<Rightarrow>
     (case statErr f of Some m \<Rightarrow> (Inl (ErrIO m), c)
      | None \<Rightarrow>
     (let hashing = (\<not> noCache opts \<and> changeTime (statIdentity f) = None);
          failed = (if hashing
                    then (case ctx0 of Some m \<Rightarrow> Some (ErrCancelled m)
                          | None \<Rightarrow> (case hashErr f of Some m \<Rightarrow> Some (ErrIO m)
                                    | None \<Rightarrow> map_option ErrIO (seekErr f)))
                    else None);
          identity = (if hashing then (statIdentity f)\<lparr>digest := sha (fileBytes f)\<rparr> else statIdentity f)
      in case failed of Some err \<Rightarrow> (Inl err, c)
         | None \<Rightarrow>
     (let (hit, c1) = (if noCache opts then (None, c) else cacheGet path identity opts c) in
      case hit of
        Some (m, branch) \<Rightarrow> (read m branch, c1)
      | None \<Rightarrow>
          (case index ctx opts (fileEnd f) (fileBytes f) of
             Inl err \<Rightarrow> (Inl err, c1)
           | Inr (m, branch) \<Rightarrow>
               (read m branch,
                if noCache opts then c1
                else cachePut \<lparr>cachedPath = path, cachedIdentity = identity, cachedMeta = m, cachedBranch = branch,
                               cachedMaxLine = maxLineBytes opts, cachedIndexBytes = indexBytes opts\<rparr> c1))))))"

definition emitEnvOf ::
  "(nat \<Rightarrow> string option) \<Rightarrow> (metadata \<Rightarrow> page list \<Rightarrow> page \<Rightarrow> string option) \<Rightarrow> sessionFile \<Rightarrow> options \<Rightarrow> metadata \<Rightarrow> emitEnv" where
  "emitEnvOf ctx cb f opts m = \<lparr>envCtx = ctx, envEmit = cb, envFile = fileBytes f, envOpts = opts, envMeta = m\<rparr>"

text \<open>The result of a stream is its metadata with the pages handed to the callback.\<close>

definition Stream ::
  "string option \<Rightarrow> (nat \<Rightarrow> string option) \<Rightarrow> (nat \<Rightarrow> string option) \<Rightarrow> (string \<Rightarrow> string) \<Rightarrow> sessionFile \<Rightarrow> string
     \<Rightarrow> options \<Rightarrow> (metadata \<Rightarrow> page list \<Rightarrow> page \<Rightarrow> string option) \<Rightarrow> indexCache
     \<Rightarrow> (cherr + (metadata \<times> page list)) \<times> indexCache" where
  "Stream ctx0 ctx ctxE sha f path options cb c =
     (case normalizeOptions options of
        Inl err \<Rightarrow> (Inl err, c)
      | Inr opts \<Rightarrow>
          withSessionFile ctx0 ctx sha f path opts
            (\<lambda>m branch. case emitBranch (emitEnvOf ctxE cb f opts m) branch emitStart of
                (Some err, st) \<Rightarrow> Inl err
              | (None, st) \<Rightarrow> Inr (m, delivered st)) c)"

definition StreamTailFirst ::
  "string option \<Rightarrow> (nat \<Rightarrow> string option) \<Rightarrow> (nat \<Rightarrow> string option) \<Rightarrow> (string \<Rightarrow> string) \<Rightarrow> sessionFile \<Rightarrow> string
     \<Rightarrow> options \<Rightarrow> int \<Rightarrow> int \<Rightarrow> (metadata \<Rightarrow> page list \<Rightarrow> page \<Rightarrow> string option) \<Rightarrow> indexCache
     \<Rightarrow> (cherr + (metadata \<times> page list)) \<times> indexCache" where
  "StreamTailFirst ctx0 ctx ctxE sha f path options tailEntries warmChunk cb c =
     (case normalizeOptions options of
        Inl err \<Rightarrow> (Inl err, c)
      | Inr opts \<Rightarrow>
          (case normalizeTailFirst tailEntries warmChunk of
             Inl err \<Rightarrow> (Inl err, c)
           | Inr (t, w) \<Rightarrow>
               withSessionFile ctx0 ctx sha f path opts
                 (\<lambda>m branch. case tailFirst (emitEnvOf ctxE cb f opts m) branch (nat t) (nat w - 1) emitStart of
                     (Inl err, st) \<Rightarrow> Inl err
                   | (Inr m', st) \<Rightarrow> Inr (m', delivered st)) c))"

definition StreamBefore ::
  "string option \<Rightarrow> (nat \<Rightarrow> string option) \<Rightarrow> (nat \<Rightarrow> string option) \<Rightarrow> (string \<Rightarrow> string) \<Rightarrow> sessionFile \<Rightarrow> string
     \<Rightarrow> options \<Rightarrow> string \<Rightarrow> int \<Rightarrow> indexCache \<Rightarrow> (cherr + (metadata \<times> beforePage)) \<times> indexCache" where
  "StreamBefore ctx0 ctx ctxE sha f path options beforeID limit c =
     (if limit < 0 then (Inl (ErrInvalidOptions ''before limit is negative''), c)
      else (let lim = (if limit = 0 then DefaultPageEntries else limit) in
            case normalizeOptions options of
              Inl err \<Rightarrow> (Inl err, c)
            | Inr opts \<Rightarrow>
                withSessionFile ctx0 ctx sha f path opts
                  (\<lambda>m branch. map_sum id (\<lambda>pg. (m, pg))
                     (beforeFromIndex (emitEnvOf ctxE (\<lambda>_ _ _. None) f opts m) branch beforeID lim emitStart)) c))"

section \<open>Correctness\<close>

subsection \<open>A successful index does not depend on the context\<close>

lemma indexLine_torn: "indexLine lr n off s = Inr (True, s') \<Longrightarrow> lineErr lr = REOF"
  by (auto simp: indexLine_def Let_def split: if_splits option.splits sum.splits)

lemma indexLoop_live:
  assumes "0 \<le> maxLineBytes opts"
  shows "indexLoop ctx opts e n off s rest = Inr s' \<Longrightarrow> indexLoop (\<lambda>_. None) opts None n off s rest = Inr s'"
  using assms
proof (induction ctx opts e n off s rest rule: indexLoop.induct)
  case (1 ctx opts e n off s rest)
  obtain lr r where rd: "readLine (chunkBytes opts) (maxLineBytes opts) e rest = (lr, r)"
    by (cases "readLine (chunkBytes opts) (maxLineBytes opts) e rest")
  from "1.prems"(1) have ctx: "ctx n = None" by (subst (asm) indexLoop.simps) (simp split: option.splits)
  have fits: "int (length (takeWhile (\<lambda>c. c \<noteq> NL) rest)) \<le> maxLineBytes opts"
    using indexLoop_too_long [where ctx = ctx and n = n and opts = opts and rest = rest and e = e and off = off and s = s]
      ctx "1.prems" by (metis Inl_Inr_False not_le)
  have sp: "lineSpec e rest = (lr, r)" using readLine_fits [OF "1.prems"(2) fits] rd by metis
  have nio: "\<nexists>m. lineErr lr = RIO m"
    using "1.prems"(1) ctx rd by (subst (asm) indexLoop.simps) (auto split: sum.splits if_splits rerr.splits dest!: indexLine_torn)
  then have same: "lineSpec None rest = (lr, r)"
    using sp by (cases e) (auto simp: lineSpec_def Let_def endErr_def split: if_splits)
  then have rd': "readLine (chunkBytes opts) (maxLineBytes opts) None rest = (lr, r)"
    using readLine_fits [OF "1.prems"(2) fits] by metis
  have IH: "indexLine lr (Suc n) off s = Inr (False, s1) \<Longrightarrow> lineErr lr = RNone \<Longrightarrow>
      \<not> (lineConsumed lr = 0 \<and> lineErr lr = REOF) \<Longrightarrow>
      indexLoop ctx opts e (Suc n) (off + lineConsumed lr) s1 r = Inr s' \<Longrightarrow>
      indexLoop (\<lambda>_. None) opts None (Suc n) (off + lineConsumed lr) s1 r = Inr s'" for s1
    using "1.IH" [OF ctx rd [symmetric] _ _ refl] "1.prems"(2) by auto
  show ?case
    using "1.prems"(1) ctx rd rd' IH
    by (auto simp: indexLoop.simps [of ctx opts e n off s rest] indexLoop.simps [of "\<lambda>_. None" opts None n off s rest]
        split: if_splits sum.splits rerr.splits prod.splits)
qed

lemma index_live:
  "0 \<le> maxLineBytes opts \<Longrightarrow> index ctx opts e content = Inr r \<Longrightarrow> index (\<lambda>_. None) opts None content = Inr r"
  using indexLoop_live [of opts ctx e 0 0 "ixStart opts" content]
  by (auto simp: index_def split: sum.splits)

lemma indexLoop_options:
  "chunkBytes o2 = chunkBytes o1 \<Longrightarrow> maxLineBytes o2 = maxLineBytes o1 \<Longrightarrow>
     indexLoop ctx o1 e n off s rest = indexLoop ctx o2 e n off s rest"
proof (induction ctx o1 e n off s rest rule: indexLoop.induct)
  case (1 ctx o1 e n off s rest)
  obtain lr r where rd: "readLine (chunkBytes o1) (maxLineBytes o1) e rest = (lr, r)"
    by (cases "readLine (chunkBytes o1) (maxLineBytes o1) e rest")
  note IH = "1.IH" [OF _ rd [symmetric] _ _ refl _ _ "1.prems"]
  show ?case
    using IH rd
    by (auto simp: indexLoop.simps [of ctx o1 e n off s rest] indexLoop.simps [of ctx o2 e n off s rest] "1.prems"
        split: option.splits if_splits sum.splits rerr.splits prod.splits)
qed

text \<open>Of the options only the line limit and the index budget matter.\<close>

lemma index_same_bounds:
  assumes "0 \<le> maxLineBytes o1" and "maxLineBytes o2 = maxLineBytes o1" and "indexBytes o2 = indexBytes o1"
  shows "index ctx o1 e content = index ctx o2 e content"
proof -
  have "indexLoop ctx o1 e 0 0 s content = indexLoop ctx (o2\<lparr>chunkBytes := chunkBytes o1\<rparr>) e 0 0 s content" for s
    using assms by (intro indexLoop_options) simp_all
  also have "\<dots> s = indexLoop ctx o2 e 0 0 s content" for s
    using assms by (intro indexLoop_buffer) simp
  finally show ?thesis using assms(3) by (simp add: index_def ixStart_def)
qed

subsection \<open>The cache is a bounded map in order of use\<close>

definition cacheInv :: "indexCache \<Rightarrow> bool" where
  "cacheInv c \<longleftrightarrow> keyed cachedPath (byPath c) (cacheOrder c) \<and> listLen (cacheOrder c) \<le> cacheCapacity c"

definition cachePaths :: "indexCache \<Rightarrow> string list" where
  "cachePaths c = rev (map cachedPath (listValues (cacheOrder c)))"

definition cacheEntries :: "indexCache \<Rightarrow> cachedIndex set" where
  "cacheEntries c = set (listValues (cacheOrder c))"

lemma cacheInv_new: "cacheInv (newIndexCache cap)"
  by (simp add: cacheInv_def newIndexCache_def listLen_def newList_def keyed_new [unfolded newList_def])

lemma keyed_evict:
  assumes "keyed cachedPath (byPath c) (cacheOrder c)" and "(e, entry) \<in> set (elems (cacheOrder c))"
  shows "keyed cachedPath (byPath (cacheEvict e entry c)) (cacheOrder (cacheEvict e entry c))
    \<and> cacheEntries (cacheEvict e entry c) \<subseteq> cacheEntries c"
  using keyed_remove [OF assms(1) keyed_entry [OF assms]]
  by (auto simp: cacheEvict_def cacheEntries_def listValues_def removeElem_def)

lemma filter_last_elem:
  assumes "distinct (map fst xs)" and "xs \<noteq> []"
  shows "filter (\<lambda>p. fst p \<noteq> fst (last xs)) xs = butlast xs"
proof -
  obtain ys p where xs: "xs = ys @ [p]" using assms(2) by (metis append_butlast_last_id)
  with assms(1) have "filter (\<lambda>q. fst q \<noteq> fst p) ys = ys" by (intro filter_True) (auto simp: image_iff)
  with xs show ?thesis by simp
qed

lemma cacheShrink_spec:
  assumes "keyed cachedPath (byPath c) (cacheOrder c)"
  shows "cacheInv (cacheShrink c) \<and> cacheCapacity (cacheShrink c) = cacheCapacity c
    \<and> listValues (cacheOrder (cacheShrink c)) = take (cacheCapacity c) (listValues (cacheOrder c))"
  using assms
proof (induction c rule: cacheShrink.induct)
  case (1 c)
  show ?case
  proof (cases "cacheCapacity c < listLen (cacheOrder c)")
    case False
    then have "cacheShrink c = c" by (subst cacheShrink.simps) simp
    with False "1.prems" show ?thesis by (simp add: cacheInv_def listLen_def listValues_def)
  next
    case True
    let ?xs = "elems (cacheOrder c)"
    have ne: "?xs \<noteq> []" using True by (auto simp: listLen_def)
    define d where "d = cacheEvict (fst (last ?xs)) (snd (last ?xs)) c"
    have mem: "(fst (last ?xs), snd (last ?xs)) \<in> set ?xs" using ne by simp
    have kd: "keyed cachedPath (byPath d) (cacheOrder d)" using keyed_evict [OF "1.prems" mem] by (simp add: d_def)
    have "distinct (map fst ?xs)" using keyed_ok [OF "1.prems"] by (simp add: clistOK_def)
    then have v: "listValues (cacheOrder d) = butlast (listValues (cacheOrder c))"
      using filter_last_elem [OF _ ne] by (simp add: d_def cacheEvict_def removeElem_def listValues_def map_butlast)
    have cap: "cacheCapacity d = cacheCapacity c" by (simp add: d_def cacheEvict_def)
    have step: "cacheShrink c = cacheShrink d" using True by (subst cacheShrink.simps) (simp add: Let_def d_def)
    have "take (cacheCapacity c) (butlast (listValues (cacheOrder c))) = take (cacheCapacity c) (listValues (cacheOrder c))"
      using True by (simp add: take_butlast listLen_def listValues_def)
    with "1.IH" [OF True refl, folded d_def, OF kd] v cap show ?thesis unfolding step by simp
  qed
qed

lemma listValues_moveToFront:
  assumes "keyed key idx l" and "idx k = Some e"
  obtains v where "elemValue l e = Some v" and "key v = k"
    and "listValues (moveToFront e l) = v # filter (\<lambda>x. key x \<noteq> k) (listValues l)"
proof -
  obtain v where v: "elemValue l e = Some v" "key v = k" using keyed_lookup [OF assms] by metis
  have "p \<in> set (elems l) \<Longrightarrow> fst p \<noteq> e \<longleftrightarrow> key (snd p) \<noteq> k" for p
    using keyed_entry [OF assms(1), of "fst p" "snd p"] keyed_value [OF assms(1), of e v "snd p"] v assms(2)
      elemValue_iff [OF keyed_ok [OF assms(1)], of e v] by (metis option.inject prod.collapse)
  then have "filter (\<lambda>p. fst p \<noteq> e) (elems l) = filter (\<lambda>p. key (snd p) \<noteq> k) (elems l)"
    by (rule filter_cong [OF refl])
  then have "listValues (moveToFront e l) = v # filter (\<lambda>x. key x \<noteq> k) (listValues l)"
    using v by (simp add: moveToFront_def listValues_def filter_map comp_def)
  with v that show thesis by blast
qed

lemma cachePut_spec:
  assumes "cacheInv c" and "0 < cacheCapacity c"
  shows "cacheInv (cachePut entry c) \<and> cacheCapacity (cachePut entry c) = cacheCapacity c
    \<and> listValues (cacheOrder (cachePut entry c))
      = take (cacheCapacity c) (entry # filter (\<lambda>x. cachedPath x \<noteq> cachedPath entry) (listValues (cacheOrder c)))"
proof -
  have key: "keyed cachedPath (byPath c) (cacheOrder c)" and len: "listLen (cacheOrder c) \<le> cacheCapacity c"
    using assms(1) by (auto simp: cacheInv_def)
  show ?thesis
  proof (cases "byPath c (cachedPath entry)")
    case None
    let ?d = "c\<lparr>cacheOrder := snd (pushFront entry (cacheOrder c)),
      byPath := (byPath c)(cachedPath entry \<mapsto> nextElem (cacheOrder c))\<rparr>"
    have "cachedPath x \<noteq> cachedPath entry" if "x \<in> set (listValues (cacheOrder c))" for x
      using keyed_None [OF key, of "cachedPath entry"] None that by (metis image_eqI)
    then have "filter (\<lambda>x. cachedPath x \<noteq> cachedPath entry) (listValues (cacheOrder c)) = listValues (cacheOrder c)"
      by (intro filter_True) auto
    moreover have "listValues (cacheOrder ?d) = entry # listValues (cacheOrder c)"
      by (simp add: listValues_def pushFront_def)
    moreover have "cachePut entry c = cacheShrink ?d" using None by (simp add: cachePut_def Let_def pushFront_def)
    moreover have "keyed cachedPath (byPath ?d) (cacheOrder ?d)" using keyed_pushFront [OF key, of entry] None by simp
    ultimately show ?thesis using cacheShrink_spec [of ?d] by simp
  next
    case (Some e)
    let ?l = "setValue e entry (moveToFront e (cacheOrder c))"
    obtain v where v: "listValues (moveToFront e (cacheOrder c)) = v # filter (\<lambda>x. cachedPath x \<noteq> cachedPath entry) (listValues (cacheOrder c))"
        "elemValue (cacheOrder c) e = Some v"
      using listValues_moveToFront [OF key Some] by metis
    have key': "keyed cachedPath (byPath c) ?l"
      using keyed_setValue [OF keyed_move(1) [OF key] Some] .
    have front: "elems (moveToFront e (cacheOrder c)) = (e, v) # filter (\<lambda>p. fst p \<noteq> e) (elems (cacheOrder c))"
      using v(2) by (simp add: moveToFront_def)
    have "listValues ?l = entry # filter (\<lambda>x. cachedPath x \<noteq> cachedPath entry) (listValues (cacheOrder c))"
    proof -
      have "map snd (filter (\<lambda>p. fst p \<noteq> e) (elems (cacheOrder c)))
          = filter (\<lambda>x. cachedPath x \<noteq> cachedPath entry) (listValues (cacheOrder c))"
        using v(1) front by (simp add: listValues_def)
      moreover have "map (\<lambda>p. if fst p = e then (e, entry) else p) (filter (\<lambda>p. fst p \<noteq> e) (elems (cacheOrder c)))
          = filter (\<lambda>p. fst p \<noteq> e) (elems (cacheOrder c))" by (intro map_idI) auto
      ultimately show ?thesis by (simp add: setValue_def listValues_def front)
    qed
    moreover have "length (elems ?l) = length (elems (cacheOrder c))"
    proof -
      have "set (map fst (elems ?l)) = set (map fst (elems (cacheOrder c)))"
        using set_moved(1) [OF keyed_ok [OF key], of e] fst_setValue [of e entry "moveToFront e (cacheOrder c)"] by simp
      moreover have "distinct (map fst (elems ?l))" "distinct (map fst (elems (cacheOrder c)))"
        using keyed_ok [OF key'] keyed_ok [OF key] by (auto simp: clistOK_def)
      ultimately show ?thesis by (metis distinct_card length_map)
    qed
    ultimately show ?thesis using Some key' len
      by (simp add: cachePut_def cacheInv_def listLen_def) (metis length_map listValues_def take_all)
  qed
qed

lemma cacheGet_spec:
  assumes "cacheInv c" and "cacheGet path identity opts c = (hit, c')"
  shows "cacheInv c' \<and> cacheCapacity c' = cacheCapacity c \<and> cacheEntries c' \<subseteq> cacheEntries c
    \<and> (\<forall>m branch. hit = Some (m, branch) \<longrightarrow>
         (\<exists>entry \<in> cacheEntries c. cachedPath entry = path \<and> cachedIdentity entry = identity
            \<and> cachedMaxLine entry = maxLineBytes opts \<and> cachedIndexBytes entry = indexBytes opts
            \<and> m = cachedMeta entry \<and> branch = cachedBranch entry))"
proof (cases "byPath c path")
  case None
  with assms show ?thesis by (simp add: cacheGet_def)
next
  case (Some e)
  have key: "keyed cachedPath (byPath c) (cacheOrder c)" and len: "listLen (cacheOrder c) \<le> cacheCapacity c"
    using assms(1) by (auto simp: cacheInv_def)
  obtain entry where en: "elemValue (cacheOrder c) e = Some entry" "cachedPath entry = path"
      "(e, entry) \<in> set (elems (cacheOrder c))" using keyed_lookup [OF key Some] by metis
  then have mem: "entry \<in> cacheEntries c" by (force simp: cacheEntries_def listValues_def)
  show ?thesis
  proof (cases "\<not> identityMatches (cachedIdentity entry) identity \<or> cachedMaxLine entry \<noteq> maxLineBytes opts
                   \<or> cachedIndexBytes entry \<noteq> indexBytes opts")
    case True
    then have "hit = None" "c' = cacheEvict e entry c" using assms(2) Some en by (auto simp: cacheGet_def)
    moreover have "listLen (cacheOrder (cacheEvict e entry c)) \<le> listLen (cacheOrder c)"
      by (simp add: cacheEvict_def listLen_def removeElem_def)
    ultimately show ?thesis using keyed_evict [OF key en(3)] len by (simp add: cacheInv_def cacheEvict_def)
  next
    case False
    then have hit: "hit = Some (cachedMeta entry, cachedBranch entry)"
      and c': "c' = c\<lparr>cacheOrder := moveToFront e (cacheOrder c), cacheHits := Suc (cacheHits c)\<rparr>"
      using assms(2) Some en by (auto simp: cacheGet_def)
    have ids: "cachedIdentity entry = identity"
      using False by (cases "cachedIdentity entry"; cases identity) (auto simp: identityMatches_def)
    have "set (elems (moveToFront e (cacheOrder c))) = set (elems (cacheOrder c))" by (rule set_moved [OF keyed_ok [OF key]])
    then have "cacheEntries c' = cacheEntries c" by (simp add: c' cacheEntries_def listValues_def)
    moreover have "length (elems (moveToFront e (cacheOrder c))) \<le> length (elems (cacheOrder c))"
    proof -
      have "length (filter (\<lambda>p. fst p \<noteq> e) (elems (cacheOrder c))) < length (elems (cacheOrder c))"
        using en(3) by (intro length_filter_less) auto
      then show ?thesis using en(1) by (simp add: moveToFront_def)
    qed
    moreover have "keyed cachedPath (byPath c) (moveToFront e (cacheOrder c))" by (rule keyed_move(1) [OF key])
    ultimately show ?thesis using hit c' mem en(2) ids False len by (auto simp: cacheInv_def listLen_def)
  qed
qed

interpretation index_cache: lru cap "\<lambda>c. cacheInv c \<and> cacheCapacity c = cap \<and> 0 < cap" cachePaths "\<lambda>c. {}"
  "\<lambda>path entry. cachePut (entry\<lparr>cachedPath := path\<rparr>)"
proof
  fix c :: indexCache and path and entry :: cachedIndex
  assume c: "cacheInv c \<and> cacheCapacity c = cap \<and> 0 < cap"
  let ?e = "entry\<lparr>cachedPath := path\<rparr>"
  note spec = cachePut_spec [of c ?e]
  show "cacheInv (cachePut ?e c) \<and> cacheCapacity (cachePut ?e c) = cap \<and> 0 < cap" using spec c by simp
  show "cachePaths (cachePut ?e c) = trim cap (filter (\<lambda>x. x \<noteq> path) (cachePaths c) @ [path])"
  proof -
    have "cachePaths (cachePut ?e c) = trim cap (rev (map cachedPath (?e # filter (\<lambda>x. cachedPath x \<noteq> path) (listValues (cacheOrder c)))))"
      using spec c by (simp add: cachePaths_def trim_def rev_take take_map [symmetric] drop_map del: list.map)
    also have "\<dots> = trim cap (filter (\<lambda>x. x \<noteq> path) (cachePaths c) @ [path])"
      by (simp add: cachePaths_def filter_map comp_def rev_filter [symmetric] rev_map)
    finally show ?thesis .
  qed
  show "distinct (cachePaths c)"
    using keyed_distinct [of cachedPath "byPath c" "cacheOrder c"] c by (simp add: cachePaths_def cacheInv_def)
qed simp_all

subsection \<open>Serving from the cache changes nothing\<close>

definition identityOf :: "(string \<Rightarrow> string) \<Rightarrow> sessionFile \<Rightarrow> fileIdentity" where
  "identityOf sha f = (if changeTime (statIdentity f) = None then (statIdentity f)\<lparr>digest := sha (fileBytes f)\<rparr> else statIdentity f)"

text \<open>
  The assumption the fence rests on, for a given history of files: the identity of a file determines
  its bytes. \<open>world\<close> names the bytes of an identity.
\<close>

definition coherent :: "(fileIdentity \<Rightarrow> string) \<Rightarrow> (string \<Rightarrow> string) \<Rightarrow> sessionFile \<Rightarrow> bool" where
  "coherent world sha f \<longleftrightarrow> world (identityOf sha f) = fileBytes f"

definition faithfulEntry :: "(fileIdentity \<Rightarrow> string) \<Rightarrow> cachedIndex \<Rightarrow> bool" where
  "faithfulEntry world entry \<longleftrightarrow>
     (\<forall>opts. 0 \<le> maxLineBytes opts \<longrightarrow> maxLineBytes opts = cachedMaxLine entry \<longrightarrow> indexBytes opts = cachedIndexBytes entry \<longrightarrow>
        index (\<lambda>_. None) opts None (world (cachedIdentity entry)) = Inr (cachedMeta entry, cachedBranch entry))"

text \<open>The reader does not see or change the cache, so a history need not say what the readers did.\<close>

lemma withSessionFile_reader:
  "snd (withSessionFile ctx0 ctx sha f path opts read c) = snd (withSessionFile ctx0 ctx sha f path opts (\<lambda>_ _. Inr ()) c)"
  by (simp add: withSessionFile_def Let_def split: option.splits sum.splits prod.splits)

inductive cacheHistory :: "(fileIdentity \<Rightarrow> string) \<Rightarrow> (string \<Rightarrow> string) \<Rightarrow> indexCache \<Rightarrow> bool" for world sha where
  fresh: "cacheHistory world sha (newIndexCache DefaultIndexCacheFiles)"
| use: "cacheHistory world sha c \<Longrightarrow> coherent world sha f \<Longrightarrow> 1 \<le> maxLineBytes opts \<Longrightarrow>
    withSessionFile ctx0 ctx sha f path opts (\<lambda>_ _. Inr ()) c = (res, c') \<Longrightarrow> cacheHistory world sha c'"

text \<open>What one call leaves in the cache.\<close>

lemma withSessionFile_cache:
  assumes "withSessionFile ctx0 ctx sha f path opts read c = (res, c')"
  shows "c' = c \<or> (\<exists>hit c1. \<not> noCache opts \<and> cacheGet path (identityOf sha f) opts c = (hit, c1)
    \<and> (c' = c1 \<or> (\<exists>m branch. index ctx opts (fileEnd f) (fileBytes f) = Inr (m, branch)
         \<and> c' = cachePut \<lparr>cachedPath = path, cachedIdentity = identityOf sha f, cachedMeta = m, cachedBranch = branch,
                          cachedMaxLine = maxLineBytes opts, cachedIndexBytes = indexBytes opts\<rparr> c1)))"
proof (cases "noCache opts")
  case True
  with assms show ?thesis
    by (auto simp: withSessionFile_def Let_def split: option.splits sum.splits if_splits)
next
  case False
  obtain hit c1 where g: "cacheGet path (identityOf sha f) opts c = (hit, c1)"
    by (cases "cacheGet path (identityOf sha f) opts c")
  have "identityOf sha f = (if changeTime (statIdentity f) = None then (statIdentity f)\<lparr>digest := sha (fileBytes f)\<rparr> else statIdentity f)"
    by (simp add: identityOf_def)
  with assms False g show ?thesis
    by (auto simp: withSessionFile_def Let_def split: option.splits sum.splits if_splits prod.splits)
qed

lemma cacheHistory_inv:
  assumes "cacheHistory world sha c"
  shows "cacheInv c \<and> cacheCapacity c = DefaultIndexCacheFiles \<and> (\<forall>entry \<in> cacheEntries c. faithfulEntry world entry)"
  using assms
proof (induction rule: cacheHistory.induct)
  case fresh
  have "cacheEntries (newIndexCache DefaultIndexCacheFiles) = {}"
    by (simp add: cacheEntries_def newIndexCache_def newList_def listValues_def)
  then show ?case by (simp add: cacheInv_new) (simp add: newIndexCache_def)
next
  case (use c f opts ctx0 ctx path res c')
  from withSessionFile_cache [OF use.hyps(4)] show ?case
  proof
    assume "c' = c" with use.IH show ?thesis by simp
  next
    assume "\<exists>hit c1. \<not> noCache opts \<and> cacheGet path (identityOf sha f) opts c = (hit, c1)
      \<and> (c' = c1 \<or> (\<exists>m branch. index ctx opts (fileEnd f) (fileBytes f) = Inr (m, branch)
         \<and> c' = cachePut \<lparr>cachedPath = path, cachedIdentity = identityOf sha f, cachedMeta = m, cachedBranch = branch,
                          cachedMaxLine = maxLineBytes opts, cachedIndexBytes = indexBytes opts\<rparr> c1))"
    then obtain hit c1 where g: "cacheGet path (identityOf sha f) opts c = (hit, c1)"
      and c': "c' = c1 \<or> (\<exists>m branch. index ctx opts (fileEnd f) (fileBytes f) = Inr (m, branch)
         \<and> c' = cachePut \<lparr>cachedPath = path, cachedIdentity = identityOf sha f, cachedMeta = m, cachedBranch = branch,
                          cachedMaxLine = maxLineBytes opts, cachedIndexBytes = indexBytes opts\<rparr> c1)" by blast
    from cacheGet_spec [OF _ g] use.IH
    have c1: "cacheInv c1" "cacheCapacity c1 = DefaultIndexCacheFiles" "\<forall>entry \<in> cacheEntries c1. faithfulEntry world entry"
      by auto
    from c' show ?thesis
    proof
      assume "c' = c1" with c1 show ?thesis by simp
    next
      assume "\<exists>m branch. index ctx opts (fileEnd f) (fileBytes f) = Inr (m, branch)
         \<and> c' = cachePut \<lparr>cachedPath = path, cachedIdentity = identityOf sha f, cachedMeta = m, cachedBranch = branch,
                          cachedMaxLine = maxLineBytes opts, cachedIndexBytes = indexBytes opts\<rparr> c1"
      then obtain m branch where ix: "index ctx opts (fileEnd f) (fileBytes f) = Inr (m, branch)"
        and put: "c' = cachePut \<lparr>cachedPath = path, cachedIdentity = identityOf sha f, cachedMeta = m, cachedBranch = branch,
                          cachedMaxLine = maxLineBytes opts, cachedIndexBytes = indexBytes opts\<rparr> c1" by blast
      let ?e = "\<lparr>cachedPath = path, cachedIdentity = identityOf sha f, cachedMeta = m, cachedBranch = branch,
                          cachedMaxLine = maxLineBytes opts, cachedIndexBytes = indexBytes opts\<rparr>"
      have "index (\<lambda>_. None) opts None (fileBytes f) = Inr (m, branch)" using index_live [OF _ ix] use.hyps(3) by simp
      then have "faithfulEntry world ?e"
        using use.hyps(2) index_same_bounds [of _ opts "\<lambda>_. None" None "fileBytes f"]
        by (auto simp: faithfulEntry_def coherent_def)
      moreover have "cacheEntries (cachePut ?e c1) \<subseteq> insert ?e (cacheEntries c1)"
        using cachePut_spec [OF c1(1), of ?e] c1(2)
        by (auto simp: cacheEntries_def DefaultIndexCacheFiles_def dest!: in_set_takeD)
      ultimately show ?thesis using cachePut_spec [OF c1(1), of ?e] c1 put by (auto simp: DefaultIndexCacheFiles_def)
    qed
  qed
qed

text \<open>
  C11: The index cache is transparent. Whatever files were opened before through it, as long as a
  file's identity (device, inode, size, modification and change time, or its digest where there is
  no change time) determines its bytes, opening a file through the cache gives the reader exactly
  what indexing the file afresh gives it; a stale or differently bounded entry is never served.
\<close>
theorem cached_index_transparent:
  assumes "cacheHistory world sha c" and "coherent world sha f" and "1 \<le> maxLineBytes opts"
    and "openErr f = None" and "statErr f = None" and "hashErr f = None" and "seekErr f = None" and "fileEnd f = None"
  shows "fst (withSessionFile None (\<lambda>_. None) sha f path opts read c) =
    (case index (\<lambda>_. None) opts None (fileBytes f) of Inl err \<Rightarrow> Inl err | Inr (m, branch) \<Rightarrow> read m branch)"
proof (cases "noCache opts")
  case True
  with assms(4-8) show ?thesis by (auto simp: withSessionFile_def Let_def split: sum.splits)
next
  case False
  obtain hit c1 where g: "cacheGet path (identityOf sha f) opts c = (hit, c1)"
    by (cases "cacheGet path (identityOf sha f) opts c")
  have run: "fst (withSessionFile None (\<lambda>_. None) sha f path opts read c) =
      (case hit of Some (m, branch) \<Rightarrow> read m branch
       | None \<Rightarrow> (case index (\<lambda>_. None) opts None (fileBytes f) of Inl err \<Rightarrow> Inl err | Inr (m, branch) \<Rightarrow> read m branch))"
    using assms(4-8) False g
    by (auto simp: withSessionFile_def Let_def identityOf_def split: option.splits sum.splits prod.splits if_splits)
  show ?thesis
  proof (cases hit)
    case None
    with run show ?thesis by simp
  next
    case (Some mb)
    then obtain m branch where mb: "hit = Some (m, branch)" by (cases mb) auto
    from cacheHistory_inv [OF assms(1)] have inv: "cacheInv c" "\<forall>entry \<in> cacheEntries c. faithfulEntry world entry" by auto
    from cacheGet_spec [OF inv(1) g] mb obtain entry where en: "entry \<in> cacheEntries c"
        "cachedIdentity entry = identityOf sha f" "cachedMaxLine entry = maxLineBytes opts"
        "cachedIndexBytes entry = indexBytes opts" "m = cachedMeta entry" "branch = cachedBranch entry" by blast
    have "index (\<lambda>_. None) opts None (fileBytes f) = Inr (m, branch)"
      using inv(2) en assms(2,3) by (auto simp: faithfulEntry_def coherent_def)
    with run mb show ?thesis by simp
  qed
qed

text \<open>
  The cache never holds more than eight files, one entry per path, and its paths are in order
  of last insertion: after storing results for a sequence of paths it holds the newest ones.
\<close>
theorem index_cache_bounded:
  "(cacheHistory world sha c \<longrightarrow> length (cachePaths c) \<le> 8 \<and> distinct (cachePaths c))
   \<and> cachePaths (fold (\<lambda>(path, entry). cachePut (entry\<lparr>cachedPath := path\<rparr>)) us (newIndexCache DefaultIndexCacheFiles))
     = trim 8 (remdups (map fst us))"
proof
  show "cacheHistory world sha c \<longrightarrow> length (cachePaths c) \<le> 8 \<and> distinct (cachePaths c)"
    using cacheHistory_inv [of world sha c] index_cache.hist_distinct [of c DefaultIndexCacheFiles]
    by (auto simp: cacheInv_def cachePaths_def listLen_def listValues_def DefaultIndexCacheFiles_def)
  have "cacheInv (newIndexCache DefaultIndexCacheFiles) \<and> cacheCapacity (newIndexCache DefaultIndexCacheFiles) = 8 \<and> (0::nat) < 8"
    using cacheInv_new by (simp add: newIndexCache_def DefaultIndexCacheFiles_def)
  moreover have "cachePaths (newIndexCache DefaultIndexCacheFiles) = []"
    by (simp add: cachePaths_def newIndexCache_def newList_def listValues_def)
  ultimately show "cachePaths (fold (\<lambda>(path, entry). cachePut (entry\<lparr>cachedPath := path\<rparr>)) us (newIndexCache DefaultIndexCacheFiles))
      = trim 8 (remdups (map fst us))"
    using index_cache.hist_touches [of "newIndexCache DefaultIndexCacheFiles" 8 us] by (simp add: index_cache.touches_def)
qed

subsection \<open>Witnesses\<close>

definition demoSession :: sessionFile where
  "demoSession = \<lparr>openErr = None, statErr = None,
     statIdentity = \<lparr>device = 1, inode = 7, fileSize = length demoFile, modTime = 5, changeTime = None, digest = []\<rparr>,
     hashErr = None, seekErr = None, fileBytes = demoFile, fileEnd = None\<rparr>"

definition demoCache :: indexCache where
  "demoCache = snd (withSessionFile None (\<lambda>_. None) (\<lambda>b. b) demoSession ''p'' demoOptions (\<lambda>_ _. Inr ())
     (newIndexCache DefaultIndexCacheFiles))"

lemma demoCache_history: "cacheHistory (\<lambda>_. demoFile) (\<lambda>b. b) demoCache"
proof (rule cacheHistory.use [OF cacheHistory.fresh])
  show "coherent (\<lambda>_. demoFile) (\<lambda>b. b) demoSession" by (simp add: coherent_def demoSession_def)
  show "1 \<le> maxLineBytes demoOptions" by (simp add: demoOptions_def)
  show "withSessionFile None (\<lambda>_. None) (\<lambda>b. b) demoSession ''p'' demoOptions (\<lambda>_ _. Inr ()) (newIndexCache DefaultIndexCacheFiles)
      = (fst (withSessionFile None (\<lambda>_. None) (\<lambda>b. b) demoSession ''p'' demoOptions (\<lambda>_ _. Inr ()) (newIndexCache DefaultIndexCacheFiles)), demoCache)"
    by (simp add: demoCache_def)
qed

lemma demoCache_paths: "cachePaths demoCache = [''p'']"
  using demo_index
  by (simp add: demoCache_def withSessionFile_def demoSession_def Let_def demoOptions_def zeroOptions_def cacheGet_def
      newIndexCache_def cachePut_def newList_def pushFront_def cacheShrink.simps listLen_def DefaultIndexCacheFiles_def
      cachePaths_def listValues_def)

theorem cached_index_transparent_witness:
  "cachePaths demoCache = [''p'']
   \<and> fst (withSessionFile None (\<lambda>_. None) (\<lambda>b. b) demoSession ''p'' demoOptions (\<lambda>m branch. Inr (map refID branch)) demoCache)
     = Inr [''a'', ''b'']"
proof -
  have "coherent (\<lambda>_. demoFile) (\<lambda>b. b) demoSession" "1 \<le> maxLineBytes demoOptions"
    by (simp_all add: coherent_def demoSession_def demoOptions_def)
  from cached_index_transparent [OF demoCache_history this, of "''p''" "\<lambda>m branch. Inr (map refID branch)"]
  show ?thesis using demo_index demoCache_paths by (simp add: demoSession_def) (simp add: demoRefs_def)
qed

theorem index_cache_bounded_witness:
  "cacheHistory (\<lambda>_. demoFile) (\<lambda>b. b) demoCache \<and> length (cachePaths demoCache) \<le> 8 \<and> distinct (cachePaths demoCache)"
  using index_cache_bounded [of "\<lambda>_. demoFile" "\<lambda>b. b" demoCache "[]"] demoCache_history by blast

end
