(* ===== verification/ResidencyLRU.thy ===== *)
theory ResidencyLRU
  imports LinkedList
begin

text \<open>
  \<open>internal/session/residency_lru.go\<close>: values of resident (pinned) keys are kept without bound,
  the others in a list bounded by \<open>capacity\<close>, oldest evicted first. A nil map of the zero value
  reads as an empty one.
\<close>

record 'v residencyLRU =
  capacity :: nat
  vals :: "string \<rightharpoonup> 'v"
  pinned :: "string set"
  keyIndex :: "string \<rightharpoonup> nat"
  recent :: "string clist"

definition newResidencyLRU :: "nat \<Rightarrow> 'v residencyLRU" where
  "newResidencyLRU cap = \<lparr>capacity = cap, vals = Map.empty, pinned = {}, keyIndex = Map.empty, recent = newList\<rparr>"

definition Get :: "'v residencyLRU \<Rightarrow> string \<Rightarrow> 'v option" where
  "Get l key = vals l key"

function evict :: "'v residencyLRU \<Rightarrow> 'v residencyLRU" where
  "evict l =
     (if capacity l < listLen (recent l)
      then (let oldest = hd (elems (recent l)); key = snd oldest in
            evict (l\<lparr>vals := (vals l)(key := None), keyIndex := (keyIndex l)(key := None),
                     recent := removeElem (fst oldest) (recent l)\<rparr>))
      else l)"
  by pat_completeness auto
termination
proof (relation "measure (\<lambda>l. listLen (recent l))", goal_cases)
  case (2 l oldest key)
  then obtain p ps where "elems (recent l) = p # ps" by (cases "elems (recent l)") (auto simp: listLen_def)
  with 2 show ?case
    by (auto simp: listLen_def removeElem_def less_Suc_eq_le)
qed simp

declare evict.simps [simp del]

definition Put :: "string \<Rightarrow> 'v \<Rightarrow> 'v residencyLRU \<Rightarrow> 'v residencyLRU" where
  "Put key value l =
     (let l1 = l\<lparr>vals := (vals l)(key \<mapsto> value)\<rparr> in
      if key \<in> pinned l1 then l1
      else (case keyIndex l1 key of
              None \<Rightarrow> (let p = pushBack key (recent l1) in
                       evict (l1\<lparr>keyIndex := (keyIndex l1)(key \<mapsto> fst p), recent := snd p\<rparr>))
            | Some e \<Rightarrow> evict (l1\<lparr>recent := moveToBack e (recent l1)\<rparr>)))"

definition Pin :: "string \<Rightarrow> 'v residencyLRU \<Rightarrow> 'v residencyLRU" where
  "Pin key l =
     (let l1 = l\<lparr>pinned := insert key (pinned l)\<rparr> in
      case keyIndex l1 key of
        None \<Rightarrow> l1
      | Some e \<Rightarrow> l1\<lparr>recent := removeElem e (recent l1), keyIndex := (keyIndex l1)(key := None)\<rparr>)"

definition Unpin :: "string \<Rightarrow> 'v residencyLRU \<Rightarrow> 'v residencyLRU" where
  "Unpin key l =
     (if key \<notin> pinned l then l
      else (let l1 = l\<lparr>pinned := pinned l - {key}\<rparr> in
            if vals l1 key = None then l1
            else (let p = pushBack key (recent l1) in
                  evict (l1\<lparr>keyIndex := (keyIndex l1)(key \<mapsto> fst p), recent := snd p\<rparr>))))"

definition Delete :: "string \<Rightarrow> 'v residencyLRU \<Rightarrow> 'v residencyLRU" where
  "Delete key l =
     (let l1 = (case keyIndex l key of
                  None \<Rightarrow> l
                | Some e \<Rightarrow> l\<lparr>recent := removeElem e (recent l), keyIndex := (keyIndex l)(key := None)\<rparr>)
      in l1\<lparr>pinned := pinned l1 - {key}, vals := (vals l1)(key := None)\<rparr>)"

definition HistoryLen :: "'v residencyLRU \<Rightarrow> nat" where
  "HistoryLen l = listLen (recent l)"

text \<open>\<open>Range\<close> visits every value once, in an order the language leaves open.\<close>

definition RangeVisits :: "'v residencyLRU \<Rightarrow> (string \<times> 'v) list \<Rightarrow> bool" where
  "RangeVisits l visits \<longleftrightarrow> distinct (map fst visits) \<and> map_of visits = vals l"

subsection \<open>Invariant\<close>

definition resInv :: "'v residencyLRU \<Rightarrow> bool" where
  "resInv l \<longleftrightarrow> keyed (\<lambda>k. k) (keyIndex l) (recent l) \<and> dom (keyIndex l) = dom (vals l) - pinned l"

definition bounded :: "'v residencyLRU \<Rightarrow> bool" where
  "bounded l \<longleftrightarrow> listLen (recent l) \<le> capacity l"

definition hist :: "'v residencyLRU \<Rightarrow> string list" where
  "hist l = listValues (recent l)"

lemma hist_set: "keyed (\<lambda>k. k) (keyIndex l) (recent l) \<Longrightarrow> set (hist l) = dom (keyIndex l)"
  using keyed_None [of "\<lambda>k. k" "keyIndex l" "recent l"] by (auto simp: hist_def) (metis not_Some_eq)

lemma evict_spec:
  assumes "keyed (\<lambda>k. k) (keyIndex l) (recent l)" and "dom (keyIndex l) = dom (vals l) - pinned l"
  shows "resInv (evict l) \<and> bounded (evict l) \<and> pinned (evict l) = pinned l \<and> capacity (evict l) = capacity l
    \<and> hist (evict l) = trim (capacity l) (hist l)
    \<and> vals (evict l) = (vals l) |` (- set (take (length (hist l) - capacity l) (hist l)))"
  using assms
proof (induction l rule: evict.induct)
  case (1 l)
  show ?case
  proof (cases "capacity l < listLen (recent l)")
    case False
    then have "evict l = l" by (subst evict.simps) simp
    with False "1.prems" show ?thesis
      by (simp add: resInv_def bounded_def trim_def hist_def listLen_def listValues_def)
  next
    case True
    then obtain p ps where ps: "elems (recent l) = p # ps" by (cases "elems (recent l)") (auto simp: listLen_def)
    define m where "m = l\<lparr>vals := (vals l)(snd p := None), keyIndex := (keyIndex l)(snd p := None),
      recent := removeElem (fst p) (recent l)\<rparr>"
    have m: "pinned m = pinned l" "capacity m = capacity l" "vals m = (vals l)(snd p := None)"
      "keyIndex m = (keyIndex l)(snd p := None)" "recent m = removeElem (fst p) (recent l)"
      by (simp_all add: m_def)
    have idx: "keyIndex l (snd p) = Some (fst p)" using keyed_entry [OF "1.prems"(1), of "fst p" "snd p"] ps by simp
    have ok: "distinct (map fst (elems (recent l)))" using keyed_ok [OF "1.prems"(1)] by (simp add: clistOK_def)
    then have rest: "elems (recent m) = ps" using ps by (auto simp: m removeElem_def filter_id_conv image_iff)
    have h: "hist l = snd p # hist m" using ps rest by (simp add: hist_def listValues_def)
    have k1: "keyed (\<lambda>k. k) (keyIndex m) (recent m)" using keyed_remove [OF "1.prems"(1) idx] by (simp add: m)
    have d1: "dom (keyIndex m) = dom (vals m) - pinned m" using "1.prems"(2) by (auto simp: m)
    have step: "evict l = evict m" using True ps by (subst evict.simps) (simp add: Let_def m_def)
    note IH = "1.IH" [OF True refl refl, unfolded ps list.sel, folded m_def, OF k1 d1]
    have n: "length (hist l) - capacity l = Suc (length (hist m) - capacity m)"
      using True ps rest by (simp add: m(2) listLen_def hist_def listValues_def)
    have tk: "take (length (hist l) - capacity l) (hist l) = snd p # take (length (hist m) - capacity m) (hist m)"
      by (simp only: n) (simp add: h)
    have "vals (evict m) = (vals l) |` (- set (take (length (hist l) - capacity l) (hist l)))"
      using IH unfolding tk by (auto simp: restrict_map_def fun_eq_iff m(3))
    moreover have "trim (capacity l) (hist l) = trim (capacity m) (hist m)"
      unfolding trim_def by (simp only: n) (simp add: h)
    ultimately show ?thesis using IH m(1,2) unfolding step by simp
  qed
qed

lemma resInv_new: "resInv (newResidencyLRU cap)"
  by (simp add: resInv_def newResidencyLRU_def)

lemma hist_distinct: "resInv l \<Longrightarrow> distinct (hist l)"
  using keyed_distinct [of "\<lambda>k. k" "keyIndex l" "recent l"] by (simp add: resInv_def hist_def)

lemma hist_tracked: "resInv l \<Longrightarrow> set (hist l) = dom (vals l) - pinned l"
  using hist_set [of l] by (simp add: resInv_def)

lemma listValues_moveToBack:
  assumes "keyed (\<lambda>k. k) idx l" and "idx k = Some e"
  shows "listValues (moveToBack e l) = filter (\<lambda>x. x \<noteq> k) (listValues l) @ [k]"
proof -
  obtain v where v: "elemValue l e = Some v" "v = k" using keyed_lookup [OF assms] by metis
  have "p \<in> set (elems l) \<Longrightarrow> fst p \<noteq> e \<longleftrightarrow> snd p \<noteq> k" for p
    using keyed_entry [OF assms(1), of "fst p" "snd p"] keyed_value [OF assms(1), of e v "snd p"] v assms(2)
      elemValue_iff [OF keyed_ok [OF assms(1)], of e v] by (metis option.inject prod.collapse)
  then have "filter (\<lambda>p. fst p \<noteq> e) (elems l) = filter (\<lambda>p. snd p \<noteq> k) (elems l)"
    by (rule filter_cong [OF refl])
  then show ?thesis using v by (simp add: moveToBack_def listValues_def filter_map comp_def)
qed

lemma listValues_remove:
  assumes "keyed (\<lambda>k. k) idx l" and "idx k = Some e"
  shows "listValues (removeElem e l) = filter (\<lambda>x. x \<noteq> k) (listValues l)"
proof -
  obtain v where "elemValue l e = Some v" using keyed_lookup [OF assms] by metis
  with listValues_moveToBack [OF assms] show ?thesis
    by (simp add: listValues_def removeElem_def moveToBack_def)
qed

lemma Put_unpinned:
  assumes "resInv l" and "k \<notin> pinned l"
  shows "let h = filter (\<lambda>x. x \<noteq> k) (hist l) @ [k] in
    resInv (Put k v l) \<and> bounded (Put k v l) \<and> pinned (Put k v l) = pinned l \<and> capacity (Put k v l) = capacity l
    \<and> hist (Put k v l) = trim (capacity l) h
    \<and> vals (Put k v l) = ((vals l)(k \<mapsto> v)) |` (- set (take (length h - capacity l) h))"
proof -
  have key: "keyed (\<lambda>k. k) (keyIndex l) (recent l)" and dom: "dom (keyIndex l) = dom (vals l) - pinned l"
    using assms(1) by (auto simp: resInv_def)
  show ?thesis
  proof (cases "keyIndex l k")
    case None
    let ?l = "l\<lparr>vals := (vals l)(k \<mapsto> v), keyIndex := (keyIndex l)(k \<mapsto> nextElem (recent l)),
      recent := snd (pushBack k (recent l))\<rparr>"
    have k: "keyed (\<lambda>k. k) (keyIndex ?l) (recent ?l)" using keyed_pushBack [OF key, of k] None by simp
    have d: "dom (keyIndex ?l) = dom (vals ?l) - pinned ?l" using dom assms(2) by auto
    have "k \<notin> set (hist l)" using hist_set [OF key] None by auto
    then have "filter (\<lambda>x. x \<noteq> k) (hist l) = hist l" by (intro filter_True) auto
    then have h: "hist ?l = filter (\<lambda>x. x \<noteq> k) (hist l) @ [k]"
      by (simp add: hist_def listValues_def pushBack_def)
    have "Put k v l = evict ?l" using None assms(2) by (simp add: Put_def Let_def pushBack_def)
    with evict_spec [OF k d] h show ?thesis by (simp add: Let_def)
  next
    case (Some e)
    let ?l = "l\<lparr>vals := (vals l)(k \<mapsto> v), recent := moveToBack e (recent l)\<rparr>"
    have k: "keyed (\<lambda>k. k) (keyIndex ?l) (recent ?l)" using keyed_move(2) [OF key] by simp
    have d: "dom (keyIndex ?l) = dom (vals ?l) - pinned ?l" using dom assms(2) Some by auto
    have h: "hist ?l = filter (\<lambda>x. x \<noteq> k) (hist l) @ [k]"
      using listValues_moveToBack [OF key Some] by (simp add: hist_def)
    have "Put k v l = evict ?l" using Some assms(2) by (simp add: Put_def Let_def)
    with evict_spec [OF k d] h show ?thesis by (simp add: Let_def)
  qed
qed

lemma Put_pinned: "k \<in> pinned l \<Longrightarrow> Put k v l = l\<lparr>vals := (vals l)(k \<mapsto> v)\<rparr>"
  by (simp add: Put_def Let_def)

interpretation residency: lru cap "\<lambda>l. resInv l \<and> capacity l = cap" hist pinned Put
proof
  fix l :: "'v residencyLRU" and k v
  assume l: "resInv l \<and> capacity l = cap"
  show "resInv (Put k v l) \<and> capacity (Put k v l) = cap" "pinned (Put k v l) = pinned l"
    using l Put_unpinned [of l k v] Put_pinned [of k l v]
    by (cases "k \<in> pinned l"; force simp: Let_def resInv_def)+
  show "k \<notin> pinned l \<Longrightarrow> hist (Put k v l) = trim cap (filter (\<lambda>x. x \<noteq> k) (hist l) @ [k])"
    using l Put_unpinned [of l k v] by (simp add: Let_def)
  show "distinct (hist l)" using l hist_distinct by blast
qed

subsection \<open>Behaviour\<close>

datatype 'v resOp = ResPut string 'v | ResPin string | ResUnpin string | ResDelete string

fun resStep :: "'v resOp \<Rightarrow> 'v residencyLRU \<Rightarrow> 'v residencyLRU" where
  "resStep (ResPut k v) l = Put k v l"
| "resStep (ResPin k) l = Pin k l"
| "resStep (ResUnpin k) l = Unpin k l"
| "resStep (ResDelete k) l = Delete k l"

lemma Pin_inv:
  assumes "resInv l" and "bounded l"
  shows "resInv (Pin k l) \<and> bounded (Pin k l) \<and> capacity (Pin k l) = capacity l
    \<and> pinned (Pin k l) = insert k (pinned l) \<and> vals (Pin k l) = vals l"
proof (cases "keyIndex l k")
  case None
  with assms show ?thesis by (auto simp: Pin_def Let_def resInv_def bounded_def)
next
  case (Some e)
  have key: "keyed (\<lambda>k. k) (keyIndex l) (recent l)" using assms(1) by (simp add: resInv_def)
  have "listLen (removeElem e (recent l)) \<le> listLen (recent l)" by (simp add: listLen_def removeElem_def)
  with keyed_remove [OF key Some] assms Some show ?thesis
    by (auto simp: Pin_def Let_def resInv_def bounded_def)
qed

lemma Unpin_inv:
  assumes "resInv l" and "bounded l"
  shows "resInv (Unpin k l) \<and> bounded (Unpin k l) \<and> capacity (Unpin k l) = capacity l
    \<and> pinned (Unpin k l) = pinned l - {k}
    \<and> (k \<in> pinned l \<and> vals l k \<noteq> None \<longrightarrow> hist (Unpin k l) = trim (capacity l) (hist l @ [k]))"
proof (cases "k \<in> pinned l \<and> vals l k \<noteq> None")
  case False
  with assms show ?thesis by (auto simp: Unpin_def Let_def resInv_def bounded_def)
next
  case True
  let ?l = "l\<lparr>pinned := pinned l - {k}, keyIndex := (keyIndex l)(k \<mapsto> nextElem (recent l)),
    recent := snd (pushBack k (recent l))\<rparr>"
  have key: "keyed (\<lambda>k. k) (keyIndex l) (recent l)" and dom: "dom (keyIndex l) = dom (vals l) - pinned l"
    using assms(1) by (auto simp: resInv_def)
  have None: "keyIndex l k = None" using True dom by auto
  have k1: "keyed (\<lambda>k. k) (keyIndex ?l) (recent ?l)" using keyed_pushBack [OF key, of k] None by simp
  have d1: "dom (keyIndex ?l) = dom (vals ?l) - pinned ?l" using dom True by auto
  have "Unpin k l = evict ?l" using True by (auto simp: Unpin_def Let_def pushBack_def)
  moreover have "hist ?l = hist l @ [k]" by (simp add: hist_def listValues_def pushBack_def)
  ultimately show ?thesis using evict_spec [OF k1 d1] by simp
qed

lemma Unpin_vals:
  assumes "resInv l" and "j \<in> pinned l \<and> vals l j \<noteq> None"
  shows "pinned (Unpin j l) = pinned l - {j} \<and> (\<forall>k \<in> pinned l - {j}. vals (Unpin j l) k = vals l k)"
proof -
  let ?l = "l\<lparr>pinned := pinned l - {j}, keyIndex := (keyIndex l)(j \<mapsto> nextElem (recent l)),
    recent := snd (pushBack j (recent l))\<rparr>"
  have key: "keyed (\<lambda>k. k) (keyIndex l) (recent l)" and dom: "dom (keyIndex l) = dom (vals l) - pinned l"
    using assms(1) by (auto simp: resInv_def)
  have None: "keyIndex l j = None" using assms(2) dom by auto
  have k1: "keyed (\<lambda>k. k) (keyIndex ?l) (recent ?l)" using keyed_pushBack [OF key, of j] None by simp
  have d1: "dom (keyIndex ?l) = dom (vals ?l) - pinned ?l" using dom assms(2) by auto
  have eq: "Unpin j l = evict ?l" using assms(2) by (auto simp: Unpin_def Let_def pushBack_def)
  have "k \<notin> set (hist ?l)" if "k \<in> pinned l - {j}" for k using that hist_set [OF k1] d1 by auto
  then have "k \<notin> set (take n (hist ?l))" if "k \<in> pinned l - {j}" for k n using that by (meson in_set_takeD)
  with evict_spec [OF k1 d1] eq show ?thesis by (auto simp: restrict_map_def)
qed

lemma Delete_inv:
  assumes "resInv l" and "bounded l"
  shows "resInv (Delete k l) \<and> bounded (Delete k l) \<and> capacity (Delete k l) = capacity l
    \<and> pinned (Delete k l) = pinned l - {k} \<and> vals (Delete k l) = (vals l)(k := None)"
proof (cases "keyIndex l k")
  case None
  with assms show ?thesis by (auto simp: Delete_def Let_def resInv_def bounded_def)
next
  case (Some e)
  have key: "keyed (\<lambda>k. k) (keyIndex l) (recent l)" using assms(1) by (simp add: resInv_def)
  have "listLen (removeElem e (recent l)) \<le> listLen (recent l)" by (simp add: listLen_def removeElem_def)
  with keyed_remove [OF key Some] assms Some show ?thesis
    by (auto simp: Delete_def Let_def resInv_def bounded_def)
qed

lemma Put_inv:
  assumes "resInv l" and "bounded l"
  shows "resInv (Put k v l) \<and> bounded (Put k v l) \<and> capacity (Put k v l) = capacity l \<and> pinned (Put k v l) = pinned l"
proof (cases "k \<in> pinned l")
  case True
  with assms show ?thesis by (auto simp: Put_pinned resInv_def bounded_def)
next
  case False
  with Put_unpinned [OF assms(1) False, of v] show ?thesis by (simp add: Let_def)
qed

lemma resStep_inv:
  "resInv l \<Longrightarrow> bounded l \<Longrightarrow> resInv (resStep p l) \<and> bounded (resStep p l) \<and> capacity (resStep p l) = capacity l"
  by (cases p) (auto simp: Put_inv Pin_inv Unpin_inv Delete_inv)

lemma pinned_step:
  assumes "resInv l" and "bounded l" and "k \<in> pinned l"
    and "p \<noteq> ResUnpin k \<and> p \<noteq> ResDelete k \<and> (\<forall>v. p \<noteq> ResPut k v)"
  shows "k \<in> pinned (resStep p l) \<and> vals (resStep p l) k = vals l k"
proof (cases p)
  case (ResPut j v)
  show ?thesis
  proof (cases "j \<in> pinned l")
    case True
    with assms ResPut show ?thesis by (auto simp: Put_pinned)
  next
    case False
    have "k \<notin> set (filter (\<lambda>x. x \<noteq> j) (hist l) @ [j])" using hist_tracked [OF assms(1)] assms(3) False by auto
    then have "k \<notin> set (take n (filter (\<lambda>x. x \<noteq> j) (hist l) @ [j]))" for n by (meson in_set_takeD)
    then have "(f |` (- set (take n (filter (\<lambda>x. x \<noteq> j) (hist l) @ [j])))) k = f k" for n and f :: "string \<rightharpoonup> 'a"
      by (simp only: restrict_map_def Compl_iff not_False_eq_True if_True)
    then have "vals (Put j v l) k = ((vals l)(j \<mapsto> v)) k"
      using Put_unpinned [OF assms(1) False, of v] by (simp only: Let_def)
    with Put_inv [OF assms(1,2), of j v] assms(3,4) ResPut show ?thesis by simp
  qed
next
  case (ResUnpin j)
  show ?thesis
  proof (cases "j \<in> pinned l \<and> vals l j \<noteq> None")
    case False
    with ResUnpin assms(3,4) show ?thesis by (auto simp: Unpin_def Let_def)
  next
    case True
    with Unpin_vals [OF assms(1) True] ResUnpin assms show ?thesis by auto
  qed
qed (use assms Pin_inv [OF assms(1,2)] Delete_inv [OF assms(1,2)] in auto)

lemma resRun_inv:
  "resInv l \<Longrightarrow> bounded l \<Longrightarrow> resInv (fold resStep ps l) \<and> bounded (fold resStep ps l)
     \<and> capacity (fold resStep ps l) = capacity l"
  by (induction ps arbitrary: l) (simp_all add: resStep_inv)

text \<open>
  After any sequence of operations on a new cache, the values that are not pinned number at
  most \<open>capacity\<close>, and they are exactly the keys of the recency list.
\<close>
theorem residency_bounded:
  "let l = fold resStep ps (newResidencyLRU cap) in
     set (hist l) = dom (vals l) - pinned l \<and> distinct (hist l) \<and> HistoryLen l \<le> cap"
proof -
  let ?l = "fold resStep ps (newResidencyLRU cap)"
  have "resInv ?l \<and> bounded ?l \<and> capacity ?l = cap"
    using resRun_inv [OF resInv_new, of cap ps] by (simp add: bounded_def newResidencyLRU_def listLen_def newList_def)
  then show ?thesis using hist_tracked [of ?l] hist_distinct [of ?l] by (simp add: Let_def HistoryLen_def bounded_def)
qed

text \<open>
  A pinned key never loses its value: once a key is pinned and holds a value, any operations
  on other keys leave the value in place, however many there are.
\<close>
theorem residency_pinned_kept:
  assumes "\<forall>p \<in> set ps. p \<noteq> ResUnpin k \<and> p \<noteq> ResDelete k \<and> (\<forall>v. p \<noteq> ResPut k v)"
    and "k \<in> pinned (fold resStep qs (newResidencyLRU cap))"
  shows "Get (fold resStep ps (fold resStep qs (newResidencyLRU cap))) k = Get (fold resStep qs (newResidencyLRU cap)) k"
proof -
  let ?l0 = "fold resStep qs (newResidencyLRU cap)"
  have "resInv ?l0 \<and> bounded ?l0"
    using resRun_inv [OF resInv_new, of cap qs] by (simp add: bounded_def newResidencyLRU_def listLen_def newList_def)
  with assms have "k \<in> pinned (fold resStep ps ?l0) \<and> vals (fold resStep ps ?l0) k = vals ?l0 k"
  proof (induction ps arbitrary: qs rule: rev_induct)
    case (snoc p ps)
    let ?l = "fold resStep ps (fold resStep qs (newResidencyLRU cap))"
    from snoc have IH: "k \<in> pinned ?l \<and> vals ?l k = vals (fold resStep qs (newResidencyLRU cap)) k" by auto
    have inv: "resInv ?l" "bounded ?l" using snoc.prems resRun_inv [of "fold resStep qs (newResidencyLRU cap)" ps] by auto
    have "k \<in> pinned (resStep p ?l) \<and> vals (resStep p ?l) k = vals ?l k"
      using pinned_step [OF inv, of k p] IH snoc.prems(1) by simp
    with IH show ?case by simp
  qed simp
  then show ?thesis by (simp add: Get_def)
qed

text \<open>
  With nothing pinned the cache is a true LRU: after any sequence of \<open>Put\<close>s the keys that still
  hold a value are the newest \<open>capacity\<close> ones in the order of their last \<open>Put\<close>, and every kept
  key answers \<open>Get\<close>.
\<close>
theorem residency_is_lru:
  "let l = fold (\<lambda>(k, v). Put k v) us (newResidencyLRU cap) in
     hist l = trim cap (remdups (map fst us)) \<and> {k. Get l k \<noteq> None} = set (trim cap (remdups (map fst us)))"
proof -
  let ?n = "newResidencyLRU cap"
  let ?l = "fold (\<lambda>(k, v). Put k v) us ?n"
  have start: "resInv ?n \<and> capacity ?n = cap" "hist ?n = []" "fst ` set us \<inter> pinned ?n = {}"
    by (simp_all add: resInv_new) (simp_all add: newResidencyLRU_def hist_def listValues_def newList_def)
  have run: "?l = residency.touches us ?n" by (simp add: residency.touches_def)
  have h: "hist ?l = trim cap (remdups (map fst us))"
    unfolding run by (rule residency.hist_touches [OF start])
  moreover have "resInv ?l" "pinned ?l = {}"
    using residency.touches_inv [OF start(1), of us] unfolding run by (auto simp: newResidencyLRU_def)
  ultimately show ?thesis using hist_tracked [of ?l] by (auto simp: Let_def Get_def dom_def)
qed

theorem residency_pinned_kept_witness:
  "Get (fold resStep [ResPut ''b'' 2, ResPut ''c'' 3] (fold resStep [ResPin ''a'', ResPut ''a'' 1] (newResidencyLRU 1))) ''a''
     = Some (1::nat)"
proof -
  have "''a'' \<in> pinned (fold resStep [ResPin ''a'', ResPut ''a'' (1::nat)] (newResidencyLRU 1))"
    and "Get (fold resStep [ResPin ''a'', ResPut ''a'' (1::nat)] (newResidencyLRU 1)) ''a'' = Some 1"
    by code_simp+
  then show ?thesis
    using residency_pinned_kept [of "[ResPut ''b'' 2, ResPut ''c'' 3]" "''a''" "[ResPin ''a'', ResPut ''a'' (1::nat)]" 1]
    by simp
qed

end
