(* ===== verification/Filepath.thy ===== *)
theory Filepath
  imports Prelude
begin

text \<open>
  The lexical path operations of Go's \<open>path/filepath\<close> on Unix that the stores use: \<open>Clean\<close>,
  \<open>IsAbs\<close>, \<open>Abs\<close>, \<open>Dir\<close> and \<open>Join\<close>. The working directory is a parameter, \<open>None\<close> when the system does
  not know it. Rooted paths have a normal form, the list of their elements.
\<close>

abbreviation slash :: char where
  "slash \<equiv> CHR ''/''"

fun splitSlash :: "string \<Rightarrow> string list" where
  "splitSlash [] = [[]]"
| "splitSlash (c # cs) =
     (if c = slash then [] # splitSlash cs
      else (case splitSlash cs of [] \<Rightarrow> [[c]] | e # es \<Rightarrow> (c # e) # es))"

fun joinSlash :: "string list \<Rightarrow> string" where
  "joinSlash [] = []"
| "joinSlash [e] = e"
| "joinSlash (e # es) = e @ slash # joinSlash es"

definition IsAbs :: "string \<Rightarrow> bool" where
  "IsAbs p \<longleftrightarrow> p \<noteq> [] \<and> hd p = slash"

text \<open>The stack holds the elements of the result, the innermost one first.\<close>

definition cleanStep :: "bool \<Rightarrow> string list \<Rightarrow> string \<Rightarrow> string list" where
  "cleanStep rooted stack e =
     (if e = [] \<or> e = ''.'' then stack
      else if e = ''..''
      then (case stack of
              [] \<Rightarrow> if rooted then [] else [''..'']
            | x # xs \<Rightarrow> if x = ''..'' then ''..'' # stack else xs)
      else e # stack)"

definition cleanElems :: "bool \<Rightarrow> string \<Rightarrow> string list" where
  "cleanElems rooted p = rev (foldl (cleanStep rooted) [] (splitSlash p))"

definition Clean :: "string \<Rightarrow> string" where
  "Clean p =
     (if IsAbs p then slash # joinSlash (cleanElems True p)
      else (let b = joinSlash (cleanElems False p) in if b = [] then ''.'' else b))"

text \<open>The path up to and including its last slash, cleaned.\<close>

definition Dir :: "string \<Rightarrow> string" where
  "Dir p = Clean (rev (dropWhile (\<lambda>c. c \<noteq> slash) (rev p)))"

definition Join :: "string list \<Rightarrow> string" where
  "Join es = (let ne = filter (\<lambda>e. e \<noteq> []) es in if ne = [] then [] else Clean (joinSlash ne))"

definition Abs :: "string option \<Rightarrow> string \<Rightarrow> string option" where
  "Abs cwd p = (if IsAbs p then Some (Clean p) else map_option (\<lambda>d. Join [d, p]) cwd)"

subsection \<open>The normal form of rooted paths\<close>

text \<open>An element of a clean rooted path.\<close>

definition plainElem :: "string \<Rightarrow> bool" where
  "plainElem e \<longleftrightarrow> e \<noteq> [] \<and> e \<noteq> ''.'' \<and> e \<noteq> ''..'' \<and> slash \<notin> set e"

lemma splitSlash_ne [simp]: "splitSlash p \<noteq> []"
  by (induction p) (auto split: list.splits)

lemma splitSlash_plain: "e \<in> set (splitSlash p) \<Longrightarrow> slash \<notin> set e"
  by (induction p arbitrary: e) (auto split: if_splits list.splits)

lemma splitSlash_single: "slash \<notin> set e \<Longrightarrow> splitSlash e = [e]"
  by (induction e) auto

lemma splitSlash_append: "slash \<notin> set e \<Longrightarrow> splitSlash (e @ slash # p) = e # splitSlash p"
  by (induction e) auto

lemma splitSlash_join: "es \<noteq> [] \<Longrightarrow> \<forall>e \<in> set es. slash \<notin> set e \<Longrightarrow> splitSlash (joinSlash es) = es"
  by (induction es rule: joinSlash.induct) (auto simp: splitSlash_single splitSlash_append)

lemma cleanStep_plain:
  "slash \<notin> set e \<Longrightarrow> \<forall>x \<in> set stack. plainElem x \<Longrightarrow> \<forall>x \<in> set (cleanStep True stack e). plainElem x"
proof -
  assume e: "slash \<notin> set e" and stack: "\<forall>x \<in> set stack. plainElem x"
  then have "e \<noteq> [] \<Longrightarrow> e \<noteq> ''.'' \<Longrightarrow> e \<noteq> ''..'' \<Longrightarrow> plainElem e" by (simp add: plainElem_def)
  with stack show ?thesis by (cases stack) (auto simp: cleanStep_def)
qed

lemma foldl_cleanStep_plain:
  "\<forall>e \<in> set es. slash \<notin> set e \<Longrightarrow> \<forall>x \<in> set stack. plainElem x \<Longrightarrow> \<forall>x \<in> set (foldl (cleanStep True) stack es). plainElem x"
proof (induction es arbitrary: stack)
  case (Cons e es)
  from Cons.prems cleanStep_plain [of e stack] have "\<forall>x \<in> set (cleanStep True stack e). plainElem x" by simp
  with Cons.IH Cons.prems(1) show ?case by simp
qed simp

lemma cleanElems_plain: "\<forall>x \<in> set (cleanElems True p). plainElem x"
  using foldl_cleanStep_plain [of "splitSlash p" "[]"] splitSlash_plain by (auto simp: cleanElems_def)

lemma foldl_cleanStep_keeps:
  "\<forall>e \<in> set es. plainElem e \<Longrightarrow> foldl (cleanStep r) stack es = rev es @ stack"
  by (induction es arbitrary: stack) (auto simp: cleanStep_def plainElem_def)

lemma cleanStep_empty [simp]: "cleanStep r stack [] = stack"
  by (simp add: cleanStep_def)

text \<open>A path spelt by plain elements has exactly these elements.\<close>

lemma cleanElems_join:
  assumes "\<forall>e \<in> set es. plainElem e"
  shows "cleanElems True (slash # joinSlash es) = es"
proof (cases "es = []")
  case False
  with assms have "splitSlash (joinSlash es) = es" by (intro splitSlash_join) (auto simp: plainElem_def)
  then show ?thesis using foldl_cleanStep_keeps [OF assms] by (simp add: cleanElems_def)
qed (simp add: cleanElems_def)

lemma Clean_abs: "IsAbs p \<Longrightarrow> Clean p = slash # joinSlash (cleanElems True p)"
  by (simp add: Clean_def)

lemma IsAbs_Clean: "IsAbs p \<Longrightarrow> IsAbs (Clean p)"
  by (simp add: Clean_def IsAbs_def)

lemma cleanElems_Clean: "IsAbs p \<Longrightarrow> cleanElems True (Clean p) = cleanElems True p"
  by (simp add: Clean_abs cleanElems_join cleanElems_plain)

lemma Clean_idem: "IsAbs p \<Longrightarrow> Clean (Clean p) = Clean p"
  using Clean_abs [OF IsAbs_Clean] cleanElems_Clean Clean_abs by metis

lemma joinSlash_snoc: "joinSlash (es @ [e]) = (if es = [] then e else joinSlash es @ slash # e)"
proof (induction es rule: joinSlash.induct)
  case (3 a b es)
  then show ?case by (cases es) auto
qed auto

text \<open>The directory of a clean path drops the last element; the root is its own directory.\<close>

lemma cleanElems_trailing: "cleanElems True (p @ [slash]) = cleanElems True p"
proof -
  have "splitSlash (p @ [slash]) = splitSlash p @ [[]]" by (induction p) (auto split: list.splits)
  then show ?thesis by (simp add: cleanElems_def)
qed

lemma Dir_Clean:
  assumes "IsAbs p"
  shows "Dir (Clean p) = slash # joinSlash (butlast (cleanElems True p))"
proof (cases "cleanElems True p" rule: rev_cases)
  case Nil
  then have "Clean p = [slash]" using assms by (simp add: Clean_abs)
  moreover have "cleanElems True [slash] = []" by (simp add: cleanElems_def)
  ultimately show ?thesis using Nil by (simp add: Dir_def Clean_abs IsAbs_def)
next
  case (snoc es e)
  have plain: "\<forall>x \<in> set (es @ [e]). plainElem x" using cleanElems_plain [of p] snoc by simp
  then have "slash \<notin> set e" by (simp add: plainElem_def)
  then have drop: "dropWhile (\<lambda>c. c \<noteq> slash) (rev e @ slash # q) = slash # q" for q
    by (induction e rule: rev_induct) auto
  have "Dir (Clean p) = Clean (if es = [] then [slash] else slash # joinSlash es @ [slash])"
    using drop [of "[]"] drop [of "rev (slash # joinSlash es)"] assms snoc
    by (auto simp: Dir_def Clean_abs joinSlash_snoc)
  also have "\<dots> = slash # joinSlash es"
  proof (cases "es = []")
    case True
    then show ?thesis by (simp add: Clean_abs IsAbs_def cleanElems_def)
  next
    case False
    have "cleanElems True (slash # joinSlash es @ [slash]) = es"
      using cleanElems_trailing [of "slash # joinSlash es"] cleanElems_join [of es] plain by simp
    with False show ?thesis by (simp add: Clean_abs IsAbs_def)
  qed
  finally show ?thesis by (simp add: snoc)
qed

lemma joinSlash_inject:
  assumes "\<forall>e \<in> set es. plainElem e" and "\<forall>e \<in> set es'. plainElem e" and "joinSlash es = joinSlash es'"
  shows "es = es'"
  using cleanElems_join [OF assms(1)] cleanElems_join [OF assms(2)] unfolding assms(3) by (rule trans [OF sym])

lemma Abs_rooted: "IsAbs p \<Longrightarrow> Abs cwd p = Some (Clean p)"
  by (simp add: Abs_def)

lemma IsAbs_append: "IsAbs d \<Longrightarrow> IsAbs (d @ p)"
  by (auto simp: IsAbs_def)

lemma IsAbs_Abs: "(\<And>d. cwd = Some d \<Longrightarrow> IsAbs d) \<Longrightarrow> Abs cwd p = Some q \<Longrightarrow> IsAbs q \<and> Clean q = q"
proof -
  assume cwd: "\<And>d. cwd = Some d \<Longrightarrow> IsAbs d" and q: "Abs cwd p = Some q"
  show ?thesis
  proof (cases "IsAbs p")
    case True
    with q show ?thesis by (auto simp: Abs_def IsAbs_Clean Clean_idem)
  next
    case False
    with q obtain d where d: "cwd = Some d" "q = Join [d, p]" by (auto simp: Abs_def)
    with cwd have abs: "IsAbs d" by simp
    then have "d \<noteq> []" by (auto simp: IsAbs_def)
    then have "q = Clean (d @ (if p = [] then [] else slash # p))" using d(2) by (simp add: Join_def)
    with IsAbs_append [OF abs] show ?thesis by (simp add: IsAbs_Clean Clean_idem)
  qed
qed

subsection \<open>The last element\<close>

lemma splitSlash_slash: "splitSlash (x @ slash # p) = splitSlash x @ splitSlash p"
  by (induction x) (auto split: list.splits)

lemma last_split: "last (splitSlash (x @ slash # p)) = last (splitSlash p)"
  by (simp add: splitSlash_slash)

lemma last_split_root: "last (splitSlash (slash # p)) = last (splitSlash p)"
  by simp

lemma cleanElems_last:
  assumes "plainElem n" and "last (splitSlash p) = n"
  shows "\<exists>es. cleanElems r p = es @ [n]"
proof -
  have "splitSlash p = butlast (splitSlash p) @ [n]" using assms(2) by (metis append_butlast_last_id splitSlash_ne)
  then have "cleanElems r p = rev (cleanStep r (foldl (cleanStep r) [] (butlast (splitSlash p))) n)"
    unfolding cleanElems_def by (metis foldl_Cons foldl_Nil foldl_append)
  then show ?thesis using assms(1) by (simp add: cleanStep_def plainElem_def)
qed

lemma last_split_Clean:
  assumes "plainElem n" and "last (splitSlash p) = n"
  shows "last (splitSlash (Clean p)) = n"
proof -
  have join: "last (splitSlash (joinSlash (es @ [n]))) = n" for es
    using assms(1) by (simp add: joinSlash_snoc last_split splitSlash_single plainElem_def)
  have ne: "joinSlash (es @ [n]) \<noteq> []" for es using assms(1) by (simp add: joinSlash_snoc plainElem_def)
  obtain es es' where "cleanElems True p = es @ [n]" "cleanElems False p = es' @ [n]" using cleanElems_last [OF assms] by metis
  then show ?thesis using join [of es] join [of es'] ne [of es'] by (simp add: Clean_def)
qed

lemma Dir_ne: "Dir p \<noteq> []"
  by (simp add: Dir_def Clean_def Let_def)

text \<open>Joining a plain name to a directory gives a path that ends in it, also when it is made absolute.\<close>

lemma last_split_Join: "d \<noteq> [] \<Longrightarrow> plainElem n \<Longrightarrow> last (splitSlash (Join [d, n])) = n"
  using last_split_Clean [of n "d @ slash # n"]
  by (simp add: Join_def last_split splitSlash_single plainElem_def)

lemma Abs_last:
  assumes "plainElem n" and "last (splitSlash p) = n" and "\<And>d. wd = Some d \<Longrightarrow> IsAbs d" and "Abs wd p = Some q"
  shows "\<exists>es. cleanElems True q = es @ [n]"
proof (cases "IsAbs p")
  case True
  with assms show ?thesis by (auto simp: Abs_def cleanElems_Clean intro: cleanElems_last)
next
  case False
  with assms(4) obtain d where d: "wd = Some d" "q = Join [d, p]" by (auto simp: Abs_def)
  have "p \<noteq> []" using assms(1,2) by (auto simp: plainElem_def)
  moreover have "d \<noteq> []" using assms(3) d by (auto simp: IsAbs_def)
  ultimately have q: "q = Clean (d @ slash # p)" using d(2) by (simp add: Join_def)
  have "IsAbs (d @ slash # p)" using assms(3) d(1) IsAbs_append by blast
  then have "cleanElems True q = cleanElems True (d @ slash # p)" by (simp add: q cleanElems_Clean)
  with cleanElems_last [OF assms(1), of "d @ slash # p"] assms(2) show ?thesis by (simp add: last_split)
qed

end
