(* ===== verification/CursorStore.thy ===== *)
theory CursorStore
  imports AtomicFile Filepath Json "HOL-Library.Char_ord" "HOL-Library.List_Lexorder"
begin

text \<open>
  \<open>internal/cursorstore\<close>: workspaces, the resume pointer of every chat, the layout document and the
  enrollment tombstones, flushed to one file by every mutation (\<open>store.go\<close>, \<open>enrollment.go\<close>,
  \<open>migrate.go\<close>). Every method is one definition; the answers of the operating system (\<open>env\<close>), the
  clock, the working directory and the order in which Go ranges over the chat map are arguments.
  A nil and an empty map are the same map, a nil and an empty layout the same text.
\<close>

subsection \<open>Data\<close>

record workspace =
  wsID :: string
  wsName :: string
  wsPath :: string

record chat =
  chatID :: string
  workspaceID :: string
  cwd :: string
  sessionFile :: string
  durableSessionID :: string
  sessionProvenance :: string
  autoEnrolled :: bool
  provider :: string
  chatName :: string
  nameSource :: string
  titleIsPlaceholder :: bool
  chatCreatedAt :: int
  lastUsedAt :: int

record state =
  workspaces :: "workspace list"
  chatsOf :: "string \<rightharpoonup> chat"
  layout :: string
  enrollmentTombstones :: "string \<rightharpoonup> bool"

record cstore =
  storePath :: string
  storeData :: state
  storeFs :: "state fs"

definition NameSourceAuto :: string where
  "NameSourceAuto = ''auto''"

definition NameSourceUser :: string where
  "NameSourceUser = ''user''"

definition SessionProvenanceAdopted :: string where
  "SessionProvenanceAdopted = ''adopted-copy''"

definition SessionProvenanceInPlace :: string where
  "SessionProvenanceInPlace = ''in-place''"

definition SessionProvenanceNative :: string where
  "SessionProvenanceNative = ''native''"

datatype cserror =
    ErrCorrupt string | ErrNotFound | ErrInvalidLayout | ErrInvalidNameSource string
  | ErrPersistence ioerr | ErrAdoptionRequired string | ErrStateDir string

definition zeroChat :: chat where
  "zeroChat = \<lparr>chatID = [], workspaceID = [], cwd = [], sessionFile = [], durableSessionID = [], sessionProvenance = [],
     autoEnrolled = False, provider = [], chatName = [], nameSource = [], titleIsPlaceholder = False, chatCreatedAt = 0,
     lastUsedAt = 0\<rparr>"

definition emptyState :: state where
  "emptyState = \<lparr>workspaces = [], chatsOf = Map.empty, layout = [], enrollmentTombstones = Map.empty\<rparr>"

subsection \<open>Identities\<close>

definition StateDir :: "cstore \<Rightarrow> string" where
  "StateDir s = Dir (storePath s)"

definition OwnedSessionDir :: "cstore \<Rightarrow> string" where
  "OwnedSessionDir s = Join [StateDir s, ''adopted'']"

definition IsOwnedSession :: "string option \<Rightarrow> chat \<Rightarrow> string \<Rightarrow> bool" where
  "IsOwnedSession wd c ownedDir \<longleftrightarrow>
     (if sessionProvenance c \<noteq> SessionProvenanceAdopted \<or> sessionFile c = [] then False
      else (case Abs wd (Clean ownedDir) of
              None \<Rightarrow> False
            | Some dir \<Rightarrow> (case Abs wd (Clean (sessionFile c)) of None \<Rightarrow> False | Some f \<Rightarrow> Dir f = dir)))"

definition IsInPlaceSession :: "chat \<Rightarrow> bool" where
  "IsInPlaceSession c \<longleftrightarrow> sessionProvenance c = SessionProvenanceInPlace \<and> IsAbs (sessionFile c)"

definition IsNativeSession :: "chat \<Rightarrow> bool" where
  "IsNativeSession c \<longleftrightarrow> sessionProvenance c = SessionProvenanceNative"

definition IsLaunchableProvider :: "string \<Rightarrow> bool" where
  "IsLaunchableProvider p \<longleftrightarrow> p = [] \<or> p = ''senpi'' \<or> p = ''omo''"

definition validateNameSource :: "string \<Rightarrow> cserror option" where
  "validateNameSource source =
     (if source = [] \<or> source = NameSourceAuto \<or> source = NameSourceUser then None
      else Some (ErrInvalidNameSource source))"

definition indexWorkspace :: "workspace list \<Rightarrow> string \<Rightarrow> nat option" where
  "indexWorkspace ws i = index_of (\<lambda>w. wsID w = i) ws"

definition hasWorkspaceLocked :: "string \<Rightarrow> cstore \<Rightarrow> bool" where
  "hasWorkspaceLocked i s \<longleftrightarrow> indexWorkspace (workspaces (storeData s)) i \<noteq> None"

definition cloneState :: "state \<Rightarrow> state" where
  "cloneState src = \<lparr>workspaces = workspaces src, chatsOf = (\<lambda>k. chatsOf src k),
     layout = (if 0 < length (layout src) then layout src else []),
     enrollmentTombstones = (\<lambda>k. enrollmentTombstones src k)\<rparr>"

subsection \<open>The state file\<close>

definition storePrepare :: checks where
  "storePrepare =
     [(Encode, \<lambda>e. During ''encoding state'' (OSErr e)),
      (CreateTemp, \<lambda>e. During ''creating temp file'' (OSErr e))]"

definition storeWrite :: "env \<Rightarrow> checks" where
  "storeWrite os =
     [(WriteTemp, close_failure os CloseTemp ''closing temp file'' ''writing temp file''),
      (ChmodTemp, close_failure os CloseTemp ''closing temp file'' ''setting temp file mode''),
      (SyncTemp, close_failure os CloseTemp ''closing temp file'' ''syncing temp file''),
      (CloseTemp, \<lambda>e. During ''closing temp file'' (OSErr e)),
      (Rename, \<lambda>e. During ''replacing state file'' (OSErr e))]"

definition storeFinish :: "env \<Rightarrow> checks" where
  "storeFinish os =
     [(OpenDir, \<lambda>e. During ''opening state directory'' (OSErr e)),
      (SyncDir, close_failure os CloseDir ''closing state directory'' ''syncing state directory''),
      (CloseDir, \<lambda>e. During ''closing state directory'' (OSErr e))]"

definition storeInstall :: "env \<Rightarrow> state \<Rightarrow> state fs \<Rightarrow> ioerr option \<times> state fs" where
  "storeInstall os candidate f = staged_install os storePrepare (storeWrite os) (storeFinish os) candidate f"

definition flushLocked :: "env \<Rightarrow> state \<Rightarrow> cstore \<Rightarrow> cserror option \<times> cstore" where
  "flushLocked os candidate s =
     (case storeInstall os candidate (storeFs s) of
        (Some e, f) \<Rightarrow> (Some (ErrPersistence e), s\<lparr>storeFs := f\<rparr>)
      | (None, f) \<Rightarrow> (None, s\<lparr>storeFs := f, storeData := candidate\<rparr>))"

text \<open>
  \<open>Doc d\<close> is the file that encodes \<open>d\<close>. Encoding indents the layout with the rest of the document, so
  decoding returns \<open>relay\<close> of it, a parameter; every other field is returned as it was.
\<close>

definition OpenWithClock :: "env \<Rightarrow> (string \<Rightarrow> string) \<Rightarrow> string \<Rightarrow> state fs \<Rightarrow> cserror + cstore" where
  "OpenWithClock os relay path f =
     (case (if Dir path \<noteq> [] then os Mkdir else None) of
        Some e \<Rightarrow> Inl (ErrStateDir e)
      | None \<Rightarrow>
          (case target f of
             Missing \<Rightarrow> Inr \<lparr>storePath = path, storeData = emptyState, storeFs = f\<rparr>
           | Unreadable e \<Rightarrow> Inl (ErrCorrupt ''reading'')
           | Malformed \<Rightarrow> Inl (ErrCorrupt ''parsing'')
           | Doc d \<Rightarrow> Inr \<lparr>storePath = path, storeData = d\<lparr>layout := relay (layout d)\<rparr>, storeFs = f\<rparr>))"

subsection \<open>Workspaces\<close>

definition SaveWorkspace :: "env \<Rightarrow> workspace \<Rightarrow> cstore \<Rightarrow> cserror option \<times> cstore" where
  "SaveWorkspace os ws s =
     (if wsID ws = [] then (Some ErrNotFound, s)
      else (let candidate = cloneState (storeData s) in
            flushLocked os
              (case indexWorkspace (workspaces candidate) (wsID ws) of
                 Some i \<Rightarrow> candidate\<lparr>workspaces := (workspaces candidate)[i := ws]\<rparr>
               | None \<Rightarrow> candidate\<lparr>workspaces := workspaces candidate @ [ws]\<rparr>) s))"

definition GetWorkspace :: "string \<Rightarrow> cstore \<Rightarrow> cserror + workspace" where
  "GetWorkspace i s =
     (case indexWorkspace (workspaces (storeData s)) i of
        Some k \<Rightarrow> Inr (workspaces (storeData s) ! k)
      | None \<Rightarrow> Inl ErrNotFound)"

definition UpdateWorkspace :: "env \<Rightarrow> workspace \<Rightarrow> cstore \<Rightarrow> (cserror + workspace) \<times> cstore" where
  "UpdateWorkspace os ws s =
     (if wsID ws = [] then (Inl ErrNotFound, s)
      else (let candidate = cloneState (storeData s) in
            case indexWorkspace (workspaces candidate) (wsID ws) of
              None \<Rightarrow> (Inl ErrNotFound, s)
            | Some i \<Rightarrow>
                (case flushLocked os (candidate\<lparr>workspaces := (workspaces candidate)[i := ws]\<rparr>) s of
                   (Some err, s') \<Rightarrow> (Inl err, s')
                 | (None, s') \<Rightarrow> (Inr ws, s'))))"

definition RenameWorkspace :: "env \<Rightarrow> string \<Rightarrow> string \<Rightarrow> cstore \<Rightarrow> (cserror + workspace) \<times> cstore" where
  "RenameWorkspace os i name s =
     (let candidate = cloneState (storeData s) in
      case indexWorkspace (workspaces candidate) i of
        None \<Rightarrow> (Inl ErrNotFound, s)
      | Some k \<Rightarrow>
          (let ws = (workspaces candidate ! k)\<lparr>wsName := name\<rparr> in
           case flushLocked os (candidate\<lparr>workspaces := (workspaces candidate)[k := ws]\<rparr>) s of
             (Some err, s') \<Rightarrow> (Inl err, s')
           | (None, s') \<Rightarrow> (Inr ws, s')))"

definition ListWorkspaces :: "cstore \<Rightarrow> workspace list" where
  "ListWorkspaces s = workspaces (storeData s)"

definition recordEnrollmentTombstone :: "chat \<Rightarrow> state \<Rightarrow> state" where
  "recordEnrollmentTombstone c st =
     (if \<not> autoEnrolled c \<or> durableSessionID c = [] then st
      else st\<lparr>enrollmentTombstones := (enrollmentTombstones st)(durableSessionID c \<mapsto> True)\<rparr>)"

text \<open>\<open>order\<close> is the order in which the range over the chat map yields its keys.\<close>

fun dropChats :: "string \<Rightarrow> string list \<Rightarrow> state \<Rightarrow> state" where
  "dropChats ws [] st = st"
| "dropChats ws (k # ks) st =
     dropChats ws ks
       (case chatsOf st k of
          None \<Rightarrow> st
        | Some c \<Rightarrow>
            (if workspaceID c = ws
             then (let st1 = recordEnrollmentTombstone c st in st1\<lparr>chatsOf := (chatsOf st1)(k := None)\<rparr>)
             else st))"

definition DeleteWorkspace :: "env \<Rightarrow> string list \<Rightarrow> string \<Rightarrow> cstore \<Rightarrow> cserror option \<times> cstore" where
  "DeleteWorkspace os order i s =
     (case indexWorkspace (workspaces (storeData s)) i of
        None \<Rightarrow> (Some ErrNotFound, s)
      | Some k \<Rightarrow>
          (let candidate = cloneState (storeData s);
               shorter = candidate\<lparr>workspaces := take k (workspaces candidate) @ drop (Suc k) (workspaces candidate)\<rparr>
           in flushLocked os (dropChats i order shorter) s))"

subsection \<open>Chats\<close>

definition SaveChat :: "env \<Rightarrow> chat \<Rightarrow> cstore \<Rightarrow> cserror option \<times> cstore" where
  "SaveChat os c s =
     (if chatID c = [] then (Some ErrNotFound, s)
      else (case validateNameSource (nameSource c) of
              Some err \<Rightarrow> (Some err, s)
            | None \<Rightarrow>
                (if \<not> hasWorkspaceLocked (workspaceID c) s then (Some ErrNotFound, s)
                 else (let candidate = cloneState (storeData s);
                           c' = (if chatsOf candidate (chatID c) = None \<and> sessionProvenance c = [] \<and> sessionFile c = []
                                    \<and> durableSessionID c = []
                                 then c\<lparr>sessionProvenance := SessionProvenanceNative\<rparr> else c)
                       in flushLocked os (candidate\<lparr>chatsOf := (chatsOf candidate)(chatID c' \<mapsto> c')\<rparr>) s))))"

definition UpdateChat :: "env \<Rightarrow> chat \<Rightarrow> cstore \<Rightarrow> cserror option \<times> cstore" where
  "UpdateChat os c s =
     (case chatsOf (storeData s) (chatID c) of
        None \<Rightarrow> (Some ErrNotFound, s)
      | Some current \<Rightarrow>
          (if workspaceID c \<noteq> workspaceID current \<or> \<not> hasWorkspaceLocked (workspaceID c) s then (Some ErrNotFound, s)
           else (case validateNameSource (nameSource c) of
                   Some err \<Rightarrow> (Some err, s)
                 | None \<Rightarrow>
                     (let candidate = cloneState (storeData s) in
                      flushLocked os (candidate\<lparr>chatsOf := (chatsOf candidate)(chatID c \<mapsto> c)\<rparr>) s))))"

definition updateChatFields :: "env \<Rightarrow> string \<Rightarrow> (chat \<Rightarrow> cserror + chat) \<Rightarrow> cstore \<Rightarrow> cserror option \<times> cstore" where
  "updateChatFields os i mutate s =
     (case chatsOf (storeData s) i of
        None \<Rightarrow> (Some ErrNotFound, s)
      | Some c \<Rightarrow>
          (case mutate c of
             Inl err \<Rightarrow> (Some err, s)
           | Inr updated \<Rightarrow>
               (let candidate = cloneState (storeData s) in
                flushLocked os (candidate\<lparr>chatsOf := (chatsOf candidate)(i \<mapsto> updated)\<rparr>) s)))"

definition UpdateIdentity :: "env \<Rightarrow> string \<Rightarrow> string \<Rightarrow> string \<Rightarrow> cstore \<Rightarrow> cserror option \<times> cstore" where
  "UpdateIdentity os i path durable s =
     updateChatFields os i (\<lambda>c. Inr (c\<lparr>sessionFile := path, durableSessionID := durable\<rparr>)) s"

definition UpdateOwnedIdentity ::
  "env \<Rightarrow> string option \<Rightarrow> string \<Rightarrow> string \<Rightarrow> string \<Rightarrow> cstore \<Rightarrow> cserror option \<times> cstore" where
  "UpdateOwnedIdentity os wd i path durable s =
     (if \<not> IsOwnedSession wd (zeroChat\<lparr>sessionFile := path, sessionProvenance := SessionProvenanceAdopted\<rparr>) (OwnedSessionDir s)
      then (Some (ErrAdoptionRequired ''invalid owned session destination''), s)
      else updateChatFields os i
             (\<lambda>c. Inr (c\<lparr>sessionFile := path, durableSessionID := durable, sessionProvenance := SessionProvenanceAdopted\<rparr>)) s)"

definition UpdateInPlaceIdentity ::
  "env \<Rightarrow> string \<Rightarrow> string \<Rightarrow> string \<Rightarrow> cstore \<Rightarrow> cserror option \<times> cstore" where
  "UpdateInPlaceIdentity os i path durable s =
     (if \<not> IsInPlaceSession (zeroChat\<lparr>sessionFile := path, sessionProvenance := SessionProvenanceInPlace\<rparr>) \<or> durable = []
      then (Some (ErrAdoptionRequired ''invalid in-place session identity''), s)
      else updateChatFields os i
             (\<lambda>c. Inr (c\<lparr>sessionFile := path, durableSessionID := durable, sessionProvenance := SessionProvenanceInPlace\<rparr>)) s)"

definition UpdateName :: "env \<Rightarrow> string \<Rightarrow> string \<Rightarrow> string \<Rightarrow> cstore \<Rightarrow> cserror option \<times> cstore" where
  "UpdateName os i name source s =
     updateChatFields os i
       (\<lambda>c. case validateNameSource source of
              Some err \<Rightarrow> Inl err
            | None \<Rightarrow> Inr (c\<lparr>chatName := name, nameSource := source, titleIsPlaceholder := False\<rparr>)) s"

definition GetChat :: "string \<Rightarrow> cstore \<Rightarrow> cserror + chat" where
  "GetChat i s = (case chatsOf (storeData s) i of None \<Rightarrow> Inl ErrNotFound | Some c \<Rightarrow> Inr c)"

definition ChatName :: "string \<Rightarrow> cstore \<Rightarrow> string \<times> bool" where
  "ChatName i s = (case chatsOf (storeData s) i of None \<Rightarrow> ([], False) | Some c \<Rightarrow> (chatName c, True))"

definition newerDurableClaim :: "chat \<Rightarrow> chat \<Rightarrow> bool" where
  "newerDurableClaim candidate current \<longleftrightarrow>
     (if lastUsedAt candidate \<noteq> lastUsedAt current then lastUsedAt current < lastUsedAt candidate
      else if chatCreatedAt candidate \<noteq> chatCreatedAt current then chatCreatedAt current < chatCreatedAt candidate
      else chatID candidate < chatID current)"

definition ChatForDurable :: "string list \<Rightarrow> string \<Rightarrow> cstore \<Rightarrow> chat option" where
  "ChatForDurable order durable s =
     (if durable = [] then None
      else select_by newerDurableClaim None
             (filter (\<lambda>c. \<not> (durableSessionID c \<noteq> durable \<or> \<not> IsLaunchableProvider (provider c)))
                (List.map_filter (chatsOf (storeData s)) order)))"

definition GetChatForOpen :: "string option \<Rightarrow> string \<Rightarrow> cstore \<Rightarrow> cserror + chat" where
  "GetChatForOpen wd i s =
     (case GetChat i s of
        Inl err \<Rightarrow> Inl err
      | Inr c \<Rightarrow>
          (if sessionFile c \<noteq> [] \<and> \<not> IsOwnedSession wd c (OwnedSessionDir s) \<and> \<not> IsInPlaceSession c \<and> \<not> IsNativeSession c
           then Inl (ErrAdoptionRequired i) else Inr c))"

definition RecencyMillis :: "chat \<Rightarrow> int" where
  "RecencyMillis c =
     (let recency = (if lastUsedAt c \<le> 0 then chatCreatedAt c else lastUsedAt c) in
      if 0 < recency \<and> recency < 1000000000000 then wrap64 (recency * 1000) else recency)"

definition fresherChat :: "chat \<Rightarrow> chat \<Rightarrow> bool" where
  "fresherChat a b \<longleftrightarrow>
     (if RecencyMillis a \<noteq> RecencyMillis b then RecencyMillis b < RecencyMillis a else chatID a < chatID b)"

definition listChatsLocked :: "string list \<Rightarrow> string \<Rightarrow> bool \<Rightarrow> cstore \<Rightarrow> chat list" where
  "listChatsLocked order ws launchableOnly s =
     sort_by fresherChat
       (filter (\<lambda>c. workspaceID c = ws \<and> (\<not> launchableOnly \<or> IsLaunchableProvider (provider c)))
          (List.map_filter (chatsOf (storeData s)) order))"

definition ListChats :: "string list \<Rightarrow> string \<Rightarrow> cstore \<Rightarrow> chat list" where
  "ListChats order ws s = listChatsLocked order ws True s"

definition ListChatsRaw :: "string list \<Rightarrow> string \<Rightarrow> cstore \<Rightarrow> chat list" where
  "ListChatsRaw order ws s = listChatsLocked order ws False s"

definition DeleteChat :: "env \<Rightarrow> string \<Rightarrow> cstore \<Rightarrow> cserror option \<times> cstore" where
  "DeleteChat os i s =
     (case chatsOf (storeData s) i of
        None \<Rightarrow> (Some ErrNotFound, s)
      | Some c \<Rightarrow>
          (let candidate = recordEnrollmentTombstone c (cloneState (storeData s)) in
           flushLocked os (candidate\<lparr>chatsOf := (chatsOf candidate)(i := None)\<rparr>) s))"

definition TouchLastUsed :: "env \<Rightarrow> int \<Rightarrow> string \<Rightarrow> cstore \<Rightarrow> cserror option \<times> cstore" where
  "TouchLastUsed os nowMillis i s =
     (case chatsOf (storeData s) i of
        None \<Rightarrow> (Some ErrNotFound, s)
      | Some c \<Rightarrow>
          (let candidate = cloneState (storeData s) in
           flushLocked os (candidate\<lparr>chatsOf := (chatsOf candidate)(i \<mapsto> c\<lparr>lastUsedAt := nowMillis\<rparr>)\<rparr>) s))"

subsection \<open>Layout\<close>

definition SetLayout :: "env \<Rightarrow> string \<Rightarrow> cstore \<Rightarrow> cserror option \<times> cstore" where
  "SetLayout os raw s =
     (case jsonCompact raw of
        None \<Rightarrow> (Some ErrInvalidLayout, s)
      | Some stored \<Rightarrow> flushLocked os ((cloneState (storeData s))\<lparr>layout := stored\<rparr>) s)"

definition GetLayout :: "cstore \<Rightarrow> string option" where
  "GetLayout s = (if length (layout (storeData s)) = 0 then None else Some (layout (storeData s)))"

subsection \<open>Enrollment\<close>

definition EnrollmentDeleted :: "string \<Rightarrow> cstore \<Rightarrow> bool" where
  "EnrollmentDeleted durable s \<longleftrightarrow> enrollmentTombstones (storeData s) durable = Some True"

text \<open>The refreshed record and whether its display name changed.\<close>

definition refreshed :: "string \<Rightarrow> string \<Rightarrow> string \<Rightarrow> chat \<Rightarrow> chat \<times> bool" where
  "refreshed path durable name c =
     (let c1 = (if autoEnrolled c \<or> durableSessionID c = [] then c\<lparr>sessionFile := path, durableSessionID := durable\<rparr> else c) in
      if name = [] \<or> nameSource c1 = NameSourceUser then (c1, False)
      else if titleIsPlaceholder c1
      then (c1\<lparr>chatName := name, nameSource := NameSourceAuto, titleIsPlaceholder := False\<rparr>, chatName c1 \<noteq> name)
      else if nameSource c1 = NameSourceAuto \<and> chatName c1 \<noteq> name
      then (c1\<lparr>chatName := name, titleIsPlaceholder := False\<rparr>, True)
      else (c1, False))"

definition RefreshEnrollment ::
  "env \<Rightarrow> string \<Rightarrow> string \<Rightarrow> string \<Rightarrow> string \<Rightarrow> cstore \<Rightarrow> (bool \<times> cserror option) \<times> cstore" where
  "RefreshEnrollment os i path durable name s =
     (let replaced = (case chatsOf (storeData s) i of None \<Rightarrow> False | Some c \<Rightarrow> snd (refreshed path durable name c));
          (err, s') = updateChatFields os i (\<lambda>c. Inr (fst (refreshed path durable name c))) s
      in ((replaced \<and> err = None, err), s'))"

subsection \<open>Migration\<close>

text \<open>What reading the session file of a legacy chat gives.\<close>

record legacyFile =
  legacyOpenErr :: "string option"
  legacyContent :: string
  legacyReadErr :: "string option"

fun splitLines :: "string \<Rightarrow> string list" where
  "splitLines [] = [[]]"
| "splitLines (c # cs) =
     (if c = CHR 0x0A then [] # splitLines cs
      else (case splitLines cs of [] \<Rightarrow> [[c]] | l # ls \<Rightarrow> (c # l) # ls))"

definition dropCR :: "string \<Rightarrow> string" where
  "dropCR l = (if l \<noteq> [] \<and> last l = CHR 0x0D then butlast l else l)"

fun scanHeader :: "string option \<Rightarrow> string list \<Rightarrow> string + string" where
  "scanHeader readErr [] = Inl (case readErr of Some e \<Rightarrow> e | None \<Rightarrow> ''missing legacy session header'')"
| "scanHeader readErr (l # ls) =
     (if 1048576 \<le> length l then Inl ''bufio.Scanner: token too long''
      else if dropCR l = [] then scanHeader readErr ls
      else (case Option.bind (parseJson (dropCR l)) structMembers of
              None \<Rightarrow> Inl ''invalid legacy session header''
            | Some ms \<Rightarrow>
                (case (stringField ''type'' ms, stringField ''id'' ms) of
                   (Some ty, Some i) \<Rightarrow>
                     (if ty \<noteq> ''session'' \<or> i = [] then Inl ''invalid legacy session header'' else Inr i)
                 | _ \<Rightarrow> Inl ''invalid legacy session header'')))"

definition legacySessionID :: "legacyFile \<Rightarrow> string + string" where
  "legacySessionID f =
     (case legacyOpenErr f of Some e \<Rightarrow> Inl e | None \<Rightarrow> scanHeader (legacyReadErr f) (splitLines (legacyContent f)))"

text \<open>
  The second critical section: \<open>snapshot\<close> is the chat as first read, \<open>path\<close> and \<open>durable\<close> the result of
  the copy.
\<close>

definition migrateCommit ::
  "env \<Rightarrow> string option \<Rightarrow> string \<Rightarrow> chat \<Rightarrow> string \<Rightarrow> string \<Rightarrow> cstore \<Rightarrow> (cserror + chat) \<times> cstore" where
  "migrateCommit os wd i snapshot path durable s =
     (case chatsOf (storeData s) i of
        None \<Rightarrow> (Inl ErrNotFound, s)
      | Some current \<Rightarrow>
          (if IsOwnedSession wd current (OwnedSessionDir s) then (Inr current, s)
           else if sessionFile current \<noteq> sessionFile snapshot \<or> durableSessionID current \<noteq> durableSessionID snapshot
           then (Inl (ErrAdoptionRequired ''session identity changed during migration''), s)
           else if \<not> IsOwnedSession wd (zeroChat\<lparr>sessionFile := path, sessionProvenance := SessionProvenanceAdopted\<rparr>) (OwnedSessionDir s)
           then (Inl (ErrAdoptionRequired ''invalid owned session destination''), s)
           else (let candidate = cloneState (storeData s);
                     c = current\<lparr>sessionFile := path, durableSessionID := durable, sessionProvenance := SessionProvenanceAdopted\<rparr>
                 in case flushLocked os (candidate\<lparr>chatsOf := (chatsOf candidate)(i \<mapsto> c)\<rparr>) s of
                      (Some err, s') \<Rightarrow> (Inl err, s')
                    | (None, s') \<Rightarrow> (Inr c, s'))))"

text \<open>
  \<open>files\<close> are the legacy files, \<open>adopt\<close> is what \<open>adoptcopy.Adopt\<close> returns for a source, a destination and
  an expected identity, \<open>others\<close> what other goroutines did to the store during the copy.
\<close>

definition MigrateLegacySession ::
  "env \<Rightarrow> string option \<Rightarrow> (string \<Rightarrow> legacyFile) \<Rightarrow> (string \<Rightarrow> string \<Rightarrow> string \<Rightarrow> string + (string \<times> string))
     \<Rightarrow> (cstore \<Rightarrow> cstore) \<Rightarrow> string \<Rightarrow> cstore \<Rightarrow> (cserror + chat) \<times> cstore" where
  "MigrateLegacySession os wd files adopt others i s =
     (case GetChat i s of
        Inl err \<Rightarrow> (Inl err, s)
      | Inr c \<Rightarrow>
          (if sessionFile c = [] \<or> IsOwnedSession wd c (OwnedSessionDir s) \<or> IsInPlaceSession c \<or> IsNativeSession c
           then (Inr c, s)
           else (case (if durableSessionID c = [] then legacySessionID (files (sessionFile c)) else Inr (durableSessionID c)) of
                   Inl e \<Rightarrow> (Inl (ErrAdoptionRequired e), s)
                 | Inr expectedID \<Rightarrow>
                     (case adopt (sessionFile c) (OwnedSessionDir s) expectedID of
                        Inl e \<Rightarrow> (Inl (ErrAdoptionRequired e), others s)
                      | Inr (path, durable) \<Rightarrow>
                          (if durableSessionID c \<noteq> [] \<and> durableSessionID c \<noteq> durable
                           then (Inl (ErrAdoptionRequired ''durable session identity mismatch''), others s)
                           else migrateCommit os wd i c path durable (others s))))))"

section \<open>Correctness\<close>

lemma cloneState_id [simp]: "cloneState st = st"
  by (simp add: cloneState_def)

definition storeRenamed :: "env \<Rightarrow> bool" where
  "storeRenamed os = reaches_rename os storePrepare (storeWrite os)"

interpretation state_file: atomic_install storeInstall storeRenamed
  by (rule staged_atomic_install [OF storeInstall_def storeRenamed_def])

subsection \<open>Mutations\<close>

text \<open>Every mutating method with its arguments; \<open>wd\<close> is the working directory at the call.\<close>

datatype csOp =
    OpSaveWorkspace workspace
  | OpUpdateWorkspace workspace
  | OpRenameWorkspace string string
  | OpDeleteWorkspace "string list" string
  | OpSaveChat chat
  | OpUpdateChat chat
  | OpUpdateIdentity string string string
  | OpUpdateOwnedIdentity "string option" string string string
  | OpUpdateInPlaceIdentity string string string
  | OpUpdateName string string string
  | OpDeleteChat string
  | OpTouchLastUsed int string
  | OpSetLayout string
  | OpRefreshEnrollment string string string string
  | OpMigrateCommit "string option" string chat string string

definition errorOf :: "(cserror + 'a) \<times> cstore \<Rightarrow> cserror option \<times> cstore" where
  "errorOf r = ((case fst r of Inl e \<Rightarrow> Some e | Inr _ \<Rightarrow> None), snd r)"

fun csRun :: "env \<Rightarrow> csOp \<Rightarrow> cstore \<Rightarrow> cserror option \<times> cstore" where
  "csRun os (OpSaveWorkspace ws) s = SaveWorkspace os ws s"
| "csRun os (OpUpdateWorkspace ws) s = errorOf (UpdateWorkspace os ws s)"
| "csRun os (OpRenameWorkspace i name) s = errorOf (RenameWorkspace os i name s)"
| "csRun os (OpDeleteWorkspace order i) s = DeleteWorkspace os order i s"
| "csRun os (OpSaveChat c) s = SaveChat os c s"
| "csRun os (OpUpdateChat c) s = UpdateChat os c s"
| "csRun os (OpUpdateIdentity i p d) s = UpdateIdentity os i p d s"
| "csRun os (OpUpdateOwnedIdentity wd i p d) s = UpdateOwnedIdentity os wd i p d s"
| "csRun os (OpUpdateInPlaceIdentity i p d) s = UpdateInPlaceIdentity os i p d s"
| "csRun os (OpUpdateName i name source) s = UpdateName os i name source s"
| "csRun os (OpDeleteChat i) s = DeleteChat os i s"
| "csRun os (OpTouchLastUsed now i) s = TouchLastUsed os now i s"
| "csRun os (OpSetLayout raw) s = SetLayout os raw s"
| "csRun os (OpRefreshEnrollment i p d name) s = (snd (fst (RefreshEnrollment os i p d name s)), snd (RefreshEnrollment os i p d name s))"
| "csRun os (OpMigrateCommit wd i snapshot p d) s = errorOf (migrateCommit os wd i snapshot p d s)"

text \<open>Ranging over the chat map yields every key once.\<close>

definition ranges :: "string list \<Rightarrow> cstore \<Rightarrow> bool" where
  "ranges order s \<longleftrightarrow> distinct order \<and> set order = dom (chatsOf (storeData s))"

fun csAllowed :: "csOp \<Rightarrow> cstore \<Rightarrow> bool" where
  "csAllowed (OpDeleteWorkspace order i) s \<longleftrightarrow> ranges order s"
| "csAllowed op s \<longleftrightarrow> True"

text \<open>What a mutation is to install: \<open>changes s op st\<close> if it asks to replace the state of \<open>s\<close> by \<open>st\<close>.\<close>

inductive changes :: "cstore \<Rightarrow> csOp \<Rightarrow> state \<Rightarrow> bool" for s where
  replaceWs: "indexWorkspace (workspaces (storeData s)) (wsID ws) = Some k \<Longrightarrow>
    changes s op ((storeData s)\<lparr>workspaces := (workspaces (storeData s))[k := ws]\<rparr>)"
| addWs: "indexWorkspace (workspaces (storeData s)) (wsID ws) = None \<Longrightarrow> wsID ws \<noteq> [] \<Longrightarrow>
    changes s op ((storeData s)\<lparr>workspaces := workspaces (storeData s) @ [ws]\<rparr>)"
| dropWs: "indexWorkspace (workspaces (storeData s)) i = Some k \<Longrightarrow>
    changes s (OpDeleteWorkspace order i)
      (dropChats i order ((storeData s)\<lparr>workspaces := take k (workspaces (storeData s)) @ drop (Suc k) (workspaces (storeData s))\<rparr>))"
| putChat: "chatID c \<noteq> [] \<or> chatsOf (storeData s) (chatID c) \<noteq> None \<Longrightarrow> validateNameSource (nameSource c) = None \<Longrightarrow> hasWorkspaceLocked (workspaceID c) s \<Longrightarrow>
    changes s op ((storeData s)\<lparr>chatsOf := (chatsOf (storeData s))(chatID c \<mapsto> c)\<rparr>)"
| editChat: "chatsOf (storeData s) i = Some c \<Longrightarrow> chatID c' = chatID c \<Longrightarrow> workspaceID c' = workspaceID c \<Longrightarrow>
    validateNameSource (nameSource c') = None \<or> nameSource c' = nameSource c \<Longrightarrow>
    changes s op ((storeData s)\<lparr>chatsOf := (chatsOf (storeData s))(i \<mapsto> c')\<rparr>)"
| dropChat: "chatsOf (storeData s) i = Some c \<Longrightarrow>
    changes s (OpDeleteChat i)
      ((recordEnrollmentTombstone c (storeData s))\<lparr>chatsOf := (chatsOf (storeData s))(i := None)\<rparr>)"
| setLayout: "changes s op ((storeData s)\<lparr>layout := l\<rparr>)"

lemma indexWorkspace_Some: "indexWorkspace ws i = Some k \<Longrightarrow> k < length ws \<and> wsID (ws ! k) = i"
  using index_of_Some [of "\<lambda>w. wsID w = i" ws k] by (simp add: indexWorkspace_def)

lemma indexWorkspace_None: "indexWorkspace ws i = None \<longleftrightarrow> i \<notin> wsID ` set ws"
  by (auto simp: indexWorkspace_def index_of_None)

lemma hasWorkspace: "hasWorkspaceLocked i s \<longleftrightarrow> i \<in> wsID ` set (workspaces (storeData s))"
  using indexWorkspace_None by (auto simp: hasWorkspaceLocked_def)

text \<open>A mutation refuses and changes nothing, or flushes the state it asks for.\<close>

definition settled :: "env \<Rightarrow> csOp \<Rightarrow> cstore \<Rightarrow> cserror option \<times> cstore \<Rightarrow> bool" where
  "settled os op s r \<longleftrightarrow> (snd r = s \<and> ((\<exists>err. fst r = Some err) \<or> (\<exists>wd i sn p d. op = OpMigrateCommit wd i sn p d)))
     \<or> (\<exists>st. changes s op st \<and> r = flushLocked os st s)"

lemma settled_refuse: "settled os op s (Some err, s)"
  by (simp add: settled_def)

lemma settled_flush: "changes s op st \<Longrightarrow> settled os op s (flushLocked os st s)"
  by (auto simp: settled_def)

lemma errorOf_flush:
  "errorOf (case flushLocked os st s of (Some err, s') \<Rightarrow> (Inl err, s') | (None, s') \<Rightarrow> (Inr x, s')) = flushLocked os st s"
  by (auto simp: errorOf_def split: prod.splits option.splits)

lemma settled_fields:
  assumes "\<And>c c'. mutate c = Inr c' \<Longrightarrow> chatID c' = chatID c \<and> workspaceID c' = workspaceID c
    \<and> (validateNameSource (nameSource c') = None \<or> nameSource c' = nameSource c)"
  shows "settled os op s (updateChatFields os i mutate s)"
  using assms
  by (auto simp: updateChatFields_def Let_def split: option.splits sum.splits intro!: settled_refuse settled_flush changes.editChat)

lemma refreshed_keeps:
  "chatID (fst (refreshed p d name c)) = chatID c \<and> workspaceID (fst (refreshed p d name c)) = workspaceID c
   \<and> (validateNameSource (nameSource (fst (refreshed p d name c))) = None \<or> nameSource (fst (refreshed p d name c)) = nameSource c)"
  by (simp add: refreshed_def validateNameSource_def Let_def)

lemma csRun_settled: "settled os op s (csRun os op s)"
proof (cases op)
  case (OpSaveWorkspace ws)
  then show ?thesis
    by (auto simp: SaveWorkspace_def Let_def split: option.splits intro!: settled_refuse settled_flush changes.replaceWs changes.addWs)
next
  case (OpUpdateWorkspace ws)
  then show ?thesis
    by (auto simp: UpdateWorkspace_def Let_def errorOf_flush split: option.split intro!: settled_flush changes.replaceWs)
      (auto simp: errorOf_def intro: settled_refuse)
next
  case (OpRenameWorkspace i name)
  have "indexWorkspace (workspaces (storeData s)) i = Some k \<Longrightarrow>
      indexWorkspace (workspaces (storeData s)) (wsID (workspaces (storeData s) ! k)) = Some k" for k
    using indexWorkspace_Some [of "workspaces (storeData s)" i k] by simp
  with OpRenameWorkspace show ?thesis
    by (auto simp: RenameWorkspace_def Let_def errorOf_flush split: option.split intro!: settled_flush changes.replaceWs)
      (auto simp: errorOf_def intro: settled_refuse)
next
  case (OpDeleteWorkspace order i)
  then show ?thesis
    by (auto simp: DeleteWorkspace_def Let_def split: option.splits intro!: settled_refuse settled_flush changes.dropWs)
next
  case (OpSaveChat c)
  let ?c = "if chatsOf (storeData s) (chatID c) = None \<and> sessionProvenance c = [] \<and> sessionFile c = [] \<and> durableSessionID c = []
    then c\<lparr>sessionProvenance := SessionProvenanceNative\<rparr> else c"
  have "chatID c \<noteq> [] \<Longrightarrow> validateNameSource (nameSource c) = None \<Longrightarrow> hasWorkspaceLocked (workspaceID c) s \<Longrightarrow>
      changes s op ((storeData s)\<lparr>chatsOf := (chatsOf (storeData s))(chatID ?c \<mapsto> ?c)\<rparr>)"
    by (rule changes.putChat) simp_all
  with OpSaveChat show ?thesis
    by (simp add: SaveChat_def Let_def settled_refuse settled_flush split: option.split del: fun_upd_apply)
next
  case (OpUpdateChat c)
  then show ?thesis
    by (auto simp: UpdateChat_def Let_def split: option.splits intro!: settled_refuse settled_flush changes.putChat)
next
  case (OpMigrateCommit wd i snapshot p d)
  show ?thesis
  proof (cases "chatsOf (storeData s) i")
    case None
    with OpMigrateCommit show ?thesis by (simp add: migrateCommit_def errorOf_def settled_refuse)
  next
    case (Some current)
    let ?st = "(storeData s)\<lparr>chatsOf := (chatsOf (storeData s))(i \<mapsto>
      current\<lparr>sessionFile := p, durableSessionID := d, sessionProvenance := SessionProvenanceAdopted\<rparr>)\<rparr>"
    have "changes s op ?st" by (rule changes.editChat [OF Some]) simp_all
    with OpMigrateCommit Some show ?thesis
      by (simp add: migrateCommit_def Let_def errorOf_flush settled_flush)
        (auto simp: errorOf_def settled_def)
  qed
next
  case (OpRefreshEnrollment i p d name)
  have "csRun os op s = updateChatFields os i (\<lambda>c. Inr (fst (refreshed p d name c))) s"
    using OpRefreshEnrollment by (simp add: RefreshEnrollment_def Let_def split: prod.splits)
  moreover have "settled os op s (updateChatFields os i (\<lambda>c. Inr (fst (refreshed p d name c))) s)"
    by (rule settled_fields) (use refreshed_keeps [of p d name] in auto)
  ultimately show ?thesis by simp
next
  case (OpDeleteChat i)
  then show ?thesis
    using changes.dropChat [of s i]
    by (auto simp: DeleteChat_def Let_def recordEnrollmentTombstone_def split: option.splits intro!: settled_refuse settled_flush)
qed (auto simp: UpdateIdentity_def UpdateOwnedIdentity_def UpdateInPlaceIdentity_def UpdateName_def
    TouchLastUsed_def SetLayout_def Let_def split: option.splits
    intro!: settled_refuse settled_fields settled_flush changes.setLayout changes.editChat)

lemma csRun_cases:
  assumes "csRun os op s = (err, s')"
  obtains (same) "s' = s" | (flushed) st where "changes s op st" and "flushLocked os st s = (err, s')"
  using csRun_settled [of os op s] assms by (auto simp: settled_def)

subsection \<open>The invariant of the state\<close>

definition csWF :: "state \<Rightarrow> bool" where
  "csWF st \<longleftrightarrow> distinct (map wsID (workspaces st)) \<and> [] \<notin> wsID ` set (workspaces st)
     \<and> (\<forall>k c. chatsOf st k = Some c \<longrightarrow> k \<noteq> [] \<and> chatID c = k \<and> workspaceID c \<in> wsID ` set (workspaces st)
          \<and> validateNameSource (nameSource c) = None)"

lemma csWF_empty: "csWF emptyState"
  by (simp add: csWF_def emptyState_def)

lemma csWF_layout: "csWF (st\<lparr>layout := l\<rparr>) \<longleftrightarrow> csWF st"
  by (simp add: csWF_def)

lemma chatsOf_tombstone [simp]: "chatsOf (recordEnrollmentTombstone c st) = chatsOf st"
  and workspaces_tombstone [simp]: "workspaces (recordEnrollmentTombstone c st) = workspaces st"
  by (simp_all add: recordEnrollmentTombstone_def)

lemma dropChats_chats:
  "workspaces (dropChats ws ks st) = workspaces st
   \<and> chatsOf (dropChats ws ks st) k =
       (case chatsOf st k of None \<Rightarrow> None | Some c \<Rightarrow> if k \<in> set ks \<and> workspaceID c = ws then None else Some c)"
proof (induction ks arbitrary: st)
  case (Cons a ks)
  show ?case by (auto simp: Cons.IH Let_def split: option.splits)
qed (auto split: option.splits)

lemma update_wsID:
  "indexWorkspace wss (wsID ws) = Some k \<Longrightarrow> map wsID (wss[k := ws]) = map wsID wss"
  using indexWorkspace_Some [of wss "wsID ws" k] by (simp add: map_update) (metis list_update_id map_update nth_map)

lemma without_nth:
  assumes "distinct (map f xs)" and "k < length xs"
  shows "f ` set (take k xs @ drop (Suc k) xs) = f ` set xs - {f (xs ! k)} \<and> distinct (map f (take k xs @ drop (Suc k) xs))"
proof -
  obtain ys x zs where xs: "xs = ys @ x # zs" and k: "k = length ys"
    using assms(2) by (metis id_take_nth_drop length_take less_or_eq_imp_le min.absorb2)
  with assms(1) have "f x \<notin> f ` set ys" "f x \<notin> f ` set zs" "distinct (map f (ys @ zs))" by (auto simp: image_iff)
  then show ?thesis by (auto simp: xs k) (metis imageI)+
qed

lemma csWF_changes:
  assumes "changes s op st" and "csWF (storeData s)" and "csAllowed op s"
  shows "csWF st"
  using assms
proof (cases rule: changes.cases)
  case (replaceWs ws k)
  from update_wsID [OF replaceWs(2)] have "wsID ` set ((workspaces (storeData s))[k := ws]) = wsID ` set (workspaces (storeData s))"
    by (metis set_map)
  with update_wsID [OF replaceWs(2)] assms(2) replaceWs(1) show ?thesis by (simp add: csWF_def)
next
  case (addWs ws)
  then show ?thesis using assms(2) by (auto simp: csWF_def indexWorkspace_None)
next
  case (dropWs i k order)
  let ?wss = "workspaces (storeData s)"
  let ?rest = "take k ?wss @ drop (Suc k) ?wss"
  have k: "k < length ?wss" "wsID (?wss ! k) = i" using indexWorkspace_Some [OF dropWs(3)] by auto
  have "distinct (map wsID ?wss)" using assms(2) by (simp add: csWF_def)
  from without_nth [OF this k(1)] k(2)
  have ids: "wsID ` set ?rest = wsID ` set ?wss - {i}" and dist': "distinct (map wsID ?rest)" by simp_all
  have "\<And>c. c \<in> dom (chatsOf (storeData s)) \<Longrightarrow> c \<in> set order" using assms(3) dropWs(1) by (auto simp: ranges_def)
  then show ?thesis
    using assms(2) ids dist' dropWs(2) by (auto simp: csWF_def dropChats_chats split: option.splits if_splits)
next
  case (putChat c)
  then show ?thesis using assms(2) by (auto simp: csWF_def hasWorkspace)
next
  case (editChat i c c')
  then show ?thesis using assms(2) by (auto simp: csWF_def)
next
  case (dropChat i c)
  then show ?thesis using assms(2) by (auto simp: csWF_def)
next
  case (setLayout l)
  then show ?thesis using assms(2) by (simp add: csWF_layout)
qed

subsection \<open>Histories of a store\<close>

lemma flush_cases:
  assumes "flushLocked os st s = (err, s')"
  shows "(err = None \<and> storeData s' = st \<and> target (storeFs s') = Doc st \<or>
          err \<noteq> None \<and> storeData s' = storeData s \<and> (target (storeFs s') = target (storeFs s) \<or> target (storeFs s') = Doc st))
    \<and> storePath s' = storePath s"
  using assms state_file.old_or_new [of os st "storeFs s"] state_file.success_installs [of os st "storeFs s"]
  by (auto simp: flushLocked_def split: prod.splits option.splits)

text \<open>One mutation under any faults, or a restart of the process from what is on disk.\<close>

inductive csStep :: "(string \<Rightarrow> string) \<Rightarrow> cstore \<Rightarrow> cstore \<Rightarrow> bool" for relay where
  mutate: "csAllowed op s \<Longrightarrow> csRun os op s = (err, s') \<Longrightarrow> csStep relay s s'"
| restart: "OpenWithClock os relay (storePath s) (storeFs s) = Inr s' \<Longrightarrow> csStep relay s s'"

inductive csHistory :: "(string \<Rightarrow> string) \<Rightarrow> cstore \<Rightarrow> bool" for relay where
  created: "OpenWithClock os relay path f = Inr s \<Longrightarrow> target f = Missing \<Longrightarrow> csHistory relay s"
| extended: "csHistory relay s \<Longrightarrow> csStep relay s s' \<Longrightarrow> csHistory relay s'"

text \<open>A property of states that the mutations and the layout keep holds in memory and on disk.\<close>

definition everywhere :: "(state \<Rightarrow> bool) \<Rightarrow> cstore \<Rightarrow> bool" where
  "everywhere P s \<longleftrightarrow> P (storeData s) \<and> (case target (storeFs s) of Doc d \<Rightarrow> P d | _ \<Rightarrow> True)"

lemma everywhere_flush:
  "flushLocked os st s = (err, s') \<Longrightarrow> everywhere P s \<Longrightarrow> P st \<Longrightarrow> everywhere P s'"
  using flush_cases [of os st s err s'] by (auto simp: everywhere_def)

lemma everywhere_mutate:
  assumes "\<And>op st. changes s op st \<Longrightarrow> csAllowed op s \<Longrightarrow> P (storeData s) \<Longrightarrow> P st"
    and "csAllowed op s" and "csRun os op s = (err, s')" and "everywhere P s"
  shows "everywhere P s'"
  using csRun_settled [of os op s] assms everywhere_flush [of os _ s err s' P]
  by (auto simp: settled_def everywhere_def)

lemma restart_data:
  assumes "OpenWithClock os relay path f = Inr s'"
  shows "storeFs s' = f \<and> storePath s' = path \<and>
    storeData s' = (case target f of Doc d \<Rightarrow> d\<lparr>layout := relay (layout d)\<rparr> | _ \<Rightarrow> emptyState)"
  using assms by (auto simp: OpenWithClock_def split: option.splits content.splits if_splits)

lemma history_wf:
  assumes "csHistory relay s"
  shows "everywhere csWF s"
  using assms
proof (induction rule: csHistory.induct)
  case (created os path f s)
  with restart_data [OF created(1)] show ?case by (simp add: everywhere_def csWF_empty)
next
  case (extended s s')
  from extended.hyps(2) show ?case
  proof (cases rule: csStep.cases)
    case (mutate op os err)
    then show ?thesis using everywhere_mutate [where P = csWF] csWF_changes extended.IH by blast
  next
    case (restart os)
    with restart_data [OF restart] extended.IH show ?thesis
      by (auto simp: everywhere_def csWF_empty csWF_layout split: content.splits)
  qed
qed

lemma cursor_wf: "csHistory relay s \<Longrightarrow> csWF (storeData s)"
  using history_wf by (simp add: everywhere_def)

text \<open>
  C12: Referential integrity. After any history of mutations, failed flushes and restarts, in memory
  and in the state file, workspace identifiers are unique and not empty, every chat is stored under
  its own non-empty identifier, belongs to a workspace that exists and has a valid name source.
\<close>
theorem cursor_integrity:
  assumes "csHistory relay s"
  shows "csWF (storeData s) \<and> (\<forall>d. target (storeFs s) = Doc d \<longrightarrow> csWF d)"
  using history_wf [OF assms] by (auto simp: everywhere_def)


subsection \<open>Listing\<close>

lemma wrap_recency: "0 < r \<Longrightarrow> r < 1000000000000 \<Longrightarrow> wrap64 (r * 1000) = r * 1000"
  by (rule wrap64_id) (simp_all add: min_int64_def max_int64_def)

interpretation recency: comparator fresherChat chatID
proof
  show "\<not> fresherChat a a" for a by (simp add: fresherChat_def)
  show "fresherChat a b \<Longrightarrow> fresherChat b c \<Longrightarrow> fresherChat a c" for a b c
    by (auto simp: fresherChat_def split: if_splits)
  show "chatID a \<noteq> chatID b \<Longrightarrow> fresherChat a b \<or> fresherChat b a" for a b
    by (auto simp: fresherChat_def not_less_iff_gr_or_eq)
qed

interpretation durable_claim: comparator newerDurableClaim chatID
proof
  show "\<not> newerDurableClaim a a" for a by (simp add: newerDurableClaim_def)
  show "newerDurableClaim a b \<Longrightarrow> newerDurableClaim b c \<Longrightarrow> newerDurableClaim a c" for a b c
    by (auto simp: newerDurableClaim_def split: if_splits)
  show "chatID a \<noteq> chatID b \<Longrightarrow> newerDurableClaim a b \<or> newerDurableClaim b a" for a b
    by (auto simp: newerDurableClaim_def not_less_iff_gr_or_eq)
qed

definition storedChats :: "cstore \<Rightarrow> chat set" where
  "storedChats s = ran (chatsOf (storeData s))"

lemma ranged_chats:
  assumes "csWF (storeData s)" and "ranges order s"
  shows "map chatID (List.map_filter (chatsOf (storeData s)) order) = order"
    and "set (List.map_filter (chatsOf (storeData s)) order) = storedChats s"
proof -
  have "\<exists>c. chatsOf (storeData s) k = Some c \<and> chatID c = k" if "k \<in> set order" for k
    using assms that by (force simp: csWF_def ranges_def)
  then show "map chatID (List.map_filter (chatsOf (storeData s)) order) = order"
    by (induction order) (auto simp: List.map_filter_def dest!: meta_spec)
  have "\<And>k c. chatsOf (storeData s) k = Some c \<Longrightarrow> k \<in> set order" using assms(2) by (auto simp: ranges_def)
  then show "set (List.map_filter (chatsOf (storeData s)) order) = storedChats s"
    by (force simp: List.map_filter_def storedChats_def ran_def)
qed

lemma ranged_filter:
  assumes "csWF (storeData s)" and "ranges order s"
  shows "distinct (map chatID (filter P (List.map_filter (chatsOf (storeData s)) order)))"
  using assms(2) by (intro distinct_map_filter) (simp add: ranged_chats(1) [OF assms] ranges_def)

lemma ranged_mset:
  assumes "csWF (storeData s)" and "ranges order s" and "ranges order' s"
  shows "mset (List.map_filter (chatsOf (storeData s)) order') = mset (List.map_filter (chatsOf (storeData s)) order)"
proof -
  have d: "distinct (List.map_filter (chatsOf (storeData s)) o1)" if "ranges o1 s" for o1
    by (rule conjunct1 [OF distinct_map [of chatID, THEN iffD1]])
      (use ranged_chats(1) [OF assms(1) that] that in \<open>simp add: ranges_def\<close>)
  show ?thesis
    using set_eq_iff_mset_eq_distinct [OF d [OF assms(3)] d [OF assms(2)]] ranged_chats(2) [OF assms(1)] assms(2,3) by simp
qed

text \<open>
  C14: Listing. In whatever order Go ranges over the chat map, a listing holds exactly the launchable
  chats of the workspace, once each, the most recently used first and ties by identifier; the chat
  that claims a durable session is the one launchable claimant that precedes all others, and there is
  one whenever there is a claimant.
\<close>
theorem chat_listing_canonical:
  assumes "csHistory relay s" and "ranges order s"
  shows "set (ListChats order ws s) = {c \<in> storedChats s. workspaceID c = ws \<and> IsLaunchableProvider (provider c)}
    \<and> sorted_wrt (\<lambda>a b. RecencyMillis b < RecencyMillis a \<or> RecencyMillis a = RecencyMillis b \<and> chatID a < chatID b)
        (ListChats order ws s)
    \<and> (ranges order' s \<longrightarrow> ListChats order' ws s = ListChats order ws s)
    \<and> (ChatForDurable order d s = Some c \<longleftrightarrow>
         d \<noteq> [] \<and> c \<in> storedChats s \<and> durableSessionID c = d \<and> IsLaunchableProvider (provider c)
         \<and> (\<forall>c' \<in> storedChats s. durableSessionID c' = d \<and> IsLaunchableProvider (provider c') \<longrightarrow> c' = c \<or> newerDurableClaim c c'))
    \<and> (ChatForDurable order d s = None \<longleftrightarrow>
         d = [] \<or> (\<forall>c' \<in> storedChats s. \<not> (durableSessionID c' = d \<and> IsLaunchableProvider (provider c'))))"
proof -
  have wf: "csWF (storeData s)" using cursor_wf [OF assms(1)] .
  let ?l = "List.map_filter (chatsOf (storeData s))"
  let ?p = "\<lambda>c. workspaceID c = ws \<and> (\<not> True \<or> IsLaunchableProvider (provider c))"
  let ?q = "\<lambda>c. \<not> (durableSessionID c \<noteq> d \<or> \<not> IsLaunchableProvider (provider c))"
  note elems = ranged_chats(2) [OF wf assms(2)]
  have "sorted_wrt fresherChat (ListChats order ws s)"
    unfolding ListChats_def listChatsLocked_def by (rule recency.sorted_sort_by [OF ranged_filter [OF wf assms(2)]])
  then have sorted: "sorted_wrt (\<lambda>a b. RecencyMillis b < RecencyMillis a \<or> RecencyMillis a = RecencyMillis b \<and> chatID a < chatID b)
      (ListChats order ws s)"
    by (rule sorted_wrt_mono_rel [rotated]) (auto simp: fresherChat_def split: if_splits)
  have indep: "ListChats order' ws s = ListChats order ws s" if "ranges order' s"
    unfolding ListChats_def listChatsLocked_def
    by (rule recency.sort_by_order_independent [OF ranged_filter [OF wf assms(2)]])
      (simp add: ranged_mset [OF wf assms(2) that])
  have best: "c \<in> storedChats s \<and> ?q c \<and> (\<forall>c' \<in> storedChats s. ?q c' \<longrightarrow> c' = c \<or> newerDurableClaim c c')"
    if "select_by newerDurableClaim None (filter ?q (?l order)) = Some c" for c
    using durable_claim.select_by_best [where found = None and xs = "filter ?q (?l order)" and r = c] ranged_filter [OF wf assms(2), of ?q] that elems by auto
  have none: "select_by newerDurableClaim None (filter ?q (?l order)) = None \<longleftrightarrow> (\<forall>c' \<in> storedChats s. \<not> ?q c')"
    using elems by (auto simp: filter_empty_conv)
  have claim: "select_by newerDurableClaim None (filter ?q (?l order)) = Some c \<longleftrightarrow>
      c \<in> storedChats s \<and> ?q c \<and> (\<forall>c' \<in> storedChats s. ?q c' \<longrightarrow> c' = c \<or> newerDurableClaim c c')"
  proof
    assume c: "c \<in> storedChats s \<and> ?q c \<and> (\<forall>c' \<in> storedChats s. ?q c' \<longrightarrow> c' = c \<or> newerDurableClaim c c')"
    then have "select_by newerDurableClaim None (filter ?q (?l order)) \<noteq> None" unfolding none by blast
    then obtain b where b: "select_by newerDurableClaim None (filter ?q (?l order)) = Some b" by blast
    from durable_claim.best_unique [of b "{c \<in> storedChats s. ?q c}" c] best [OF b] c have "b = c" by simp
    with b show "select_by newerDurableClaim None (filter ?q (?l order)) = Some c" by simp
  qed (rule best)
  have "set (ListChats order ws s) = {c \<in> storedChats s. workspaceID c = ws \<and> IsLaunchableProvider (provider c)}"
    using elems by (auto simp: ListChats_def listChatsLocked_def)
  with sorted indep claim none show ?thesis by (simp add: ChatForDurable_def)
qed

subsection \<open>Enrollment tombstones\<close>

definition tombstoned :: "string \<Rightarrow> state \<Rightarrow> bool" where
  "tombstoned d st \<longleftrightarrow> enrollmentTombstones st d = Some True"

lemma tombstoned_record: "tombstoned d st \<Longrightarrow> tombstoned d (recordEnrollmentTombstone c st)"
  by (simp add: tombstoned_def recordEnrollmentTombstone_def)

lemma tombstoned_chats [simp]: "tombstoned d (st\<lparr>chatsOf := m\<rparr>) = tombstoned d st"
  "tombstoned d (st\<lparr>workspaces := w\<rparr>) = tombstoned d st" "tombstoned d (st\<lparr>layout := l\<rparr>) = tombstoned d st"
  by (simp_all add: tombstoned_def)

lemma tombstoned_dropChats: "tombstoned d st \<Longrightarrow> tombstoned d (dropChats ws ks st)"
  by (induction ks arbitrary: st) (auto simp: Let_def tombstoned_record split: option.splits)

lemma tombstoned_changes: "changes s op st \<Longrightarrow> tombstoned d (storeData s) \<Longrightarrow> tombstoned d st"
  by (cases rule: changes.cases) (auto simp: tombstoned_record tombstoned_dropChats)

lemma dropChats_tombstones:
  "k \<in> set ks \<Longrightarrow> chatsOf st k = Some c \<Longrightarrow> workspaceID c = ws \<Longrightarrow> autoEnrolled c \<Longrightarrow> durableSessionID c \<noteq> [] \<Longrightarrow>
     tombstoned (durableSessionID c) (dropChats ws ks st)"
proof (induction ks arbitrary: st)
  case (Cons a ks)
  show ?case
  proof (cases "a = k")
    case True
    with Cons.prems show ?thesis
      by (auto simp: Let_def recordEnrollmentTombstone_def tombstoned_def intro!: tombstoned_dropChats [unfolded tombstoned_def])
  next
    case False
    with Cons show ?thesis by (auto simp: Let_def split: option.splits)
  qed
qed simp

lemma tombstoned_forever:
  assumes "(csStep relay)\<^sup>*\<^sup>* s s'" and "everywhere (tombstoned d) s" and "\<exists>doc. target (storeFs s) = Doc doc"
  shows "everywhere (tombstoned d) s' \<and> (\<exists>doc. target (storeFs s') = Doc doc)"
  using assms
proof (induction rule: rtranclp_induct)
  case (step s1 s2)
  from step.IH [OF step.prems] have IH: "everywhere (tombstoned d) s1" "\<exists>doc. target (storeFs s1) = Doc doc" by auto
  from step.hyps(2) show ?case
  proof (cases rule: csStep.cases)
    case (mutate op os err)
    then have "everywhere (tombstoned d) s2" using everywhere_mutate [where P = "tombstoned d"] tombstoned_changes IH by blast
    moreover have "\<exists>doc. target (storeFs s2) = Doc doc"
      using mutate(2)
    proof (cases rule: csRun_cases)
      case same
      with IH show ?thesis by simp
    next
      case (flushed st)
      from flush_cases [OF flushed(2)] IH show ?thesis by auto
    qed
    ultimately show ?thesis ..
  next
    case (restart os)
    with restart_data [OF restart] IH show ?thesis by (auto simp: everywhere_def)
  qed
qed simp

text \<open>
  C15: Enrollment. Once the user has deleted an automatically enrolled chat, alone or with its
  workspace, its durable session stays marked as deleted through every later mutation, failed flush
  and restart. A refresh of an enrolled chat never replaces a name the user gave, keeps the chat, its
  workspace and provenance, and reports a replaced name exactly when the stored name changed.
\<close>
theorem enrollment_respects_user:
  "(\<forall>os i s c s1 s2. chatsOf (storeData s) i = Some c \<and> autoEnrolled c \<and> durableSessionID c \<noteq> []
      \<and> (DeleteChat os i s = (None, s1) \<or> ranges order s \<and> DeleteWorkspace os order (workspaceID c) s = (None, s1))
      \<and> (csStep relay)\<^sup>*\<^sup>* s1 s2 \<longrightarrow> EnrollmentDeleted (durableSessionID c) s2)
   \<and> (\<forall>os i s c r err s1. chatsOf (storeData s) i = Some c \<and> RefreshEnrollment os i path durable name s = ((r, err), s1) \<and> err = None \<longrightarrow>
        (\<exists>c1. chatsOf (storeData s1) i = Some c1 \<and> chatID c1 = chatID c \<and> workspaceID c1 = workspaceID c
           \<and> sessionProvenance c1 = sessionProvenance c \<and> (r \<longleftrightarrow> chatName c1 \<noteq> chatName c)
           \<and> (nameSource c = NameSourceUser \<longrightarrow> chatName c1 = chatName c \<and> nameSource c1 = NameSourceUser)))"
proof (intro conjI allI impI)
  fix os i s c s1 s2
  assume h: "chatsOf (storeData s) i = Some c \<and> autoEnrolled c \<and> durableSessionID c \<noteq> []
      \<and> (DeleteChat os i s = (None, s1) \<or> ranges order s \<and> DeleteWorkspace os order (workspaceID c) s = (None, s1))
      \<and> (csStep relay)\<^sup>*\<^sup>* s1 s2"
  obtain st where st: "tombstoned (durableSessionID c) st" "flushLocked os st s = (None, s1)"
  proof (cases "DeleteChat os i s = (None, s1)")
    case True
    with h show thesis
      by (intro that [of "(recordEnrollmentTombstone c (storeData s))\<lparr>chatsOf := (chatsOf (storeData s))(i := None)\<rparr>"])
        (auto simp: DeleteChat_def Let_def recordEnrollmentTombstone_def tombstoned_def)
  next
    case False
    with h have dw: "ranges order s" "DeleteWorkspace os order (workspaceID c) s = (None, s1)" by auto
    then obtain k where k: "indexWorkspace (workspaces (storeData s)) (workspaceID c) = Some k"
      by (auto simp: DeleteWorkspace_def split: option.splits)
    have "i \<in> set order" using dw(1) h by (auto simp: ranges_def)
    with k dw h show thesis
      by (intro that [of "dropChats (workspaceID c) order ((storeData s)\<lparr>workspaces := take k (workspaces (storeData s)) @ drop (Suc k) (workspaces (storeData s))\<rparr>)"]
          dropChats_tombstones) (auto simp: DeleteWorkspace_def Let_def)
  qed
  from flush_cases [OF st(2)] st(1) have "everywhere (tombstoned (durableSessionID c)) s1" "\<exists>doc. target (storeFs s1) = Doc doc"
    by (auto simp: everywhere_def)
  with tombstoned_forever [of relay s1 s2] h show "EnrollmentDeleted (durableSessionID c) s2"
    by (auto simp: everywhere_def tombstoned_def EnrollmentDeleted_def)
next
  fix os i s c r err s1
  assume h: "chatsOf (storeData s) i = Some c \<and> RefreshEnrollment os i path durable name s = ((r, err), s1) \<and> err = None"
  then obtain st where "flushLocked os st s = (None, s1)" "chatsOf st i = Some (fst (refreshed path durable name c))"
      "r = snd (refreshed path durable name c)"
    by (auto simp: RefreshEnrollment_def updateChatFields_def Let_def split: prod.splits)
  with flush_cases [of os st s None s1]
  have "chatsOf (storeData s1) i = Some (fst (refreshed path durable name c))" "r = snd (refreshed path durable name c)" by auto
  then show "\<exists>c1. chatsOf (storeData s1) i = Some c1 \<and> chatID c1 = chatID c \<and> workspaceID c1 = workspaceID c
           \<and> sessionProvenance c1 = sessionProvenance c \<and> (r \<longleftrightarrow> chatName c1 \<noteq> chatName c)
           \<and> (nameSource c = NameSourceUser \<longrightarrow> chatName c1 = chatName c \<and> nameSource c1 = NameSourceUser)"
    by (auto simp: refreshed_def Let_def NameSourceAuto_def NameSourceUser_def)
qed

subsection \<open>Owned sessions and migration\<close>

text \<open>The elements of an absolute path.\<close>

definition absElems :: "string option \<Rightarrow> string \<Rightarrow> string list option" where
  "absElems wd p = map_option (cleanElems True) (Abs wd (Clean p))"

lemma owned_elems:
  assumes "IsOwnedSession wd c dir" and "\<And>d. wd = Some d \<Longrightarrow> IsAbs d"
  shows "\<exists>es fs. absElems wd dir = Some es \<and> absElems wd (sessionFile c) = Some fs \<and> es = butlast fs"
proof -
  from assms(1) obtain d f where d: "Abs wd (Clean dir) = Some d" and f: "Abs wd (Clean (sessionFile c)) = Some f" and eq: "Dir f = d"
    by (auto simp: IsOwnedSession_def split: option.splits if_splits)
  have abs: "IsAbs d \<and> Clean d = d" "IsAbs f \<and> Clean f = f" using IsAbs_Abs [of wd] assms(2) d f by blast+
  then have "Dir f = slash # joinSlash (butlast (cleanElems True f))" using Dir_Clean [of f] by simp
  moreover have "d = slash # joinSlash (cleanElems True d)" using Clean_abs [of d] abs by simp
  ultimately have "joinSlash (cleanElems True d) = joinSlash (butlast (cleanElems True f))" using eq by simp
  then have "cleanElems True d = butlast (cleanElems True f)"
    by (rule joinSlash_inject [rotated 2]) (use cleanElems_plain in \<open>auto dest: in_set_butlastD\<close>)
  then show ?thesis using d f by (simp add: absElems_def)
qed

lemma absElems_owned_dir:
  assumes "absElems wd (OwnedSessionDir s) = Some es" and "\<And>d. wd = Some d \<Longrightarrow> IsAbs d"
  shows "\<exists>ds. es = ds @ [''adopted'']"
proof -
  have n: "plainElem ''adopted''" by (simp add: plainElem_def)
  have "last (splitSlash (OwnedSessionDir s)) = ''adopted''"
    unfolding OwnedSessionDir_def StateDir_def by (rule last_split_Join [OF Dir_ne n])
  from last_split_Clean [OF n this] assms Abs_last [OF n _ assms(2)] show ?thesis by (auto simp: absElems_def)
qed

text \<open>
  Ownership. A chat counts as an owned session only when its file, made absolute and cleaned, is
  the directory \<open>adopted\<close> of the state directory followed by exactly one more element, which is not
  empty, not \<open>.\<close> or \<open>..\<close> and holds no slash: no spelling of an external path passes.
\<close>
theorem owned_session_is_direct_child:
  assumes "IsOwnedSession wd c (OwnedSessionDir s)" and "\<And>d. wd = Some d \<Longrightarrow> IsAbs d"
  shows "\<exists>ds n. absElems wd (OwnedSessionDir s) = Some (ds @ [''adopted'']) \<and> plainElem n
    \<and> absElems wd (sessionFile c) = Some (ds @ [''adopted''] @ [n])"
proof -
  from owned_elems [OF assms] obtain es fs where
      e: "absElems wd (OwnedSessionDir s) = Some es" "absElems wd (sessionFile c) = Some fs" "es = butlast fs" by blast
  from absElems_owned_dir [OF e(1) assms(2)] obtain ds where ds: "es = ds @ [''adopted'']" by blast
  with e(3) have fs: "fs = ds @ [''adopted''] @ [last fs]" by (metis append.assoc append_butlast_last_id append_is_Nil_conv butlast.simps(1) not_Cons_self2)
  from e(2) obtain q where "fs = cleanElems True q" by (auto simp: absElems_def)
  with cleanElems_plain [of q] have "plainElem (last fs)" using fs by (metis append_is_Nil_conv last_in_set not_Cons_self2)
  with e ds fs show ?thesis by metis
qed

lemma GetChatForOpen_owned:
  "chatsOf (storeData s) i = Some c \<Longrightarrow> sessionFile c = [] \<or> IsOwnedSession wd c (OwnedSessionDir s) \<or> IsInPlaceSession c \<or> IsNativeSession c
     \<Longrightarrow> GetChatForOpen wd i s = Inr c"
  by (auto simp: GetChatForOpen_def GetChat_def)

lemma IsOwnedSession_cong:
  "sessionProvenance c = sessionProvenance c' \<Longrightarrow> sessionFile c = sessionFile c' \<Longrightarrow> IsOwnedSession wd c dir = IsOwnedSession wd c' dir"
  unfolding IsOwnedSession_def by (simp split: option.split)

lemma migrateCommit_safe:
  assumes "migrateCommit os wd i c path durable t = (r, t')"
  shows "(\<forall>c'. r = Inr c' \<longrightarrow> GetChatForOpen wd i t' = Inr c') \<and> (\<forall>e. r = Inl e \<longrightarrow> storeData t' = storeData t)
    \<and> (storeData t' = storeData t \<or>
       (\<exists>c0. chatsOf (storeData t) i = Some c0 \<and> sessionFile c0 = sessionFile c \<and> durableSessionID c0 = durableSessionID c
          \<and> storeData t' = (storeData t)\<lparr>chatsOf := (chatsOf (storeData t))(i \<mapsto>
              c0\<lparr>sessionFile := path, durableSessionID := durable, sessionProvenance := SessionProvenanceAdopted\<rparr>)\<rparr>))"
proof (cases "chatsOf (storeData t) i")
  case None
  with assms show ?thesis by (auto simp: migrateCommit_def)
next
  case (Some c0)
  let ?c = "c0\<lparr>sessionFile := path, durableSessionID := durable, sessionProvenance := SessionProvenanceAdopted\<rparr>"
  let ?st = "(storeData t)\<lparr>chatsOf := (chatsOf (storeData t))(i \<mapsto> ?c)\<rparr>"
  let ?go = "\<not> IsOwnedSession wd c0 (OwnedSessionDir t) \<and> sessionFile c0 = sessionFile c \<and> durableSessionID c0 = durableSessionID c
    \<and> IsOwnedSession wd (zeroChat\<lparr>sessionFile := path, sessionProvenance := SessionProvenanceAdopted\<rparr>) (OwnedSessionDir t)"
  show ?thesis
  proof (cases ?go)
    case True
    obtain err t1 where fl: "flushLocked os ?st t = (err, t1)" by (cases "flushLocked os ?st t")
    have run: "t' = t1" "r = (case err of None \<Rightarrow> Inr ?c | Some e \<Rightarrow> Inl e)"
      using assms Some True fl by (auto simp: migrateCommit_def Let_def split: option.splits)
    have "IsOwnedSession wd ?c (OwnedSessionDir t)"
      using True IsOwnedSession_cong [of ?c "zeroChat\<lparr>sessionFile := path, sessionProvenance := SessionProvenanceAdopted\<rparr>"] by simp
    then have "storeData t1 = ?st \<Longrightarrow> storePath t1 = storePath t \<Longrightarrow> GetChatForOpen wd i t1 = Inr ?c"
      by (intro GetChatForOpen_owned) (simp_all add: OwnedSessionDir_def StateDir_def)
    with flush_cases [OF fl] run True Some show ?thesis by (cases err) auto
  next
    case False
    with assms Some have "t' = t" "\<And>c'. r = Inr c' \<Longrightarrow> c' = c0 \<and> IsOwnedSession wd c0 (OwnedSessionDir t)"
      by (auto simp: migrateCommit_def split: if_splits)
    with Some show ?thesis by (auto intro: GetChatForOpen_owned)
  qed
qed


subsection \<open>Witnesses\<close>

definition demoWs :: workspace where
  "demoWs = \<lparr>wsID = ''w'', wsName = ''Work'', wsPath = ''/srv''\<rparr>"

definition demoChat :: chat where
  "demoChat = zeroChat\<lparr>chatID := ''c'', workspaceID := ''w'', sessionFile := ''/old/s.jsonl'', durableSessionID := ''d'', autoEnrolled := True,
     nameSource := ''user'', chatName := ''Mine''\<rparr>"

definition demoStore0 :: cstore where
  "demoStore0 = \<lparr>storePath = ''/state/cursors.json'', storeData = emptyState, storeFs = \<lparr>target = Missing, temps = 0\<rparr>\<rparr>"

definition demoStore :: cstore where
  "demoStore = snd (SaveChat healthy demoChat (snd (SaveWorkspace healthy demoWs demoStore0)))"

lemma demoStore_data:
  "storeData demoStore = \<lparr>workspaces = [demoWs], chatsOf = [''c'' \<mapsto> demoChat], layout = [], enrollmentTombstones = Map.empty\<rparr>"
  by (simp add: demoStore_def SaveChat_def SaveWorkspace_def demoWs_def demoChat_def demoStore0_def zeroChat_def emptyState_def
      indexWorkspace_def hasWorkspaceLocked_def validateNameSource_def NameSourceAuto_def NameSourceUser_def flushLocked_def
      storeInstall_def staged_install_def Let_def)

lemma demoStore_history: "csHistory (\<lambda>l. l) demoStore"
proof -
  have 0: "csHistory (\<lambda>l. l) demoStore0"
    by (rule csHistory.created [of healthy _ "''/state/cursors.json''" "\<lparr>target = Missing, temps = 0\<rparr>"])
      (simp_all add: OpenWithClock_def demoStore0_def)
  have step: "csHistory (\<lambda>l. l) s \<Longrightarrow> csAllowed op s \<Longrightarrow> csHistory (\<lambda>l. l) (snd (csRun healthy op s))" for op s
    by (rule csHistory.extended, assumption, rule csStep.mutate [of op s healthy "fst (csRun healthy op s)"]) simp_all
  from step [OF step [OF 0, of "OpSaveWorkspace demoWs"], of "OpSaveChat demoChat"] show ?thesis by (simp add: demoStore_def)
qed

lemma demoStore_ranges: "ranges [''c''] demoStore"
  by (simp add: ranges_def demoStore_data)

theorem cursor_integrity_witness: "csWF (storeData demoStore) \<and> chatsOf (storeData demoStore) ''c'' = Some demoChat"
  using cursor_integrity [OF demoStore_history] by (simp add: demoStore_data)

definition fullDisk :: env where
  "fullDisk = (\<lambda>st. if st = Rename then Some ''disk full'' else None)"


theorem chat_listing_canonical_witness: "set (ListChats [''c''] ''w'' demoStore) = {demoChat} \<and> ChatForDurable [''c''] ''d'' demoStore = Some demoChat"
proof -
  have r: "storedChats demoStore = {demoChat}" by (simp add: storedChats_def demoStore_data)
  have c: "workspaceID demoChat = ''w''" "IsLaunchableProvider (provider demoChat)" "durableSessionID demoChat = ''d''"
    by (simp_all add: demoChat_def zeroChat_def IsLaunchableProvider_def)
  show ?thesis
    using chat_listing_canonical [OF demoStore_history demoStore_ranges, of "''w''" "[]" "''d''" demoChat] r c by auto
qed

theorem enrollment_respects_user_witness:
  "EnrollmentDeleted ''d'' (snd (DeleteChat healthy ''c'' demoStore))"
proof -
  have "DeleteChat healthy ''c'' demoStore = (None, snd (DeleteChat healthy ''c'' demoStore))"
    by (simp add: DeleteChat_def demoStore_data flushLocked_def storeInstall_def staged_install_def Let_def)
  moreover have "chatsOf (storeData demoStore) ''c'' = Some demoChat" "autoEnrolled demoChat" "durableSessionID demoChat = ''d''"
    by (simp_all add: demoStore_data demoChat_def)
  ultimately show ?thesis
    using enrollment_respects_user [of "[]" "\<lambda>l. l" "[]" "[]" "[]"] by (metis list.distinct(1) rtranclp.rtrancl_refl)
qed

definition ownedChat :: chat where
  "ownedChat = zeroChat\<lparr>sessionFile := ''/state//adopted/./x.jsonl'', sessionProvenance := ''adopted-copy''\<rparr>"

lemma ownedChat_owned: "IsOwnedSession None ownedChat (OwnedSessionDir demoStore0)"
  by code_simp

theorem owned_session_is_direct_child_witness:
  "\<exists>ds n. absElems None (sessionFile ownedChat) = Some (ds @ [''adopted''] @ [n])"
  using owned_session_is_direct_child [OF ownedChat_owned] by blast

lemma demo_migration:
  "case fst (MigrateLegacySession healthy None (\<lambda>_. \<lparr>legacyOpenErr = None, legacyContent = [], legacyReadErr = None\<rparr>)
       (\<lambda>src dir d. Inr (dir @ ''/s.jsonl'', d)) (\<lambda>s. s) ''c'' demoStore) of
     Inl _ \<Rightarrow> False | Inr c \<Rightarrow> sessionFile c = ''/state/adopted/s.jsonl''"
  by code_simp


end
