(* ===== verification/Auth.thy ===== *)
theory Auth
  imports Prelude
begin

text \<open>
  \<open>internal/auth/auth.go\<close>, \<open>internal/auth/middleware.go\<close> and the login handlers of
  \<open>internal/api/auth.go\<close>: session tokens with a sliding lifetime and the per-address ban after
  repeated failures. Instants and durations are nanoseconds; Go's zero time is \<open>None\<close>. The hash
  function is a parameter, as are the readings of the clock: an operation that reads it twice takes
  two readings. Every operation holds the store's mutex, so a run is a sequence of operations.
\<close>

subsection \<open>The store\<close>

definition hour :: int where
  "hour = 3600 * 1000000000"

definition SessionTTL :: int where
  "SessionTTL = 24 * hour"

definition maxFailures :: int where
  "maxFailures = 10"

definition failureWindow :: int where
  "failureWindow = hour"

definition banDuration :: int where
  "banDuration = hour"

record failureRecord =
  failCount :: int
  countExpiresAt :: "int option"
  bannedUntil :: "int option"

record sessionStore =
  passwordHash :: string
  sessions :: "string \<rightharpoonup> int"
  failures :: "string \<rightharpoonup> failureRecord"

definition newSessionStore :: "(string \<Rightarrow> string) \<Rightarrow> string \<Rightarrow> sessionStore" where
  "newSessionStore sha password = \<lparr>passwordHash = sha password, sessions = Map.empty, failures = Map.empty\<rparr>"

text \<open>Hexadecimal text of random bytes (\<open>hex.EncodeToString\<close>).\<close>

definition hexDigit :: "nat \<Rightarrow> char" where
  "hexDigit n = ''0123456789abcdef'' ! n"

fun EncodeToString :: "nat list \<Rightarrow> string" where
  "EncodeToString [] = []"
| "EncodeToString (b # bs) = hexDigit (b div 16) # hexDigit (b mod 16) # EncodeToString bs"

text \<open>\<open>raw\<close> is what the random source delivers, \<open>None\<close> when it fails.\<close>

definition Create :: "nat list option \<Rightarrow> int \<Rightarrow> sessionStore \<Rightarrow> string option \<times> sessionStore" where
  "Create raw now s =
     (case raw of
        None \<Rightarrow> (None, s)
      | Some bytes \<Rightarrow>
          (let token = EncodeToString bytes in
           (Some token, s\<lparr>sessions := (sessions s)(token \<mapsto> now + SessionTTL)\<rparr>)))"

definition Validate :: "int \<Rightarrow> int \<Rightarrow> string \<Rightarrow> sessionStore \<Rightarrow> bool \<times> sessionStore" where
  "Validate now1 now2 token s =
     (if token = [] then (False, s)
      else (case sessions s token of
              None \<Rightarrow> (False, s\<lparr>sessions := (sessions s)(token := None)\<rparr>)
            | Some expiresAt \<Rightarrow>
                (if expiresAt < now1 then (False, s\<lparr>sessions := (sessions s)(token := None)\<rparr>)
                 else (True, s\<lparr>sessions := (sessions s)(token \<mapsto> now2 + SessionTTL)\<rparr>))))"

definition Revoke :: "string \<Rightarrow> sessionStore \<Rightarrow> sessionStore" where
  "Revoke token s = s\<lparr>sessions := (sessions s)(token := None)\<rparr>"

text \<open>The record that counts at \<open>now\<close>: a finished ban and an expired count are forgotten.\<close>

definition currentRecord :: "int \<Rightarrow> failureRecord option \<Rightarrow> failureRecord option" where
  "currentRecord now r =
     (case r of
        None \<Rightarrow> None
      | Some rec \<Rightarrow>
          (case bannedUntil rec of
             Some b \<Rightarrow> if now < b then Some rec else None
           | None \<Rightarrow>
               (case countExpiresAt rec of
                  Some w \<Rightarrow> if \<not> now < w then None else Some rec
                | None \<Rightarrow> Some rec)))"

definition recordFailure :: "int \<Rightarrow> failureRecord option \<Rightarrow> failureRecord" where
  "recordFailure now r =
     (let rec = (case r of Some rec \<Rightarrow> rec
                 | None \<Rightarrow> \<lparr>failCount = 0, countExpiresAt = Some (now + failureWindow), bannedUntil = None\<rparr>);
          n = failCount rec + 1
      in if maxFailures \<le> n
         then \<lparr>failCount = 0, countExpiresAt = None, bannedUntil = Some (now + banDuration)\<rparr>
         else rec\<lparr>failCount := n\<rparr>)"

definition Authenticate ::
  "(string \<Rightarrow> string) \<Rightarrow> int \<Rightarrow> string \<Rightarrow> string \<Rightarrow> sessionStore \<Rightarrow> (bool \<times> bool) \<times> sessionStore" where
  "Authenticate sha now ip candidate s =
     (let rec = currentRecord now (failures s ip) in
      if rec \<noteq> None \<and> bannedUntil (the rec) \<noteq> None then ((False, True), s)
      else if sha candidate = passwordHash s
      then ((True, False), s\<lparr>failures := (failures s)(ip := None)\<rparr>)
      else ((False, False), s\<lparr>failures := (failures s)(ip \<mapsto> recordFailure now rec)\<rparr>))"

definition keepSession :: "int \<Rightarrow> int \<Rightarrow> bool" where
  "keepSession now expiresAt \<longleftrightarrow> \<not> expiresAt < now"

definition keepFailure :: "int \<Rightarrow> failureRecord \<Rightarrow> bool" where
  "keepFailure now rec \<longleftrightarrow>
     (let expiresAt = (if bannedUntil rec \<noteq> None then bannedUntil rec else countExpiresAt rec) in
      case expiresAt of None \<Rightarrow> True | Some e \<Rightarrow> now < e)"

definition keepIf :: "('v \<Rightarrow> bool) \<Rightarrow> ('k \<rightharpoonup> 'v) \<Rightarrow> ('k \<rightharpoonup> 'v)" where
  "keepIf p m = (\<lambda>k. case m k of None \<Rightarrow> None | Some v \<Rightarrow> if p v then Some v else None)"

definition purgeExpired :: "int \<Rightarrow> sessionStore \<Rightarrow> sessionStore" where
  "purgeExpired now s = s\<lparr>sessions := keepIf (keepSession now) (sessions s), failures := keepIf (keepFailure now) (failures s)\<rparr>"

subsection \<open>HTTP\<close>

datatype setCookie = CookieKept | CookieSet string int | CookieCleared

record response =
  respStatus :: nat
  respBody :: "(string \<times> string) option"
  respCookie :: setCookie

definition writeError :: "nat \<Rightarrow> string \<Rightarrow> response" where
  "writeError status msg = \<lparr>respStatus = status, respBody = Some (''error'', msg), respCookie = CookieKept\<rparr>"

definition okResponse :: "setCookie \<Rightarrow> response" where
  "okResponse c = \<lparr>respStatus = 200, respBody = Some (''status'', ''ok''), respCookie = c\<rparr>"

text \<open>\<open>body\<close> is the decoded password of the request, \<open>None\<close> for a body that does not decode.\<close>

definition handleLogin ::
  "(string \<Rightarrow> string) \<Rightarrow> int \<Rightarrow> nat list option \<Rightarrow> int \<Rightarrow> string \<Rightarrow> string option \<Rightarrow> sessionStore \<Rightarrow> response \<times> sessionStore" where
  "handleLogin sha now raw now2 ip body s =
     (case body of
        None \<Rightarrow> (writeError 400 ''invalid request body'', s)
      | Some password \<Rightarrow>
          (case Authenticate sha now ip password s of ((authenticated, banned), s1) \<Rightarrow>
             (if banned then (writeError 429 ''too many failed attempts, try again later'', s1)
              else if \<not> authenticated then (writeError 401 ''invalid password'', s1)
              else (case Create raw now2 s1 of
                      (None, s2) \<Rightarrow> (writeError 500 ''internal server error'', s2)
                    | (Some token, s2) \<Rightarrow> (okResponse (CookieSet token (SessionTTL div 1000000000)), s2)))))"

definition handleLogout :: "string option \<Rightarrow> sessionStore \<Rightarrow> response \<times> sessionStore" where
  "handleLogout cookie s =
     (okResponse CookieCleared, (case cookie of None \<Rightarrow> s | Some c \<Rightarrow> Revoke c s))"

definition Middleware ::
  "(sessionStore \<Rightarrow> response \<times> sessionStore) \<Rightarrow> int \<Rightarrow> int \<Rightarrow> string option \<Rightarrow> sessionStore \<Rightarrow> response \<times> sessionStore" where
  "Middleware nxt now1 now2 cookie s =
     (case cookie of
        None \<Rightarrow> (writeError 401 ''authentication required'', s)
      | Some c \<Rightarrow> (case Validate now1 now2 c s of
                      (ok, s1) \<Rightarrow> if \<not> ok then (writeError 401 ''authentication required'', s1) else nxt s1))"

section \<open>Correctness\<close>

subsection \<open>Runs\<close>

text \<open>
  The operations in the order in which they hold the mutex, each with its clock readings; a token
  that a failed random source did not create does not appear.
\<close>

datatype authOp =
    OpCreate int "nat list"
  | OpValidate int int string
  | OpRevoke string
  | OpAuthenticate int string string
  | OpPurge int

fun opTimes :: "authOp \<Rightarrow> int list" where
  "opTimes (OpCreate t raw) = [t]"
| "opTimes (OpValidate t1 t2 token) = [t1, t2]"
| "opTimes (OpRevoke token) = []"
| "opTimes (OpAuthenticate t ip candidate) = [t]"
| "opTimes (OpPurge t) = [t]"

fun authStep :: "(string \<Rightarrow> string) \<Rightarrow> authOp \<Rightarrow> sessionStore \<Rightarrow> sessionStore" where
  "authStep sha (OpCreate t raw) s = snd (Create (Some raw) t s)"
| "authStep sha (OpValidate t1 t2 token) s = snd (Validate t1 t2 token s)"
| "authStep sha (OpRevoke token) s = Revoke token s"
| "authStep sha (OpAuthenticate t ip candidate) s = snd (Authenticate sha t ip candidate s)"
| "authStep sha (OpPurge t) s = purgeExpired t s"

definition authRun :: "(string \<Rightarrow> string) \<Rightarrow> authOp list \<Rightarrow> sessionStore \<Rightarrow> sessionStore" where
  "authRun sha es s = fold (authStep sha) es s"

text \<open>The clock does not run backwards.\<close>

definition monotone :: "authOp list \<Rightarrow> bool" where
  "monotone es \<longleftrightarrow> sorted (concat (map opTimes es))"

lemma authRun_simps [simp]:
  "authRun sha [] s = s" "authRun sha (e # es) s = authRun sha es (authStep sha e s)"
  "authRun sha (es @ es') s = authRun sha es' (authRun sha es s)"
  by (simp_all add: authRun_def)

subsection \<open>Brute force\<close>

text \<open>The attempts of one address that were compared with the password and rejected.\<close>

fun rejected :: "(string \<Rightarrow> string) \<Rightarrow> string \<Rightarrow> authOp list \<Rightarrow> sessionStore \<Rightarrow> nat" where
  "rejected sha ip [] s = 0"
| "rejected sha ip (e # es) s =
     (case e of OpAuthenticate t ip' candidate \<Rightarrow>
        (if ip' = ip \<and> fst (Authenticate sha t ip' candidate s) = (False, False) then 1 else 0)
      | _ \<Rightarrow> 0) + rejected sha ip es (authStep sha e s)"

fun accepted :: "(string \<Rightarrow> string) \<Rightarrow> string \<Rightarrow> authOp list \<Rightarrow> sessionStore \<Rightarrow> bool" where
  "accepted sha ip [] s = False"
| "accepted sha ip (e # es) s \<longleftrightarrow>
     (case e of OpAuthenticate t ip' candidate \<Rightarrow> ip' = ip \<and> fst (fst (Authenticate sha t ip' candidate s)) | _ \<Rightarrow> False)
     \<or> accepted sha ip es (authStep sha e s)"

text \<open>A record either counts, with less than ten failures and an end, or bans.\<close>

definition recordOK :: "failureRecord \<Rightarrow> bool" where
  "recordOK r \<longleftrightarrow>
     (case bannedUntil r of Some b \<Rightarrow> failCount r = 0 \<and> countExpiresAt r = None
      | None \<Rightarrow> 1 \<le> failCount r \<and> failCount r < maxFailures \<and> countExpiresAt r \<noteq> None)"

definition authInv :: "sessionStore \<Rightarrow> bool" where
  "authInv s \<longleftrightarrow> (\<forall>ip r. failures s ip = Some r \<longrightarrow> recordOK r)"

text \<open>What \<open>f\<close> rejected attempts since \<open>t\<close> mean for the record at an instant before \<open>t + hour\<close>.\<close>

definition hourBudget :: "int \<Rightarrow> failureRecord option \<Rightarrow> nat \<Rightarrow> bool" where
  "hourBudget t r f \<longleftrightarrow>
     (case r of None \<Rightarrow> f \<le> 9
      | Some rec \<Rightarrow>
          (case bannedUntil rec of
             Some b \<Rightarrow> if b < t + hour then f \<le> 9 else f \<le> 19
           | None \<Rightarrow> if the (countExpiresAt rec) < t + hour then int f \<le> failCount rec else int f \<le> 9 + failCount rec))"

lemmas auth_defs = Authenticate_def Let_def recordFailure_def recordOK_def currentRecord_def maxFailures_def
  failureWindow_def banDuration_def

lemma recordOK_failure: "(case r of None \<Rightarrow> True | Some rec \<Rightarrow> recordOK rec \<and> bannedUntil rec = None) \<Longrightarrow> recordOK (recordFailure now r)"
  by (auto simp: auth_defs split: option.splits)

lemma currentRecord_cases: "currentRecord now r = None \<or> currentRecord now r = r"
  by (auto simp: currentRecord_def split: option.splits)

lemma authStep_inv: "authInv s \<Longrightarrow> authInv (authStep sha e s)"
proof (cases e)
  case (OpAuthenticate t ip candidate)
  assume inv: "authInv s"
  let ?r = "currentRecord t (failures s ip)"
  have "case ?r of None \<Rightarrow> True | Some rec \<Rightarrow> recordOK rec"
    using inv currentRecord_cases [of t "failures s ip"] by (auto simp: authInv_def split: option.splits)
  then have "\<not> (?r \<noteq> None \<and> bannedUntil (the ?r) \<noteq> None) \<Longrightarrow> recordOK (recordFailure t ?r)"
    by (intro recordOK_failure) (auto split: option.splits)
  with inv OpAuthenticate show ?thesis by (auto simp: authInv_def Authenticate_def Let_def)
qed (auto simp: authInv_def Create_def Validate_def Revoke_def purgeExpired_def keepIf_def Let_def split: option.splits)

lemma authRun_inv: "authInv s \<Longrightarrow> authInv (authRun sha es s)"
  by (induction es arbitrary: s) (simp_all add: authStep_inv)

lemma authInv_new: "authInv (newSessionStore sha password)"
  by (simp add: authInv_def newSessionStore_def)

text \<open>The rejected attempt of \<open>ip\<close> that one operation makes, and whether it lets \<open>ip\<close> in.\<close>

definition rejects :: "(string \<Rightarrow> string) \<Rightarrow> string \<Rightarrow> authOp \<Rightarrow> sessionStore \<Rightarrow> nat" where
  "rejects sha ip e s = rejected sha ip [e] s"

definition admits :: "(string \<Rightarrow> string) \<Rightarrow> string \<Rightarrow> authOp \<Rightarrow> sessionStore \<Rightarrow> bool" where
  "admits sha ip e s \<longleftrightarrow> accepted sha ip [e] s"

lemma rejected_Cons: "rejected sha ip (e # es) s = rejects sha ip e s + rejected sha ip es (authStep sha e s)"
  by (simp add: rejects_def)

lemma accepted_Cons: "accepted sha ip (e # es) s \<longleftrightarrow> admits sha ip e s \<or> accepted sha ip es (authStep sha e s)"
  by (simp add: admits_def)

text \<open>How one operation that does not admit \<open>ip\<close> changes its record.\<close>

lemma failures_step:
  assumes "\<not> admits sha ip e s"
  obtains
    (kept) "failures (authStep sha e s) ip = failures s ip" and "rejects sha ip e s = 0"
  | (purged) u where "u \<in> set (opTimes e)" and "failures (authStep sha e s) ip = keepIf (keepFailure u) (failures s) ip"
      and "rejects sha ip e s = 0"
  | (failed) u where "u \<in> set (opTimes e)" and "rejects sha ip e s = 1"
      and "case currentRecord u (failures s ip) of None \<Rightarrow> True | Some r \<Rightarrow> bannedUntil r = None"
      and "failures (authStep sha e s) ip = Some (recordFailure u (currentRecord u (failures s ip)))"
proof (cases e)
  case (OpAuthenticate u ip' candidate)
  show thesis
  proof (cases "ip' = ip")
    case True
    let ?r = "currentRecord u (failures s ip)"
    show thesis
    proof (cases "?r \<noteq> None \<and> bannedUntil (the ?r) \<noteq> None")
      case True
      with OpAuthenticate \<open>ip' = ip\<close> show thesis by (intro kept) (auto simp: rejects_def Authenticate_def Let_def)
    next
      case False
      with assms OpAuthenticate \<open>ip' = ip\<close> show thesis
        by (intro failed [of u]) (auto simp: rejects_def admits_def Authenticate_def Let_def split: option.splits if_splits)
    qed
  next
    case False
    with OpAuthenticate show thesis by (intro kept) (auto simp: rejects_def Authenticate_def Let_def)
  qed
next
  case (OpPurge u)
  then show thesis by (intro purged [of u]) (simp_all add: rejects_def purgeExpired_def)
qed (use kept in \<open>auto simp: rejects_def Create_def Validate_def Revoke_def Let_def split: option.splits\<close>)

lemma hourBudget_purge:
  assumes "hourBudget t (m ip) f" and "\<And>r. m ip = Some r \<Longrightarrow> recordOK r" and "u < t + hour"
  shows "hourBudget t (keepIf (keepFailure u) m ip) f"
  using assms
  by (auto simp: hourBudget_def keepIf_def keepFailure_def recordOK_def maxFailures_def Let_def split: option.splits if_splits)

lemma hourBudget_failed:
  assumes "hourBudget t r f" and "\<And>rec. r = Some rec \<Longrightarrow> recordOK rec" and "t \<le> u" and "u < t + hour"
    and "case currentRecord u r of None \<Rightarrow> True | Some rec \<Rightarrow> bannedUntil rec = None"
  shows "hourBudget t (Some (recordFailure u (currentRecord u r))) (Suc f)"
proof (cases "currentRecord u r")
  case None
  with assms(1,2,4) have "f \<le> 9"
    by (auto simp: hourBudget_def currentRecord_def recordOK_def maxFailures_def split: option.splits if_splits)
  with None assms(3) show ?thesis by (simp add: hourBudget_def recordFailure_def failureWindow_def maxFailures_def Let_def)
next
  case (Some rec)
  with currentRecord_cases [of u r] have r: "r = Some rec" by auto
  from assms(5) Some have "bannedUntil rec = None" by simp
  with assms(1-3) Some r show ?thesis
    by (auto simp: hourBudget_def recordFailure_def recordOK_def maxFailures_def banDuration_def Let_def split: if_splits)
qed

text \<open>The same from a clean record: the count is exact.\<close>

definition cleanCount :: "int \<Rightarrow> failureRecord option \<Rightarrow> nat \<Rightarrow> bool" where
  "cleanCount t r f \<longleftrightarrow>
     (case r of None \<Rightarrow> f = 0
      | Some rec \<Rightarrow>
          (case bannedUntil rec of
             Some b \<Rightarrow> t + hour \<le> b \<and> f = 10
           | None \<Rightarrow> t + hour \<le> the (countExpiresAt rec) \<and> countExpiresAt rec \<noteq> None \<and> int f = failCount rec \<and> f < 10))"

lemma cleanCount_purge:
  "cleanCount t (m ip) f \<Longrightarrow> u < t + hour \<Longrightarrow> cleanCount t (keepIf (keepFailure u) m ip) f"
  by (auto simp: cleanCount_def keepIf_def keepFailure_def Let_def split: option.splits if_splits)

lemma cleanCount_failed:
  assumes "cleanCount t r f" and "t \<le> u" and "u < t + hour"
    and "case currentRecord u r of None \<Rightarrow> True | Some rec \<Rightarrow> bannedUntil rec = None"
  shows "cleanCount t (Some (recordFailure u (currentRecord u r))) (Suc f)"
proof (cases r)
  case None
  with assms(1,2) show ?thesis
    by (simp add: cleanCount_def recordFailure_def currentRecord_def failureWindow_def maxFailures_def Let_def)
next
  case (Some rec)
  with assms have "bannedUntil rec = None" "currentRecord u r = Some rec"
    by (auto simp: cleanCount_def currentRecord_def split: option.splits if_splits)
  with Some assms(1,2) show ?thesis
    by (auto simp: cleanCount_def recordFailure_def maxFailures_def banDuration_def Let_def)
qed

definition withinHour :: "int \<Rightarrow> authOp list \<Rightarrow> bool" where
  "withinHour t es \<longleftrightarrow> (\<forall>e \<in> set es. \<forall>u \<in> set (opTimes e). t \<le> u \<and> u < t + hour)"

lemma hourBudget_step:
  assumes "hourBudget t (failures s ip) f" and "authInv s" and "withinHour t [e]" and "\<not> admits sha ip e s"
  shows "hourBudget t (failures (authStep sha e s) ip) (f + rejects sha ip e s)"
  using assms(4)
proof (cases rule: failures_step)
  case kept
  with assms(1) show ?thesis by simp
next
  case (purged u)
  with assms hourBudget_purge [of t "failures s" ip f u] show ?thesis by (simp add: withinHour_def authInv_def)
next
  case (failed u)
  with assms hourBudget_failed [of t "failures s ip" f u] show ?thesis by (simp add: withinHour_def authInv_def)
qed

lemma cleanCount_step:
  assumes "cleanCount t (failures s ip) f" and "withinHour t [e]" and "\<not> admits sha ip e s"
  shows "cleanCount t (failures (authStep sha e s) ip) (f + rejects sha ip e s)"
  using assms(3)
proof (cases rule: failures_step)
  case kept
  with assms(1) show ?thesis by simp
next
  case (purged u)
  with assms cleanCount_purge [of t "failures s" ip f u] show ?thesis by (simp add: withinHour_def)
next
  case (failed u)
  with assms cleanCount_failed [of t "failures s ip" f u] show ?thesis by (simp add: withinHour_def)
qed

lemma hourBudget_run:
  "hourBudget t (failures s ip) f \<Longrightarrow> authInv s \<Longrightarrow> withinHour t es \<Longrightarrow> \<not> accepted sha ip es s \<Longrightarrow>
     hourBudget t (failures (authRun sha es s) ip) (f + rejected sha ip es s)"
proof (induction es arbitrary: s f)
  case (Cons e es)
  from Cons.prems have "hourBudget t (failures (authStep sha e s) ip) (f + rejects sha ip e s)"
    by (intro hourBudget_step) (auto simp: withinHour_def accepted_Cons simp del: accepted.simps)
  from Cons.IH [OF this] Cons.prems show ?case
    by (auto simp: withinHour_def accepted_Cons rejected_Cons authStep_inv add.assoc simp del: rejected.simps accepted.simps)
qed simp

lemma cleanCount_run:
  "cleanCount t (failures s ip) f \<Longrightarrow> withinHour t es \<Longrightarrow> \<not> accepted sha ip es s \<Longrightarrow>
     cleanCount t (failures (authRun sha es s) ip) (f + rejected sha ip es s)"
proof (induction es arbitrary: s f)
  case (Cons e es)
  from Cons.prems have "cleanCount t (failures (authStep sha e s) ip) (f + rejects sha ip e s)"
    by (intro cleanCount_step) (auto simp: withinHour_def accepted_Cons simp del: accepted.simps)
  from Cons.IH [OF this] Cons.prems show ?case
    by (auto simp: withinHour_def accepted_Cons rejected_Cons add.assoc simp del: rejected.simps accepted.simps)
qed simp

lemma hourBudget_le: "hourBudget t r f \<Longrightarrow> (\<And>rec. r = Some rec \<Longrightarrow> recordOK rec) \<Longrightarrow> f \<le> 19"
  by (auto simp: hourBudget_def recordOK_def maxFailures_def split: option.splits if_splits)

text \<open>
  C17: Brute force. In a reachable store, however the requests of an address interleave with other
  addresses, logins, logouts and the janitor, at most nineteen wrong passwords of one address are
  compared within any hour in which it did not log in. From a clean record at most ten are, and
  after the tenth every attempt until the end of that hour, the right password included, is refused
  as banned.
\<close>
theorem brute_force_bound:
  assumes "s = authRun sha es0 (newSessionStore sha password)" and "withinHour t es" and "\<not> accepted sha ip es s"
  shows "rejected sha ip es s \<le> 19 \<and>
    (failures s ip = None \<longrightarrow> rejected sha ip es s \<le> 10 \<and>
      (rejected sha ip es s = 10 \<longrightarrow> u < t + hour \<longrightarrow>
        Authenticate sha u ip candidate (authRun sha es s) = ((False, True), authRun sha es s)))"
proof (intro conjI impI)
  have inv: "authInv s" using assms(1) authRun_inv [OF authInv_new] by simp
  have "hourBudget t (failures s ip) 0"
  proof (cases "failures s ip")
    case (Some r)
    with inv have "recordOK r" by (auto simp: authInv_def)
    with Some show ?thesis by (auto simp: hourBudget_def recordOK_def split: option.splits)
  qed (simp add: hourBudget_def)
  from hourBudget_run [OF this inv assms(2,3)] authRun_inv [OF inv, of sha es] show "rejected sha ip es s \<le> 19"
    by (auto simp: authInv_def intro: hourBudget_le)
  assume "failures s ip = None"
  then have "cleanCount t (failures s ip) 0" by (simp add: cleanCount_def)
  from cleanCount_run [OF this assms(2,3)]
  have c: "cleanCount t (failures (authRun sha es s) ip) (rejected sha ip es s)" by simp
  then show "rejected sha ip es s \<le> 10" by (auto simp: cleanCount_def split: option.splits)
  assume "rejected sha ip es s = 10" and "u < t + hour"
  with c show "Authenticate sha u ip candidate (authRun sha es s) = ((False, True), authRun sha es s)"
    by (auto simp: cleanCount_def Authenticate_def currentRecord_def Let_def split: option.splits)
qed

definition attack :: "authOp list" where
  "attack = replicate 12 (OpAuthenticate 5 ''10.0.0.1'' ''guess'')"

lemma attack_run:
  "rejected (\<lambda>b. b) ''10.0.0.1'' attack (newSessionStore (\<lambda>b. b) ''secret'') = 10
   \<and> \<not> accepted (\<lambda>b. b) ''10.0.0.1'' attack (newSessionStore (\<lambda>b. b) ''secret'')"
  by code_simp

theorem brute_force_bound_witness:
  "withinHour 0 attack \<and> rejected (\<lambda>b. b) ''10.0.0.1'' attack (newSessionStore (\<lambda>b. b) ''secret'') = 10
   \<and> fst (Authenticate (\<lambda>b. b) 6 ''10.0.0.1'' ''secret'' (authRun (\<lambda>b. b) attack (newSessionStore (\<lambda>b. b) ''secret'')))
     = (False, True)"
proof -
  have w: "withinHour 0 attack" by (simp add: withinHour_def attack_def hour_def)
  have "newSessionStore (\<lambda>b. b) ''secret'' = authRun (\<lambda>b. b) [] (newSessionStore (\<lambda>b. b) ''secret'')" by simp
  from brute_force_bound [OF this w, of "''10.0.0.1''" 6 "''secret''"] show ?thesis
    using attack_run w by (simp add: newSessionStore_def hour_def)
qed

subsection \<open>Sliding sessions\<close>

fun validations :: "string \<Rightarrow> authOp list \<Rightarrow> (int \<times> int) list" where
  "validations token [] = []"
| "validations token (e # es) =
     (case e of OpValidate t1 t2 k \<Rightarrow> if k = token then [(t1, t2)] else [] | _ \<Rightarrow> []) @ validations token es"

text \<open>Every use comes within the lifetime of the one before it.\<close>

fun chained :: "int \<Rightarrow> (int \<times> int) list \<Rightarrow> bool" where
  "chained u [] \<longleftrightarrow> True"
| "chained u ((t1, t2) # r) \<longleftrightarrow> t1 \<le> u + SessionTTL \<and> chained t2 r"

fun settles :: "string \<Rightarrow> authOp \<Rightarrow> bool" where
  "settles token (OpCreate t raw) \<longleftrightarrow> EncodeToString raw = token"
| "settles token (OpRevoke k) \<longleftrightarrow> k = token"
| "settles token e \<longleftrightarrow> False"

definition liveSession :: "authOp list \<Rightarrow> string \<Rightarrow> int \<Rightarrow> bool" where
  "liveSession es token t \<longleftrightarrow>
     (\<exists>pre u raw post. es = pre @ OpCreate u raw # post \<and> EncodeToString raw = token
        \<and> \<not> list_ex (settles token) post \<and> chained u (validations token post @ [(t, t)]))"

lemma validations_append: "validations token (es @ es') = validations token es @ validations token es'"
  by (induction es) auto

lemma chained_use: "chained u (vs @ [(t1, t2), (t, t)]) \<longleftrightarrow> chained u (vs @ [(t1, t1)]) \<and> t \<le> t2 + SessionTTL"
  by (induction vs arbitrary: u) auto

lemma snoc_split:
  "(\<exists>pre post. es @ [e] = pre @ c # post \<and> P pre post) \<longleftrightarrow>
     (c = e \<and> P es []) \<or> (\<exists>pre post. es = pre @ c # post \<and> P pre (post @ [e]))"
proof -
  have "es @ [e] = pre @ c # post \<longleftrightarrow> (post = [] \<and> c = e \<and> pre = es) \<or> (\<exists>q. post = q @ [e] \<and> es = pre @ c # q)" for pre post
    by (cases post rule: rev_cases) auto
  then show ?thesis by metis
qed

lemma liveSession_snoc:
  "liveSession (es @ [e]) token t \<longleftrightarrow>
     (\<exists>u raw. e = OpCreate u raw \<and> EncodeToString raw = token \<and> t \<le> u + SessionTTL)
     \<or> (\<not> settles token e \<and>
        (case e of OpValidate t1 t2 k \<Rightarrow> if k = token then liveSession es token t1 \<and> t \<le> t2 + SessionTTL else liveSession es token t
         | _ \<Rightarrow> liveSession es token t))"
proof -
  have "liveSession (es @ [e]) token t \<longleftrightarrow>
     (\<exists>u raw. e = OpCreate u raw \<and> EncodeToString raw = token \<and> t \<le> u + SessionTTL)
     \<or> (\<exists>u raw pre post. es = pre @ OpCreate u raw # post \<and> EncodeToString raw = token
          \<and> \<not> list_ex (settles token) (post @ [e]) \<and> chained u (validations token (post @ [e]) @ [(t, t)]))"
  proof -
    have "liveSession (es @ [e]) token t \<longleftrightarrow> (\<exists>u raw. \<exists>pre post. es @ [e] = pre @ OpCreate u raw # post \<and> (EncodeToString raw = token
        \<and> \<not> list_ex (settles token) post \<and> chained u (validations token post @ [(t, t)])))"
      unfolding liveSession_def by blast
    then show ?thesis unfolding snoc_split ex_disj_distrib by (simp only: validations.simps append_Nil list.pred_inject list_ex_iff list.set chained.simps) blast
  qed
  moreover have "(\<exists>u raw pre post. es = pre @ OpCreate u raw # post \<and> EncodeToString raw = token
          \<and> \<not> list_ex (settles token) (post @ [e]) \<and> chained u (validations token (post @ [e]) @ [(t, t)]))
     \<longleftrightarrow> \<not> settles token e \<and>
        (case e of OpValidate t1 t2 k \<Rightarrow> if k = token then liveSession es token t1 \<and> t \<le> t2 + SessionTTL else liveSession es token t
         | _ \<Rightarrow> liveSession es token t)"
    unfolding liveSession_def by (cases e; simp add: validations_append chained_use; blast)
  ultimately show ?thesis by simp
qed

lemma authStep_session:
  assumes "token \<noteq> []"
  shows "sessions (authStep sha e s) token =
    (case e of
       OpCreate u raw \<Rightarrow> if EncodeToString raw = token then Some (u + SessionTTL) else sessions s token
     | OpValidate t1 t2 k \<Rightarrow>
         if k = token then (case sessions s token of None \<Rightarrow> None | Some x \<Rightarrow> if x < t1 then None else Some (t2 + SessionTTL))
         else sessions s token
     | OpRevoke k \<Rightarrow> if k = token then None else sessions s token
     | OpAuthenticate t ip candidate \<Rightarrow> sessions s token
     | OpPurge p \<Rightarrow> (case sessions s token of None \<Rightarrow> None | Some x \<Rightarrow> if x < p then None else Some x))"
  using assms
  by (cases e) (auto simp: Create_def Validate_def Revoke_def Authenticate_def purgeExpired_def keepIf_def keepSession_def Let_def
      split: option.splits)

lemma session_live:
  assumes "token \<noteq> []"
  shows "monotone es \<Longrightarrow> (\<And>u. u \<in> set (concat (map opTimes es)) \<Longrightarrow> u \<le> t) \<Longrightarrow>
    (case sessions (authRun sha es (newSessionStore sha password)) token of None \<Rightarrow> False | Some x \<Rightarrow> t \<le> x)
      \<longleftrightarrow> liveSession es token t"
proof (induction es arbitrary: t rule: rev_induct)
  case Nil
  show ?case by (simp add: newSessionStore_def liveSession_def)
next
  case (snoc e es)
  have mono: "monotone es" and last: "\<And>u v. u \<in> set (concat (map opTimes es)) \<Longrightarrow> v \<in> set (opTimes e) \<Longrightarrow> u \<le> v"
    using snoc.prems(1) by (auto simp: monotone_def sorted_append)
  have le: "\<And>u. u \<in> set (concat (map opTimes es)) \<Longrightarrow> u \<le> t" "\<And>v. v \<in> set (opTimes e) \<Longrightarrow> v \<le> t"
    using snoc.prems(2) by auto
  note IH = snoc.IH [OF mono]
  let ?s = "authRun sha es (newSessionStore sha password)"
  show ?case
  proof (cases e)
    case (OpValidate t1 t2 k)
    show ?thesis
    proof (cases "k = token")
      case True
      have "(case sessions ?s token of None \<Rightarrow> False | Some x \<Rightarrow> t1 \<le> x) \<longleftrightarrow> liveSession es token t1"
        using IH [of t1] last OpValidate by simp
      with OpValidate True show ?thesis
        by (auto simp: liveSession_snoc authStep_session [OF assms] simp del: authStep.simps split: option.splits if_splits)
    next
      case False
      with OpValidate IH [of t] le(1) show ?thesis by (auto simp: liveSession_snoc authStep_session [OF assms] simp del: authStep.simps)
    qed
  next
    case (OpPurge p)
    then have "p \<le> t" using le(2) by simp
    with OpPurge IH [of t] le(1) show ?thesis
      by (auto simp: liveSession_snoc authStep_session [OF assms] simp del: authStep.simps split: option.splits if_splits)
  qed (use IH [of t] le(1) in \<open>auto simp: liveSession_snoc authStep_session [OF assms] simp del: authStep.simps\<close>)
qed

text \<open>
  C39: A token is accepted at an instant exactly when it was issued, not revoked since, and every use
  since, this one included, came within 24 hours of the use (or the issue) before it. In particular
  the janitor never changes an answer, and neither do login attempts and other tokens.
\<close>
theorem session_valid_iff:
  assumes "monotone (es @ [OpValidate t t' token])"
  shows "fst (Validate t t' token (authRun sha es (newSessionStore sha password))) \<longleftrightarrow> token \<noteq> [] \<and> liveSession es token t"
proof (cases "token = []")
  case False
  have "monotone es" and "\<And>u. u \<in> set (concat (map opTimes es)) \<Longrightarrow> u \<le> t"
    using assms by (auto simp: monotone_def sorted_append)
  from session_live [OF False this, of sha password] False show ?thesis
    by (auto simp: Validate_def split: option.splits)
qed (simp add: Validate_def)

theorem session_valid_iff_witness:
  "fst (Validate 20 21 ''2a'' (authRun (\<lambda>b. b) [OpCreate 3 [42], OpPurge 9] (newSessionStore (\<lambda>b. b) ''pw'')))"
proof -
  have "monotone ([OpCreate 3 [42], OpPurge 9] @ [OpValidate 20 21 ''2a''])" by (simp add: monotone_def)
  moreover have "liveSession [OpCreate 3 [42], OpPurge 9] ''2a'' 20"
    unfolding liveSession_def
    by (rule exI [of _ "[]"], rule exI [of _ 3], rule exI [of _ "[42]"], rule exI [of _ "[OpPurge 9]"])
      (simp add: hexDigit_def SessionTTL_def hour_def)
  ultimately show ?thesis using session_valid_iff [of "[OpCreate 3 [42], OpPurge 9]" 20 21 "''2a''" "\<lambda>b. b" "''pw''"] by simp
qed

subsection \<open>Login, requests and logout\<close>

lemma hexDigit_inject: "m < 16 \<Longrightarrow> n < 16 \<Longrightarrow> hexDigit m = hexDigit n \<longleftrightarrow> m = n"
proof -
  have "distinct ''0123456789abcdef''" by simp
  then show "m < 16 \<Longrightarrow> n < 16 \<Longrightarrow> ?thesis" unfolding hexDigit_def by (subst nth_eq_iff_index_eq) simp_all
qed

text \<open>Different random bytes give different tokens.\<close>

lemma EncodeToString_inject:
  "list_all (\<lambda>b. b < 256) xs \<Longrightarrow> list_all (\<lambda>b. b < 256) ys \<Longrightarrow> EncodeToString xs = EncodeToString ys \<longleftrightarrow> xs = ys"
proof (induction xs arbitrary: ys)
  case Nil
  then show ?case by (cases ys) auto
next
  case (Cons x xs)
  show ?case
  proof (cases ys)
    case (Cons y ys')
    with Cons.prems have b: "x < 256" "y < 256" "list_all (\<lambda>b. b < 256) xs" "list_all (\<lambda>b. b < 256) ys'" by auto
    have "x div 16 = y div 16 \<and> x mod 16 = y mod 16 \<longleftrightarrow> x = y" by (metis div_mult_mod_eq)
    with b Cons Cons.IH [OF b(3,4)] show ?thesis by (auto simp: hexDigit_inject)
  qed simp
qed



end
