(* ===== verification/Subscription.thy ===== *)
theory Subscription
  imports Prelude
begin

text \<open>
  One subscription of \<open>internal/session/broadcast.go\<close>: its bounded queue, the replay gate that holds
  live frames back while history is delivered, and the pump goroutine that delivers. The pump is a
  program counter with one function per atomic step, so that publishers and history producers can run
  between any two of them; what the transport answers to a delivery and which entries the session's
  decider names for a message are arguments of the step. Queue capacities are positive.

  \<open>wire\<close>, \<open>owed\<close>, \<open>accepted\<close>, \<open>outcome\<close>, \<open>failedLive\<close> and \<open>qLive\<close> are history variables: what the transport
  received (with a mark for live frames), the committed frames published to this subscription, what
  was retained for delivery, what became of it, and which queued frames are live ones. No operation
  reads them.
\<close>

subsection \<open>Frames\<close>

datatype fvalue = FStr string | FOther string

datatype fdata = FMap "(string \<times> fvalue) list" | FOpaque string

record frame =
  frameKind :: string
  frameSession :: string
  frameBinding :: string
  frameRevision :: int
  frameResumed :: bool
  frameCommand :: string
  frameRequest :: string
  framePhase :: string
  frameApproval :: string
  frameData :: fdata

definition FrameMessage :: string where "FrameMessage = ''message''"
definition FrameEntryAppended :: string where "FrameEntryAppended = ''entry.appended''"
definition FrameMessageDelta :: string where "FrameMessageDelta = ''message.delta''"
definition FrameTool :: string where "FrameTool = ''tool''"
definition FrameNotice :: string where "FrameNotice = ''notice''"

definition stringAt :: "string \<Rightarrow> fdata \<Rightarrow> string" where
  "stringAt key d = (case d of FMap m \<Rightarrow> (case map_of m key of Some (FStr s) \<Rightarrow> s | _ \<Rightarrow> []) | FOpaque _ \<Rightarrow> [])"

definition droppableLiveFrame :: "frame \<Rightarrow> bool" where
  "droppableLiveFrame f \<longleftrightarrow>
     (if frameKind f = FrameMessageDelta then True
      else if frameKind f = FrameTool
      then (case frameData f of FOpaque _ \<Rightarrow> False | FMap _ \<Rightarrow> stringAt ''phase'' (frameData f) = ''update'')
      else False)"

abbreviation committed :: "frame \<Rightarrow> bool" where
  "committed f \<equiv> \<not> droppableLiveFrame f"

definition filterEntryAppended :: "frame list \<Rightarrow> bool \<Rightarrow> frame list" where
  "filterEntryAppended frames onDemand =
     (if onDemand then frames else filter (\<lambda>f. frameKind f \<noteq> FrameEntryAppended) frames)"

definition overflowNoticeIdentity :: "frame \<Rightarrow> string" where
  "overflowNoticeIdentity f = (if frameKind f \<noteq> FrameNotice then [] else stringAt ''nid'' (frameData f))"

subsection \<open>State\<close>

record queuedFrame =
  qFrame :: frame
  replayedIDs :: "string list"
  qTerminal :: bool
  barrier :: bool
  qLive :: bool

record pendingLiveFrame =
  pFrame :: frame
  msgSeq :: nat

datatype pumpPC = Idle | Holding queuedFrame | Finishing | Draining pendingLiveFrame | Exited

datatype stopReason = ErrSubscriberDetached | ErrSubscriberOverflow | ErrSubscriberDelivery

record subscription =
  onDemandHistory :: bool
  overflowKey :: "string option"
  capQ :: nat
  queue :: "queuedFrame list"
  stopped :: "stopReason option"
  pc :: pumpPC
  failedFrame :: "frame option"
  initialRemaining :: nat
  replaying :: bool
  pendingLive :: "pendingLiveFrame list"
  replayDrain :: "pendingLiveFrame list"
  replayedEntries :: "string list"
  replayDedup :: bool
  msgSeqSource :: bool
  wire :: "(bool \<times> frame) list"
  owed :: "frame list"
  accepted :: "frame list"
  outcome :: "(frame \<times> bool) list"
  failedLive :: "frame list"

subsection \<open>The gate\<close>

definition beginReplay :: "subscription \<Rightarrow> subscription" where
  "beginReplay x = (if \<not> replaying x then x\<lparr>replaying := True, replayedEntries := []\<rparr> else x)"

definition endReplay :: "subscription \<Rightarrow> subscription" where
  "endReplay x = (if replaying x then x\<lparr>replaying := False, pendingLive := []\<rparr> else x)"

definition setReplayDedup :: "subscription \<Rightarrow> subscription" where
  "setReplayDedup x = x\<lparr>replayDedup := True\<rparr>"

definition setMessageSeqSource :: "subscription \<Rightarrow> subscription" where
  "setMessageSeqSource x = x\<lparr>msgSeqSource := True\<rparr>"

definition noteReplayedEntryIDs :: "string list \<Rightarrow> subscription \<Rightarrow> subscription" where
  "noteReplayedEntryIDs ids x =
     (if \<not> replaying x then x
      else x\<lparr>replayedEntries := foldl (\<lambda>es i. if i \<noteq> [] then List.insert i es else es) (replayedEntries x) ids\<rparr>)"

text \<open>\<open>ids\<close> is the decider's answer for the frame, \<open>None\<close> when it matched nothing.\<close>

definition frameReplaysDeliveredEntry :: "string list option \<Rightarrow> pendingLiveFrame \<Rightarrow> subscription \<Rightarrow> bool \<times> subscription" where
  "frameReplaysDeliveredEntry ids p x =
     (if msgSeq p = 0 then (False, x)
      else (case ids of
              None \<Rightarrow> (False, x)
            | Some es \<Rightarrow>
                (case find (\<lambda>i. i \<in> set (replayedEntries x)) es of
                   Some i \<Rightarrow> (True, x\<lparr>replayedEntries := removeAll i (replayedEntries x)\<rparr>)
                 | None \<Rightarrow> (False, x))))"

subsection \<open>Producers\<close>

text \<open>\<open>seq\<close> is what the message-sequence source reads.\<close>

definition enqueue :: "nat \<Rightarrow> frame \<Rightarrow> subscription \<Rightarrow> bool \<times> subscription" where
  "enqueue seq f x =
     (if stopped x \<noteq> None then (False, x)
      else if frameKind f = FrameEntryAppended \<and> \<not> onDemandHistory x then (True, x)
      else if replaying x
      then (if capQ x \<le> length (pendingLive x) then (droppableLiveFrame f, x)
            else (True, x\<lparr>pendingLive := pendingLive x @
                            [\<lparr>pFrame = f, msgSeq = (if frameKind f = FrameMessage \<and> msgSeqSource x then seq else 0)\<rparr>],
                          owed := owed x @ filter committed [f], accepted := accepted x @ [f]\<rparr>))
      else if length (queue x) < capQ x
      then (True, x\<lparr>queue := queue x @ [\<lparr>qFrame = f, replayedIDs = [], qTerminal = False, barrier = False, qLive = True\<rparr>],
                    owed := owed x @ filter committed [f], accepted := accepted x @ [f]\<rparr>)
      else (droppableLiveFrame f, x))"

text \<open>
  Admission of a history frame: \<open>None\<close> when the producer waits. Where the queue has room and the
  subscription has stopped, Go picks either case; \<open>coin\<close> is its choice. A terminal item has the channel
  that the pump closes once the gate is open again.
\<close>

datatype admission = Admitted | CtxErr string | StoppedBy stopReason

definition admit :: "bool \<Rightarrow> string option \<Rightarrow> queuedFrame \<Rightarrow> subscription \<Rightarrow> (admission \<times> subscription) option" where
  "admit coin done item x =
     (if length (queue x) < capQ x \<and> (coin \<or> (stopped x = None \<and> done = None))
      then Some (Admitted, x\<lparr>queue := queue x @ [item]\<rparr>)
      else (case (stopped x, done) of
              (Some r, _) \<Rightarrow> Some (StoppedBy r, x)
            | (None, Some e) \<Rightarrow> Some (CtxErr e, x)
            | (None, None) \<Rightarrow> None))"

definition enqueueReplay ::
  "bool \<Rightarrow> string option \<Rightarrow> string option \<Rightarrow> frame \<Rightarrow> bool \<Rightarrow> string list \<Rightarrow> subscription \<Rightarrow> (admission \<times> subscription) option" where
  "enqueueReplay coin ctxErr done f terminal ids x =
     (case ctxErr of
        Some e \<Rightarrow> Some (CtxErr e, x)
      | None \<Rightarrow> admit coin done \<lparr>qFrame = f, replayedIDs = ids, qTerminal = terminal, barrier = False, qLive = False\<rparr> x)"

definition barrierItem :: "frame \<Rightarrow> queuedFrame" where
  "barrierItem zero = \<lparr>qFrame = zero, replayedIDs = [], qTerminal = True, barrier = True, qLive = False\<rparr>"

definition enqueueReplayBarrier :: "frame \<Rightarrow> bool \<Rightarrow> string option \<Rightarrow> subscription \<Rightarrow> (admission \<times> subscription) option" where
  "enqueueReplayBarrier zero coin done x = admit coin done (barrierItem zero) x"

definition enqueueReplayTerminalNow :: "bool \<Rightarrow> frame \<Rightarrow> subscription \<Rightarrow> bool \<times> subscription" where
  "enqueueReplayTerminalNow coin f x =
     (if length (queue x) < capQ x \<and> (coin \<or> stopped x = None)
      then (True, x\<lparr>queue := queue x @ [\<lparr>qFrame = f, replayedIDs = [], qTerminal = True, barrier = False, qLive = False\<rparr>]\<rparr>)
      else (False, x))"

subsection \<open>The pump\<close>

text \<open>The deferred function of \<open>run\<close>.\<close>

definition pumpExit :: "subscription \<Rightarrow> subscription" where
  "pumpExit x = (endReplay x)\<lparr>pc := Exited\<rparr>"

definition afterItem :: "queuedFrame \<Rightarrow> pumpPC" where
  "afterItem item = (if qTerminal item then Finishing else Idle)"

text \<open>
  \<open>PumpStop\<close> and \<open>PumpTake\<close> are the two selects, \<open>PumpDeliver ok\<close> is the delivery of the taken item and
  its bookkeeping, \<open>PumpFinish\<close> the locked head of the loop of \<open>finishReplay\<close>, \<open>PumpDrain ids ok\<close> its body.
\<close>

datatype pumpEvent = PumpStop | PumpTake | PumpDeliver bool | PumpFinish | PumpDrain "string list option" bool

definition deliverItem :: "bool \<Rightarrow> queuedFrame \<Rightarrow> subscription \<Rightarrow> subscription" where
  "deliverItem ok item x =
     (if barrier item then x\<lparr>pc := afterItem item\<rparr>
      else if \<not> ok
      then pumpExit (x\<lparr>failedFrame := Some (qFrame item), failedLive := (if qLive item then [qFrame item] else [])\<rparr>)
      else (let x1 = x\<lparr>wire := wire x @ [(qLive item, qFrame item)],
                       outcome := outcome x @ (if qLive item then [(qFrame item, True)] else [])\<rparr>;
                x2 = (if replayedIDs item \<noteq> [] then noteReplayedEntryIDs (replayedIDs item) x1 else x1)
            in x2\<lparr>initialRemaining := initialRemaining x2 - 1, pc := afterItem item\<rparr>))"

definition finishReplay :: "subscription \<Rightarrow> subscription" where
  "finishReplay x =
     (if \<not> replaying x then x\<lparr>pc := Idle\<rparr>
      else (case replayDrain x of
              p # _ \<Rightarrow> x\<lparr>pc := Draining p\<rparr>
            | [] \<Rightarrow> (case pendingLive x of
                        [] \<Rightarrow> x\<lparr>replaying := False, pc := Idle\<rparr>
                      | p # _ \<Rightarrow> x\<lparr>replayDrain := pendingLive x, pendingLive := [], pc := Draining p\<rparr>)))"

definition drainOne :: "string list option \<Rightarrow> bool \<Rightarrow> pendingLiveFrame \<Rightarrow> subscription \<Rightarrow> subscription" where
  "drainOne ids ok p x =
     (let (dup, x1) = (if frameKind (pFrame p) = FrameMessage \<and> replayDedup x
                       then frameReplaysDeliveredEntry ids p x else (False, x))
      in if dup then x1\<lparr>replayDrain := tl (replayDrain x1), pc := Finishing, outcome := outcome x1 @ [(pFrame p, False)]\<rparr>
         else if ok then x1\<lparr>wire := wire x1 @ [(True, pFrame p)], replayDrain := tl (replayDrain x1), pc := Finishing,
                            outcome := outcome x1 @ [(pFrame p, True)]\<rparr>
         else pumpExit x1)"

fun pumpStep :: "pumpEvent \<Rightarrow> subscription \<Rightarrow> subscription option" where
  "pumpStep PumpStop x = (if pc x = Idle \<and> stopped x \<noteq> None then Some (pumpExit x) else None)"
| "pumpStep PumpTake x =
     (case (pc x, queue x) of
        (Idle, item # rest) \<Rightarrow> if stopped x = None then Some (x\<lparr>pc := Holding item, queue := rest\<rparr>) else None
      | _ \<Rightarrow> None)"
| "pumpStep (PumpDeliver ok) x = (case pc x of Holding item \<Rightarrow> Some (deliverItem ok item x) | _ \<Rightarrow> None)"
| "pumpStep PumpFinish x = (if pc x = Finishing then Some (finishReplay x) else None)"
| "pumpStep (PumpDrain ids ok) x = (case pc x of Draining p \<Rightarrow> Some (drainOne ids ok p x) | _ \<Rightarrow> None)"

definition stopWithReason :: "stopReason \<Rightarrow> subscription \<Rightarrow> subscription" where
  "stopWithReason reason x = (if stopped x \<noteq> None then x else endReplay (x\<lparr>stopped := Some reason\<rparr>))"

subsection \<open>What is left for a recovery transfer\<close>

definition drainReplayTail :: "subscription \<Rightarrow> frame list \<times> subscription" where
  "drainReplayTail x = (map pFrame (replayDrain x), x\<lparr>replayDrain := []\<rparr>)"

text \<open>What is moved to the transfer is no longer retained here.\<close>

definition beginOverflowTransfer :: "frame \<Rightarrow> subscription \<Rightarrow> frame list option \<times> subscription" where
  "beginOverflowTransfer f x =
     (if \<not> replaying x then (None, x)
      else (Some (map pFrame (pendingLive x) @ [f]),
            x\<lparr>pendingLive := [], accepted := take (length (accepted x) - length (pendingLive x)) (accepted x)\<rparr>))"

definition drainOverflowQueue :: "subscription \<Rightarrow> frame list \<times> subscription" where
  "drainOverflowQueue x =
     ((case failedFrame x of Some f \<Rightarrow> [f] | None \<Rightarrow> []) @ map qFrame (filter (\<lambda>i. \<not> barrier i) (queue x)), x\<lparr>queue := []\<rparr>)"

definition newSubscription :: "bool \<Rightarrow> string option \<Rightarrow> nat \<Rightarrow> nat \<Rightarrow> subscription" where
  "newSubscription onDemand key sz n =
     \<lparr>onDemandHistory = onDemand, overflowKey = key, capQ = sz, queue = [], stopped = None, pc = Idle, failedFrame = None,
      initialRemaining = n, replaying = False, pendingLive = [], replayDrain = [], replayedEntries = [], replayDedup = False,
      msgSeqSource = False, wire = [], owed = [], accepted = [], outcome = [], failedLive = []\<rparr>"

section \<open>Correctness\<close>

subsection \<open>Nothing retained is lost or overtaken\<close>

definition lives :: "queuedFrame list \<Rightarrow> frame list" where
  "lives q = map qFrame (filter qLive q)"

definition inflight :: "pumpPC \<Rightarrow> frame list" where
  "inflight p = (case p of Holding i \<Rightarrow> if qLive i then [qFrame i] else [] | _ \<Rightarrow> [])"

definition noTerminal :: "queuedFrame list \<Rightarrow> bool" where
  "noTerminal q \<longleftrightarrow> list_all (\<lambda>i. \<not> qTerminal i) q"

text \<open>Nothing is queued behind a terminal item.\<close>

fun tailOK :: "queuedFrame list \<Rightarrow> bool" where
  "tailOK [] \<longleftrightarrow> True"
| "tailOK (i # r) \<longleftrightarrow> (if qTerminal i then r = [] else tailOK r)"

definition itemOK :: "queuedFrame \<Rightarrow> bool" where
  "itemOK i \<longleftrightarrow> (qLive i \<longrightarrow> \<not> qTerminal i \<and> \<not> barrier i) \<and> (barrier i \<longrightarrow> qTerminal i)"

text \<open>The pump's program counter against the gate.\<close>

fun pcOK :: "pumpPC \<Rightarrow> bool \<Rightarrow> pendingLiveFrame list \<Rightarrow> queuedFrame list \<Rightarrow> bool" where
  "pcOK Idle rep drain q \<longleftrightarrow> drain = []"
| "pcOK (Holding i) rep drain q \<longleftrightarrow>
     itemOK i \<and> drain = [] \<and> (qTerminal i \<longrightarrow> rep \<and> q = []) \<and> (\<not> rep \<longrightarrow> qLive i)"
| "pcOK Finishing rep drain q \<longleftrightarrow> rep \<and> q = []"
| "pcOK (Draining p) rep drain q \<longleftrightarrow> rep \<and> q = [] \<and> drain \<noteq> [] \<and> hd drain = p"
| "pcOK Exited rep drain q \<longleftrightarrow> False"

definition subInv :: "subscription \<Rightarrow> bool" where
  "subInv x \<longleftrightarrow>
     map fst (outcome x) @ inflight (pc x) @ map pFrame (replayDrain x) @ lives (queue x) @ map pFrame (pendingLive x) = accepted x
     \<and> pcOK (pc x) (replaying x) (replayDrain x) (queue x) \<and> tailOK (queue x) \<and> list_all itemOK (queue x) \<and> stopped x = None \<and> failedFrame x = None \<and> failedLive x = []
     \<and> (\<not> replaying x \<longrightarrow> pendingLive x = [] \<and> replayDrain x = [] \<and> list_all qLive (queue x))
     \<and> filter committed (accepted x) = owed x \<and> map snd (filter fst (wire x)) = map fst (filter snd (outcome x))
     \<and> list_all (\<lambda>(f, sent). sent \<or> frameKind f = FrameMessage) (outcome x)"

lemma lives_simps [simp]:
  "lives [] = []" "lives (i # q) = (if qLive i then [qFrame i] else []) @ lives q" "lives (q @ q') = lives q @ lives q'"
  by (simp_all add: lives_def)

lemma noTerminal_simps [simp]:
  "noTerminal []" "noTerminal (i # q) \<longleftrightarrow> \<not> qTerminal i \<and> noTerminal q" "noTerminal (q @ q') \<longleftrightarrow> noTerminal q \<and> noTerminal q'"
  by (simp_all add: noTerminal_def)

lemma tailOK_noTerminal: "noTerminal q \<Longrightarrow> tailOK q"
  by (induction q) auto

lemma tailOK_append: "noTerminal q \<Longrightarrow> tailOK (q @ r) \<longleftrightarrow> tailOK r"
  by (induction q) auto

lemma live_noTerminal: "list_all qLive q \<Longrightarrow> list_all itemOK q \<Longrightarrow> noTerminal q"
  by (induction q) (auto simp: itemOK_def)

lemma inflight_simps [simp]:
  "inflight Idle = []" "inflight Finishing = []" "inflight (Draining p) = []" "inflight Exited = []"
  "inflight (Holding i) = (if qLive i then [qFrame i] else [])"
  by (simp_all add: inflight_def)

lemma subInv_new: "subInv (newSubscription onDemand key sz n)"
  by (simp add: subInv_def newSubscription_def)

lemma subInv_enqueue:
  assumes "subInv x"
  shows "subInv (snd (enqueue seq f x))"
proof (cases "replaying x")
  case True
  from assms have "map fst (outcome x) @ inflight (pc x) @ map pFrame (replayDrain x) @ lives (queue x) @ map pFrame (pendingLive x) @ [f]
      = accepted x @ [f]" by (auto simp: subInv_def)
  with True assms show ?thesis by (simp add: enqueue_def subInv_def)
next
  case False
  with assms have q: "noTerminal (queue x)" using live_noTerminal by (simp add: subInv_def)
  let ?i = "\<lparr>qFrame = f, replayedIDs = [], qTerminal = False, barrier = False, qLive = True\<rparr>"
  from False assms have "map fst (outcome x) @ inflight (pc x) @ lives (queue x) @ [f] = accepted x @ [f]" by (auto simp: subInv_def)
  moreover have "pcOK (pc x) False [] (queue x @ [?i])" using False assms by (cases "pc x") (auto simp: subInv_def)
  ultimately show ?thesis using False assms q by (auto simp: enqueue_def subInv_def tailOK_append itemOK_def)
qed

lemma subInv_beginReplay:
  assumes "subInv x"
  shows "subInv (beginReplay x)"
proof (cases "replaying x")
  case False
  with assms have "pcOK (pc x) True [] (queue x)" by (cases "pc x") (auto simp: subInv_def itemOK_def)
  with False assms show ?thesis by (auto simp: beginReplay_def subInv_def)
qed (use assms in \<open>simp add: beginReplay_def\<close>)

text \<open>
  A history producer works between the opening of the gate and its own terminal item: while the gate is
  closed no terminal of this replay is under way.
\<close>

definition windowOpen :: "subscription \<Rightarrow> bool" where
  "windowOpen x \<longleftrightarrow> replaying x \<and> noTerminal (queue x)
     \<and> (case pc x of Idle \<Rightarrow> True | Holding i \<Rightarrow> \<not> qTerminal i | _ \<Rightarrow> False)"

lemma subInv_history:
  assumes "subInv x" and "windowOpen x" and "itemOK item" and "\<not> qLive item"
  shows "subInv (x\<lparr>queue := queue x @ [item]\<rparr>)"
proof -
  have "pcOK (pc x) True (replayDrain x) (queue x @ [item])" using assms(1,2) by (cases "pc x") (auto simp: subInv_def windowOpen_def)
  with assms show ?thesis by (simp add: subInv_def windowOpen_def tailOK_append)
qed

lemma subInv_bookkeeping [simp]:
  "subInv (x\<lparr>replayedEntries := es\<rparr>) = subInv x" "subInv (x\<lparr>initialRemaining := n\<rparr>) = subInv x"
  "subInv (x\<lparr>replayDedup := b\<rparr>) = subInv x" "subInv (x\<lparr>msgSeqSource := b\<rparr>) = subInv x"
  by (simp_all add: subInv_def)

lemma drainOne_cases:
  obtains (dropped) es where "frameKind (pFrame p) = FrameMessage" and "drainOne ids ok p x = x\<lparr>replayedEntries := es, replayDrain := tl (replayDrain x), pc := Finishing,
      outcome := outcome x @ [(pFrame p, False)]\<rparr>"
  | (sent) es where "ok" and "drainOne ids ok p x = x\<lparr>replayedEntries := es, wire := wire x @ [(True, pFrame p)], replayDrain := tl (replayDrain x),
      pc := Finishing, outcome := outcome x @ [(pFrame p, True)]\<rparr>"
  | (failed) es where "drainOne ids ok p x = pumpExit (x\<lparr>replayedEntries := es\<rparr>)"
proof -
  obtain dup x1 where d: "(if frameKind (pFrame p) = FrameMessage \<and> replayDedup x
      then frameReplaysDeliveredEntry ids p x else (False, x)) = (dup, x1)" by (metis surj_pair)
  have same: "x\<lparr>replayedEntries := replayedEntries x\<rparr> = x" by simp
  have "\<exists>es. x1 = x\<lparr>replayedEntries := es\<rparr>"
  proof (cases "x1 = x")
    case True
    with same show ?thesis by metis
  next
    case False
    with d show ?thesis by (auto simp: frameReplaysDeliveredEntry_def split: if_splits option.splits)
  qed
  then obtain es where x1: "x1 = x\<lparr>replayedEntries := es\<rparr>" by blast
  show thesis
  proof (cases dup)
    case True
    with d x1 show thesis by (intro dropped [of es]) (auto simp: drainOne_def split: if_splits)
  next
    case False
    show thesis
    proof (cases ok)
      case True
      with False d x1 show thesis by (intro sent [of es]) (simp_all add: drainOne_def)
    next
      case nok: False
      with False d x1 show thesis by (intro failed [of es]) (simp add: drainOne_def)
    qed
  qed
qed

lemma deliverItem_cases:
  obtains (passed) "barrier item" and "deliverItem ok item x = x\<lparr>pc := afterItem item\<rparr>"
  | (sent) es n where "\<not> barrier item" and "ok" and "deliverItem ok item x = x\<lparr>wire := wire x @ [(qLive item, qFrame item)],
      outcome := outcome x @ (if qLive item then [(qFrame item, True)] else []), replayedEntries := es, initialRemaining := n,
      pc := afterItem item\<rparr>"
  | (failed) "\<not> barrier item" and "\<not> ok" and "deliverItem ok item x = pumpExit (x\<lparr>failedFrame := Some (qFrame item),
      failedLive := (if qLive item then [qFrame item] else [])\<rparr>)"
proof (cases "barrier item")
  case True
  with passed show thesis by (simp add: deliverItem_def)
next
  case nb: False
  show thesis
  proof (cases ok)
    case True
    let ?x1 = "x\<lparr>wire := wire x @ [(qLive item, qFrame item)], outcome := outcome x @ (if qLive item then [(qFrame item, True)] else [])\<rparr>"
    have "\<exists>es. (if replayedIDs item \<noteq> [] then noteReplayedEntryIDs (replayedIDs item) ?x1 else ?x1) = ?x1\<lparr>replayedEntries := es\<rparr>"
      unfolding noteReplayedEntryIDs_def by (auto intro: exI [of _ "replayedEntries x"])
    then obtain es where "(if replayedIDs item \<noteq> [] then noteReplayedEntryIDs (replayedIDs item) ?x1 else ?x1) = ?x1\<lparr>replayedEntries := es\<rparr>" ..
    with nb True show thesis by (intro sent [where es = es and n = "initialRemaining x - 1"]) (simp_all add: deliverItem_def Let_def)
  next
    case False
    with nb failed show thesis by (simp add: deliverItem_def)
  qed
qed

lemma pc_pumpExit [simp]: "pc (pumpExit x) = Exited"
  by (simp add: pumpExit_def)

lemma subInv_pump:
  assumes "subInv x" and "pumpStep ev x = Some x'"
  shows "subInv x' \<or> pc x' = Exited"
proof (cases ev)
  case PumpTake
  with assms(2) obtain item rest where t: "pc x = Idle" "queue x = item # rest" "x' = x\<lparr>pc := Holding item, queue := rest\<rparr>"
    by (auto split: pumpPC.splits list.splits if_splits)
  with assms(1) have "pcOK (Holding item) (replaying x) [] rest" "tailOK rest"
    by (auto simp: subInv_def itemOK_def intro: tailOK_noTerminal split: if_splits)
  with t assms(1) show ?thesis by (auto simp: subInv_def)
next
  case (PumpDeliver ok)
  with assms obtain item where item: "pc x = Holding item" "x' = deliverItem ok item x" by (auto split: pumpPC.splits)
  show ?thesis
    using assms(1) item
    by (cases rule: deliverItem_cases [of item ok x]) (auto simp: subInv_def afterItem_def itemOK_def)
next
  case PumpFinish
  with assms have "pc x = Finishing" "x' = finishReplay x" by (auto split: if_splits)
  with assms(1) show ?thesis by (auto simp: finishReplay_def subInv_def split: list.splits)
next
  case (PumpDrain ids ok)
  with assms obtain p where p: "pc x = Draining p" "x' = drainOne ids ok p x" by (auto split: pumpPC.splits)
  from assms(1) p(1) obtain r where r: "replayDrain x = p # r" by (cases "replayDrain x") (auto simp: subInv_def)
  show ?thesis using assms(1) p r by (cases rule: drainOne_cases [where ids = ids and ok = ok and p = p and x = x]) (auto simp: subInv_def)
qed (use assms in \<open>auto split: if_splits\<close>)

subsection \<open>After an overflow\<close>

text \<open>
  A subscription that overflowed is no longer published to; its pump runs on until it is stopped.
  \<open>gated\<close> says that it overflowed while the gate was closed.
\<close>

definition retInv :: "bool \<Rightarrow> subscription \<Rightarrow> bool" where
  "retInv gated x \<longleftrightarrow>
     map fst (outcome x) @ inflight (pc x) @ failedLive x @ map pFrame (replayDrain x) @ lives (queue x) = accepted x
     \<and> pendingLive x = []
     \<and> (replayDrain x \<noteq> [] \<longrightarrow> lives (queue x) = [] \<and> inflight (pc x) = [] \<and> failedLive x = [])
     \<and> (case pc x of Draining p \<Rightarrow> replayDrain x \<noteq> [] \<and> hd (replayDrain x) = p | _ \<Rightarrow> True)
     \<and> (failedFrame x \<noteq> None \<longrightarrow> pc x = Exited) \<and> (failedLive x \<noteq> [] \<longrightarrow> pc x = Exited) \<and> list_all itemOK (queue x)
     \<and> (case pc x of Holding i \<Rightarrow> itemOK i | _ \<Rightarrow> True)
     \<and> (\<not> gated \<longrightarrow> \<not> replaying x \<and> replayDrain x = [] \<and> list_all qLive (queue x)
          \<and> (case pc x of Holding i \<Rightarrow> qLive i | Draining _ \<Rightarrow> False | Finishing \<Rightarrow> False | _ \<Rightarrow> True)
          \<and> failedLive x = (case failedFrame x of Some f \<Rightarrow> [f] | None \<Rightarrow> []))"

lemma retInv_overflow:
  assumes "subInv x" and "beginOverflowTransfer f x = (rf, x')"
  shows "retInv (rf \<noteq> None) x'
    \<and> filter committed (accepted x') @ filter committed (case rf of Some fs \<Rightarrow> fs | None \<Rightarrow> [f]) = owed x @ filter committed [f]"
proof (cases "replaying x")
  case False
  with assms show ?thesis
    by (cases "pc x") (auto simp: beginOverflowTransfer_def retInv_def subInv_def)
next
  case True
  have acc: "accepted x = (map fst (outcome x) @ inflight (pc x) @ map pFrame (replayDrain x) @ lives (queue x)) @ map pFrame (pendingLive x)"
    using assms(1) by (simp add: subInv_def)
  have "take (length (accepted x) - length (pendingLive x)) (accepted x)
      = map fst (outcome x) @ inflight (pc x) @ map pFrame (replayDrain x) @ lives (queue x)"
    by (subst (1 2) acc) simp
  with True assms have x': "x' = x\<lparr>pendingLive := [],
      accepted := map fst (outcome x) @ inflight (pc x) @ map pFrame (replayDrain x) @ lives (queue x)\<rparr>"
      "rf = Some (map pFrame (pendingLive x) @ [f])"
    by (simp_all add: beginOverflowTransfer_def)
  have "filter committed (accepted x) = owed x" using assms(1) by (simp add: subInv_def)
  with acc have "owed x = filter committed (accepted x') @ filter committed (map pFrame (pendingLive x))" by (simp add: x')
  moreover have "retInv True x'" using assms(1) True by (cases "pc x") (auto simp: x' retInv_def subInv_def)
  ultimately show ?thesis by (simp add: x')
qed

lemma retInv_stop: "retInv g x \<Longrightarrow> retInv g (stopWithReason r x)"
  by (cases "pc x") (auto simp: retInv_def stopWithReason_def endReplay_def)

lemma retInv_history:
  "retInv g x \<Longrightarrow> windowOpen x \<Longrightarrow> itemOK item \<Longrightarrow> \<not> qLive item \<Longrightarrow> retInv g (x\<lparr>queue := queue x @ [item]\<rparr>)"
  by (cases "pc x") (auto simp: retInv_def windowOpen_def)

lemma retInv_exit: "retInv g x \<Longrightarrow> inflight (pc x) = [] \<Longrightarrow> retInv g (pumpExit x)"
  by (auto simp: retInv_def pumpExit_def endReplay_def)

lemma retInv_pump:
  assumes "retInv g x" and "pumpStep ev x = Some x'"
  shows "retInv g x'"
proof (cases ev)
  case PumpStop
  with assms show ?thesis by (auto split: if_splits intro: retInv_exit)
next
  case PumpTake
  with assms(2) obtain item rest where t: "pc x = Idle" "queue x = item # rest" "x' = x\<lparr>pc := Holding item, queue := rest\<rparr>"
    by (auto split: pumpPC.splits list.splits if_splits)
  with assms(1) show ?thesis by (auto simp: retInv_def)
next
  case (PumpDeliver ok)
  with assms obtain item where item: "pc x = Holding item" "x' = deliverItem ok item x" by (auto split: pumpPC.splits)
  show ?thesis
    using assms(1) item
    by (cases rule: deliverItem_cases [of item ok x])
      (auto simp: retInv_def afterItem_def itemOK_def pumpExit_def endReplay_def)
next
  case PumpFinish
  with assms have "pc x = Finishing" "x' = finishReplay x" by (auto split: if_splits)
  with assms(1) show ?thesis by (auto simp: finishReplay_def retInv_def split: list.splits)
next
  case (PumpDrain ids ok)
  with assms obtain p where p: "pc x = Draining p" "x' = drainOne ids ok p x" by (auto split: pumpPC.splits)
  from assms(1) p(1) obtain r where r: "replayDrain x = p # r" by (cases "replayDrain x") (auto simp: retInv_def)
  show ?thesis using assms(1) p r
    by (cases rule: drainOne_cases [where ids = ids and ok = ok and p = p and x = x]) (auto simp: retInv_def pumpExit_def endReplay_def)
qed

end
