(* ===== verification/Broadcast.thy ===== *)
theory Broadcast
  imports Subscription
begin

text \<open>
  The broadcaster of \<open>internal/session/broadcast.go\<close>: attaching, publishing, and the recovery transfer
  that carries the frames of a subscriber that overflowed to its next attachment. The orders in which
  Go ranges over the subscriptions and the transfers are arguments; a transfer is shared by pointer,
  so transfers live on a heap of instances. \<open>retiring\<close> holds the subscriptions whose asynchronous
  cleanup (\<open>finishOverflowAsync\<close>) has not ended: it stops the pump, waits until the pump has exited and
  finalizes the transfer.

  \<open>tOwed\<close>, \<open>tOutcome\<close>, \<open>tLost\<close>, \<open>tSound\<close> and \<open>tGated\<close> are history variables of a transfer: the committed frames
  published since the subscriber attached, those the pump settled before it exited, those that were
  still queued and are in neither list, that the pump was running when the subscriber overflowed, and
  that its replay gate was closed then.
\<close>

subsection \<open>Transfers\<close>

definition SubscriberOverflowTransferCapacity :: nat where
  "SubscriberOverflowTransferCapacity = 256"

record overflowTransfer =
  tFrames :: "frame list"
  tSuffix :: "frame list"
  reserved :: nat
  finalized :: bool
  overflowed :: bool
  consumed :: bool
  tOnDemand :: bool
  tOwed :: "frame list"
  tOutcome :: "frame list"
  tLost :: "frame list"
  tSound :: bool
  tGated :: bool

definition appendTransfer :: "frame \<Rightarrow> overflowTransfer \<Rightarrow> overflowTransfer" where
  "appendTransfer f t =
     (if frameKind f = FrameEntryAppended \<and> \<not> tOnDemand t then t
      else (let sz = (if \<not> finalized t then reserved t + length (tSuffix t) else length (tFrames t));
                t1 = t\<lparr>tOwed := tOwed t @ [f]\<rparr>
            in if overflowed t \<or> SubscriberOverflowTransferCapacity \<le> sz then t1\<lparr>overflowed := True\<rparr>
               else if finalized t then t1\<lparr>tFrames := tFrames t @ [f]\<rparr>
               else t1\<lparr>tSuffix := tSuffix t @ [f]\<rparr>))"

definition finalizeTransfer :: "frame list \<Rightarrow> overflowTransfer \<Rightarrow> overflowTransfer" where
  "finalizeTransfer prefix t =
     (if finalized t then t
      else if SubscriberOverflowTransferCapacity < length prefix + length (tSuffix t)
      then t\<lparr>overflowed := True, tSuffix := [], reserved := 0, finalized := True\<rparr>
      else t\<lparr>tFrames := prefix @ tSuffix t, tSuffix := [], reserved := 0, finalized := True\<rparr>)"

subsection \<open>The broadcaster\<close>

record retiredSubscription =
  rSub :: subscription
  rTransfer :: "(string \<times> nat) option"
  rReplay :: "frame list option"

record broadcaster =
  nextID :: nat
  subs :: "nat \<rightharpoonup> subscription"
  transfers :: "string \<rightharpoonup> nat"
  instances :: "nat \<rightharpoonup> overflowTransfer"
  nextInstance :: nat
  retiring :: "nat \<rightharpoonup> retiredSubscription"

definition newBroadcaster :: broadcaster where
  "newBroadcaster = \<lparr>nextID = 0, subs = Map.empty, transfers = Map.empty, instances = Map.empty, nextInstance = 0,
     retiring = Map.empty\<rparr>"

fun appendAll :: "frame \<Rightarrow> string list \<Rightarrow> broadcaster \<Rightarrow> broadcaster" where
  "appendAll f [] b = b"
| "appendAll f (k # ks) b =
     appendAll f ks
       (case transfers b k of
          None \<Rightarrow> b
        | Some i \<Rightarrow> b\<lparr>instances := (instances b)(i := map_option (appendTransfer f) (instances b i))\<rparr>)"

definition newTransfer :: "frame \<Rightarrow> frame list option \<Rightarrow> subscription \<Rightarrow> overflowTransfer" where
  "newTransfer f replayFrames x =
     (let t = \<lparr>tFrames = [], tSuffix = [], reserved = 0, finalized = False, overflowed = False, consumed = False,
               tOnDemand = onDemandHistory x, tOwed = owed x, tOutcome = [], tLost = [], tSound = (pc x \<noteq> Exited),
               tGated = (replayFrames \<noteq> None)\<rparr>
      in case replayFrames of
           Some fs \<Rightarrow> t\<lparr>reserved := length fs, tOwed := owed x @ filter committed [f]\<rparr>
         | None \<Rightarrow> appendTransfer f (t\<lparr>reserved := capQ x + 1\<rparr>))"

definition retireOverflow :: "frame \<Rightarrow> nat \<Rightarrow> subscription \<Rightarrow> broadcaster \<Rightarrow> broadcaster" where
  "retireOverflow f i x b =
     (let r = beginOverflowTransfer f x; b1 = b\<lparr>subs := (subs b)(i := None)\<rparr> in
      case overflowKey x of
        Some k \<Rightarrow>
          (if k \<noteq> []
           then b1\<lparr>transfers := (transfers b)(k \<mapsto> nextInstance b),
                   instances := (instances b)(nextInstance b \<mapsto> newTransfer f (fst r) x),
                   nextInstance := Suc (nextInstance b),
                   retiring := (retiring b)(i \<mapsto> \<lparr>rSub = snd r, rTransfer = Some (k, nextInstance b), rReplay = fst r\<rparr>)\<rparr>
           else b1\<lparr>retiring := (retiring b)(i \<mapsto> \<lparr>rSub = snd r, rTransfer = None, rReplay = fst r\<rparr>)\<rparr>)
      | None \<Rightarrow> b1\<lparr>retiring := (retiring b)(i \<mapsto> \<lparr>rSub = snd r, rTransfer = None, rReplay = fst r\<rparr>)\<rparr>)"

definition publishOne :: "(nat \<Rightarrow> nat) \<Rightarrow> frame \<Rightarrow> nat \<Rightarrow> broadcaster \<Rightarrow> broadcaster" where
  "publishOne seq f i b =
     (case subs b i of
        None \<Rightarrow> b
      | Some x \<Rightarrow>
          (let r = enqueue (seq i) f x in
           if fst r then b\<lparr>subs := (subs b)(i \<mapsto> snd r)\<rparr> else retireOverflow f i (snd r) b))"

definition publishExcept ::
  "(nat \<Rightarrow> nat) \<Rightarrow> frame \<Rightarrow> nat option \<Rightarrow> string list \<Rightarrow> nat list \<Rightarrow> broadcaster \<Rightarrow> broadcaster" where
  "publishExcept seq f except keys ids b =
     fold (publishOne seq f) (filter (\<lambda>i. Some i \<noteq> except) ids)
       (if droppableLiveFrame f then b else appendAll f keys b)"

definition publish :: "(nat \<Rightarrow> nat) \<Rightarrow> frame \<Rightarrow> string list \<Rightarrow> nat list \<Rightarrow> broadcaster \<Rightarrow> broadcaster" where
  "publish seq f keys ids b = publishExcept seq f None keys ids b"

definition mergeOverflowTransfer :: "frame list \<Rightarrow> frame list \<Rightarrow> frame list" where
  "mergeOverflowTransfer initial transfer =
     (let notices = filter (\<lambda>n. n \<noteq> []) (map overflowNoticeIdentity transfer) in
      filter (\<lambda>f. overflowNoticeIdentity f \<notin> set notices) initial @ transfer)"

text \<open>
  The capabilities of a subscriber: whether it negotiated on-demand history, the key of its transfers,
  and the transfer it owns, on this broadcaster or on another one (with its \<open>consumed\<close> flag).
\<close>

datatype ownedTransfer = OwnedHere string nat | OwnedElsewhere bool

record subscriber =
  sOnDemand :: bool
  sKey :: "string option"
  sOwned :: "ownedTransfer option"

definition ownedRejected :: "subscriber \<Rightarrow> broadcaster \<Rightarrow> bool" where
  "ownedRejected sub b =
     (case sOwned sub of
        None \<Rightarrow> False
      | Some (OwnedElsewhere cons) \<Rightarrow> \<not> cons
      | Some (OwnedHere k i) \<Rightarrow>
          (case instances b i of None \<Rightarrow> False | Some t \<Rightarrow> \<not> consumed t \<and> transfers b k \<noteq> Some i))"

record attachPlan =
  planRejected :: bool
  planBroadcaster :: broadcaster
  planInitial :: "frame list"
  planSize :: nat

definition consumeTransfer :: "subscriber \<Rightarrow> nat \<Rightarrow> frame list \<Rightarrow> broadcaster \<Rightarrow> attachPlan" where
  "consumeTransfer sub sz initial b =
     (let plain = \<lparr>planRejected = ownedRejected sub b, planBroadcaster = b, planInitial = initial, planSize = sz\<rparr> in
      if ownedRejected sub b then plain
      else (case sKey sub of
              None \<Rightarrow> plain
            | Some k \<Rightarrow>
                (case transfers b k of
                   None \<Rightarrow> plain
                 | Some i \<Rightarrow>
                     (case instances b i of
                        None \<Rightarrow> plain
                      | Some t \<Rightarrow>
                          (if overflowed t \<or> \<not> finalized t then plain\<lparr>planRejected := True\<rparr>
                           else (let merged = mergeOverflowTransfer initial (filterEntryAppended (tFrames t) (sOnDemand sub)) in
                                 \<lparr>planRejected = False,
                                  planBroadcaster = b\<lparr>transfers := (transfers b)(k := None),
                                                      instances := (instances b)(i \<mapsto> t\<lparr>consumed := True\<rparr>)\<rparr>,
                                  planInitial = merged,
                                  planSize = (if sz < length merged then length merged else sz)\<rparr>))))))"

fun enqueueAll :: "nat \<Rightarrow> frame list \<Rightarrow> subscription \<Rightarrow> bool \<times> subscription" where
  "enqueueAll seq [] x = (True, x)"
| "enqueueAll seq (f # fs) x =
     (let r = enqueue seq f x in if \<not> fst r then r else enqueueAll seq fs (snd r))"

definition attachWithError ::
  "nat \<Rightarrow> subscriber \<Rightarrow> nat \<Rightarrow> frame list \<Rightarrow> broadcaster \<Rightarrow> (nat \<times> stopReason option) \<times> broadcaster" where
  "attachWithError seq sub sz initial b =
     (let i = Suc (nextID b);
          plan = consumeTransfer sub sz (filterEntryAppended initial (sOnDemand sub)) (b\<lparr>nextID := i\<rparr>);
          x = newSubscription (sOnDemand sub) (sKey sub) (planSize plan) (length (planInitial plan));
          r = enqueueAll seq (planInitial plan) x
      in if planRejected plan \<or> \<not> fst r then ((i, Some ErrSubscriberOverflow), planBroadcaster plan)
         else ((i, None), (planBroadcaster plan)\<lparr>subs := (subs (planBroadcaster plan))(i \<mapsto> snd r)\<rparr>))"

text \<open>\<open>retire\<close> and \<open>finishAll\<close> forget subscriptions; their pumps are stopped and awaited outside the lock.\<close>

definition retire :: "nat \<Rightarrow> broadcaster \<Rightarrow> broadcaster" where
  "retire i b = (if i = 0 then b else b\<lparr>subs := (subs b)(i := None)\<rparr>)"

definition finishAll :: "broadcaster \<Rightarrow> broadcaster" where
  "finishAll b = b\<lparr>subs := Map.empty, transfers := Map.empty\<rparr>"

definition releaseTransfer :: "string \<Rightarrow> nat \<Rightarrow> broadcaster \<Rightarrow> broadcaster" where
  "releaseTransfer k i b = (if transfers b k = Some i then b\<lparr>transfers := (transfers b)(k := None)\<rparr> else b)"

text \<open>The two parts of the asynchronous cleanup: stop the pump; once it has exited, finalize.\<close>

definition overflowStop :: "nat \<Rightarrow> broadcaster \<Rightarrow> broadcaster" where
  "overflowStop i b =
     (case retiring b i of
        None \<Rightarrow> b
      | Some r \<Rightarrow> b\<lparr>retiring := (retiring b)(i \<mapsto> r\<lparr>rSub := stopWithReason ErrSubscriberOverflow (rSub r)\<rparr>)\<rparr>)"

definition overflowPrefix :: "retiredSubscription \<Rightarrow> frame list" where
  "overflowPrefix r =
     (case rReplay r of
        Some fs \<Rightarrow> fst (drainReplayTail (rSub r)) @ fs
      | None \<Rightarrow> fst (drainOverflowQueue (rSub r)))"

definition settleTransfer :: "retiredSubscription \<Rightarrow> overflowTransfer \<Rightarrow> overflowTransfer" where
  "settleTransfer r t =
     (if finalized t then t
      else (finalizeTransfer (overflowPrefix r) t)\<lparr>tOutcome := map fst (outcome (rSub r)),
             tLost := (if rReplay r \<noteq> None then failedLive (rSub r) @ lives (queue (rSub r)) else [])\<rparr>)"

definition finishOverflow :: "nat \<Rightarrow> broadcaster \<Rightarrow> broadcaster" where
  "finishOverflow i b =
     (case retiring b i of
        None \<Rightarrow> b
      | Some r \<Rightarrow>
          (let b1 = b\<lparr>retiring := (retiring b)(i := None)\<rparr> in
           case rTransfer r of
             None \<Rightarrow> b1
           | Some (k, n) \<Rightarrow>
               (if transfers b k = Some n
                then b1\<lparr>instances := (instances b)(n := map_option (settleTransfer r) (instances b n))\<rparr>
                else b1)))"

definition subscriberCount :: "broadcaster \<Rightarrow> nat" where
  "subscriberCount b = card (dom (subs b))"

section \<open>Histories\<close>

text \<open>What can happen to a broadcaster; pumps, history producers and cleanups run between publications.\<close>

inductive bStep :: "broadcaster \<Rightarrow> broadcaster \<Rightarrow> bool" where
  published: "distinct ids \<Longrightarrow> set ids = dom (subs b) \<Longrightarrow> distinct keys \<Longrightarrow> set keys = dom (transfers b) \<Longrightarrow>
    bStep b (publishExcept seq f except keys ids b)"
| attached: "bStep b (snd (attachWithError seq sub sz initial b))"
| gated: "subs b i = Some x \<Longrightarrow> bStep b (b\<lparr>subs := (subs b)(i \<mapsto> beginReplay (setMessageSeqSource (setReplayDedup x)))\<rparr>)"
| history: "subs b i = Some x \<Longrightarrow> windowOpen x \<Longrightarrow> itemOK item \<Longrightarrow> \<not> qLive item \<Longrightarrow> admit coin done item x = Some (Admitted, x') \<Longrightarrow>
    bStep b (b\<lparr>subs := (subs b)(i \<mapsto> x')\<rparr>)"
| pump: "subs b i = Some x \<Longrightarrow> pumpStep ev x = Some x' \<Longrightarrow> bStep b (b\<lparr>subs := (subs b)(i \<mapsto> x')\<rparr>)"
| lateHistory: "retiring b i = Some r \<Longrightarrow> windowOpen (rSub r) \<Longrightarrow> itemOK item \<Longrightarrow> \<not> qLive item \<Longrightarrow>
    admit coin done item (rSub r) = Some (Admitted, x') \<Longrightarrow> bStep b (b\<lparr>retiring := (retiring b)(i \<mapsto> r\<lparr>rSub := x'\<rparr>)\<rparr>)"
| latePump: "retiring b i = Some r \<Longrightarrow> pumpStep ev (rSub r) = Some x' \<Longrightarrow>
    bStep b (b\<lparr>retiring := (retiring b)(i \<mapsto> r\<lparr>rSub := x'\<rparr>)\<rparr>)"
| stopping: "bStep b (overflowStop i b)"
| finishing: "retiring b i = Some r \<Longrightarrow> pc (rSub r) = Exited \<Longrightarrow> bStep b (finishOverflow i b)"
| retired: "bStep b (retire i b)"
| closed: "bStep b (finishAll b)"
| released: "bStep b (releaseTransfer k i b)"

inductive bReachable :: "broadcaster \<Rightarrow> bool" where
  fresh: "bReachable newBroadcaster"
| step: "bReachable b \<Longrightarrow> bStep b b' \<Longrightarrow> bReachable b'"

section \<open>Correctness\<close>

subsection \<open>The invariant\<close>

definition transferEq :: "overflowTransfer \<Rightarrow> bool" where
  "transferEq t \<longleftrightarrow> tOwed t = filter committed (tOutcome t) @ filter committed (tLost t) @ filter committed (tFrames t)
     \<and> (\<not> tGated t \<longrightarrow> tLost t = [])"

definition pendingEq :: "retiredSubscription \<Rightarrow> overflowTransfer \<Rightarrow> bool" where
  "pendingEq r t \<longleftrightarrow> retInv (rReplay r \<noteq> None) (rSub r) \<and> tGated t = (rReplay r \<noteq> None) \<and>
     (overflowed t \<or> tOwed t = filter committed (accepted (rSub r))
        @ filter committed (case rReplay r of Some fs \<Rightarrow> fs | None \<Rightarrow> []) @ tSuffix t)"

definition transferOK :: "(nat \<rightharpoonup> retiredSubscription) \<Rightarrow> string \<Rightarrow> nat \<Rightarrow> overflowTransfer \<Rightarrow> bool" where
  "transferOK ret k n t \<longleftrightarrow>
     length (tFrames t) \<le> SubscriberOverflowTransferCapacity \<and> list_all committed (tSuffix t)
     \<and> (if finalized t then tSound t \<and> \<not> overflowed t \<longrightarrow> transferEq t
        else tFrames t = [] \<and> (\<exists>i r. ret i = Some r \<and> rTransfer r = Some (k, n) \<and> (tSound t \<longrightarrow> pendingEq r t)))"

definition retiringOK :: "broadcaster \<Rightarrow> bool" where
  "retiringOK b \<longleftrightarrow>
     (\<forall>i r. retiring b i = Some r \<longrightarrow> i \<le> nextID b \<and> (\<forall>k n. rTransfer r = Some (k, n) \<longrightarrow> n < nextInstance b))
     \<and> (\<forall>i j r q k l n. retiring b i = Some r \<and> retiring b j = Some q \<and> rTransfer r = Some (k, n) \<and> rTransfer q = Some (l, n) \<longrightarrow> i = j)"

definition transfersOK :: "broadcaster \<Rightarrow> bool" where
  "transfersOK b \<longleftrightarrow>
     (\<forall>k n. transfers b k = Some n \<longrightarrow> n < nextInstance b \<and> (\<exists>t. instances b n = Some t \<and> transferOK (retiring b) k n t))
     \<and> inj_on (transfers b) (dom (transfers b))"

definition subsOK :: "broadcaster \<Rightarrow> bool" where
  "subsOK b \<longleftrightarrow> (\<forall>i x. subs b i = Some x \<longrightarrow> (subInv x \<or> pc x = Exited) \<and> stopped x = None \<and> i \<le> nextID b \<and> retiring b i = None)"

definition bInv :: "broadcaster \<Rightarrow> bool" where
  "bInv b \<longleftrightarrow> subsOK b \<and> retiringOK b \<and> transfersOK b"

lemma bInv_new: "bInv newBroadcaster"
  by (simp add: bInv_def subsOK_def retiringOK_def transfersOK_def newBroadcaster_def)

text \<open>A transfer keeps its invariant while frames are appended.\<close>

lemma transferOK_append:
  assumes "transferOK ret k n t" and "committed f"
  shows "transferOK ret k n (appendTransfer f t)"
proof (cases "frameKind f = FrameEntryAppended \<and> \<not> tOnDemand t")
  case True
  with assms show ?thesis by (simp add: appendTransfer_def)
next
  case False
  show ?thesis
  proof (cases "finalized t")
    case True
    with False assms show ?thesis
      by (auto simp: appendTransfer_def transferOK_def transferEq_def Let_def)
  next
    case nf: False
    have "pendingEq r t \<Longrightarrow> pendingEq r (appendTransfer f t)" for r
      using False nf by (auto simp: appendTransfer_def pendingEq_def Let_def)
    moreover have "\<not> finalized (appendTransfer f t)" "tFrames (appendTransfer f t) = tFrames t" "tSound (appendTransfer f t) = tSound t"
        "list_all committed (tSuffix t) \<Longrightarrow> list_all committed (tSuffix (appendTransfer f t))"
      using nf assms(2) by (auto simp: appendTransfer_def Let_def)
    ultimately show ?thesis using assms(1) nf unfolding transferOK_def by simp blast
  qed
qed

lemma appendAll_inv:
  assumes "bInv b" and "committed f"
  shows "bInv (appendAll f ks b) \<and> subs (appendAll f ks b) = subs b"
  using assms(1)
proof (induction ks arbitrary: b)
  case (Cons k ks)
  let ?b = "case transfers b k of None \<Rightarrow> b
    | Some i \<Rightarrow> b\<lparr>instances := (instances b)(i := map_option (appendTransfer f) (instances b i))\<rparr>"
  have "bInv ?b \<and> subs ?b = subs b"
  proof (cases "transfers b k")
    case (Some n)
    with Cons.prems obtain t where t: "instances b n = Some t" "transferOK (retiring b) k n t" by (auto simp: bInv_def transfersOK_def)
    let ?b' = "b\<lparr>instances := (instances b)(n := map_option (appendTransfer f) (instances b n))\<rparr>"
    have "transfersOK ?b'"
      unfolding transfersOK_def
    proof (intro conjI allI impI)
      fix k' n' assume k': "transfers ?b' k' = Some n'"
      with Cons.prems show "n' < nextInstance ?b'" by (simp add: bInv_def transfersOK_def)
      show "\<exists>t. instances ?b' n' = Some t \<and> transferOK (retiring ?b') k' n' t"
      proof (cases "n' = n")
        case True
        with k' Some Cons.prems have "k' = k" by (auto simp: bInv_def transfersOK_def inj_on_def dom_def)
        with True t transferOK_append [OF t(2) assms(2)] show ?thesis by simp
      next
        case False
        with k' Cons.prems show ?thesis by (simp add: bInv_def transfersOK_def)
      qed
    qed (use Cons.prems in \<open>simp add: bInv_def transfersOK_def\<close>)
    with Some Cons.prems show ?thesis by (simp add: bInv_def subsOK_def retiringOK_def)
  qed (use Cons.prems in simp)
  with Cons.IH [of ?b] show ?case by simp
qed simp

lemma subInv_not_stopped: "subInv x \<Longrightarrow> stopped x = None"
  by (simp add: subInv_def)

lemma enqueue_pc: "pc (snd (enqueue seq f x)) = pc x"
  by (simp add: enqueue_def)

lemma enqueue_refused: "enqueue seq f x = (False, x') \<Longrightarrow> x' = x \<and> (stopped x = None \<longrightarrow> committed f \<and> \<not> (frameKind f = FrameEntryAppended \<and> \<not> onDemandHistory x))"
  by (auto simp: enqueue_def split: if_splits)

lemma newTransfer_ok:
  assumes "subInv x" and "beginOverflowTransfer f x = (rf, x')" and "committed f" and "\<not> (frameKind f = FrameEntryAppended \<and> \<not> onDemandHistory x)"
  shows "pendingEq \<lparr>rSub = x', rTransfer = tr, rReplay = rf\<rparr> (newTransfer f rf x)"
proof -
  note ov = retInv_overflow [OF assms(1,2)]
  show ?thesis
  proof (cases rf)
    case None
    then have "x' = x" using assms(2) by (auto simp: beginOverflowTransfer_def split: if_splits)
    with None ov assms(3,4) show ?thesis
      by (auto simp: pendingEq_def newTransfer_def appendTransfer_def Let_def)
  next
    case (Some fs)
    with ov assms(3) show ?thesis by (simp add: pendingEq_def newTransfer_def Let_def)
  qed
qed

lemma newTransfer_shape:
  "finalized (newTransfer f rf x) = False \<and> tFrames (newTransfer f rf x) = [] \<and> tSound (newTransfer f rf x) = (pc x \<noteq> Exited)
   \<and> (committed f \<longrightarrow> list_all committed (tSuffix (newTransfer f rf x)))"
  by (simp add: newTransfer_def appendTransfer_def Let_def split: option.split)

lemma transferOK_open:
  "\<not> finalized t \<Longrightarrow> tFrames t = [] \<Longrightarrow> list_all committed (tSuffix t) \<Longrightarrow> ret i = Some r \<Longrightarrow> rTransfer r = Some (k, n) \<Longrightarrow>
     (tSound t \<longrightarrow> pendingEq r t) \<Longrightarrow> transferOK ret k n t"
  unfolding transferOK_def by auto

text \<open>A transfer depends on its own cleanup only.\<close>

lemma transferOK_mono:
  assumes "transferOK ret k n t" and "\<And>i r. ret i = Some r \<Longrightarrow> rTransfer r = Some (k, n) \<Longrightarrow> ret' i = Some r"
  shows "transferOK ret' k n t"
  using assms unfolding transferOK_def by (auto split: if_splits)

lemma transfersOK_retiring:
  assumes "transfersOK b" and "\<And>k n t. transferOK (retiring b) k n t \<Longrightarrow> transferOK ret' k n t"
  shows "transfersOK (b\<lparr>retiring := ret'\<rparr>)"
  using assms unfolding transfersOK_def by simp metis

lemma transfersOK_subs [simp]: "transfersOK (b\<lparr>subs := m\<rparr>) = transfersOK b"
  and retiringOK_subs [simp]: "retiringOK (b\<lparr>subs := m\<rparr>) = retiringOK b"
  by (simp_all add: transfersOK_def retiringOK_def)

lemma retireOverflow_inv:
  assumes "bInv b" and "subs b i = Some x" and "subInv x \<and> committed f \<and> \<not> (frameKind f = FrameEntryAppended \<and> \<not> onDemandHistory x) \<or> pc x = Exited"
    and "committed f"
  shows "bInv (retireOverflow f i x b)"
proof -
  obtain rf x' where r: "beginOverflowTransfer f x = (rf, x')" by (cases "beginOverflowTransfer f x")
  have i: "i \<le> nextID b" "retiring b i = None" using assms(1,2) by (auto simp: bInv_def subsOK_def)
  have fresh: "\<And>j q k n. retiring b j = Some q \<Longrightarrow> rTransfer q = Some (k, n) \<Longrightarrow> n < nextInstance b"
    "\<And>k n. transfers b k = Some n \<Longrightarrow> n < nextInstance b"
    using assms(1) by (auto simp: bInv_def retiringOK_def transfersOK_def)
  have plain: "bInv (b\<lparr>subs := (subs b)(i := None), retiring := (retiring b)(i \<mapsto> \<lparr>rSub = x', rTransfer = None, rReplay = rf\<rparr>)\<rparr>)"
  proof -
    have "transferOK ((retiring b)(i \<mapsto> \<lparr>rSub = x', rTransfer = None, rReplay = rf\<rparr>)) k n t"
      if "transferOK (retiring b) k n t" for k n t
      by (rule transferOK_mono [OF that]) (use i(2) in auto)
    then have "transfersOK (b\<lparr>subs := (subs b)(i := None), retiring := (retiring b)(i \<mapsto> \<lparr>rSub = x', rTransfer = None, rReplay = rf\<rparr>)\<rparr>)"
      using assms(1) by (intro transfersOK_retiring) (auto simp: bInv_def)
    moreover have "retiringOK (b\<lparr>subs := (subs b)(i := None), retiring := (retiring b)(i \<mapsto> \<lparr>rSub = x', rTransfer = None, rReplay = rf\<rparr>)\<rparr>)"
      using assms(1) i by (auto simp: bInv_def retiringOK_def)
    moreover have "subsOK (b\<lparr>subs := (subs b)(i := None), retiring := (retiring b)(i \<mapsto> \<lparr>rSub = x', rTransfer = None, rReplay = rf\<rparr>)\<rparr>)"
      using assms(1) by (auto simp: bInv_def subsOK_def)
    ultimately show ?thesis by (simp add: bInv_def)
  qed
  show ?thesis
  proof (cases "\<exists>k. overflowKey x = Some k \<and> k \<noteq> []")
    case False
    then show ?thesis using plain r by (auto simp: retireOverflow_def Let_def split: option.splits)
  next
    case True
    then obtain k where k: "overflowKey x = Some k" "k \<noteq> []" by blast
    let ?n = "nextInstance b" and ?t = "newTransfer f rf x"
    let ?r = "\<lparr>rSub = x', rTransfer = Some (k, ?n), rReplay = rf\<rparr>"
    let ?b = "b\<lparr>subs := (subs b)(i := None), transfers := (transfers b)(k \<mapsto> ?n), instances := (instances b)(?n \<mapsto> ?t),
      nextInstance := Suc ?n, retiring := (retiring b)(i \<mapsto> ?r)\<rparr>"
    have eq: "retireOverflow f i x b = ?b" using k r by (simp add: retireOverflow_def Let_def)
    have "tSound ?t \<longrightarrow> pendingEq ?r ?t" using newTransfer_ok [OF _ r] assms(3) newTransfer_shape [of f rf x] by auto
    then have new: "transferOK (retiring ?b) k ?n ?t"
      using newTransfer_shape [of f rf x] assms(4) by (auto simp: transferOK_def)
    have old: "transferOK (retiring ?b) l n t" if "transferOK (retiring b) l n t" "n < ?n" for l n t
      by (rule transferOK_mono [OF that(1)]) (use i(2) in auto)
    have "transfersOK ?b"
      unfolding transfersOK_def
    proof (intro conjI allI impI)
      fix l n assume l: "transfers ?b l = Some n"
      show "n < nextInstance ?b" using l fresh(2) by (auto split: if_splits simp: less_Suc_eq)
      show "\<exists>t. instances ?b n = Some t \<and> transferOK (retiring ?b) l n t"
      proof (cases "l = k")
        case True
        with l new show ?thesis by simp
      next
        case False
        with l have "transfers b l = Some n" by simp
        moreover from this fresh(2) have "n < ?n" by blast
        moreover from \<open>transfers b l = Some n\<close> assms(1) obtain t where "instances b n = Some t" "transferOK (retiring b) l n t"
          by (auto simp: bInv_def transfersOK_def)
        ultimately show ?thesis using old by (intro exI [of _ t]) simp
      qed
    next
      show "inj_on (transfers ?b) (dom (transfers ?b))"
        using assms(1) fresh(2) by (auto simp: inj_on_def bInv_def transfersOK_def dom_def) (metis less_irrefl)+
    qed
    moreover have "retiringOK ?b" using assms(1) i(1) fresh(1) by (auto simp: bInv_def retiringOK_def less_Suc_eq)
    moreover have "subsOK ?b" using assms(1) by (auto simp: bInv_def subsOK_def)
    ultimately show ?thesis by (simp add: eq bInv_def)
  qed
qed

lemma enqueue_stopped: "stopped (snd (enqueue seq f x)) = stopped x"
  by (simp add: enqueue_def)

lemma subsOK_update:
  assumes "subsOK b" and "subs b i = Some x" and "subInv x' \<or> pc x' = Exited" and "stopped x' = None"
  shows "subsOK (b\<lparr>subs := (subs b)(i \<mapsto> x')\<rparr>)"
  using assms by (auto simp: subsOK_def)

lemma bInv_update:
  assumes "bInv b" and "subs b i = Some x" and "subInv x' \<or> pc x' = Exited" and "stopped x' = None"
  shows "bInv (b\<lparr>subs := (subs b)(i \<mapsto> x')\<rparr>)"
  using assms subsOK_update [of b i x x'] by (simp add: bInv_def)

lemma publishOne_inv:
  assumes "bInv b"
  shows "bInv (publishOne seq f i b)"
proof (cases "subs b i")
  case (Some x)
  obtain ok x' where e: "enqueue (seq i) f x = (ok, x')" by (cases "enqueue (seq i) f x")
  from assms Some have x: "subInv x \<or> pc x = Exited" "stopped x = None" by (auto simp: bInv_def subsOK_def)
  show ?thesis
  proof (cases ok)
    case True
    have "subInv x' \<or> pc x' = Exited" "stopped x' = None"
      using x subInv_enqueue [of x "seq i" f] enqueue_pc [of "seq i" f x] enqueue_stopped [of "seq i" f x] e by auto
    from bInv_update [OF assms Some this] True Some e show ?thesis by (simp add: publishOne_def Let_def)
  next
    case False
    with enqueue_refused [of "seq i" f x x'] e x
    show ?thesis using retireOverflow_inv [OF assms Some] Some by (auto simp: publishOne_def Let_def)
  qed
qed (use assms in \<open>simp add: publishOne_def\<close>)

lemma publish_inv: "bInv b \<Longrightarrow> bInv (publishExcept seq f except keys ids b)"
proof -
  assume b: "bInv b"
  have "bInv b \<Longrightarrow> bInv (fold (publishOne seq f) is b)" for "is" b
    by (induction "is" arbitrary: b) (simp_all add: publishOne_inv)
  with b appendAll_inv [OF b, of f keys] show ?thesis by (simp add: publishExcept_def)
qed

subsection \<open>Attaching\<close>

lemma enqueueAll_inv: "subInv x \<Longrightarrow> subInv (snd (enqueueAll seq fs x))"
  by (induction fs arbitrary: x) (simp_all add: Let_def subInv_enqueue)

lemma consumeTransfer_inv:
  assumes "bInv b"
  shows "bInv (planBroadcaster (consumeTransfer sub sz initial b))
    \<and> nextID (planBroadcaster (consumeTransfer sub sz initial b)) = nextID b
    \<and> subs (planBroadcaster (consumeTransfer sub sz initial b)) = subs b
    \<and> retiring (planBroadcaster (consumeTransfer sub sz initial b)) = retiring b"
proof -
  have "bInv (b\<lparr>transfers := (transfers b)(k := None), instances := (instances b)(n \<mapsto> t\<lparr>consumed := True\<rparr>)\<rparr>)"
    if k: "transfers b k = Some n" and t: "instances b n = Some t" for k n t
  proof -
    let ?b = "b\<lparr>transfers := (transfers b)(k := None), instances := (instances b)(n \<mapsto> t\<lparr>consumed := True\<rparr>)\<rparr>"
    have "l \<noteq> k \<Longrightarrow> transfers b l \<noteq> Some n" for l
      using assms k by (auto simp: bInv_def transfersOK_def inj_on_def dom_def)
    then have "transfersOK ?b" using assms by (auto simp: bInv_def transfersOK_def inj_on_def dom_def)
    then show ?thesis using assms by (simp add: bInv_def subsOK_def retiringOK_def)
  qed
  with assms show ?thesis by (auto simp: consumeTransfer_def Let_def split: option.splits)
qed

lemma attach_inv:
  assumes "bInv b"
  shows "bInv (snd (attachWithError seq sub sz initial b))"
proof -
  let ?b = "b\<lparr>nextID := Suc (nextID b)\<rparr>"
  let ?plan = "consumeTransfer sub sz (filterEntryAppended initial (sOnDemand sub)) ?b"
  let ?x = "snd (enqueueAll seq (planInitial ?plan)
    (newSubscription (sOnDemand sub) (sKey sub) (planSize ?plan) (length (planInitial ?plan))))"
  have b: "bInv ?b" using assms by (auto simp: bInv_def subsOK_def retiringOK_def transfersOK_def le_Suc_eq)
  note plan = consumeTransfer_inv [OF b, of sub sz "filterEntryAppended initial (sOnDemand sub)"]
  have x: "subInv ?x" by (rule enqueueAll_inv [OF subInv_new])
  have "retiring b (Suc (nextID b)) = None"
    using assms unfolding bInv_def retiringOK_def by (metis Suc_n_not_le_n not_None_eq)
  then have "bInv ((planBroadcaster ?plan)\<lparr>subs := (subs (planBroadcaster ?plan))(Suc (nextID b) \<mapsto> ?x)\<rparr>)"
    using plan x by (auto simp: bInv_def subsOK_def subInv_not_stopped)
  with plan show ?thesis by (simp add: attachWithError_def Let_def)
qed

subsection \<open>Pumps and cleanup\<close>

lemma pump_keeps: "pumpStep ev x = Some x' \<Longrightarrow> accepted x' = accepted x \<and> owed x' = owed x \<and> stopped x' = stopped x"
proof (cases ev)
  case (PumpDeliver ok)
  assume "pumpStep ev x = Some x'"
  with PumpDeliver obtain item where "x' = deliverItem ok item x" by (auto split: pumpPC.splits)
  then show ?thesis by (cases rule: deliverItem_cases [of item ok x]) (auto simp: pumpExit_def endReplay_def)
next
  case (PumpDrain ids ok)
  assume "pumpStep ev x = Some x'"
  with PumpDrain obtain p where "x' = drainOne ids ok p x" by (auto split: pumpPC.splits)
  then show ?thesis by (cases rule: drainOne_cases [where ids = ids and ok = ok and p = p and x = x]) (auto simp: pumpExit_def endReplay_def)
qed (auto simp: pumpExit_def endReplay_def finishReplay_def split: if_splits pumpPC.splits list.splits)

lemma pump_exited: "pc x = Exited \<Longrightarrow> pumpStep ev x = None"
  by (cases ev) simp_all

lemma retiringOK_back:
  assumes "retiringOK b" and "\<And>j q. ret j = Some q \<Longrightarrow> \<exists>q0. retiring b j = Some q0 \<and> rTransfer q0 = rTransfer q"
  shows "retiringOK (b\<lparr>retiring := ret\<rparr>)"
  unfolding retiringOK_def
proof (intro conjI allI impI; (elim conjE)?)
  fix i r assume r: "retiring (b\<lparr>retiring := ret\<rparr>) i = Some r"
  with assms(2) [of i r] obtain r0 where r0: "retiring b i = Some r0" "rTransfer r0 = rTransfer r" by auto
  with assms(1) show "i \<le> nextID (b\<lparr>retiring := ret\<rparr>)" by (auto simp: retiringOK_def)
  show "n < nextInstance (b\<lparr>retiring := ret\<rparr>)" if "rTransfer r = Some (k, n)" for k n
    using assms(1) r0 that by (auto simp: retiringOK_def)
next
  fix i j r q k l n
  assume "retiring (b\<lparr>retiring := ret\<rparr>) i = Some r" "retiring (b\<lparr>retiring := ret\<rparr>) j = Some q"
    and tr: "rTransfer r = Some (k, n)" "rTransfer q = Some (l, n)"
  with assms(2) [of i r] assms(2) [of j q] obtain r0 q0 where "retiring b i = Some r0" "rTransfer r0 = Some (k, n)"
      "retiring b j = Some q0" "rTransfer q0 = Some (l, n)" by auto
  with assms(1) show "i = j" unfolding retiringOK_def by blast
qed

text \<open>A change of a retiring subscription that keeps its invariant and what it retains.\<close>

lemma bInv_retiring:
  assumes "bInv b" and "retiring b i = Some r" and "accepted x' = accepted (rSub r)"
    and "\<And>g. retInv g (rSub r) \<Longrightarrow> retInv g x'"
  shows "bInv (b\<lparr>retiring := (retiring b)(i \<mapsto> r\<lparr>rSub := x'\<rparr>)\<rparr>)"
proof -
  let ?ret = "(retiring b)(i \<mapsto> r\<lparr>rSub := x'\<rparr>)"
  have "transferOK ?ret k n t" if t: "transferOK (retiring b) k n t" for k n t
  proof (cases "finalized t")
    case False
    with t obtain j q where q: "retiring b j = Some q" "rTransfer q = Some (k, n)" "tSound t \<longrightarrow> pendingEq q t"
      by (auto simp: transferOK_def)
    let ?q = "if j = i then r\<lparr>rSub := x'\<rparr> else q"
    have "?ret j = Some ?q" "rTransfer ?q = Some (k, n)" using q assms(2) by auto
    moreover have "tSound t \<longrightarrow> pendingEq ?q t" using q assms(2-4) by (auto simp: pendingEq_def)
    ultimately show ?thesis using t False by (intro transferOK_open) (auto simp: transferOK_def)
  qed (use t in \<open>simp add: transferOK_def\<close>)
  then have "transfersOK (b\<lparr>retiring := ?ret\<rparr>)" using assms(1) by (intro transfersOK_retiring) (auto simp: bInv_def)
  moreover have "retiringOK (b\<lparr>retiring := ?ret\<rparr>)"
    using assms(1) by (intro retiringOK_back [of b]) (use assms(2) in \<open>auto simp: bInv_def split: if_splits\<close>)
  moreover have "subs b i = None" using assms(1,2) by (cases "subs b i") (auto simp: bInv_def subsOK_def)
  then have "subsOK (b\<lparr>retiring := ?ret\<rparr>)" using assms(1) by (auto simp: bInv_def subsOK_def)
  ultimately show ?thesis by (simp add: bInv_def)
qed

lemma finalize_eq:
  assumes "pendingEq r t" and "pc (rSub r) = Exited" and "\<not> finalized t" and "list_all committed (tSuffix t)" and "tFrames t = []"
    and "t' = settleTransfer r t"
  shows "overflowed t' \<or> transferEq t'"
proof (cases "overflowed t'")
  case False
  let ?x = "rSub r"
  from False assms(3,6) have t': "tFrames t' = overflowPrefix r @ tSuffix t" "tOwed t' = tOwed t" "\<not> overflowed t" "tGated t' = tGated t"
    by (auto simp: settleTransfer_def finalizeTransfer_def split: if_splits)
  have gh: "tOutcome t' = map fst (outcome ?x)" "tLost t' = (if rReplay r \<noteq> None then failedLive ?x @ lives (queue ?x) else [])"
    using assms(3,6) by (simp_all add: settleTransfer_def)
  have suf: "filter committed (tSuffix t) = tSuffix t" using assms(4) by (simp add: list_all_iff)
  have inv: "retInv (rReplay r \<noteq> None) ?x" using assms(1) by (simp add: pendingEq_def)
  have acc: "accepted ?x = map fst (outcome ?x) @ failedLive ?x @ map pFrame (replayDrain ?x) @ lives (queue ?x)"
    using inv assms(2) by (simp add: retInv_def)
  have "filter committed (accepted ?x) @ filter committed (case rReplay r of Some fs \<Rightarrow> fs | None \<Rightarrow> [])
      = filter committed (tOutcome t') @ filter committed (tLost t') @ filter committed (overflowPrefix r)"
  proof (cases "rReplay r")
    case None
    with inv have "replayDrain ?x = []" "failedLive ?x = (case failedFrame ?x of Some f \<Rightarrow> [f] | None \<Rightarrow> [])"
        "list_all qLive (queue ?x)" "list_all itemOK (queue ?x)" by (simp_all add: retInv_def)
    moreover from this(3,4) have "filter (\<lambda>i. \<not> barrier i) (queue ?x) = queue ?x" "filter qLive (queue ?x) = queue ?x"
      by (auto simp: list_all_iff itemOK_def filter_id_conv)
    ultimately show ?thesis using None acc gh by (simp add: overflowPrefix_def drainOverflowQueue_def lives_def)
  next
    case (Some fs)
    with inv have "replayDrain ?x \<noteq> [] \<longrightarrow> failedLive ?x = [] \<and> lives (queue ?x) = []" by (simp add: retInv_def)
    with Some acc gh show ?thesis
      by (cases "replayDrain ?x = []") (simp_all add: overflowPrefix_def drainReplayTail_def)
  qed
  moreover have "\<not> tGated t' \<longrightarrow> tLost t' = []" using gh(2) t'(4) assms(1) by (simp add: pendingEq_def)
  ultimately show ?thesis using t' suf assms(1) by (simp add: transferEq_def pendingEq_def)
qed simp

lemma settle_ok:
  assumes "transferOK ret k n t" and "\<not> finalized t \<Longrightarrow> tSound t \<Longrightarrow> pendingEq r t" and "pc (rSub r) = Exited"
  shows "transferOK ret' k n (settleTransfer r t)"
proof (cases "finalized t")
  case True
  with assms(1) show ?thesis by (simp add: transferOK_def settleTransfer_def)
next
  case False
  let ?t = "settleTransfer r t"
  have t: "list_all committed (tSuffix t)" "tFrames t = []" using assms(1) False by (auto simp: transferOK_def)
  have "finalized ?t" "tSound ?t = tSound t" "length (tFrames ?t) \<le> SubscriberOverflowTransferCapacity" "list_all committed (tSuffix ?t)"
    using False t by (auto simp: settleTransfer_def finalizeTransfer_def)
  moreover have "tSound t \<Longrightarrow> overflowed ?t \<or> transferEq ?t"
    using finalize_eq [OF assms(2) assms(3) False t refl] False by simp
  ultimately show ?thesis by (auto simp: transferOK_def)
qed

lemma finish_inv:
  assumes "bInv b" and "retiring b i = Some r" and "pc (rSub r) = Exited"
  shows "bInv (finishOverflow i b)"
proof -
  let ?ret = "(retiring b)(i := None)"
  have unique: "j = i" if "retiring b j = Some q" "rTransfer q = Some (l, n)" "rTransfer r = Some (k, n)" for j q l k n
    using assms(1,2) that unfolding bInv_def retiringOK_def by blast
  have other: "transferOK ?ret l n t" if "transferOK (retiring b) l n t" "rTransfer r \<noteq> Some (l, n)" for l n t
    by (rule transferOK_mono [OF that(1)]) (use assms(2) that(2) in auto)
  have "retiringOK (b\<lparr>retiring := ?ret\<rparr>)"
    using assms(1) by (intro retiringOK_back) (auto simp: bInv_def split: if_splits)
  moreover have "subsOK (b\<lparr>retiring := ?ret\<rparr>)" using assms(1) by (auto simp: bInv_def subsOK_def)
  ultimately have rest: "retiringOK (b\<lparr>retiring := ?ret\<rparr>)" "subsOK (b\<lparr>retiring := ?ret\<rparr>)" .
  show ?thesis
  proof (cases "\<exists>k n. rTransfer r = Some (k, n) \<and> transfers b k = Some n")
    case True
    then obtain k n where kn: "rTransfer r = Some (k, n)" "transfers b k = Some n" by blast
    then obtain t where t: "instances b n = Some t" "transferOK (retiring b) k n t" using assms(1) by (auto simp: bInv_def transfersOK_def)
    let ?b = "b\<lparr>retiring := ?ret, instances := (instances b)(n \<mapsto> settleTransfer r t)\<rparr>"
    have eq: "finishOverflow i b = ?b" using assms(2) kn t(1) by (simp add: finishOverflow_def Let_def)
    have "pendingEq r t" if h: "\<not> finalized t" "tSound t"
    proof -
      from t(2) h obtain j q where "retiring b j = Some q" "rTransfer q = Some (k, n)" "pendingEq q t" by (auto simp: transferOK_def)
      with unique [of j q k n k] kn(1) assms(2) show ?thesis by simp
    qed
    note new = settle_ok [OF t(2) this assms(3), of ?ret]
    have "transfersOK ?b"
      unfolding transfersOK_def
    proof (intro conjI allI impI)
      fix l m assume l: "transfers ?b l = Some m"
      with assms(1) show "m < nextInstance ?b" by (simp add: bInv_def transfersOK_def)
      show "\<exists>t. instances ?b m = Some t \<and> transferOK (retiring ?b) l m t"
      proof (cases "m = n")
        case True
        with l kn(2) assms(1) have "l = k" by (auto simp: bInv_def transfersOK_def inj_on_def dom_def)
        with True new show ?thesis by simp
      next
        case False
        with l assms(1) obtain t0 where "instances b m = Some t0" "transferOK (retiring b) l m t0" by (auto simp: bInv_def transfersOK_def)
        with False other [of l m t0] kn(1) show ?thesis by simp
      qed
    qed (use assms(1) in \<open>simp add: bInv_def transfersOK_def\<close>)
    with rest show ?thesis unfolding eq by (simp add: bInv_def retiringOK_def subsOK_def)
  next
    case False
    then have eq: "finishOverflow i b = b\<lparr>retiring := ?ret\<rparr>"
      using assms(2) by (auto simp: finishOverflow_def Let_def split: option.splits)
    have "transfersOK (b\<lparr>retiring := ?ret\<rparr>)"
      unfolding transfersOK_def
    proof (intro conjI allI impI)
      fix l m assume l: "transfers (b\<lparr>retiring := ?ret\<rparr>) l = Some m"
      with assms(1) show "m < nextInstance (b\<lparr>retiring := ?ret\<rparr>)" by (simp add: bInv_def transfersOK_def)
      from l assms(1) obtain t where "instances b m = Some t" "transferOK (retiring b) l m t" by (auto simp: bInv_def transfersOK_def)
      moreover have "rTransfer r \<noteq> Some (l, m)" using False l by auto
      ultimately show "\<exists>t. instances (b\<lparr>retiring := ?ret\<rparr>) m = Some t \<and> transferOK (retiring (b\<lparr>retiring := ?ret\<rparr>)) l m t"
        using other by simp
    qed (use assms(1) in \<open>simp add: bInv_def transfersOK_def\<close>)
    with rest show ?thesis by (simp add: eq bInv_def)
  qed
qed

lemma reachable_inv: "bReachable b \<Longrightarrow> bInv b"
proof (induction rule: bReachable.induct)
  case fresh
  show ?case by (rule bInv_new)
next
  case (step b b')
  from step.hyps(2) step.IH show ?case
  proof (cases rule: bStep.cases)
    case (gated i x)
    have "subInv x \<or> pc x = Exited" "stopped x = None" using step.IH gated(2) by (auto simp: bInv_def subsOK_def)
    then have "subInv (beginReplay (setMessageSeqSource (setReplayDedup x))) \<or> pc (beginReplay (setMessageSeqSource (setReplayDedup x))) = Exited"
      and "stopped (beginReplay (setMessageSeqSource (setReplayDedup x))) = None"
      using subInv_beginReplay [of "setMessageSeqSource (setReplayDedup x)"]
      by (auto simp: setMessageSeqSource_def setReplayDedup_def beginReplay_def)
    then show ?thesis using bInv_update [OF step.IH gated(2)] gated(1) by blast
  next
    case (history i x item coin ctx x')
    have x: "subInv x \<or> pc x = Exited" "stopped x = None" using step.IH history(2) by (auto simp: bInv_def subsOK_def)
    have "x' = x\<lparr>queue := queue x @ [item]\<rparr>" using history(6) by (auto simp: admit_def split: if_splits option.splits prod.splits)
    then show ?thesis using bInv_update [OF step.IH history(2), of x'] x history(1,3-5) subInv_history [of x item] by auto
  next
    case (pump i x ev x')
    have x: "subInv x" "stopped x = None"
      using step.IH pump(2,3) pump_exited [of x ev] by (auto simp: bInv_def subsOK_def)
    then show ?thesis using bInv_update [OF step.IH pump(2)] pump(1) subInv_pump [OF x(1) pump(3)] pump_keeps [OF pump(3)] by simp
  next
    case (lateHistory i r item coin ctx x')
    have "x' = (rSub r)\<lparr>queue := queue (rSub r) @ [item]\<rparr>" using lateHistory(6) by (auto simp: admit_def split: if_splits option.splits prod.splits)
    then show ?thesis using bInv_retiring [OF step.IH lateHistory(2), of x'] lateHistory(1,3-5) retInv_history by auto
  next
    case (latePump i r ev x')
    then show ?thesis using bInv_retiring [OF step.IH latePump(2), of x'] pump_keeps [OF latePump(3)] retInv_pump [OF _ latePump(3)] by simp
  next
    case (stopping i)
    show ?thesis
    proof (cases "retiring b i")
      case (Some r)
      have "accepted (stopWithReason ErrSubscriberOverflow (rSub r)) = accepted (rSub r)" by (simp add: stopWithReason_def endReplay_def)
      with bInv_retiring [OF step.IH Some, of "stopWithReason ErrSubscriberOverflow (rSub r)"] retInv_stop Some stopping
      show ?thesis by (simp add: overflowStop_def)
    qed (use stopping step.IH in \<open>simp add: overflowStop_def\<close>)
  next
    case (retired i)
    then show ?thesis using step.IH by (auto simp: retire_def bInv_def subsOK_def)
  next
    case closed
    then show ?thesis using step.IH by (auto simp: finishAll_def bInv_def subsOK_def retiringOK_def transfersOK_def)
  next
    case (released k i)
    then show ?thesis using step.IH
      by (auto simp: releaseTransfer_def bInv_def subsOK_def retiringOK_def transfersOK_def inj_on_def dom_def)
  qed (simp_all add: publish_inv attach_inv finish_inv)
qed

subsection \<open>Properties\<close>

lemma enqueueAll_fresh:
  assumes "stopped x = None" and "\<not> replaying x" and "length (queue x) + length fs \<le> capQ x"
    and "list_all (\<lambda>f. frameKind f \<noteq> FrameEntryAppended \<or> onDemandHistory x) fs"
  shows "fst (enqueueAll seq fs x) \<and> map qFrame (queue (snd (enqueueAll seq fs x))) = map qFrame (queue x) @ fs"
  using assms
proof (induction fs arbitrary: x)
  case (Cons f fs)
  let ?x = "x\<lparr>queue := queue x @ [\<lparr>qFrame = f, replayedIDs = [], qTerminal = False, barrier = False, qLive = True\<rparr>],
    owed := owed x @ filter committed [f], accepted := accepted x @ [f]\<rparr>"
  have e: "enqueue seq f x = (True, ?x)" using Cons.prems by (auto simp: enqueue_def)
  show ?case using Cons.IH [of ?x] Cons.prems by (simp add: e)
qed simp

lemma filterEntryAppended_kinds: "list_all (\<lambda>f. frameKind f \<noteq> FrameEntryAppended \<or> onDemand) (filterEntryAppended fs onDemand)"
  by (auto simp: filterEntryAppended_def list_all_iff)

lemma mergeOverflowTransfer_kinds:
  "list_all P initial \<Longrightarrow> list_all P transfer \<Longrightarrow> list_all P (mergeOverflowTransfer initial transfer)"
  by (auto simp: mergeOverflowTransfer_def Let_def list_all_iff)

lemma attach_consumes:
  assumes "transfers b k = Some n" and "instances b n = Some t" and "finalized t" and "\<not> overflowed t"
    and "sKey sub = Some k" and "sOwned sub = Some (OwnedHere k n)"
  shows "fst (attachWithError seq sub sz initial b) = (Suc (nextID b), None)
    \<and> transfers (snd (attachWithError seq sub sz initial b)) k = None
    \<and> (\<exists>x. subs (snd (attachWithError seq sub sz initial b)) (Suc (nextID b)) = Some x
         \<and> map qFrame (queue x) = mergeOverflowTransfer (filterEntryAppended initial (sOnDemand sub))
                                   (filterEntryAppended (tFrames t) (sOnDemand sub)))"
proof -
  let ?m = "mergeOverflowTransfer (filterEntryAppended initial (sOnDemand sub)) (filterEntryAppended (tFrames t) (sOnDemand sub))"
  let ?sz = "if sz < length ?m then length ?m else sz"
  let ?x = "newSubscription (sOnDemand sub) (sKey sub) ?sz (length ?m)"
  have plan: "consumeTransfer sub sz (filterEntryAppended initial (sOnDemand sub)) (b\<lparr>nextID := Suc (nextID b)\<rparr>) =
    \<lparr>planRejected = False, planBroadcaster = b\<lparr>nextID := Suc (nextID b), transfers := (transfers b)(k := None),
       instances := (instances b)(n \<mapsto> t\<lparr>consumed := True\<rparr>)\<rparr>, planInitial = ?m, planSize = ?sz\<rparr>"
    using assms by (simp add: consumeTransfer_def ownedRejected_def Let_def)
  have "fst (enqueueAll seq ?m ?x) \<and> map qFrame (queue (snd (enqueueAll seq ?m ?x))) = map qFrame (queue ?x) @ ?m"
    using mergeOverflowTransfer_kinds [OF filterEntryAppended_kinds filterEntryAppended_kinds]
    by (intro enqueueAll_fresh) (simp_all add: newSubscription_def)
  with plan show ?thesis by (simp add: attachWithError_def Let_def newSubscription_def)
qed


definition noticeFrame :: "string \<Rightarrow> frame" where
  "noticeFrame n = \<lparr>frameKind = FrameNotice, frameSession = ''s'', frameBinding = [], frameRevision = 0, frameResumed = False,
     frameCommand = [], frameRequest = [], framePhase = [], frameApproval = [], frameData = FMap [(''nid'', FStr n)]\<rparr>"

definition keyedSubscriber :: subscriber where
  "keyedSubscriber = \<lparr>sOnDemand = False, sKey = Some ''k'', sOwned = None\<rparr>"

text \<open>Schedules, for concrete runs: the steps of a pump as functions of the state.\<close>

definition closeGate :: "nat \<Rightarrow> broadcaster \<Rightarrow> broadcaster" where
  "closeGate i b =
     (case subs b i of
        None \<Rightarrow> b
      | Some x \<Rightarrow> b\<lparr>subs := (subs b)(i \<mapsto> beginReplay (setMessageSeqSource (setReplayDedup x)))\<rparr>)"

definition runPump :: "pumpEvent \<Rightarrow> nat \<Rightarrow> broadcaster \<Rightarrow> broadcaster" where
  "runPump ev i b =
     (case subs b i of
        None \<Rightarrow> b
      | Some x \<Rightarrow> (case pumpStep ev x of None \<Rightarrow> b | Some x' \<Rightarrow> b\<lparr>subs := (subs b)(i \<mapsto> x')\<rparr>))"

definition runRetiring :: "pumpEvent \<Rightarrow> nat \<Rightarrow> broadcaster \<Rightarrow> broadcaster" where
  "runRetiring ev i b =
     (case retiring b i of
        None \<Rightarrow> b
      | Some r \<Rightarrow> (case pumpStep ev (rSub r) of
                     None \<Rightarrow> b
                   | Some x' \<Rightarrow> b\<lparr>retiring := (retiring b)(i \<mapsto> r\<lparr>rSub := x'\<rparr>)\<rparr>))"

lemma reachable_publish:
  assumes "bReachable b" and "dom (subs b) = set ids" and "distinct ids" and "dom (transfers b) = set keys" and "distinct keys"
  shows "bReachable (publish seq f keys ids b)"
  unfolding publish_def by (rule bReachable.step [OF assms(1) published]) (use assms in simp_all)

lemma reachable_attach: "bReachable b \<Longrightarrow> bReachable (snd (attachWithError seq sub sz initial b))"
  by (rule bReachable.step [OF _ attached])

lemma reachable_closeGate: "bReachable b \<Longrightarrow> bReachable (closeGate i b)"
  unfolding closeGate_def by (auto split: option.split intro: bReachable.step [OF _ gated])

lemma reachable_runPump: "bReachable b \<Longrightarrow> bReachable (runPump ev i b)"
  unfolding runPump_def by (auto split: option.split intro: bReachable.step [OF _ pump])

lemma reachable_runRetiring: "bReachable b \<Longrightarrow> bReachable (runRetiring ev i b)"
  unfolding runRetiring_def by (auto split: option.split intro: bReachable.step [OF _ latePump])

lemma reachable_overflowStop: "bReachable b \<Longrightarrow> bReachable (overflowStop i b)"
  by (rule bReachable.step [OF _ stopping])

lemma reachable_finishOverflow:
  "bReachable b \<Longrightarrow> retiring b i = Some r \<Longrightarrow> pc (rSub r) = Exited \<Longrightarrow> bReachable (finishOverflow i b)"
  by (rule bReachable.step [OF _ finishing])

text \<open>The cleanup of one retired subscription whose pump is idle.\<close>

definition cleanUp :: "nat \<Rightarrow> broadcaster \<Rightarrow> broadcaster" where
  "cleanUp i b = finishOverflow i (runRetiring PumpStop i (overflowStop i b))"

definition sharedRun :: broadcaster where
  "sharedRun = publish (\<lambda>_. 0) (noticeFrame ''a'') [] [1] (snd (attachWithError 0 keyedSubscriber 1 [] newBroadcaster))"

lemma noticeFrame_simps [simp]:
  "frameKind (noticeFrame n) = ''notice''" "droppableLiveFrame (noticeFrame n) = False"
  by (simp_all add: noticeFrame_def FrameNotice_def droppableLiveFrame_def FrameMessageDelta_def FrameTool_def)

lemmas broadcast_eval =
  publish_def publishExcept_def publishOne_def attachWithError_def consumeTransfer_def ownedRejected_def
  newBroadcaster_def newSubscription_def keyedSubscriber_def filterEntryAppended_def enqueue_def FrameEntryAppended_def FrameMessage_def
  mergeOverflowTransfer_def Let_def

lemma sharedRun_eval:
  "sharedRun = newBroadcaster\<lparr>nextID := 1,
     subs := [1 \<mapsto> (newSubscription False (Some ''k'') 1 0)\<lparr>queue := [\<lparr>qFrame = noticeFrame ''a'', replayedIDs = [], qTerminal = False,
       barrier = False, qLive = True\<rparr>], owed := [noticeFrame ''a''], accepted := [noticeFrame ''a'']\<rparr>]\<rparr>"
  by (simp add: sharedRun_def broadcast_eval)

lemma sharedRun_reachable: "bReachable sharedRun"
  unfolding sharedRun_def
  by (rule reachable_publish [OF reachable_attach [OF bReachable.fresh]]) (simp_all add: broadcast_eval)



definition overflowRun :: broadcaster where
  "overflowRun = cleanUp 1 (publish (\<lambda>_. 0) (noticeFrame ''b'') [] [1] sharedRun)"

lemmas overflow_eval =
  sharedRun_eval retireOverflow_def beginOverflowTransfer_def newTransfer_def appendTransfer_def overflowStop_def
  stopWithReason_def endReplay_def runRetiring_def pumpExit_def cleanUp_def finishOverflow_def settleTransfer_def
  finalizeTransfer_def overflowPrefix_def drainOverflowQueue_def drainReplayTail_def SubscriberOverflowTransferCapacity_def
  closeGate_def beginReplay_def setMessageSeqSource_def setReplayDedup_def

lemma cleanUp_reachable:
  assumes "bReachable b" and "retiring b i \<noteq> None" and "pc (rSub (the (retiring b i))) = Idle"
  shows "bReachable (cleanUp i b)"
proof -
  from assms(2) obtain r where r: "retiring b i = Some r" by blast
  let ?x = "stopWithReason ErrSubscriberOverflow (rSub r)"
  have x: "stopped ?x \<noteq> None" "pc ?x = Idle" using assms(3) r by (auto simp: stopWithReason_def endReplay_def)
  have reach: "bReachable (runRetiring PumpStop i (overflowStop i b))" by (intro reachable_runRetiring reachable_overflowStop assms(1))
  have "retiring (runRetiring PumpStop i (overflowStop i b)) i = Some (r\<lparr>rSub := pumpExit ?x\<rparr>)"
    using r x by (simp add: runRetiring_def overflowStop_def)
  from reachable_finishOverflow [OF reach this] show ?thesis by (simp add: cleanUp_def)
qed


text \<open>
  When a subscriber overflows while its replay gate is closed, the live frames that were queued
  before the gate closed and that the pump had not taken are in no recovery transfer: there is a run in
  which a committed frame was accepted, was never delivered, and the transfer is finalized and has not
  overflowed but does not hold it, so that the next attachment is accepted without it.
\<close>

theorem gated_overflow_drops_queued:
  "\<exists>b t. bReachable b \<and> transfers b ''k'' = Some 0 \<and> instances b 0 = Some t \<and> finalized t \<and> \<not> overflowed t \<and> tSound t
     \<and> tOwed t = [noticeFrame ''a'', noticeFrame ''b'', noticeFrame ''c''] \<and> tOutcome t = []
     \<and> tFrames t = [noticeFrame ''b'', noticeFrame ''c'']
     \<and> fst (attachWithError 0 keyedSubscriber 1 [] b) = (2, None)"
proof -
  let ?b1 = "publish (\<lambda>_. 0) (noticeFrame ''b'') [] [1] (closeGate 1 sharedRun)"
  let ?b2 = "publish (\<lambda>_. 0) (noticeFrame ''c'') [] [1] ?b1"
  have r1: "bReachable ?b1"
    by (rule reachable_publish [OF reachable_closeGate [OF sharedRun_reachable]]) (simp_all add: overflow_eval broadcast_eval)
  have r2: "bReachable ?b2" by (rule reachable_publish [OF r1]) (simp_all add: overflow_eval broadcast_eval)
  have r: "bReachable (cleanUp 1 ?b2)"
    by (rule cleanUp_reachable [OF r2]) (simp_all add: overflow_eval broadcast_eval)
  let ?t = "\<lparr>tFrames = [noticeFrame ''b'', noticeFrame ''c''], tSuffix = [], reserved = 0, finalized = True, overflowed = False, consumed = False,
    tOnDemand = False, tOwed = [noticeFrame ''a'', noticeFrame ''b'', noticeFrame ''c''], tOutcome = [], tLost = [noticeFrame ''a''], tSound = True,
    tGated = True\<rparr>"
  have i: "instances (cleanUp 1 ?b2) 0 = Some ?t" and k: "transfers (cleanUp 1 ?b2) ''k'' = Some 0"
    by (simp_all add: overflow_eval broadcast_eval)
  have "fst (attachWithError 0 keyedSubscriber 1 [] (cleanUp 1 ?b2)) = (2, None)"
    by (simp add: overflow_eval broadcast_eval)
  with r i k show ?thesis by (intro exI [of _ "cleanUp 1 ?b2"] exI [of _ ?t]) simp
qed

end
