(* ===== verification/GoText.thy ===== *)
theory GoText
  imports Json "HOL-Library.Monad_Syntax"
begin

text \<open>
  Decimal text of Go's standard library as the notice journal uses it: \<open>%d\<close> of integers,
  \<open>strconv.ParseUint\<close>, and which texts \<open>time.Parse\<close> accepts as RFC 3339 times. Printed numbers are read back,
  and the part after the last colon of a text is determined by the text.
\<close>

subsection \<open>Text of the standard library\<close>

definition digitChar :: "nat \<Rightarrow> char" where
  "digitChar n = ''0123456789'' ! (n mod 10)"

fun natText :: "nat \<Rightarrow> string" where
  "natText n = (if n < 10 then [digitChar n] else natText (n div 10) @ [digitChar n])"

declare natText.simps [simp del]

definition signedText :: "int \<Rightarrow> string" where
  "signedText i = (if i < 0 then CHR ''-'' # natText (nat (- i)) else natText (nat i))"

definition parseUint64 :: "string \<Rightarrow> nat option" where
  "parseUint64 s = (if s \<noteq> [] \<and> list_all isDigit s \<and> decimal s < 18446744073709551616 then Some (nat (decimal s)) else None)"

text \<open>
  Acceptance of \<open>time.Parse(time.RFC3339Nano, s)\<close>: the hour may have one digit, the fraction is
  introduced by a point or a comma, and the offset is \<open>Z\<close> or a signed \<open>hh:mm\<close>.
\<close>

definition digitVal :: "char \<Rightarrow> nat" where
  "digitVal c = of_char c - 48"

definition num2 :: "string \<Rightarrow> (nat \<times> string) option" where
  "num2 s = (case s of a # b # r \<Rightarrow> if isDigit a \<and> isDigit b then Some (10 * digitVal a + digitVal b, r) else None | _ \<Rightarrow> None)"

definition num12 :: "string \<Rightarrow> (nat \<times> string) option" where
  "num12 s = (case s of
       a # r \<Rightarrow> (if \<not> isDigit a then None
                else (case r of b # q \<Rightarrow> if isDigit b then Some (10 * digitVal a + digitVal b, q) else Some (digitVal a, r)
                              | [] \<Rightarrow> Some (digitVal a, [])))
     | [] \<Rightarrow> None)"

definition literal :: "char \<Rightarrow> string \<Rightarrow> string option" where
  "literal c s = (case s of a # r \<Rightarrow> if a = c then Some r else None | [] \<Rightarrow> None)"

definition skipFraction :: "string \<Rightarrow> string" where
  "skipFraction s = (case s of
       c # d # r \<Rightarrow> if (c = CHR ''.'' \<or> c = CHR '','') \<and> isDigit d then dropWhile isDigit r else s
     | _ \<Rightarrow> s)"

definition zoneText :: "string \<Rightarrow> string option" where
  "zoneText s = (case s of
       [] \<Rightarrow> None
     | c # r \<Rightarrow>
         (if c = CHR ''Z'' then Some r
          else if c \<noteq> CHR ''+'' \<and> c \<noteq> CHR ''-'' then None
          else do { (h, r) \<leftarrow> num2 r; r \<leftarrow> literal CHR '':'' r; (m, r) \<leftarrow> num2 r;
                    if h \<le> 24 \<and> m \<le> 60 then Some r else None }))"

definition daysIn :: "nat \<Rightarrow> nat \<Rightarrow> nat" where
  "daysIn mo y =
     (if mo = 2 then (if y mod 4 = 0 \<and> (y mod 100 \<noteq> 0 \<or> y mod 400 = 0) then 29 else 28)
      else if mo = 4 \<or> mo = 6 \<or> mo = 9 \<or> mo = 11 then 30 else 31)"

definition validTime :: "string \<Rightarrow> bool" where
  "validTime s =
     (do { (c, s) \<leftarrow> num2 s; (y, s) \<leftarrow> num2 s; s \<leftarrow> literal CHR ''-'' s; (mo, s) \<leftarrow> num2 s; s \<leftarrow> literal CHR ''-'' s;
           (d, s) \<leftarrow> num2 s; s \<leftarrow> literal CHR ''T'' s; (h, s) \<leftarrow> num12 s; s \<leftarrow> literal CHR '':'' s;
           (mi, s) \<leftarrow> num2 s; s \<leftarrow> literal CHR '':'' s; (sec, s) \<leftarrow> num2 s; s \<leftarrow> zoneText (skipFraction s);
           if 1 \<le> mo \<and> mo \<le> 12 \<and> h < 24 \<and> mi < 60 \<and> sec < 60 \<and> 1 \<le> d \<and> d \<le> daysIn mo (100 * c + y) \<and> s = []
           then Some () else None } \<noteq> None)"

subsection \<open>Numbers and identities\<close>

lemma of_char_digitChar: "of_char (digitChar n) = (48 + n mod 10 :: nat)"
proof -
  have d: "m = 0 \<or> m = 1 \<or> m = 2 \<or> m = 3 \<or> m = 4 \<or> m = 5 \<or> m = 6 \<or> m = 7 \<or> m = 8 \<or> m = 9" if "m < 10" for m :: nat
    using that by arith
  have "n mod 10 = 0 \<or> n mod 10 = 1 \<or> n mod 10 = 2 \<or> n mod 10 = 3 \<or> n mod 10 = 4 \<or> n mod 10 = 5 \<or> n mod 10 = 6
      \<or> n mod 10 = 7 \<or> n mod 10 = 8 \<or> n mod 10 = 9" by (rule d) simp
  then show ?thesis unfolding digitChar_def by (elim disjE) (simp_all add: of_char_Char)
qed

lemma isDigit_digitChar [simp]: "isDigit (digitChar n)"
  using of_char_digitChar [of n] mod_less_divisor [of 10 n] by (simp add: isDigit_def)

lemma natText_digits: "list_all isDigit (natText n)"
proof (induction n rule: natText.induct)
  case (1 n)
  then show ?case by (subst natText.simps) simp
qed

lemma natText_ne [simp]: "natText n \<noteq> []"
  by (subst natText.simps) simp

lemma decimal_snoc: "decimal (xs @ [c]) = 10 * decimal xs + int (of_char c) - 48"
  by (simp add: decimal_def)

lemma decimal_natText: "decimal (natText n) = int n"
proof (induction n rule: natText.induct)
  case (1 n)
  show ?case
  proof (cases "n < 10")
    case True
    then show ?thesis by (subst natText.simps) (simp add: decimal_def of_char_digitChar)
  next
    case False
    then have "decimal (natText n) = 10 * decimal (natText (n div 10)) + int (n mod 10)"
      by (subst natText.simps) (simp add: decimal_snoc of_char_digitChar)
    also have "\<dots> = 10 * int (n div 10) + int (n mod 10)" using 1 [OF False] by simp
    also have "\<dots> = int n" by presburger
    finally show ?thesis .
  qed
qed

lemma parseUint64_natText: "n < 18446744073709551616 \<Longrightarrow> parseUint64 (natText n) = Some n"
  by (simp add: parseUint64_def decimal_natText natText_digits)

lemma natText_inject: "natText m = natText n \<longleftrightarrow> m = n"
  by (metis decimal_natText of_nat_eq_iff)

lemma not_digit_colon: "\<not> isDigit CHR '':''" and not_digit_minus: "\<not> isDigit CHR ''-''"
  by (simp_all add: isDigit_code)

lemma natText_no_colon: "CHR '':'' \<notin> set (natText n)" and natText_no_minus: "CHR ''-'' \<notin> set (natText n)"
  using natText_digits [of n] not_digit_colon not_digit_minus by (auto simp: list_all_iff)

lemma signedText_no_colon: "CHR '':'' \<notin> set (signedText i)"
  by (simp add: signedText_def natText_no_colon)

lemma signedText_inject: "signedText i = signedText k \<longleftrightarrow> i = k"
proof
  assume e: "signedText i = signedText k"
  have "i < 0 \<longleftrightarrow> k < 0"
    using e natText_no_minus by (auto simp: signedText_def split: if_splits) (metis list.set_intros(1))+
  with e show "i = k" by (auto simp: signedText_def natText_inject split: if_splits)
qed simp

lemma takeWhile_before_last: "c \<notin> set w \<Longrightarrow> takeWhile (\<lambda>a. a \<noteq> c) (rev (v @ c # w)) = rev w"
  using takeWhile_append2 [of "rev w" "\<lambda>a. a \<noteq> c" "c # rev v"] by auto

lemma split_last_colon:
  assumes "x @ c # y = x' @ c # y'" and "c \<notin> set y" and "c \<notin> set y'"
  shows "x = x' \<and> y = y'"
proof -
  note tw = takeWhile_before_last
  have "rev y = rev y'" using tw [OF assms(2), of x] tw [OF assms(3), of x'] assms(1) by simp
  with assms(1) show ?thesis by simp
qed

end
