(* ===== verification/NoticeJournal.thy ===== *)
theory NoticeJournal
  imports AtomicFile Filepath GoText Subscription "HOL-Library.Word"
begin

text \<open>
  The durable notices of a chat: \<open>internal/session/notice_journal.go\<close>, its file
  \<open>notice_store.go\<close>, the retirement of a journal in \<open>manager.go\<close> and the once-only derivations of
  \<open>notice_derivation.go\<close>. A manager is one server process; its journals live in memory, are loaded on
  first use and are written to one file per chat after every change. Every operation holds the
  journal's mutex and journals are never taken out of the manager's map, so an execution is a sequence
  of operations; the answers of the operating system, the formatted clock and the digest are
  arguments. Sequence numbers are Go's \<open>uint64\<close>.

  The text of a cache request is not interpreted: it is the type parameter of the journal.
\<close>

subsection \<open>Data\<close>

definition NoticeJournalCapacity :: nat where
  "NoticeJournalCapacity = 50"

record 'r persistedTranscriptNoticeState =
  ptPrevious :: "'r option"
  ptContinuityDisabled :: bool
  ptSource :: string

record persistedNotice =
  pnKind :: string
  pnSession :: string
  pnData :: "(string \<times> fvalue) list"

record 'r persistedNoticeJournal =
  psSeq :: "64 word"
  psEntries :: "persistedNotice list"
  psDerivations :: "string \<rightharpoonup> bool"
  psTranscripts :: "string \<rightharpoonup> 'r persistedTranscriptNoticeState"

record 'r noticeJournal =
  jDir :: string
  jChat :: string
  jGeneration :: int
  jRetired :: bool
  jLoaded :: bool
  jSeq :: "64 word"
  jRing :: "frame list"
  jDerivations :: "string \<rightharpoonup> bool"
  jTranscripts :: "string \<rightharpoonup> 'r persistedTranscriptNoticeState"
  jSessions :: "nat set"

text \<open>The notice directory: what is at each path, and temporary files left behind.\<close>

record 'r noticeDisk =
  paths :: "string \<Rightarrow> 'r persistedNoticeJournal content"
  leftover :: nat

record 'r nmanager =
  noticeDir :: string
  nidGeneration :: int
  noticeJournals :: "string \<rightharpoonup> 'r noticeJournal"
  ndisk :: "'r noticeDisk"

definition emptyPersisted :: "'r persistedNoticeJournal" where
  "emptyPersisted = \<lparr>psSeq = 0, psEntries = [], psDerivations = Map.empty, psTranscripts = Map.empty\<rparr>"

subsection \<open>The file\<close>

definition noticeJournalPath :: "string \<Rightarrow> string \<Rightarrow> string" where
  "noticeJournalPath dir chatID = Join [dir, chatID @ ''.json'']"

definition noticeNIDTail :: "string \<Rightarrow> nat option" where
  "noticeNIDTail nid =
     (if CHR '':'' \<notin> set nid then None else parseUint64 (rev (takeWhile (\<lambda>c. c \<noteq> CHR '':'') (rev nid))))"

datatype journalFault =
    OverCapacity nat | EmptyNID nat | ForeignNID nat | NoTail nat | RepeatedNID nat | TailOrder nat | EmptyTime nat | BadTime nat | SeqBelow

fun validateEntries :: "string \<Rightarrow> nat \<Rightarrow> string list \<Rightarrow> nat \<Rightarrow> persistedNotice list \<Rightarrow> journalFault + nat" where
  "validateEntries chatID i seen prevTail [] = Inr prevTail"
| "validateEntries chatID i seen prevTail (e # es) =
     (let nid = stringAt ''nid'' (FMap (pnData e)); time = stringAt ''at'' (FMap (pnData e)) in
      if nid = [] then Inl (EmptyNID i)
      else if take (Suc (length chatID)) nid \<noteq> chatID @ '':'' then Inl (ForeignNID i)
      else (case noticeNIDTail nid of
              None \<Rightarrow> Inl (NoTail i)
            | Some tail \<Rightarrow>
                (if nid \<in> set seen then Inl (RepeatedNID i)
                 else if 0 < i \<and> tail \<le> prevTail then Inl (TailOrder i)
                 else if time = [] then Inl (EmptyTime i)
                 else if \<not> validTime time then Inl (BadTime i)
                 else validateEntries chatID (Suc i) (nid # seen) tail es)))"

definition validateNoticeJournalState :: "string \<Rightarrow> 'r persistedNoticeJournal \<Rightarrow> journalFault option" where
  "validateNoticeJournalState chatID st =
     (if NoticeJournalCapacity < length (psEntries st) then Some (OverCapacity (length (psEntries st)))
      else (case validateEntries chatID 0 [] 0 (psEntries st) of
              Inl e \<Rightarrow> Some e
            | Inr prevTail \<Rightarrow> if unat (psSeq st) < prevTail then Some SeqBelow else None))"

text \<open>\<open>aside\<close>: whether the rename of an unusable file succeeds, and the clock in seconds.\<close>

type_synonym aside = "bool \<times> int"

definition quarantineNoticeJournal :: "aside \<Rightarrow> string \<Rightarrow> 'r noticeDisk \<Rightarrow> 'r persistedNoticeJournal \<times> 'r noticeDisk" where
  "quarantineNoticeJournal a path d =
     (emptyPersisted,
      if fst a then d\<lparr>paths := (paths d)(path := Missing, path @ ''.corrupt-'' @ signedText (snd a) := paths d path)\<rparr> else d)"

definition loadNoticeJournal ::
  "aside \<Rightarrow> string \<Rightarrow> string \<Rightarrow> 'r noticeDisk \<Rightarrow> 'r persistedNoticeJournal \<times> 'r noticeDisk" where
  "loadNoticeJournal a dir chatID d =
     (let path = noticeJournalPath dir chatID in
      case paths d path of
        Missing \<Rightarrow> (emptyPersisted, d)
      | Unreadable e \<Rightarrow> (emptyPersisted, d)
      | Malformed \<Rightarrow> quarantineNoticeJournal a path d
      | Doc st \<Rightarrow> (case validateNoticeJournalState chatID st of
                     Some err \<Rightarrow> quarantineNoticeJournal a path d
                   | None \<Rightarrow> (st, d)))"

definition noticePrepare :: checks where
  "noticePrepare =
     [(Mkdir, \<lambda>e. During ''creating notice directory'' (OSErr e)),
      (Encode, \<lambda>e. During ''encoding notice journal'' (OSErr e)),
      (CreateTemp, \<lambda>e. During ''creating temp file'' (OSErr e))]"

definition noticeWrite :: "env \<Rightarrow> checks" where
  "noticeWrite os =
     [(WriteTemp, close_failure os CloseTemp ''closing temp file'' ''writing temp file''),
      (ChmodTemp, close_failure os CloseTemp ''closing temp file'' ''setting temp file mode''),
      (SyncTemp, close_failure os CloseTemp ''closing temp file'' ''syncing temp file''),
      (CloseTemp, \<lambda>e. During ''closing temp file'' (OSErr e)),
      (Rename, \<lambda>e. During ''replacing notice journal'' (OSErr e))]"

definition noticeFinish :: "env \<Rightarrow> checks" where
  "noticeFinish os =
     [(OpenDir, \<lambda>e. During ''opening notice directory'' (OSErr e)),
      (SyncDir, \<lambda>e. During ''syncing notice directory''
         (case os CloseDir of Some c \<Rightarrow> Both (OSErr e) (During ''closing notice directory'' (OSErr c)) | None \<Rightarrow> OSErr e)),
      (CloseDir, \<lambda>e. During ''closing notice directory'' (OSErr e))]"

definition noticeInstall ::
  "env \<Rightarrow> 'r persistedNoticeJournal \<Rightarrow> 'r persistedNoticeJournal fs \<Rightarrow> ioerr option \<times> 'r persistedNoticeJournal fs" where
  "noticeInstall os st f = staged_install os noticePrepare (noticeWrite os) (noticeFinish os) st f"

definition noticeRenamed :: "env \<Rightarrow> bool" where
  "noticeRenamed os = reaches_rename os noticePrepare (noticeWrite os)"

interpretation notice_file: atomic_install noticeInstall noticeRenamed
  by (rule staged_atomic_install [OF noticeInstall_def noticeRenamed_def])

definition saveNoticeJournal ::
  "env \<Rightarrow> string \<Rightarrow> string \<Rightarrow> 'r persistedNoticeJournal \<Rightarrow> 'r noticeDisk \<Rightarrow> ioerr option \<times> 'r noticeDisk" where
  "saveNoticeJournal os dir chatID st d =
     (let path = noticeJournalPath dir chatID;
          (err, f) = noticeInstall os st \<lparr>target = paths d path, temps = leftover d\<rparr>
      in (err, d\<lparr>paths := (paths d)(path := target f), leftover := temps f\<rparr>))"

text \<open>\<open>ok\<close>: whether the system removes an existing file.\<close>

definition removeNoticeJournal :: "bool \<Rightarrow> string \<Rightarrow> string \<Rightarrow> 'r noticeDisk \<Rightarrow> bool \<times> 'r noticeDisk" where
  "removeNoticeJournal ok dir chatID d =
     (let path = noticeJournalPath dir chatID in
      if paths d path = Missing then (True, d)
      else if ok then (True, d\<lparr>paths := (paths d)(path := Missing)\<rparr>) else (False, d))"

subsection \<open>The journal\<close>

definition appendRing :: "frame \<Rightarrow> 'r noticeJournal \<Rightarrow> 'r noticeJournal" where
  "appendRing f j =
     (if length (jRing j) = NoticeJournalCapacity then j\<lparr>jRing := tl (jRing j) @ [f]\<rparr> else j\<lparr>jRing := jRing j @ [f]\<rparr>)"

definition persistedView :: "frame \<Rightarrow> persistedNotice" where
  "persistedView f = \<lparr>pnKind = frameKind f, pnSession = frameSession f,
     pnData = (case frameData f of FMap m \<Rightarrow> m | FOpaque _ \<Rightarrow> [])\<rparr>"

definition replayedView :: "persistedNotice \<Rightarrow> frame" where
  "replayedView e = \<lparr>frameKind = pnKind e, frameSession = pnSession e, frameBinding = [], frameRevision = 0, frameResumed = False,
     frameCommand = [], frameRequest = [], framePhase = [], frameApproval = [], frameData = FMap (pnData e)\<rparr>"

definition ensureLoaded :: "aside \<Rightarrow> 'r noticeJournal \<Rightarrow> 'r noticeDisk \<Rightarrow> 'r noticeJournal \<times> 'r noticeDisk" where
  "ensureLoaded a j d =
     (if jLoaded j then (j, d)
      else if jDir j = [] then (j\<lparr>jLoaded := True\<rparr>, d)
      else (let (st, d') = loadNoticeJournal a (jDir j) (jChat j) d
            in (j\<lparr>jLoaded := True, jSeq := psSeq st, jDerivations := psDerivations st, jTranscripts := psTranscripts st,
                  jRing := map replayedView (psEntries st)\<rparr>, d')))"

definition newJournal :: "string \<Rightarrow> 'r nmanager \<Rightarrow> 'r noticeJournal" where
  "newJournal chatID m = \<lparr>jDir = noticeDir m, jChat = chatID, jGeneration = nidGeneration m, jRetired = False, jLoaded = False,
     jSeq = 0, jRing = [], jDerivations = Map.empty, jTranscripts = Map.empty, jSessions = {}\<rparr>"

definition noticeJournalFor :: "aside \<Rightarrow> string \<Rightarrow> 'r nmanager \<Rightarrow> 'r noticeJournal \<times> 'r nmanager" where
  "noticeJournalFor a chatID m =
     (let j = (case noticeJournals m chatID of Some j \<Rightarrow> j | None \<Rightarrow> newJournal chatID m);
          (j', d) = ensureLoaded a j (ndisk m)
      in (j', m\<lparr>noticeJournals := (noticeJournals m)(chatID \<mapsto> j'), ndisk := d\<rparr>))"

definition journalState :: "'r noticeJournal \<Rightarrow> 'r persistedNoticeJournal" where
  "journalState j = \<lparr>psSeq = jSeq j, psEntries = map persistedView (jRing j), psDerivations = jDerivations j,
     psTranscripts = jTranscripts j\<rparr>"

definition persistLocked :: "env \<Rightarrow> 'r noticeJournal \<Rightarrow> 'r noticeDisk \<Rightarrow> 'r noticeDisk" where
  "persistLocked os j d =
     (if jDir j = [] \<or> jRetired j then d else snd (saveNoticeJournal os (jDir j) (jChat j) (journalState j) d))"

definition setField :: "string \<Rightarrow> fvalue \<Rightarrow> (string \<times> fvalue) list \<Rightarrow> (string \<times> fvalue) list" where
  "setField k v m = (k, v) # filter (\<lambda>p. fst p \<noteq> k) m"

definition nidText :: "string \<Rightarrow> int \<Rightarrow> 64 word \<Rightarrow> string" where
  "nidText chatID gen n = chatID @ '':g'' @ signedText gen @ '':'' @ natText (unat n)"

text \<open>\<open>now\<close> is the clock in RFC 3339 format.\<close>

definition stampNotice ::
  "env \<Rightarrow> string \<Rightarrow> string \<Rightarrow> 'r noticeJournal \<Rightarrow> frame \<Rightarrow> 'r noticeDisk \<Rightarrow> (frame \<times> bool) \<times> 'r noticeJournal \<times> 'r noticeDisk" where
  "stampNotice os now chatID j f d =
     (if jRetired j then ((f, False), j, d)
      else (case frameData f of
              FOpaque _ \<Rightarrow> ((f, True), j, d)
            | FMap payload \<Rightarrow>
                (let p1 = (if stringAt ''at'' (FMap payload) = [] then setField ''at'' (FStr now) payload else payload);
                     j1 = j\<lparr>jSeq := jSeq j + 1\<rparr>;
                     f1 = f\<lparr>frameData := FMap (setField ''nid'' (FStr (nidText chatID (jGeneration j1) (jSeq j1))) p1)\<rparr>;
                     j2 = appendRing f1 j1
                 in ((f1, True), j2, persistLocked os j2 d))))"

definition putJournal :: "string \<Rightarrow> 'r noticeJournal \<Rightarrow> 'r noticeDisk \<Rightarrow> 'r nmanager \<Rightarrow> 'r nmanager" where
  "putJournal chatID j d m = m\<lparr>noticeJournals := (noticeJournals m)(chatID \<mapsto> j), ndisk := d\<rparr>"

text \<open>The second result is what is handed to the \<open>publish\<close> callback.\<close>

definition publishNotice ::
  "env \<Rightarrow> string \<Rightarrow> aside \<Rightarrow> string \<Rightarrow> frame \<Rightarrow> 'r nmanager \<Rightarrow> (frame \<times> frame option) \<times> 'r nmanager" where
  "publishNotice os now a chatID f m =
     (let (j, m1) = noticeJournalFor a chatID m;
          ((stamped, admitted), j', d') = stampNotice os now chatID j f (ndisk m1);
          m2 = putJournal chatID j' d' m1
      in if \<not> admitted then ((f, None), m2) else ((stamped, Some stamped), m2))"

definition noticeFrameOf :: "string \<Rightarrow> fdata \<Rightarrow> frame" where
  "noticeFrameOf sess payload = \<lparr>frameKind = FrameNotice, frameSession = sess, frameBinding = [], frameRevision = 0,
     frameResumed = False, frameCommand = [], frameRequest = [], framePhase = [], frameApproval = [], frameData = payload\<rparr>"

definition RecordNotice :: "env \<Rightarrow> string \<Rightarrow> aside \<Rightarrow> string \<Rightarrow> fdata \<Rightarrow> 'r nmanager \<Rightarrow> frame \<times> 'r nmanager" where
  "RecordNotice os now a chatID payload m =
     (let ((f, _), m') = publishNotice os now a chatID (noticeFrameOf chatID payload) m in (f, m'))"

text \<open>The sessions that receive the notice, with the frame.\<close>

definition PublishNotice ::
  "env \<Rightarrow> string \<Rightarrow> aside \<Rightarrow> string \<Rightarrow> fdata \<Rightarrow> 'r nmanager \<Rightarrow> (nat set \<times> frame) option \<times> 'r nmanager" where
  "PublishNotice os now a chatID payload m =
     (let (j, m1) = noticeJournalFor a chatID m;
          ((f, admitted), j', d') = stampNotice os now chatID j (noticeFrameOf chatID payload) (ndisk m1);
          m2 = putJournal chatID j' d' m1
      in if \<not> admitted then (None, m2) else (Some (jSessions j', f), m2))"

definition goalActivationNotify :: "fdata \<Rightarrow> bool" where
  "goalActivationNotify payload \<longleftrightarrow>
     (let tone = stringAt ''notifyType'' payload; message = stringAt ''message'' payload in
      tone \<noteq> ''warning'' \<and> tone \<noteq> ''error''
      \<and> (message = ''Goal active'' \<or> take 12 message = ''Goal active'' @ [CHR 0x0A]))"

definition replayedNotice :: "frame \<Rightarrow> bool" where
  "replayedNotice f \<longleftrightarrow>
     (let kind = stringAt ''kind'' (frameData f) in
      if kind = ''goal-cache-warmup'' \<or> kind = ''omo-loop:tick'' \<or> kind = ''omo-cache-keepalive'' \<or> kind = ''omo-rule-activation''
      then False
      else if kind = ''engine_notify'' then \<not> goalActivationNotify (frameData f) else True)"

definition withNoticeReplay :: "aside \<Rightarrow> string \<Rightarrow> nat option \<Rightarrow> 'r nmanager \<Rightarrow> frame list \<times> 'r nmanager" where
  "withNoticeReplay a chatID sess m =
     (let (j, m1) = noticeJournalFor a chatID m in
      if jRetired j then ([], m1)
      else (let j' = (case sess of None \<Rightarrow> j | Some s \<Rightarrow> j\<lparr>jSessions := insert s (jSessions j)\<rparr>)
            in (filter replayedNotice (jRing j), putJournal chatID j' (ndisk m1) m1)))"

definition unregisterNoticeSession :: "string \<Rightarrow> nat \<Rightarrow> 'r nmanager \<Rightarrow> 'r nmanager" where
  "unregisterNoticeSession chatID sess m =
     (case noticeJournals m chatID of
        None \<Rightarrow> m
      | Some j \<Rightarrow> m\<lparr>noticeJournals := (noticeJournals m)(chatID \<mapsto> j\<lparr>jSessions := jSessions j - {sess}\<rparr>)\<rparr>)"

definition noticeReplay :: "aside \<Rightarrow> string \<Rightarrow> 'r nmanager \<Rightarrow> frame list \<times> 'r nmanager" where
  "noticeReplay a chatID m = withNoticeReplay a chatID None m"

definition journalLen :: "aside \<Rightarrow> string \<Rightarrow> 'r nmanager \<Rightarrow> nat \<times> 'r nmanager" where
  "journalLen a chatID m = (let (j, m1) = noticeJournalFor a chatID m in (length (jRing j), m1))"

subsection \<open>Retirement\<close>

text \<open>The part of \<open>RetireIdentity\<close> that retires the journal.\<close>

definition retireJournal :: "bool \<Rightarrow> string \<Rightarrow> 'r nmanager \<Rightarrow> 'r nmanager" where
  "retireJournal ok chatID m =
     (let j = (case noticeJournals m chatID of
                 Some j \<Rightarrow> j
               | None \<Rightarrow> (newJournal chatID m)\<lparr>jGeneration := 0, jLoaded := True, jRetired := True\<rparr>);
          j' = j\<lparr>jRetired := True, jRing := [], jSessions := {}\<rparr>;
          d = (if jDir j' \<noteq> [] then snd (removeNoticeJournal ok (jDir j') (jChat j') (ndisk m)) else ndisk m)
      in putJournal chatID j' d m)"

subsection \<open>Derived notices\<close>

record 'r transcriptNoticeState =
  tnInitialized :: bool
  tnRestored :: bool
  tnSource :: string
  tnPrevious :: "'r option"
  tnContinuityDisabled :: bool

record 'r nsession =
  nsChat :: string
  nsDurable :: string
  transcriptNotices :: "'r transcriptNoticeState"

definition restoreTranscriptNoticesLocked :: "aside \<Rightarrow> 'r nsession \<Rightarrow> 'r nmanager \<Rightarrow> 'r nsession \<times> 'r nmanager" where
  "restoreTranscriptNoticesLocked a s m =
     (let (j, m1) = noticeJournalFor a (nsChat s) m in
      case jTranscripts j (nsDurable s) of
        None \<Rightarrow> (s, m1)
      | Some st \<Rightarrow> (s\<lparr>transcriptNotices := \<lparr>tnInitialized = True, tnRestored = True, tnSource = ptSource st, tnPrevious = ptPrevious st,
                                             tnContinuityDisabled = ptContinuityDisabled st\<rparr>\<rparr>, m1))"

definition persistTranscriptNoticesLocked :: "env \<Rightarrow> aside \<Rightarrow> 'r nsession \<Rightarrow> 'r nmanager \<Rightarrow> 'r nsession \<times> 'r nmanager" where
  "persistTranscriptNoticesLocked os a s m =
     (let t = (transcriptNotices s)\<lparr>tnInitialized := True, tnRestored := False\<rparr>;
          s' = s\<lparr>transcriptNotices := t\<rparr>;
          (j, m1) = noticeJournalFor a (nsChat s) m
      in if jRetired j then (s', m1)
         else (let j' = j\<lparr>jTranscripts := (jTranscripts j)(nsDurable s \<mapsto>
                          \<lparr>ptPrevious = tnPrevious t, ptContinuityDisabled = tnContinuityDisabled t, ptSource = tnSource t\<rparr>)\<rparr>
               in (s', putJournal (nsChat s) j' (persistLocked os j' (ndisk m1)) m1)))"

text \<open>\<open>digest\<close> is the hexadecimal SHA-256.\<close>

definition admitTranscriptIdentityLocked ::
  "(string \<Rightarrow> string) \<Rightarrow> aside \<Rightarrow> string \<Rightarrow> string \<Rightarrow> 'r nsession \<Rightarrow> 'r nmanager \<Rightarrow> bool \<times> 'r nmanager" where
  "admitTranscriptIdentityLocked digest a kind identity s m =
     (let key = ''transcript:'' @ digest (nsDurable s @ [CHR 0x00] @ kind @ [CHR 0x00] @ identity);
          (j, m1) = noticeJournalFor a (nsChat s) m
      in if jRetired j \<or> jDerivations j key = Some True then (False, m1)
         else (True, putJournal (nsChat s) (j\<lparr>jDerivations := (jDerivations j)(key \<mapsto> True)\<rparr>) (ndisk m1) m1))"

definition publishNoticeOnceLocked ::
  "env \<Rightarrow> string \<Rightarrow> aside \<Rightarrow> string \<Rightarrow> string \<Rightarrow> string \<Rightarrow> 'r nsession \<Rightarrow> 'r nmanager \<Rightarrow> frame option \<times> 'r nmanager" where
  "publishNoticeOnceLocked os now a key kind msg s m =
     (let (j, m1) = noticeJournalFor a (nsChat s) m in
      if jRetired j \<or> jDerivations j key = Some True then (None, m1)
      else (let j1 = j\<lparr>jDerivations := (jDerivations j)(key \<mapsto> True)\<rparr>;
                ((f, admitted), j2, d) = stampNotice os now (nsChat s) j1
                   (noticeFrameOf (nsDurable s) (FMap [(''kind'', FStr kind), (''text'', FStr msg)])) (ndisk m1)
            in (if admitted then Some f else None, putJournal (nsChat s) j2 d m1)))"

definition deriveEntryNoticeLocked ::
  "(string \<Rightarrow> string) \<Rightarrow> env \<Rightarrow> string \<Rightarrow> aside \<Rightarrow> fdata \<Rightarrow> 'r nsession \<Rightarrow> 'r nmanager \<Rightarrow> frame option \<times> 'r nsession \<times> 'r nmanager" where
  "deriveEntryNoticeLocked digest os now a entry s m =
     (let ty = stringAt ''type'' entry; i = stringAt ''id'' entry in
      if ty = ''compaction'' \<or> ty = ''branch_summary''
      then (let (admitted, m1) = admitTranscriptIdentityLocked digest a ''boundary'' i s m in
            if \<not> admitted then (None, s, m1)
            else (let s1 = s\<lparr>transcriptNotices := (transcriptNotices s)\<lparr>tnPrevious := None, tnSource := ''entry:'' @ i\<rparr>\<rparr>
                  in (None, persistTranscriptNoticesLocked os a s1 m1)))
      else if ty = ''model_change_rejected''
      then (let msg = (case entry of FMap ms \<Rightarrow> (case map_of ms ''detail'' of Some (FStr t) \<Rightarrow> t | _ \<Rightarrow> stringAt ''reason'' entry)
                                   | FOpaque _ \<Rightarrow> stringAt ''reason'' entry)
            in if i \<noteq> [] then (let (f, m1) = publishNoticeOnceLocked os now a (''warning:'' @ i) ''engine_warning'' msg s m in (f, s, m1))
               else (None, s, m))
      else (None, s, m))"

text \<open>A page of raw entries, \<open>None\<close> for one that is not a JSON object; the number of compactions on it.\<close>

fun deriveHistoryPageLocked ::
  "(string \<Rightarrow> string) \<Rightarrow> env \<Rightarrow> string \<Rightarrow> aside \<Rightarrow> (string \<times> fvalue) list option list \<Rightarrow> 'r nsession \<Rightarrow> 'r nmanager
     \<Rightarrow> (frame list \<times> nat) \<times> 'r nsession \<times> 'r nmanager" where
  "deriveHistoryPageLocked digest os now a [] s m = (([], 0), s, m)"
| "deriveHistoryPageLocked digest os now a (None # es) s m = deriveHistoryPageLocked digest os now a es s m"
| "deriveHistoryPageLocked digest os now a (Some e # es) s m =
     (let (f, s1, m1) = deriveEntryNoticeLocked digest os now a (FMap e) s m;
          ((fs, n), s2, m2) = deriveHistoryPageLocked digest os now a es s1 m1
      in (((case f of Some x \<Rightarrow> [x] | None \<Rightarrow> []) @ fs, if stringAt ''type'' (FMap e) = ''compaction'' then Suc n else n), s2, m2))"

definition deriveCompactionHistoryLocked ::
  "env \<Rightarrow> string \<Rightarrow> aside \<Rightarrow> nat \<Rightarrow> 'r nsession \<Rightarrow> 'r nmanager \<Rightarrow> frame option \<times> 'r nmanager" where
  "deriveCompactionHistoryLocked os now a n s m =
     (if n = 0 then (None, m)
      else publishNoticeOnceLocked os now a ''compaction_history'' ''compaction_history''
             (''Session compacted '' @ natText n @ '' '' @ (if n = 1 then ''time'' else ''times'')) s m)"

section \<open>Histories\<close>

text \<open>
  One server process after another: every operation on a journal, and the start of a new manager on
  the directory the previous one left. A step says which frames it hands to subscribers.
\<close>

datatype 'r njEvent =
    NNotice env string aside string frame
  | NFanout env string aside string fdata
  | NReplay aside string "nat option"
  | NUnregister string nat
  | NRestore aside "'r nsession"
  | NCheckpoint env aside "'r nsession"
  | NAdmit aside string string "'r nsession"
  | NOnce env string aside string string string "'r nsession"
  | NRetire bool string
  | NRestart int

definition newManager :: "string \<Rightarrow> int \<Rightarrow> 'r noticeDisk \<Rightarrow> 'r nmanager" where
  "newManager dir gen d = \<lparr>noticeDir = dir, nidGeneration = gen, noticeJournals = Map.empty, ndisk = d\<rparr>"

fun njStep :: "(string \<Rightarrow> string) \<Rightarrow> 'r njEvent \<Rightarrow> 'r nmanager \<Rightarrow> frame list \<times> 'r nmanager" where
  "njStep digest (NNotice os now a c f) m =
     (let ((_, out), m') = publishNotice os now a c f m in (case out of Some x \<Rightarrow> [x] | None \<Rightarrow> [], m'))"
| "njStep digest (NFanout os now a c payload) m =
     (let (out, m') = PublishNotice os now a c payload m in (case out of Some (_, x) \<Rightarrow> [x] | None \<Rightarrow> [], m'))"
| "njStep digest (NReplay a c sess) m = ([], snd (withNoticeReplay a c sess m))"
| "njStep digest (NUnregister c sess) m = ([], unregisterNoticeSession c sess m)"
| "njStep digest (NRestore a s) m = ([], snd (restoreTranscriptNoticesLocked a s m))"
| "njStep digest (NCheckpoint os a s) m = ([], snd (persistTranscriptNoticesLocked os a s m))"
| "njStep digest (NAdmit a kind identity s) m = ([], snd (admitTranscriptIdentityLocked digest a kind identity s m))"
| "njStep digest (NOnce os now a key kind msg s) m =
     (let (out, m') = publishNoticeOnceLocked os now a key kind msg s m in (case out of Some x \<Rightarrow> [x] | None \<Rightarrow> [], m'))"
| "njStep digest (NRetire ok c) m = ([], retireJournal ok c m)"
| "njStep digest (NRestart gen) m = ([], newManager (noticeDir m) gen (ndisk m))"

fun njRun :: "(string \<Rightarrow> string) \<Rightarrow> 'r njEvent list \<Rightarrow> 'r nmanager \<Rightarrow> frame list \<times> 'r nmanager" where
  "njRun digest [] m = ([], m)"
| "njRun digest (e # es) m = (let (out, m1) = njStep digest e m; (outs, m2) = njRun digest es m1 in (out @ outs, m2))"

text \<open>The chat an operation is about.\<close>

fun njChat :: "'r njEvent \<Rightarrow> string option" where
  "njChat (NNotice _ _ _ c _) = Some c"
| "njChat (NFanout _ _ _ c _) = Some c"
| "njChat (NReplay _ c _) = Some c"
| "njChat (NUnregister c _) = Some c"
| "njChat (NRestore _ s) = Some (nsChat s)"
| "njChat (NCheckpoint _ _ s) = Some (nsChat s)"
| "njChat (NAdmit _ _ _ s) = Some (nsChat s)"
| "njChat (NOnce _ _ _ _ _ _ s) = Some (nsChat s)"
| "njChat (NRetire _ c) = Some c"
| "njChat (NRestart _) = None"

section \<open>Correctness\<close>

subsection \<open>Identities\<close>

lemma nidText_inject: "nidText c g n = nidText c' g' n' \<longleftrightarrow> c = c' \<and> g = g' \<and> n = n'"
proof
  assume "nidText c g n = nidText c' g' n'"
  then have e: "(c @ '':g'' @ signedText g) @ CHR '':'' # natText (unat n) = (c' @ '':g'' @ signedText g') @ CHR '':'' # natText (unat n')"
    by (simp add: nidText_def)
  from split_last_colon [OF this natText_no_colon natText_no_colon]
  have n: "unat n = unat n'" and r: "c @ CHR '':'' # (CHR ''g'' # signedText g) = c' @ CHR '':'' # (CHR ''g'' # signedText g')"
    by (simp_all add: natText_inject)
  from split_last_colon [OF r] signedText_no_colon have "c = c'" "signedText g = signedText g'" by auto
  with n show "c = c' \<and> g = g' \<and> n = n'" by (simp add: signedText_inject word_unat_eq_iff)
qed simp

lemma unat_bound64: "unat (n :: 64 word) < 18446744073709551616"
  using unsigned_less [of n] by simp

lemma nidText_tail: "noticeNIDTail (nidText c g n) = Some (unat n)"
proof -
  have "takeWhile (\<lambda>a. a \<noteq> CHR '':'') (rev (nidText c g n)) = rev (natText (unat n))"
    using takeWhile_before_last [OF natText_no_colon, of "c @ '':g'' @ signedText g" "unat n"] by (simp add: nidText_def)
  moreover have "CHR '':'' \<in> set (nidText c g n)" by (simp add: nidText_def)
  ultimately show ?thesis by (simp add: noticeNIDTail_def parseUint64_natText unat_bound64)
qed

lemma nidText_prefix: "take (Suc (length c)) (nidText c g n) = c @ '':''"
  by (simp add: nidText_def)

end
