(* ===== verification/NoticeHistory.thy ===== *)
theory NoticeHistory
  imports NoticeJournal
begin

text \<open>
  Correctness of the notice journal over histories of one server process after another: identities are
  never issued twice, what was written is what a restarted process replays, a retired journal is
  silent for the rest of the process, and a derived notice is published once.
\<close>

subsection \<open>One operation\<close>

definition stamped :: "frame \<Rightarrow> bool" where
  "stamped f \<longleftrightarrow> (case frameData f of FMap _ \<Rightarrow> True | FOpaque _ \<Rightarrow> False)"

abbreviation nidOf :: "frame \<Rightarrow> string" where
  "nidOf f \<equiv> stringAt ''nid'' (frameData f)"

abbreviation timeOf :: "frame \<Rightarrow> string" where
  "timeOf f \<equiv> stringAt ''at'' (frameData f)"

definition mInv :: "'r nmanager \<Rightarrow> bool" where
  "mInv m \<longleftrightarrow> (\<forall>c j. noticeJournals m c = Some j \<longrightarrow> jLoaded j \<and> jChat j = c \<and> jDir j = noticeDir m
     \<and> (\<not> jRetired j \<longrightarrow> jGeneration j = nidGeneration m) \<and> (jRetired j \<longrightarrow> jRing j = []))"

text \<open>What an operation does to the journal it holds; \<open>out\<close> is what it hands to subscribers.\<close>

definition advances :: "'r noticeJournal \<Rightarrow> 'r noticeJournal \<Rightarrow> frame list \<Rightarrow> bool" where
  "advances j j' out \<longleftrightarrow> jLoaded j' = jLoaded j \<and> jChat j' = jChat j \<and> jDir j' = jDir j \<and> jGeneration j' = jGeneration j
     \<and> (jRetired j \<longrightarrow> jRetired j' \<and> out = []) \<and> (\<forall>k. jDerivations j k = Some True \<longrightarrow> jDerivations j' k = Some True)
     \<and> (jSeq j' = jSeq j \<and> filter stamped out = [] \<and> (jRing j' = jRing j \<or> jRing j' = []) \<and> (jRetired j' \<and> \<not> jRetired j \<longrightarrow> jRing j' = [])
        \<or> (\<exists>f. \<not> jRetired j \<and> \<not> jRetired j' \<and> jSeq j' = jSeq j + 1 \<and> out = [f] \<and> stamped f
             \<and> nidOf f = nidText (jChat j) (jGeneration j) (jSeq j') \<and> jRing j' = jRing (appendRing f j)))"

inductive opened :: "string \<Rightarrow> 'r nmanager \<Rightarrow> 'r noticeJournal \<Rightarrow> 'r nmanager \<Rightarrow> bool" for c m where
  looked: "noticeJournalFor a c m = (j, m1) \<Longrightarrow> opened c m j m1"
| present: "noticeJournals m c = Some j \<Longrightarrow> opened c m j m"
| tombstone: "noticeJournals m c = None \<Longrightarrow>
    opened c m ((newJournal c m)\<lparr>jGeneration := 0, jLoaded := True, jRetired := True\<rparr>) m"

lemma noticeJournalFor_present:
  "mInv m \<Longrightarrow> noticeJournals m c = Some j \<Longrightarrow> noticeJournalFor a c m = (j, m)"
  by (simp add: noticeJournalFor_def ensureLoaded_def mInv_def fun_upd_idem)

lemma noticeJournalFor_absent:
  "noticeJournals m c = None \<Longrightarrow> noticeJournalFor a c m =
     (fst (ensureLoaded a (newJournal c m) (ndisk m)),
      putJournal c (fst (ensureLoaded a (newJournal c m) (ndisk m))) (snd (ensureLoaded a (newJournal c m) (ndisk m))) m)"
  by (simp add: noticeJournalFor_def putJournal_def split: prod.split)

lemma ensureLoaded_new:
  "jLoaded (fst (ensureLoaded a (newJournal c m) d)) \<and> jChat (fst (ensureLoaded a (newJournal c m) d)) = c
   \<and> jDir (fst (ensureLoaded a (newJournal c m) d)) = noticeDir m \<and> \<not> jRetired (fst (ensureLoaded a (newJournal c m) d))
   \<and> jGeneration (fst (ensureLoaded a (newJournal c m) d)) = nidGeneration m"
  by (simp add: ensureLoaded_def newJournal_def split: prod.split)

lemma putJournal_simps [simp]:
  "noticeJournals (putJournal c j d m) = (noticeJournals m)(c \<mapsto> j)" "ndisk (putJournal c j d m) = d"
  "noticeDir (putJournal c j d m) = noticeDir m" "nidGeneration (putJournal c j d m) = nidGeneration m"
  "putJournal c j d (putJournal c j' d' m) = putJournal c j d m"
  by (simp_all add: putJournal_def)

lemma opened_spec:
  assumes "opened c m j m1" and "mInv m"
  shows "(noticeJournals m c = Some j \<and> m1 = m)
    \<or> (noticeJournals m c = None \<and> jRetired j \<and> m1 = m \<and> jLoaded j \<and> jChat j = c \<and> jDir j = noticeDir m \<and> jRing j = [] \<and> jSeq j = 0)
    \<or> (noticeJournals m c = None \<and> \<not> jRetired j \<and> jLoaded j \<and> jChat j = c \<and> jDir j = noticeDir m \<and> jGeneration j = nidGeneration m
        \<and> (\<exists>a d. ensureLoaded a (newJournal c m) (ndisk m) = (j, d) \<and> m1 = putJournal c j d m))"
  using assms(1)
proof cases
  case (looked a)
  show ?thesis
  proof (cases "noticeJournals m c")
    case None
    have e: "j = fst (ensureLoaded a (newJournal c m) (ndisk m)) \<and> m1 = putJournal c j (snd (ensureLoaded a (newJournal c m) (ndisk m))) m"
      using looked noticeJournalFor_absent [OF None, of a] by auto
    then have "\<exists>a d. ensureLoaded a (newJournal c m) (ndisk m) = (j, d) \<and> m1 = putJournal c j d m" by (metis prod.collapse)
    with None e ensureLoaded_new [of a c m "ndisk m"] show ?thesis by simp
  next
    case (Some j0)
    with noticeJournalFor_present [OF assms(2) Some, of a] looked show ?thesis by simp
  qed
qed (simp_all add: newJournal_def)

lemma stringAt_setField [simp]:
  "stringAt k (FMap (setField k (FStr v) m)) = v"
  "k \<noteq> l \<Longrightarrow> stringAt k (FMap (setField l v' m)) = stringAt k (FMap m)"
proof -
  show "stringAt k (FMap (setField k (FStr v) m)) = v" by (simp add: stringAt_def setField_def)
  have "k \<noteq> l \<Longrightarrow> map_of (filter (\<lambda>p. fst p \<noteq> l) m) k = map_of m k" by (induction m) auto
  then show "k \<noteq> l \<Longrightarrow> stringAt k (FMap (setField l v' m)) = stringAt k (FMap m)" by (simp add: stringAt_def setField_def)
qed

text \<open>What stamping does to an active journal.\<close>

lemma appendRing_simps [simp]:
  "jSeq (appendRing f j) = jSeq j" "jGeneration (appendRing f j) = jGeneration j" "jRetired (appendRing f j) = jRetired j"
  "jLoaded (appendRing f j) = jLoaded j" "jChat (appendRing f j) = jChat j" "jDir (appendRing f j) = jDir j"
  "jDerivations (appendRing f j) = jDerivations j" "jTranscripts (appendRing f j) = jTranscripts j" "jSessions (appendRing f j) = jSessions j"
  by (simp_all add: appendRing_def)

lemma appendRing_ring: "jRing (appendRing f (j\<lparr>jSeq := n\<rparr>)) = jRing (appendRing f j)"
  by (simp add: appendRing_def)

lemma stampNotice_advances:
  assumes "stampNotice os now (jChat j) j f d = ((g, admitted), j', d')"
  shows "advances j j' (if admitted then [g] else [])
    \<and> (d' = d \<or> \<not> jRetired j' \<and> d' = persistLocked os j' d)
    \<and> (stamped f \<and> \<not> jRetired j \<longrightarrow> admitted \<and> stamped g \<and> d' = persistLocked os j' d)
    \<and> (stamped g \<and> admitted \<and> validTime now \<and> (timeOf f = [] \<or> validTime (timeOf f)) \<longrightarrow> validTime (timeOf g))"
proof (cases "jRetired j")
  case True
  with assms show ?thesis by (auto simp: stampNotice_def advances_def)
next
  case active: False
  show ?thesis
  proof (cases "frameData f")
    case (FOpaque x)
    with active assms have "g = f" "admitted" "j' = j" "d' = d" by (simp_all add: stampNotice_def)
    with FOpaque active show ?thesis by (simp add: stamped_def advances_def)
  next
    case (FMap p)
    let ?p = "if stringAt ''at'' (FMap p) = [] then setField ''at'' (FStr now) p else p"
    let ?j = "j\<lparr>jSeq := jSeq j + 1\<rparr>"
    let ?g = "f\<lparr>frameData := FMap (setField ''nid'' (FStr (nidText (jChat j) (jGeneration j) (jSeq j + 1))) ?p)\<rparr>"
    from FMap active assms have eq: "g = ?g" "admitted" "j' = appendRing ?g ?j" "d' = persistLocked os j' d"
      by (auto simp: stampNotice_def Let_def)
    have "timeOf g = (if timeOf f = [] then now else timeOf f)" using FMap by (simp add: eq(1))
    moreover have "advances j j' [g]" using active by (simp add: eq(1,3) advances_def stamped_def appendRing_ring)
    ultimately show ?thesis using eq active by (simp add: stamped_def)
  qed
qed

text \<open>The clock and the times that payloads bring along are RFC 3339 times.\<close>

fun njTimeOK :: "'r njEvent \<Rightarrow> bool" where
  "njTimeOK (NNotice _ now _ _ f) \<longleftrightarrow> validTime now \<and> (timeOf f = [] \<or> validTime (timeOf f))"
| "njTimeOK (NFanout _ now _ _ p) \<longleftrightarrow> validTime now \<and> (stringAt ''at'' p = [] \<or> validTime (stringAt ''at'' p))"
| "njTimeOK (NOnce _ now _ _ _ _ _) \<longleftrightarrow> validTime now"
| "njTimeOK _ \<longleftrightarrow> True"

definition diskStep :: "'r noticeJournal \<Rightarrow> 'r noticeDisk \<Rightarrow> 'r noticeDisk \<Rightarrow> bool" where
  "diskStep j d d' \<longleftrightarrow> d' = d \<or> (\<not> jRetired j \<and> (\<exists>os. d' = persistLocked os j d))
     \<or> (jRetired j \<and> (\<exists>ok. d' = snd (removeNoticeJournal ok (jDir j) (jChat j) d)))"

definition opensTo :: "string \<Rightarrow> 'r nmanager \<Rightarrow> bool \<Rightarrow> frame list \<Rightarrow> 'r nmanager \<Rightarrow> bool" where
  "opensTo c m ok out m' \<longleftrightarrow> (m' = m \<and> out = []) \<or> (\<exists>j m1 j' d. opened c m j m1 \<and> m' = putJournal c j' d m1 \<and> advances j j' out
     \<and> diskStep j' (ndisk m1) d \<and> (ok \<longrightarrow> list_all (\<lambda>f. stamped f \<longrightarrow> validTime (timeOf f)) out))"

lemma opensToI:
  "opened c m j m1 \<Longrightarrow> m' = putJournal c j' d m1 \<Longrightarrow> advances j j' out \<Longrightarrow> diskStep j' (ndisk m1) d \<Longrightarrow>
     (ok \<Longrightarrow> list_all (\<lambda>f. stamped f \<longrightarrow> validTime (timeOf f)) out) \<Longrightarrow> opensTo c m ok out m'"
  unfolding opensTo_def by blast

lemma noticeJournalFor_put:
  assumes "noticeJournalFor a c m = (j, m1)"
  shows "putJournal c j (ndisk m1) m1 = m1"
  using assms by (auto simp: noticeJournalFor_def putJournal_def Let_def split: prod.splits option.splits)

text \<open>Changes that stamp nothing: of the checkpoints, the derivations and the sessions.\<close>

definition quietly :: "'r noticeJournal \<Rightarrow> 'r noticeJournal \<Rightarrow> bool" where
  "quietly j j' \<longleftrightarrow> jLoaded j' = jLoaded j \<and> jChat j' = jChat j \<and> jDir j' = jDir j \<and> jGeneration j' = jGeneration j
     \<and> jRetired j' = jRetired j \<and> jSeq j' = jSeq j \<and> jRing j' = jRing j
     \<and> (\<forall>k. jDerivations j k = Some True \<longrightarrow> jDerivations j' k = Some True)"

lemma quietly_advances: "quietly j j' \<Longrightarrow> advances j j' []"
  by (simp add: quietly_def advances_def)

lemma quietly_first: "quietly j j1 \<Longrightarrow> advances j1 j' out \<Longrightarrow> advances j j' out"
  by (auto simp: quietly_def advances_def appendRing_def)

lemma quietly_refl [simp]: "quietly j j"
  by (simp add: quietly_def)

lemma opensTo_look: "noticeJournalFor a c m = (j, m1) \<Longrightarrow> opensTo c m ok [] m1"
  by (rule opensToI [OF opened.looked noticeJournalFor_put [symmetric]])
    (auto simp: quietly_advances diskStep_def)

lemma opensTo_quiet:
  assumes "noticeJournalFor a c m = (j, m1)" and "quietly j j'" and "d = ndisk m1 \<or> (\<not> jRetired j \<and> (\<exists>os. d = persistLocked os j' (ndisk m1)))"
  shows "opensTo c m ok [] (putJournal c j' d m1)"
  using assms by (intro opensToI [OF opened.looked [OF assms(1)]]) (auto simp: quietly_advances diskStep_def quietly_def)

lemma opensTo_stamp:
  assumes "mInv m" and "noticeJournalFor a c m = (j, m1)" and "quietly j j1" and "stampNotice os now c j1 f (ndisk m1) = ((g, admitted), j', d')"
    and "ok \<Longrightarrow> validTime now \<and> (timeOf f = [] \<or> validTime (timeOf f))"
  shows "opensTo c m ok (if admitted then [g] else []) (putJournal c j' d' m1)"
proof -
  have "jChat j1 = c" using opened_spec [OF opened.looked [OF assms(2)] assms(1)] assms(1,3) by (auto simp: quietly_def mInv_def)
  with assms(4) have st: "stampNotice os now (jChat j1) j1 f (ndisk m1) = ((g, admitted), j', d')" by simp
  note sp = stampNotice_advances [OF st]
  show ?thesis
    using sp assms(5) by (intro opensToI [OF opened.looked [OF assms(2)] refl quietly_first [OF assms(3)]]) (auto simp: diskStep_def)
qed

lemma njStep_opens:
  assumes "mInv m" and "njStep digest e m = (out, m')" and "njChat e = Some c"
  shows "opensTo c m (njTimeOK e) out m'"
proof (cases e)
  case (NNotice os now a c' f)
  obtain j m1 where l: "noticeJournalFor a c m = (j, m1)" by (cases "noticeJournalFor a c m")
  obtain g ad j' d' where st: "stampNotice os now c j f (ndisk m1) = ((g, ad), j', d')" by (metis surj_pair)
  show ?thesis using opensTo_stamp [OF assms(1) l quietly_refl st, of "njTimeOK e"] assms(2,3) NNotice l st
    by (auto simp: publishNotice_def Let_def split: if_splits)
next
  case (NFanout os now a c' p)
  obtain j m1 where l: "noticeJournalFor a c m = (j, m1)" by (cases "noticeJournalFor a c m")
  obtain g ad j' d' where st: "stampNotice os now c j (noticeFrameOf c p) (ndisk m1) = ((g, ad), j', d')" by (metis surj_pair)
  show ?thesis using opensTo_stamp [OF assms(1) l quietly_refl st, of "njTimeOK e"] assms(2,3) NFanout l st
    by (auto simp: PublishNotice_def Let_def noticeFrameOf_def split: if_splits)
next
  case (NReplay a c' sess)
  obtain j m1 where l: "noticeJournalFor a c m = (j, m1)" by (cases "noticeJournalFor a c m")
  let ?j = "case sess of None \<Rightarrow> j | Some s \<Rightarrow> j\<lparr>jSessions := insert s (jSessions j)\<rparr>"
  have "quietly j ?j" by (simp add: quietly_def split: option.split)
  from opensTo_quiet [OF l this, of "ndisk m1"] opensTo_look [OF l] assms(2,3) NReplay l show ?thesis
    by (auto simp: withNoticeReplay_def Let_def split: if_splits)
next
  case (NUnregister c' sess)
  show ?thesis
  proof (cases "noticeJournals m c")
    case (Some j)
    have "opensTo c m (njTimeOK e) [] (putJournal c (j\<lparr>jSessions := jSessions j - {sess}\<rparr>) (ndisk m) m)"
      by (rule opensToI [OF opened.present [of m c, OF Some]]) (auto simp: quietly_advances quietly_def diskStep_def)
    with Some assms(2,3) NUnregister show ?thesis by (simp add: unregisterNoticeSession_def putJournal_def)
  qed (use assms NUnregister in \<open>simp add: unregisterNoticeSession_def opensTo_def\<close>)
next
  case (NRestore a s)
  obtain j m1 where l: "noticeJournalFor a c m = (j, m1)" by (cases "noticeJournalFor a c m")
  with opensTo_look [OF l] assms(2,3) NRestore show ?thesis
    by (auto simp: restoreTranscriptNoticesLocked_def split: option.splits)
next
  case (NCheckpoint os a s)
  obtain j m1 where l: "noticeJournalFor a c m = (j, m1)" by (cases "noticeJournalFor a c m")
  have q: "quietly j (j\<lparr>jTranscripts := t\<rparr>)" for t by (simp add: quietly_def)
  from opensTo_quiet [OF l q] opensTo_look [OF l] assms(2,3) NCheckpoint l show ?thesis
    by (auto simp: persistTranscriptNoticesLocked_def Let_def split: if_splits)
next
  case (NAdmit a kind identity s)
  obtain j m1 where l: "noticeJournalFor a c m = (j, m1)" by (cases "noticeJournalFor a c m")
  have q: "quietly j (j\<lparr>jDerivations := (jDerivations j)(k \<mapsto> True)\<rparr>)" for k by (simp add: quietly_def)
  from opensTo_quiet [OF l q] opensTo_look [OF l] assms(2,3) NAdmit l show ?thesis
    by (auto simp: admitTranscriptIdentityLocked_def Let_def split: if_splits)
next
  case (NOnce os now a key kind msg s)
  obtain j m1 where l: "noticeJournalFor a c m = (j, m1)" by (cases "noticeJournalFor a c m")
  let ?f = "noticeFrameOf (nsDurable s) (FMap [(''kind'', FStr kind), (''text'', FStr msg)])"
  have q: "quietly j (j\<lparr>jDerivations := (jDerivations j)(key \<mapsto> True)\<rparr>)" by (simp add: quietly_def)
  obtain g ad j' d' where st: "stampNotice os now c (j\<lparr>jDerivations := (jDerivations j)(key \<mapsto> True)\<rparr>) ?f (ndisk m1) = ((g, ad), j', d')"
    by (metis surj_pair)
  have "timeOf ?f = []" by (simp add: noticeFrameOf_def stringAt_def)
  with opensTo_stamp [OF assms(1) l q st, of "njTimeOK e"] opensTo_look [OF l] assms(2,3) NOnce l st show ?thesis
    by (auto simp: publishNoticeOnceLocked_def Let_def split: if_splits)
next
  case (NRetire ok c')
  obtain j where j: "(case noticeJournals m c of Some j \<Rightarrow> j
    | None \<Rightarrow> (newJournal c m)\<lparr>jGeneration := 0, jLoaded := True, jRetired := True\<rparr>) = j" by blast
  let ?j' = "j\<lparr>jRetired := True, jRing := [], jSessions := {}\<rparr>"
  let ?d = "if jDir j \<noteq> [] then snd (removeNoticeJournal ok (jDir j) (jChat j) (ndisk m)) else ndisk m"
  have o: "opened c m j m" using j by (cases "noticeJournals m c") (auto intro: opened.present opened.tombstone)
  have "advances j ?j' []" by (simp add: advances_def)
  moreover have "diskStep ?j' (ndisk m) ?d" by (auto simp: diskStep_def)
  moreover have "m' = putJournal c ?j' ?d m" "out = []" using assms(2,3) NRetire j
    by (cases "noticeJournals m c"; auto simp: retireJournal_def Let_def)+
  ultimately show ?thesis using opensToI [OF o refl, of ?j' "[]" ?d] by simp
qed (use assms in auto)

lemma opened_frame:
  assumes "opened c m j m1" and "mInv m"
  shows "noticeDir m1 = noticeDir m \<and> nidGeneration m1 = nidGeneration m \<and> (\<forall>c'. c' \<noteq> c \<longrightarrow> noticeJournals m1 c' = noticeJournals m c')
    \<and> (noticeJournals m c = Some j \<or> noticeJournals m c = None) \<and> jLoaded j \<and> jChat j = c \<and> jDir j = noticeDir m
    \<and> (\<not> jRetired j \<longrightarrow> jGeneration j = nidGeneration m) \<and> (jRetired j \<longrightarrow> jRing j = [])"
  using opened_spec [OF assms] assms(2) by (elim disjE exE conjE) (auto simp: mInv_def)

lemma advances_mInv:
  assumes "mInv m" and "opened c m j m1" and "advances j j' out"
  shows "mInv (putJournal c j' d m1) \<and> noticeDir m1 = noticeDir m \<and> nidGeneration m1 = nidGeneration m"
proof -
  note o = opened_frame [OF assms(2,1)]
  then have "jLoaded j' \<and> jChat j' = c \<and> jDir j' = noticeDir m \<and> (\<not> jRetired j' \<longrightarrow> jGeneration j' = nidGeneration m) \<and> (jRetired j' \<longrightarrow> jRing j' = [])"
    using assms(3) by (auto simp: advances_def)
  with o assms(1) show ?thesis by (auto simp: mInv_def)
qed

lemma mInv_new [simp]: "mInv (newManager dir gen d)"
  by (simp add: mInv_def newManager_def)

lemma njStep_mInv:
  assumes "mInv m" and "njStep digest e m = (out, m')"
  shows "mInv m' \<and> noticeDir m' = noticeDir m \<and> (njChat e \<noteq> None \<longrightarrow> nidGeneration m' = nidGeneration m)"
proof (cases "njChat e")
  case None
  then have "\<exists>g. e = NRestart g" by (cases e) auto
  with assms(2) show ?thesis by (auto simp: newManager_def mInv_def)
next
  case (Some c)
  from njStep_opens [OF assms Some] show ?thesis
    unfolding opensTo_def
  proof (elim disjE exE conjE)
    fix j m1 j' d assume o: "opened c m j m1" "m' = putJournal c j' d m1" "advances j j' out"
    from advances_mInv [OF assms(1) o(1,3), of d] o(2) show ?thesis by simp
  qed (use assms(1) in simp)
qed

subsection \<open>Identities are never issued twice\<close>

definition nidsOf :: "frame list \<Rightarrow> string list" where
  "nidsOf out = map nidOf (filter stamped out)"

text \<open>The identities of this process carry its generation and lie behind the sequence number, at most \<open>k\<close> back.\<close>

definition freshInv :: "'r nmanager \<Rightarrow> string set \<Rightarrow> int set \<Rightarrow> nat \<Rightarrow> bool" where
  "freshInv m nids gens k \<longleftrightarrow> mInv m \<and> nidGeneration m \<in> gens \<and> (\<forall>x \<in> nids. \<exists>c g n. x = nidText c g n \<and> g \<in> gens)
     \<and> (\<forall>c n. nidText c (nidGeneration m) n \<in> nids \<longrightarrow> (\<exists>j i. noticeJournals m c = Some j \<and> i < k \<and> n = jSeq j - of_nat i))"

lemma word_no_return:
  assumes "(n :: 64 word) + 1 = n - of_nat i" and "Suc i < 18446744073709551616"
  shows False
proof -
  have "of_nat (Suc i) = (0 :: 64 word)" using assms(1) by (simp add: algebra_simps)
  moreover have "unat (of_nat (Suc i) :: 64 word) = Suc i" using assms(2) by (subst unat_of_nat) simp
  ultimately show False by (metis nat.distinct(1) unat_0)
qed

lemma freshInv_opened:
  assumes "freshInv m nids gens k" and "opened c m j m1" and "nidText c (nidGeneration m) n \<in> nids"
  shows "\<exists>i < k. n = jSeq j - of_nat i"
  using assms opened_frame [OF assms(2)] unfolding freshInv_def by (metis option.distinct(1) option.inject)

lemma freshInv_put:
  assumes "freshInv m nids gens k" and "opened c m j m1" and "advances j j' out"
    and "nids \<subseteq> nids'" and "\<And>x. x \<in> nids' \<Longrightarrow> x \<in> nids \<or> x = nidText c (nidGeneration m) (jSeq j')"
    and "\<And>n. nidText c (nidGeneration m) n \<in> nids' \<Longrightarrow> \<exists>i < Suc k. n = jSeq j' - of_nat i"
  shows "freshInv (putJournal c j' d m1) nids' gens (Suc k)"
proof -
  have m: "mInv m" "nidGeneration m \<in> gens" using assms(1) by (simp_all add: freshInv_def)
  note fr = opened_frame [OF assms(2) m(1)] and inv = advances_mInv [OF m(1) assms(2,3), of d]
  have "\<exists>c g n. x = nidText c g n \<and> g \<in> gens" if "x \<in> nids'" for x
    using assms(5) [OF that] assms(1) m(2) unfolding freshInv_def by blast
  moreover have "\<exists>j i. noticeJournals (putJournal c j' d m1) b = Some j \<and> i < Suc k \<and> n = jSeq j - of_nat i"
    if "nidText b (nidGeneration m) n \<in> nids'" for b n
  proof (cases "b = c")
    case True
    with assms(6) that show ?thesis by auto
  next
    case False
    with assms(5) [OF that] have "nidText b (nidGeneration m) n \<in> nids" by (auto simp: nidText_inject)
    with assms(1) obtain jb i where "noticeJournals m b = Some jb" "i < k" "n = jSeq jb - of_nat i" unfolding freshInv_def by blast
    moreover have "noticeJournals (putJournal c j' d m1) b = noticeJournals m b" using False fr by simp
    ultimately show ?thesis by (metis less_SucI)
  qed
  ultimately show ?thesis using inv m fr by (simp add: freshInv_def)
qed

lemma fresh_step:
  assumes "freshInv m nids gens k" and "njStep digest e m = (out, m')" and "njChat e \<noteq> None" and "Suc k < 18446744073709551616"
  shows "distinct (nidsOf out) \<and> set (nidsOf out) \<inter> nids = {} \<and> freshInv m' (nids \<union> set (nidsOf out)) gens (Suc k)"
proof -
  have m: "mInv m" using assms(1) by (simp add: freshInv_def)
  obtain c where c: "njChat e = Some c" using assms(3) by blast
  from njStep_opens [OF m assms(2) c] show ?thesis
    unfolding opensTo_def
  proof (elim disjE exE conjE)
    assume "m' = m" "out = []"
    with assms(1) show ?thesis by (auto simp: freshInv_def nidsOf_def) (metis less_Suc_eq)
  next
    fix j m1 j' d assume o: "opened c m j m1" "m' = putJournal c j' d m1" "advances j j' out"
    note fr = opened_frame [OF o(1) m] and behind = freshInv_opened [OF assms(1) o(1)]
    from o(3) consider (quiet) "jSeq j' = jSeq j" "filter stamped out = []"
      | (stamp) f where "\<not> jRetired j" "jSeq j' = jSeq j + 1" "out = [f]" "stamped f" "nidOf f = nidText c (nidGeneration m) (jSeq j')"
      using fr by (auto simp: advances_def)
    then show ?thesis
    proof cases
      case quiet
      then have "nidsOf out = []" by (simp add: nidsOf_def)
      moreover have "freshInv m' nids gens (Suc k)"
        unfolding o(2) by (rule freshInv_put [OF assms(1) o(1,3)]) (use behind quiet(1) in \<open>auto simp: less_Suc_eq\<close>)
      ultimately show ?thesis by simp
    next
      case (stamp f)
      let ?x = "nidText c (nidGeneration m) (jSeq j')"
      have x: "nidsOf out = [?x]" using stamp by (simp add: nidsOf_def)
      have new: "?x \<notin> nids"
      proof
        assume "?x \<in> nids"
        from behind [OF this] obtain i where "i < k" "jSeq j + 1 = jSeq j - of_nat i" using stamp(2) by auto
        with assms(4) word_no_return [of "jSeq j" i] show False by simp
      qed
      have "freshInv m' (nids \<union> {?x}) gens (Suc k)"
        unfolding o(2)
      proof (rule freshInv_put [OF assms(1) o(1,3)])
        fix n assume "nidText c (nidGeneration m) n \<in> nids \<union> {?x}"
        then consider "n = jSeq j'" | "nidText c (nidGeneration m) n \<in> nids" by (auto simp: nidText_inject)
        then show "\<exists>i < Suc k. n = jSeq j' - of_nat i"
        proof cases
          case 1
          then show ?thesis by (intro exI [of _ 0]) simp
        next
          case 2
          from behind [OF this] obtain i where "i < k" "n = jSeq j - of_nat i" by blast
          with stamp(2) show ?thesis by (intro exI [of _ "Suc i"]) simp
        qed
      qed auto
      with x new show ?thesis by simp
    qed
  qed
qed

fun restarts :: "'r njEvent list \<Rightarrow> int list" where
  "restarts [] = []"
| "restarts (e # es) = (case e of NRestart g \<Rightarrow> [g] | _ \<Rightarrow> []) @ restarts es"

lemma fresh_run:
  assumes "freshInv m nids gens k" and "distinct (restarts es)" and "set (restarts es) \<inter> gens = {}"
    and "k + length es < 18446744073709551616"
  shows "distinct (nidsOf (fst (njRun digest es m))) \<and> set (nidsOf (fst (njRun digest es m))) \<inter> nids = {}"
  using assms
proof (induction es arbitrary: m nids gens k)
  case (Cons e es)
  obtain out m' where st: "njStep digest e m = (out, m')" by (cases "njStep digest e m")
  have app: "nidsOf (fst (njRun digest (e # es) m)) = nidsOf out @ nidsOf (fst (njRun digest es m'))"
    by (simp add: st nidsOf_def split: prod.split)
  show ?case
  proof (cases "njChat e")
    case None
    then obtain g where e: "e = NRestart g" by (cases e) auto
    have "freshInv m' nids (insert g gens) (Suc k)"
      using Cons.prems(1,3) st e by (auto simp: freshInv_def newManager_def mInv_def nidText_inject)
    from Cons.IH [OF this] Cons.prems(2-4) e st app show ?thesis by (auto simp: nidsOf_def)
  next
    case (Some c)
    then have r: "restarts (e # es) = restarts es" by (cases e) auto
    from fresh_step [OF Cons.prems(1) st] Some Cons.prems(4)
    have s: "distinct (nidsOf out)" "set (nidsOf out) \<inter> nids = {}" "freshInv m' (nids \<union> set (nidsOf out)) gens (Suc k)" by auto
    from Cons.IH [OF s(3)] Cons.prems(2-4) r s(1,2) app show ?thesis by auto
  qed
qed (simp add: nidsOf_def)

text \<open>
  C20: The identities of the notices handed to subscribers never repeat: not within one server process,
  not across restarts onto the same or any other content of the notice directory, not between
  chats, whatever writes fail, provided no two processes have the same generation and fewer than
  2^64 operations happen.
\<close>

theorem notice_nids_unique:
  assumes "distinct (gen # restarts evs)" and "length evs < 18446744073709551616"
  shows "distinct (nidsOf (fst (njRun digest evs (newManager dir gen d))))"
proof -
  have "freshInv (newManager dir gen d) {} {gen} 0" by (simp add: freshInv_def) (simp add: newManager_def)
  from fresh_run [OF this, of evs digest] assms show ?thesis by auto
qed

subsection \<open>A retired journal is silent\<close>

lemma njRun_snd [simp]: "snd (njRun digest (e # es) m) = snd (njRun digest es (snd (njStep digest e m)))"
  by (simp split: prod.split)

declare njRun.simps(2) [simp del]

lemma njRun_mInv:
  "mInv m \<Longrightarrow> mInv (snd (njRun digest es m)) \<and> noticeDir (snd (njRun digest es m)) = noticeDir m"
proof (induction es arbitrary: m)
  case (Cons e es)
  obtain out m' where st: "njStep digest e m = (out, m')" by (cases "njStep digest e m")
  from njStep_mInv [OF Cons.prems st] Cons.IH [of m'] st show ?case by simp
qed simp

lemma split_whole: "splitSlash p = [e] \<Longrightarrow> p = e"
  by (induction p arbitrary: e) (auto split: if_splits list.splits)

lemma split_ends: "\<exists>x. p = x @ last (splitSlash p)"
proof (induction p)
  case (Cons c p)
  then obtain x where x: "p = x @ last (splitSlash p)" by blast
  show ?case
  proof (cases "c = slash \<or> tl (splitSlash p) \<noteq> []")
    case True
    then have "last (splitSlash (c # p)) = last (splitSlash p)"
      by (cases "splitSlash p") (auto simp: last_ConsR)
    with x show ?thesis by (intro exI [of _ "c # x"]) simp
  next
    case False
    then obtain e where "splitSlash p = [e]" by (cases "splitSlash p") auto
    with False split_whole [OF this] show ?thesis by (intro exI [of _ "[]"]) simp
  qed
qed simp

lemma journalPath_last: "dir \<noteq> [] \<Longrightarrow> slash \<notin> set c \<Longrightarrow> last (splitSlash (noticeJournalPath dir c)) = c @ ''.json''"
  unfolding noticeJournalPath_def by (rule last_split_Join) (auto simp: plainElem_def)

lemma journalPath_inject:
  "dir \<noteq> [] \<Longrightarrow> slash \<notin> set c \<Longrightarrow> slash \<notin> set b \<Longrightarrow> noticeJournalPath dir c = noticeJournalPath dir b \<longleftrightarrow> c = b"
  by (metis append_same_eq journalPath_last)

lemma natText_last: "isDigit (last (natText n))"
  using natText_digits [of n] last_in_set [OF natText_ne [of n]] by (simp add: list_all_iff)

lemma aside_path:
  assumes "dir \<noteq> []" and "slash \<notin> set c"
  shows "noticeJournalPath dir c \<noteq> q @ ''.corrupt-'' @ signedText t"
proof
  assume "noticeJournalPath dir c = q @ ''.corrupt-'' @ signedText t"
  moreover obtain x where "noticeJournalPath dir c = x @ c @ ''.json''"
    using split_ends [of "noticeJournalPath dir c"] journalPath_last [OF assms] by auto
  ultimately have "last (x @ c @ ''.json'') = last (q @ ''.corrupt-'' @ signedText t)" by metis
  moreover have "isDigit (last (signedText t))" "signedText t \<noteq> []"
    using natText_last by (auto simp: signedText_def)
  moreover have "\<not> isDigit CHR ''n''" by (simp add: isDigit_code)
  ultimately show False by auto
qed

lemma persist_elsewhere:
  "p \<noteq> noticeJournalPath (jDir j) (jChat j) \<Longrightarrow> paths (persistLocked os j d) p = paths d p"
  by (simp add: persistLocked_def saveNoticeJournal_def Let_def split: prod.split)

lemma remove_elsewhere:
  "p \<noteq> noticeJournalPath dir c \<Longrightarrow> paths (snd (removeNoticeJournal ok dir c d)) p = paths d p"
  by (simp add: removeNoticeJournal_def Let_def)

lemma remove_there: "paths (snd (removeNoticeJournal ok dir c d)) p = paths d p \<or> paths (snd (removeNoticeJournal ok dir c d)) p = Missing"
  by (simp add: removeNoticeJournal_def Let_def)

lemma remove_reported:
  "fst (removeNoticeJournal ok dir c d) \<Longrightarrow> paths (snd (removeNoticeJournal ok dir c d)) (noticeJournalPath dir c) = Missing"
  by (auto simp: removeNoticeJournal_def Let_def split: if_splits)

lemma load_elsewhere:
  assumes "ensureLoaded a (newJournal b m) d = (j, d')" and "p \<noteq> noticeJournalPath (noticeDir m) b"
    and "\<And>q t. p \<noteq> q @ ''.corrupt-'' @ signedText t"
  shows "paths d' p = paths d p"
  using assms(1,2) assms(3) [of "noticeJournalPath (noticeDir m) b" "snd a"]
  by (auto simp: ensureLoaded_def newJournal_def loadNoticeJournal_def quarantineNoticeJournal_def Let_def
      split: if_splits content.splits option.splits prod.splits)

definition silent :: "string \<Rightarrow> 'r nmanager \<Rightarrow> bool" where
  "silent c m \<longleftrightarrow> mInv m \<and> (\<exists>j. noticeJournals m c = Some j \<and> jRetired j)"

lemma opened_silent:
  "silent c m \<Longrightarrow> opened c m j m1 \<Longrightarrow> noticeJournals m c = Some j \<and> jRetired j \<and> m1 = m"
  using opened_spec [of c m j m1] by (auto simp: silent_def)

lemma silent_own:
  assumes "silent c m" and "njStep digest e m = (out, m')" and "njChat e = Some c"
  shows "out = [] \<and> silent c m' \<and> (\<forall>p. paths (ndisk m') p = paths (ndisk m) p \<or> paths (ndisk m') p = Missing)"
proof -
  have m: "mInv m" using assms(1) by (simp add: silent_def)
  from njStep_opens [OF m assms(2,3)] show ?thesis
    unfolding opensTo_def
  proof (elim disjE exE conjE)
    fix j m1 j' d assume o: "opened c m j m1" "m' = putJournal c j' d m1" "advances j j' out" "diskStep j' (ndisk m1) d"
    note j = opened_silent [OF assms(1) o(1)]
    with o(3) have "jRetired j'" "out = []" by (auto simp: advances_def)
    moreover from this(1) o(4) j remove_there have "paths d p = paths (ndisk m) p \<or> paths d p = Missing" for p
      unfolding diskStep_def by blast
    ultimately show ?thesis using advances_mInv [OF m o(1,3), of d] o(2) by (simp add: silent_def)
  qed (use assms(1) in simp)
qed

lemma silent_other:
  assumes "silent c m" and "njStep digest e m = (out, m')" and "njChat e = Some b" and "b \<noteq> c"
  shows "silent c m' \<and> (noticeDir m \<noteq> [] \<and> slash \<notin> set c \<and> slash \<notin> set b \<longrightarrow>
     paths (ndisk m') (noticeJournalPath (noticeDir m) c) = paths (ndisk m) (noticeJournalPath (noticeDir m) c))"
proof -
  have m: "mInv m" using assms(1) by (simp add: silent_def)
  from njStep_opens [OF m assms(2,3)] show ?thesis
    unfolding opensTo_def
  proof (elim disjE exE conjE)
    fix j m1 j' d assume o: "opened b m j m1" "m' = putJournal b j' d m1" "advances j j' out" "diskStep j' (ndisk m1) d"
    note fr = opened_frame [OF o(1) m]
    have "paths d p = paths (ndisk m) p"
      if plain: "noticeDir m \<noteq> []" "slash \<notin> set c" "slash \<notin> set b" and p: "p = noticeJournalPath (noticeDir m) c" for p
    proof -
      have ne: "p \<noteq> noticeJournalPath (noticeDir m) b" using journalPath_inject plain assms(4) by (auto simp: p)
      have "jDir j' = noticeDir m" "jChat j' = b" using o(3) fr by (simp_all add: advances_def)
      with o(4) ne persist_elsewhere [of p j'] remove_elsewhere [of p "noticeDir m" b] have "paths d p = paths (ndisk m1) p"
        unfolding diskStep_def by metis
      moreover from opened_spec [OF o(1) m] have "paths (ndisk m1) p = paths (ndisk m) p"
      proof (elim disjE exE conjE)
        fix a d1 assume "ensureLoaded a (newJournal b m) (ndisk m) = (j, d1)" "m1 = putJournal b j d1 m"
        with load_elsewhere [OF this(1) ne] aside_path [OF plain(1,2)] show ?thesis by (simp add: p)
      qed simp_all
      ultimately show ?thesis by simp
    qed
    moreover have "noticeJournals m1 c = noticeJournals m c" using fr assms(4) by simp
    then have "silent c (putJournal b j' d m1)"
      using advances_mInv [OF m o(1,3), of d] assms(1,4) by (simp add: silent_def)
    ultimately show ?thesis by (simp add: o(2))
  qed (use assms(1) in simp)
qed

definition plainChats :: "'r njEvent list \<Rightarrow> bool" where
  "plainChats es \<longleftrightarrow> list_all (\<lambda>e. case njChat e of Some c \<Rightarrow> slash \<notin> set c | None \<Rightarrow> True) es"

lemma silent_run:
  assumes "silent c m" and "list_all (\<lambda>e. njChat e \<noteq> None) es"
  shows "silent c (snd (njRun digest es m)) \<and>
    (noticeDir m \<noteq> [] \<and> slash \<notin> set c \<and> plainChats es \<and> paths (ndisk m) (noticeJournalPath (noticeDir m) c) = Missing \<longrightarrow>
       paths (ndisk (snd (njRun digest es m))) (noticeJournalPath (noticeDir m) c) = Missing)"
  using assms
proof (induction es arbitrary: m)
  case (Cons e es)
  obtain out m' where st: "njStep digest e m = (out, m')" by (cases "njStep digest e m")
  obtain b where b: "njChat e = Some b" using Cons.prems(2) by auto
  have dir: "noticeDir m' = noticeDir m" using njStep_mInv [OF _ st] Cons.prems(1) by (simp add: silent_def)
  have s: "silent c m' \<and> (noticeDir m \<noteq> [] \<and> slash \<notin> set c \<and> slash \<notin> set b \<and> paths (ndisk m) (noticeJournalPath (noticeDir m) c) = Missing
      \<longrightarrow> paths (ndisk m') (noticeJournalPath (noticeDir m) c) = Missing)"
    using silent_own [OF Cons.prems(1) st] silent_other [OF Cons.prems(1) st b] b by (cases "b = c") (auto, metis)
  with Cons.IH [of m'] Cons.prems(2) st b dir show ?case by (auto simp: plainChats_def)
qed simp

lemma history_mInv: "mInv (snd (njRun digest es (newManager dir gen d))) \<and> noticeDir (snd (njRun digest es (newManager dir gen d))) = dir"
  using njRun_mInv [OF mInv_new, of digest es dir gen d] by (simp add: newManager_def)

lemma retire_silent:
  assumes "mInv m"
  shows "silent c (retireJournal ok c m) \<and> noticeDir (retireJournal ok c m) = noticeDir m
    \<and> (noticeDir m \<noteq> [] \<longrightarrow> ndisk (retireJournal ok c m) = snd (removeNoticeJournal ok (noticeDir m) c (ndisk m)))"
proof -
  obtain digest :: "string \<Rightarrow> string" where "njStep digest (NRetire ok c) m = ([], retireJournal ok c m)" by simp
  from njStep_mInv [OF assms this] have inv: "mInv (retireJournal ok c m)" "noticeDir (retireJournal ok c m) = noticeDir m" by simp_all
  have "\<exists>j. noticeJournals (retireJournal ok c m) c = Some j \<and> jRetired j"
    by (simp add: retireJournal_def Let_def)
  moreover have "ndisk (retireJournal ok c m) = snd (removeNoticeJournal ok (noticeDir m) c (ndisk m))" if "noticeDir m \<noteq> []"
  proof (cases "noticeJournals m c")
    case None
    with that show ?thesis by (simp add: retireJournal_def Let_def newJournal_def)
  next
    case (Some j)
    with assms have "jDir j = noticeDir m" "jChat j = c" by (simp_all add: mInv_def)
    with Some that show ?thesis by (simp add: retireJournal_def Let_def)
  qed
  ultimately show ?thesis using inv by (simp add: silent_def)
qed

lemma silent_replay:
  assumes "silent c m"
  shows "fst (noticeReplay a c m) = []"
proof -
  from assms obtain j where "noticeJournals m c = Some j" "jRetired j" "mInv m" by (auto simp: silent_def)
  with noticeJournalFor_present [of m c j a] show ?thesis by (simp add: noticeReplay_def withNoticeReplay_def)
qed

text \<open>
  C36: Retiring the journal of a deleted chat is final for the server process. Whatever operations on
  whatever chats follow, including publishers that still hold the journal, no operation on the chat
  hands a notice to anyone and a replay is empty; and when the file was removed it never comes back,
  as long as chat names are plain file names.
\<close>

theorem notice_retired_silent:
  assumes "m0 = snd (njRun digest evs0 (newManager dir gen d))" and "list_all (\<lambda>e. njChat e \<noteq> None) evs"
    and "m = snd (njRun digest evs (retireJournal ok c m0))" and "njChat e = Some c"
  shows "fst (njStep digest e m) = [] \<and> fst (noticeReplay a c m) = []
    \<and> (dir \<noteq> [] \<and> slash \<notin> set c \<and> plainChats evs \<and> fst (removeNoticeJournal ok dir c (ndisk m0))
         \<longrightarrow> paths (ndisk m) (noticeJournalPath dir c) = Missing)"
proof -
  have m0: "mInv m0" "noticeDir m0 = dir" using history_mInv [of digest evs0 dir gen d] assms(1) by simp_all
  note r = retire_silent [OF m0(1), of c ok]
  from silent_run [OF _ assms(2), of c "retireJournal ok c m0" digest] r m0(2) have m: "silent c m"
    "dir \<noteq> [] \<and> slash \<notin> set c \<and> plainChats evs \<and> paths (ndisk (retireJournal ok c m0)) (noticeJournalPath dir c) = Missing
       \<longrightarrow> paths (ndisk m) (noticeJournalPath dir c) = Missing" by (auto simp: assms(3))
  have "fst (removeNoticeJournal ok dir c (ndisk m0)) \<Longrightarrow> dir \<noteq> [] \<Longrightarrow>
      paths (ndisk (retireJournal ok c m0)) (noticeJournalPath dir c) = Missing"
    using r m0(2) remove_reported by simp
  moreover have "fst (njStep digest e m) = []"
    using silent_own [OF m(1) _ assms(4), of digest "fst (njStep digest e m)"] by (metis prod.collapse)
  ultimately show ?thesis using m silent_replay by blast
qed

subsection \<open>A derived notice is published once\<close>

definition derived :: "string \<Rightarrow> string \<Rightarrow> 'r nmanager \<Rightarrow> bool" where
  "derived c key m \<longleftrightarrow> mInv m \<and> (\<exists>j. noticeJournals m c = Some j \<and> (jRetired j \<or> jDerivations j key = Some True))"

lemma derived_step:
  assumes "derived c key m" and "njStep digest e m = (out, m')" and "njChat e = Some b"
  shows "derived c key m'"
proof -
  have m: "mInv m" using assms(1) by (simp add: derived_def)
  from njStep_opens [OF m assms(2,3)] show ?thesis
    unfolding opensTo_def
  proof (elim disjE exE conjE)
    fix j m1 j' d assume o: "opened b m j m1" "m' = putJournal b j' d m1" "advances j j' out"
    note fr = opened_frame [OF o(1) m]
    have "\<exists>j. noticeJournals m' c = Some j \<and> (jRetired j \<or> jDerivations j key = Some True)"
    proof (cases "b = c")
      case True
      with assms(1) fr have "jRetired j \<or> jDerivations j key = Some True" by (auto simp: derived_def)
      with o(3) True show ?thesis unfolding o(2) advances_def by auto
    next
      case False
      with assms(1) fr show ?thesis by (auto simp: o(2) derived_def)
    qed
    with advances_mInv [OF m o(1,3), of d] show ?thesis by (simp add: derived_def o(2))
  qed (use assms(1) in simp)
qed

lemma derived_run: "derived c key m \<Longrightarrow> list_all (\<lambda>e. njChat e \<noteq> None) es \<Longrightarrow> derived c key (snd (njRun digest es m))"
proof (induction es arbitrary: m)
  case (Cons e es)
  obtain out m' where st: "njStep digest e m = (out, m')" by (cases "njStep digest e m")
  from Cons.prems(2) obtain b where "njChat e = Some b" by auto
  from Cons.IH [OF derived_step [OF Cons.prems(1) st this]] Cons.prems(2) st show ?case by simp
qed simp

lemma once_derived:
  assumes "mInv m" and "publishNoticeOnceLocked os now a key kind msg s m = (r, m1)"
  shows "derived (nsChat s) key m1"
proof -
  let ?c = "nsChat s"
  obtain j m2 where l: "noticeJournalFor a ?c m = (j, m2)" by (cases "noticeJournalFor a ?c m")
  let ?j = "j\<lparr>jDerivations := (jDerivations j)(key \<mapsto> True)\<rparr>"
  let ?f = "noticeFrameOf (nsDurable s) (FMap [(''kind'', FStr kind), (''text'', FStr msg)])"
  obtain g ad j' d' where st: "stampNotice os now ?c ?j ?f (ndisk m2) = ((g, ad), j', d')" by (metis surj_pair)
  have "jChat ?j = ?c" using opened_frame [OF opened.looked [OF l] assms(1)] by simp
  with st stampNotice_advances [of os now ?j ?f "ndisk m2" g ad j' d'] have k: "jDerivations j' key = Some True"
    by (auto simp: advances_def)
  have "njStep (\<lambda>x. x) (NOnce os now a key kind msg s) m = (case r of Some x \<Rightarrow> [x] | None \<Rightarrow> [], m1)" using assms(2) by simp
  from njStep_mInv [OF assms(1) this] have "mInv m1" by simp
  moreover have "\<exists>j. noticeJournals m1 ?c = Some j \<and> (jRetired j \<or> jDerivations j key = Some True)"
  proof (cases "jRetired j \<or> jDerivations j key = Some True")
    case True
    with assms(2) l have "m1 = m2" by (simp add: publishNoticeOnceLocked_def)
    moreover have "noticeJournals m2 ?c = Some j" using noticeJournalFor_put [OF l] by (metis fun_upd_same putJournal_simps(1))
    ultimately show ?thesis using True by blast
  next
    case False
    with assms(2) l st have "m1 = putJournal ?c j' d' m2" by (simp add: publishNoticeOnceLocked_def Let_def)
    with k show ?thesis by simp
  qed
  ultimately show ?thesis by (simp add: derived_def)
qed

lemma derived_none:
  assumes "derived c key m" and "nsChat s = c"
  shows "fst (publishNoticeOnceLocked os now a key kind msg s m) = None"
proof -
  from assms(1) obtain j where "noticeJournals m c = Some j" "mInv m" "jRetired j \<or> jDerivations j key = Some True"
    by (auto simp: derived_def)
  with noticeJournalFor_present [of m c j a] assms(2) show ?thesis by (simp add: publishNoticeOnceLocked_def)
qed

text \<open>
  A notice derived from a session file under a key is published at most once by a server process:
  after the first attempt, whatever operations follow on whatever chats, the same key of the same chat
  never publishes again.
\<close>

theorem notice_derived_once:
  assumes "m = snd (njRun digest evs0 (newManager dir gen d))" and "publishNoticeOnceLocked os now a key kind msg s m = (r, m1)"
    and "list_all (\<lambda>e. njChat e \<noteq> None) evs" and "nsChat s' = nsChat s"
  shows "fst (publishNoticeOnceLocked os' now' a' key kind' msg' s' (snd (njRun digest evs m1))) = None"
proof -
  have "mInv m" using history_mInv [of digest evs0 dir gen d] assms(1) by simp
  from derived_run [OF once_derived [OF this assms(2)] assms(3)] show ?thesis by (rule derived_none) (rule assms(4))
qed

subsection \<open>A restarted process replays what was written\<close>

definition entryNID :: "persistedNotice \<Rightarrow> string" where
  "entryNID e = stringAt ''nid'' (FMap (pnData e))"

lemma validate_weaken:
  assumes "validateEntries c i seen prev es = Inr t" and "set seen' \<subseteq> set seen" and "prev' \<le> prev" and "0 < i' \<Longrightarrow> 0 < i"
  shows "validateEntries c i' seen' prev' es = Inr (if es = [] then prev' else t)"
  using assms
proof (induction es arbitrary: i seen prev i' seen' prev')
  case (Cons e es)
  obtain tl' where e: "stringAt ''nid'' (FMap (pnData e)) \<noteq> []" "take (Suc (length c)) (stringAt ''nid'' (FMap (pnData e))) = c @ '':''"
      "noticeNIDTail (stringAt ''nid'' (FMap (pnData e))) = Some tl'" "stringAt ''nid'' (FMap (pnData e)) \<notin> set seen" "0 < i \<Longrightarrow> prev < tl'"
      "stringAt ''at'' (FMap (pnData e)) \<noteq> []" "validTime (stringAt ''at'' (FMap (pnData e)))"
      and r: "validateEntries c (Suc i) (stringAt ''nid'' (FMap (pnData e)) # seen) tl' es = Inr t"
    using Cons.prems(1) by (auto simp: Let_def not_le split: if_splits option.splits)
  have "validateEntries c (Suc i') (stringAt ''nid'' (FMap (pnData e)) # seen') tl' es = Inr (if es = [] then tl' else t)"
    by (rule Cons.IH [OF r]) (use Cons.prems(2) in auto)
  moreover have "es = [] \<Longrightarrow> t = tl'" using r by simp
  moreover have "0 < i' \<Longrightarrow> prev' < tl'" using e(5) Cons.prems(3,4) by fastforce
  ultimately show ?case using e Cons.prems(2) by (auto simp: Let_def not_le)
qed simp

lemma validate_tails:
  assumes "validateEntries c i seen prev es = Inr t"
  shows "(0 < i \<longrightarrow> prev \<le> t) \<and> (\<forall>e \<in> set es. \<exists>k \<le> t. noticeNIDTail (entryNID e) = Some k)"
  using assms
proof (induction es arbitrary: i seen prev)
  case (Cons e es)
  obtain tl' where "noticeNIDTail (entryNID e) = Some tl'" "0 < i \<longrightarrow> prev < tl'"
      and r: "validateEntries c (Suc i) (stringAt ''nid'' (FMap (pnData e)) # seen) tl' es = Inr t"
    using Cons.prems by (auto simp: Let_def not_le entryNID_def split: if_splits option.splits)
  with Cons.IH [OF r] show ?case by auto
qed simp

lemma validate_snoc:
  assumes "validateEntries c i seen prev es = Inr t" and "entryNID e \<noteq> []" and "take (Suc (length c)) (entryNID e) = c @ '':''"
    and "noticeNIDTail (entryNID e) = Some k" and "entryNID e \<notin> set seen \<union> entryNID ` set es" and "0 < i \<or> es \<noteq> [] \<Longrightarrow> t < k"
    and "validTime (stringAt ''at'' (FMap (pnData e)))"
  shows "validateEntries c i seen prev (es @ [e]) = Inr k"
  using assms
proof (induction es arbitrary: i seen prev)
  case Nil
  moreover have "stringAt ''at'' (FMap (pnData e)) \<noteq> []" using assms(7) by (auto simp: validTime_def num2_def)
  ultimately show ?case by (auto simp: Let_def entryNID_def not_le)
next
  case (Cons x es)
  obtain tl' where x: "stringAt ''nid'' (FMap (pnData x)) \<noteq> []" "take (Suc (length c)) (stringAt ''nid'' (FMap (pnData x))) = c @ '':''"
      "noticeNIDTail (stringAt ''nid'' (FMap (pnData x))) = Some tl'" "stringAt ''nid'' (FMap (pnData x)) \<notin> set seen" "0 < i \<Longrightarrow> prev < tl'"
      "stringAt ''at'' (FMap (pnData x)) \<noteq> []" "validTime (stringAt ''at'' (FMap (pnData x)))"
      and r: "validateEntries c (Suc i) (stringAt ''nid'' (FMap (pnData x)) # seen) tl' es = Inr t"
    using Cons.prems(1) by (auto simp: Let_def not_le split: if_splits option.splits)
  have "validateEntries c (Suc i) (stringAt ''nid'' (FMap (pnData x)) # seen) tl' (es @ [e]) = Inr k"
    by (rule Cons.IH [OF r Cons.prems(2-4)]) (use Cons.prems(5-7) in \<open>auto simp: entryNID_def\<close>)
  with x show ?case by (auto simp: Let_def not_le)
qed

definition ringOK :: "'r noticeJournal \<Rightarrow> bool" where
  "ringOK j \<longleftrightarrow> length (jRing j) \<le> NoticeJournalCapacity \<and> list_all stamped (jRing j)
     \<and> (\<exists>t. validateEntries (jChat j) 0 [] 0 (map persistedView (jRing j)) = Inr t \<and> t \<le> unat (jSeq j))"

lemma entryNID_view: "stamped f \<Longrightarrow> entryNID (persistedView f) = nidOf f"
  and timeOf_view: "stamped f \<Longrightarrow> stringAt ''at'' (FMap (pnData (persistedView f))) = timeOf f"
  by (auto simp: entryNID_def persistedView_def stamped_def split: fdata.splits)

lemma ringOK_stamp:
  assumes "ringOK j" and "stamped f" and "nidOf f = nidText (jChat j) g (jSeq j + 1)" and "validTime (timeOf f)"
    and "unat (jSeq j) + 1 < 18446744073709551616" and "jSeq j' = jSeq j + 1" and "jChat j' = jChat j" and "jRing j' = jRing (appendRing f j)"
  shows "ringOK j'"
proof -
  have sq: "unat (jSeq j') = unat (jSeq j) + 1" using assms(5) by (simp add: assms(6) unat_word_ariths)
  obtain t where t: "validateEntries (jChat j) 0 [] 0 (map persistedView (jRing j)) = Inr t" "t \<le> unat (jSeq j)"
    using assms(1) by (auto simp: ringOK_def)
  have ok: "validateEntries (jChat j) 0 [] 0 (map persistedView (fs @ [f])) = Inr (unat (jSeq j'))"
    if v: "validateEntries (jChat j) 0 [] 0 (map persistedView fs) = Inr u" "u \<le> unat (jSeq j)" for fs u
  proof -
    have nid: "entryNID (persistedView f) = nidText (jChat j) g (jSeq j')" using assms(2,3,6) by (simp add: entryNID_view)
    then have k: "noticeNIDTail (entryNID (persistedView f)) = Some (unat (jSeq j'))" by (simp add: nidText_tail)
    have "entryNID (persistedView f) \<notin> entryNID ` set (map persistedView fs)"
    proof
      assume "entryNID (persistedView f) \<in> entryNID ` set (map persistedView fs)"
      then obtain e where "e \<in> set (map persistedView fs)" "entryNID (persistedView f) = entryNID e" by (rule imageE)
      with validate_tails [OF v(1)] k v(2) sq show False by fastforce
    qed
    then have "validateEntries (jChat j) 0 [] 0 (map persistedView fs @ [persistedView f]) = Inr (unat (jSeq j'))"
      using nid v(2) sq assms(2,4) by (intro validate_snoc [OF v(1) _ _ k]) (auto simp: nidText_prefix nidText_def timeOf_view)
    then show ?thesis by simp
  qed
  show ?thesis
  proof (cases "length (jRing j) = NoticeJournalCapacity")
    case True
    then obtain x xs where ring: "jRing j = x # xs" by (cases "jRing j") (auto simp: NoticeJournalCapacity_def)
    have "\<exists>u \<le> unat (jSeq j). validateEntries (jChat j) 0 [] 0 (map persistedView xs) = Inr u"
    proof -
      from t(1) obtain i' s' p' where "validateEntries (jChat j) i' s' p' (map persistedView xs) = Inr t"
        by (auto simp: ring Let_def split: if_splits option.splits)
      from validate_weaken [OF this, of "[]" 0 0] t(2) show ?thesis by auto
    qed
    with ok [of xs] True assms(1,2,7,8) show ?thesis by (auto simp: ringOK_def appendRing_def ring)
  next
    case False
    with ok [OF t] assms(1,2,7,8) show ?thesis by (auto simp: ringOK_def appendRing_def)
  qed
qed

lemma view_replayed [simp]: "persistedView (replayedView e) = e" "stamped (replayedView e)"
  by (simp_all add: persistedView_def replayedView_def stamped_def)

lemma validate_state:
  "validateNoticeJournalState c st = None \<longleftrightarrow> length (psEntries st) \<le> NoticeJournalCapacity
     \<and> (\<exists>t. validateEntries c 0 [] 0 (psEntries st) = Inr t \<and> t \<le> unat (psSeq st))"
  by (auto simp: validateNoticeJournalState_def split: sum.splits)

lemma ringOK_valid: "ringOK j \<Longrightarrow> validateNoticeJournalState (jChat j) (journalState j) = None"
  by (auto simp: ringOK_def validate_state journalState_def)

lemma ringOK_loaded:
  assumes "ensureLoaded a (newJournal c m) d = (j, d')"
  shows "ringOK j \<and> (jSeq j = 0 \<or> (\<exists>p st. paths d p = Doc st \<and> psSeq st = jSeq j))
    \<and> (\<forall>p st. paths d' p = Doc st \<longrightarrow> (\<exists>q. paths d q = Doc st))"
proof -
  have empty: "ringOK (newJournal c m\<lparr>jLoaded := True\<rparr>)" "ringOK (newJournal c m\<lparr>jLoaded := True, jSeq := 0, jDerivations := Map.empty,
      jTranscripts := Map.empty, jRing := []\<rparr>)" by (simp_all add: ringOK_def newJournal_def)
  show ?thesis
  proof (cases "noticeDir m = []")
    case True
    with assms empty show ?thesis by (auto simp: ensureLoaded_def newJournal_def)
  next
    case False
    obtain st d1 where l: "loadNoticeJournal a (noticeDir m) c d = (st, d1)" by (metis surj_pair)
    with False assms have j: "j = newJournal c m\<lparr>jLoaded := True, jSeq := psSeq st, jDerivations := psDerivations st,
        jTranscripts := psTranscripts st, jRing := map replayedView (psEntries st)\<rparr>" "d' = d1"
      by (auto simp: ensureLoaded_def newJournal_def)
    have "(st = emptyPersisted \<or> validateNoticeJournalState c st = None \<and> paths d (noticeJournalPath (noticeDir m) c) = Doc st)
        \<and> (\<forall>p x. paths d1 p = Doc x \<longrightarrow> (\<exists>q. paths d q = Doc x))"
      using l by (auto simp: loadNoticeJournal_def quarantineNoticeJournal_def Let_def split: content.splits option.splits if_splits)
    then show ?thesis unfolding j
      by (auto simp: ringOK_def validate_state newJournal_def emptyPersisted_def comp_def list_all_iff)
  qed
qed

definition boundInv :: "'r nmanager \<Rightarrow> nat \<Rightarrow> bool" where
  "boundInv m B \<longleftrightarrow> mInv m \<and> (\<forall>c j. noticeJournals m c = Some j \<longrightarrow> ringOK j \<and> unat (jSeq j) \<le> B)
     \<and> (\<forall>p st. paths (ndisk m) p = Doc st \<longrightarrow> unat (psSeq st) \<le> B)"

lemma boundInv_opened:
  assumes "boundInv m B" and "opened c m j m1"
  shows "ringOK j \<and> unat (jSeq j) \<le> B \<and> (\<forall>p st. paths (ndisk m1) p = Doc st \<longrightarrow> unat (psSeq st) \<le> B)"
proof -
  have m: "mInv m" using assms(1) by (simp add: boundInv_def)
  from opened_spec [OF assms(2) m] show ?thesis
  proof (elim disjE exE conjE)
    assume "jRing j = []" "jSeq j = 0" "m1 = m"
    with assms(1) show ?thesis by (simp add: boundInv_def ringOK_def)
  next
    fix a d assume l: "ensureLoaded a (newJournal c m) (ndisk m) = (j, d)" and m1: "m1 = putJournal c j d m"
    from ringOK_loaded [OF l] assms(1) m1 show ?thesis unfolding boundInv_def by (metis putJournal_simps(2) le0 unat_0)
  qed (use assms(1) in \<open>simp add: boundInv_def\<close>)
qed

lemma persist_docs: "paths (persistLocked os j d) p = Doc st \<Longrightarrow> paths d p = Doc st \<or> st = journalState j"
proof -
  assume a: "paths (persistLocked os j d) p = Doc st"
  let ?f = "noticeInstall os (journalState j) \<lparr>target = paths d (noticeJournalPath (jDir j) (jChat j)), temps = leftover d\<rparr>"
  from a notice_file.old_or_new [of os "journalState j" "\<lparr>target = paths d (noticeJournalPath (jDir j) (jChat j)), temps = leftover d\<rparr>"]
  show ?thesis
    by (cases ?f) (auto simp: persistLocked_def saveNoticeJournal_def Let_def split: if_splits)
qed

lemma persist_there:
  "jDir j \<noteq> [] \<Longrightarrow> \<not> jRetired j \<Longrightarrow> noticeRenamed os \<Longrightarrow>
     paths (persistLocked os j d) (noticeJournalPath (jDir j) (jChat j)) = Doc (journalState j)"
  using notice_file.target_install [of os "journalState j" "\<lparr>target = paths d (noticeJournalPath (jDir j) (jChat j)), temps = leftover d\<rparr>"]
  by (auto simp: persistLocked_def saveNoticeJournal_def Let_def split: prod.split)

lemma boundInv_advance:
  assumes "boundInv m B" and "opened c m j m1" and "advances j j' out" and "diskStep j' (ndisk m1) d"
    and "list_all (\<lambda>f. stamped f \<longrightarrow> validTime (timeOf f)) out" and "Suc B < 18446744073709551616"
  shows "boundInv (putJournal c j' d m1) (Suc B)"
proof -
  have m: "mInv m" using assms(1) by (simp add: boundInv_def)
  note fr = opened_frame [OF assms(2) m] and old = boundInv_opened [OF assms(1,2)]
  have j': "ringOK j' \<and> unat (jSeq j') \<le> Suc B"
  proof (cases "jSeq j' = jSeq j \<and> (jRing j' = jRing j \<or> jRing j' = [])")
    case True
    with assms(3) old show ?thesis by (auto simp: advances_def ringOK_def)
  next
    case False
    with assms(3) obtain f where f: "out = [f]" "stamped f" "nidOf f = nidText (jChat j) (jGeneration j) (jSeq j + 1)"
        "jSeq j' = jSeq j + 1" "jChat j' = jChat j" "jRing j' = jRing (appendRing f j)" by (auto simp: advances_def)
    have "ringOK j'" by (rule ringOK_stamp [OF _ f(2,3) _ _ f(4-6)]) (use old assms(5,6) f(1,2) in auto)
    moreover have "unat (jSeq j') \<le> Suc B" using old assms(6) by (simp add: f(4) unat_word_ariths)
    ultimately show ?thesis ..
  qed
  have "unat (psSeq st) \<le> Suc B" if "paths d p = Doc st" for p st
  proof -
    have "paths (ndisk m1) p = Doc st \<or> st = journalState j'"
      using assms(4) that persist_docs remove_there unfolding diskStep_def by (metis content.distinct(5))
    with old j' show ?thesis by (auto simp: journalState_def le_SucI)
  qed
  moreover have "ringOK jb \<and> unat (jSeq jb) \<le> Suc B" if "noticeJournals (putJournal c j' d m1) b = Some jb" for b jb
  proof (cases "b = c")
    case False
    with that fr have "noticeJournals m b = Some jb" by simp
    with assms(1) show ?thesis by (auto simp: boundInv_def le_SucI)
  qed (use that j' in simp)
  ultimately show ?thesis using advances_mInv [OF m assms(2,3), of d] by (simp add: boundInv_def)
qed

lemma boundInv_step:
  assumes "boundInv m B" and "njStep digest e m = (out, m')" and "njTimeOK e" and "Suc B < 18446744073709551616"
  shows "boundInv m' (Suc B)"
proof (cases "njChat e")
  case None
  then obtain g where "e = NRestart g" by (cases e) auto
  with assms(1,2) show ?thesis by (auto simp: boundInv_def newManager_def mInv_def le_SucI)
next
  case (Some c)
  have m: "mInv m" using assms(1) by (simp add: boundInv_def)
  from njStep_opens [OF m assms(2) Some] show ?thesis
    unfolding opensTo_def
  proof (elim disjE exE conjE)
    fix j m1 j' d assume o: "opened c m j m1" "m' = putJournal c j' d m1" "advances j j' out" "diskStep j' (ndisk m1) d"
      "njTimeOK e \<longrightarrow> list_all (\<lambda>f. stamped f \<longrightarrow> validTime (timeOf f)) out"
    show ?thesis unfolding o(2) by (rule boundInv_advance [OF assms(1) o(1,3,4) _ assms(4)]) (use o(5) assms(3) in simp)
  qed (use assms(1) in \<open>auto simp: boundInv_def le_SucI\<close>)
qed

lemma boundInv_run:
  "boundInv m B \<Longrightarrow> list_all njTimeOK es \<Longrightarrow> B + length es < 18446744073709551616 \<Longrightarrow>
     boundInv (snd (njRun digest es m)) (B + length es)"
proof (induction es arbitrary: m B)
  case (Cons e es)
  obtain out m' where st: "njStep digest e m = (out, m')" by (cases "njStep digest e m")
  have "boundInv m' (Suc B)" using boundInv_step [OF Cons.prems(1) st] Cons.prems(2,3) by simp
  from Cons.IH [OF this] Cons.prems(2,3) st show ?case by simp
qed simp

definition onlyPayload :: "frame \<Rightarrow> frame" where
  "onlyPayload f = f\<lparr>frameBinding := [], frameRevision := 0, frameResumed := False, frameCommand := [], frameRequest := [],
     framePhase := [], frameApproval := []\<rparr>"

lemma replayed_view: "stamped f \<Longrightarrow> replayedView (persistedView f) = onlyPayload f"
  by (auto simp: stamped_def replayedView_def persistedView_def onlyPayload_def split: fdata.splits)

lemma replayed_only [simp]: "replayedNotice (onlyPayload f) = replayedNotice f"
  by (simp add: replayedNotice_def onlyPayload_def)

lemma reload:
  assumes "dir \<noteq> []" and "ringOK j" and "paths d (noticeJournalPath dir (jChat j)) = Doc (journalState j)"
  shows "\<exists>j2. noticeJournalFor a (jChat j) (newManager dir gen d) = (j2, putJournal (jChat j) j2 d (newManager dir gen d))
    \<and> jRing j2 = map onlyPayload (jRing j) \<and> jSeq j2 = jSeq j \<and> jDerivations j2 = jDerivations j \<and> jTranscripts j2 = jTranscripts j
    \<and> \<not> jRetired j2"
proof -
  have "loadNoticeJournal a dir (jChat j) d = (journalState j, d)"
    using ringOK_valid [OF assms(2)] assms(3) by (simp add: loadNoticeJournal_def Let_def)
  moreover have "map replayedView (map persistedView (jRing j)) = map onlyPayload (jRing j)"
    using assms(2) by (auto simp: ringOK_def list_all_iff replayed_view)
  ultimately show ?thesis
    using assms(1) noticeJournalFor_absent [of "newManager dir gen d" "jChat j" a]
    by (simp add: newManager_def ensureLoaded_def newJournal_def journalState_def)
qed


subsection \<open>A foreign receipt time discards the journal\<close>

lemma validate_times:
  "validateEntries c i seen prev es = Inr t \<Longrightarrow> e \<in> set es \<Longrightarrow> validTime (stringAt ''at'' (FMap (pnData e)))"
  by (induction es arbitrary: i seen prev) (auto simp: Let_def split: if_splits option.splits)

lemma stampNotice_time:
  "stampNotice os now c j f d = ((g, True), j', d') \<Longrightarrow> timeOf f \<noteq> [] \<Longrightarrow> timeOf g = timeOf f"
  by (auto simp: stampNotice_def Let_def split: if_splits fdata.splits)

lemma noticeReplay_rejected:
  assumes "dir \<noteq> []" and "paths d (noticeJournalPath dir c) = Doc st" and "validateNoticeJournalState c st \<noteq> None"
  shows "fst (noticeReplay a c (newManager dir gen d)) = []"
proof -
  have "fst (loadNoticeJournal a dir c d) = emptyPersisted"
    using assms(2,3) by (auto simp: loadNoticeJournal_def quarantineNoticeJournal_def Let_def)
  then have "jRing (fst (ensureLoaded a (newJournal c (newManager dir gen d)) d)) = []"
    using assms(1) by (auto simp: ensureLoaded_def newJournal_def newManager_def emptyPersisted_def split: prod.split)
  with noticeJournalFor_absent [of "newManager dir gen d" c a] show ?thesis
    by (simp add: noticeReplay_def withNoticeReplay_def) (simp add: newManager_def)
qed

text \<open>
  A notice whose payload brings a receipt time that is not an RFC 3339 time is admitted, delivered
  and written like any other; but a server process started on the notice directory then takes the
  whole file for corrupt and replays none of the chat's notices, also not the earlier ones.
\<close>

theorem notice_foreign_time_discards:
  assumes "m = snd (njRun digest evs (newManager dir gen d))" and "dir \<noteq> []" and "publishNotice os now a c f m = ((g, Some g), m')"
    and "stamped f" and "noticeRenamed os" and "timeOf f \<noteq> []" and "\<not> validTime (timeOf f)"
  shows "fst (noticeReplay a' c (newManager dir gen' (ndisk m'))) = []"
proof -
  have m: "mInv m" "noticeDir m = dir" using history_mInv [of digest evs dir gen d] assms(1) by simp_all
  obtain j0 m1 where l: "noticeJournalFor a c m = (j0, m1)" by (cases "noticeJournalFor a c m")
  obtain h ad j d' where sn: "stampNotice os now c j0 f (ndisk m1) = ((h, ad), j, d')" by (metis surj_pair)
  have c: "jChat j0 = c" "jDir j0 = dir" using opened_frame [OF opened.looked [OF l] m(1)] m(2) by simp_all
  from assms(3) l sn have ad: "ad" "h = g" "m' = putJournal c j d' m1" by (auto simp: publishNotice_def Let_def split: if_splits)
  then have active: "\<not> jRetired j0" using sn by (auto simp: stampNotice_def)
  from stampNotice_advances [of os now j0 f "ndisk m1" h ad j d'] sn c ad assms(4) active
  have j: "advances j0 j [g]" "d' = persistLocked os j (ndisk m1)" "stamped g" by simp_all
  then have jr: "jChat j = c" "jDir j = dir" "\<not> jRetired j" "g \<in> set (jRing j)"
    using c by (auto simp: advances_def appendRing_def)
  have "timeOf g = timeOf f" using stampNotice_time [of os now c j0 f "ndisk m1" g j d'] sn ad assms(6) by simp
  with jr(4) j(3) assms(7) have "\<exists>e \<in> set (map persistedView (jRing j)). \<not> validTime (stringAt ''at'' (FMap (pnData e)))"
    using timeOf_view [of g] by (intro bexI [of _ "persistedView g"]) simp_all
  then have "validateNoticeJournalState c (journalState j) \<noteq> None"
    using validate_times unfolding validate_state journalState_def by fastforce
  moreover have "paths (ndisk m') (noticeJournalPath dir c) = Doc (journalState j)"
    using persist_there [of j os "ndisk m1"] assms(2,5) jr ad(3) j(2) by simp
  ultimately show ?thesis using noticeReplay_rejected [OF assms(2)] by blast
qed

subsection \<open>Concrete histories\<close>

definition cleanDisk :: "'r noticeDisk" where
  "cleanDisk = \<lparr>paths = (\<lambda>_. Missing), leftover = 0\<rparr>"

definition demoTime :: string where
  "demoTime = ''2024-05-06T07:08:09.5Z''"

definition demoNotice :: "(string \<times> fvalue) list \<Rightarrow> frame" where
  "demoNotice xs = noticeFrameOf ''s'' (FMap ((''text'', FStr ''hi'') # xs))"

definition demoPublish :: "(string \<times> fvalue) list \<Rightarrow> unit njEvent" where
  "demoPublish xs = NNotice healthy demoTime (True, 0) ''c'' (demoNotice xs)"

lemma demoTime_valid: "validTime demoTime"
  unfolding demoTime_def by code_simp

lemma noticeRenamed_healthy: "noticeRenamed healthy"
  by (simp add: noticeRenamed_def reaches_rename_def)

lemma demo_time: "timeOf (demoNotice []) = []" "timeOf (demoNotice [(''at'', FStr ''soon'')]) = ''soon''"
  and demo_stamped: "stamped (demoNotice xs)"
  by (simp_all add: demoNotice_def noticeFrameOf_def stringAt_def stamped_def)

lemma demo_published:
  "\<exists>g m'. publishNotice healthy demoTime (True, 0) ''c'' (demoNotice xs) (newManager ''/n'' 1 cleanDisk :: unit nmanager) = ((g, Some g), m') \<and> stamped g"
  by (simp add: publishNotice_def noticeJournalFor_def newManager_def newJournal_def ensureLoaded_def loadNoticeJournal_def cleanDisk_def
      emptyPersisted_def stampNotice_def demoNotice_def noticeFrameOf_def Let_def stamped_def split: prod.split)

theorem notice_nids_unique_witness:
  "distinct (nidsOf (fst (njRun (\<lambda>x. x) [demoPublish [], demoPublish [], NRestart 2, demoPublish []] (newManager ''/n'' 1 cleanDisk))))"
  by (rule notice_nids_unique) (simp_all add: demoPublish_def)

definition demoManager :: "unit nmanager" where
  "demoManager = newManager ''/n'' 1 cleanDisk"

definition demoSession :: "unit nsession" where
  "demoSession = \<lparr>nsChat = ''c'', nsDurable = ''d'', transcriptNotices = \<lparr>tnInitialized = False, tnRestored = False, tnSource = [],
     tnPrevious = None, tnContinuityDisabled = False\<rparr>\<rparr>"

lemma demoManager_run: "demoManager = snd (njRun (\<lambda>x. x) [] (newManager ''/n'' 1 cleanDisk))"
  by (simp add: demoManager_def)

theorem notice_retired_silent_witness:
  "fst (njStep (\<lambda>x. x) (demoPublish []) (snd (njRun (\<lambda>x. x) [demoPublish []] (retireJournal True ''c'' demoManager)))) = []
   \<and> fst (noticeReplay (True, 0) ''c'' (snd (njRun (\<lambda>x. x) [demoPublish []] (retireJournal True ''c'' demoManager)))) = []"
proof -
  have e: "njChat (demoPublish []) = Some ''c''" and es: "list_all (\<lambda>e. njChat e \<noteq> None) [demoPublish []]" by (simp_all add: demoPublish_def)
  from notice_retired_silent [OF demoManager_run es refl e, where a = "(True, 0)" and ok = True]
  show ?thesis by blast
qed

theorem notice_derived_once_witness:
  "fst (publishNoticeOnceLocked healthy demoTime (True, 0) ''warning:7'' ''engine_warning'' ''again'' demoSession
      (snd (njRun (\<lambda>x. x) [demoPublish []]
        (snd (publishNoticeOnceLocked healthy demoTime (True, 0) ''warning:7'' ''engine_warning'' ''once'' demoSession demoManager))))) = None"
proof -
  have es: "list_all (\<lambda>e. njChat e \<noteq> None) [demoPublish []]" by (simp add: demoPublish_def)
  obtain r m1 where "publishNoticeOnceLocked healthy demoTime (True, 0) ''warning:7'' ''engine_warning'' ''once'' demoSession demoManager = (r, m1)"
    by (metis surj_pair)
  from notice_derived_once [OF demoManager_run this es refl] this show ?thesis by simp
qed


theorem notice_foreign_time_discards_witness:
  "\<exists>m' g. publishNotice healthy demoTime (True, 0) ''c'' (demoNotice [(''at'', FStr ''soon'')]) (newManager ''/n'' 1 cleanDisk :: unit nmanager)
       = ((g, Some g), m')
     \<and> fst (noticeReplay (True, 0) ''c'' (newManager ''/n'' 2 (ndisk m'))) = []"
proof -
  obtain g m' where p: "publishNotice healthy demoTime (True, 0) ''c'' (demoNotice [(''at'', FStr ''soon'')])
      (newManager ''/n'' 1 cleanDisk :: unit nmanager) = ((g, Some g), m')" using demo_published by blast
  have "\<not> validTime (timeOf (demoNotice [(''at'', FStr ''soon'')]))" unfolding demo_time by code_simp
  then have "fst (noticeReplay (True, 0) ''c'' (newManager ''/n'' 2 (ndisk m'))) = []"
    by (intro notice_foreign_time_discards [where digest = "\<lambda>x. x" and evs = "[]" and gen = 1 and d = cleanDisk,
        OF _ _ p demo_stamped noticeRenamed_healthy]) (simp_all add: demo_time)
  with p show ?thesis by blast
qed

end
