(* ===== verification/Watcher.thy ===== *)
theory Watcher
  imports Prelude
begin

text \<open>
  The daemon watcher (\<open>internal/rpcwatch/watcher.go\<close>) and the error replies it decides on
  (\<open>internal/omorpc/errors.go\<close>). A tick asks the daemon for its sessions and for the state of each of
  them, and replaces the snapshot at its end. What the calls return, the clock and the liveness of the
  context are arguments; ticks exclude each other, so a run is a sequence of ticks. Texts are valid
  UTF-8, as \<open>encoding/json\<close> makes them.
\<close>

subsection \<open>Replies\<close>

record stableError =
  seCode :: string
  seDetail :: string
  seWire :: string

definition ErrCodeUnknownSession :: string where "ErrCodeUnknownSession = ''unknown_session''"
definition ErrCodeSessionClosing :: string where "ErrCodeSessionClosing = ''session_closing''"
definition ErrCodeSessionPathInUse :: string where "ErrCodeSessionPathInUse = ''session_path_in_use''"
definition ErrCodeMissingSessionID :: string where "ErrCodeMissingSessionID = ''missing_session_id''"
definition ErrCodeMultiSessionDisabled :: string where "ErrCodeMultiSessionDisabled = ''multi_session_disabled''"
definition ErrCodeInvalidPath :: string where "ErrCodeInvalidPath = ''invalid_path''"
definition ErrCodeTooManySessions :: string where "ErrCodeTooManySessions = ''too_many_sessions''"
definition ErrCodeOpenFailed :: string where "ErrCodeOpenFailed = ''open_failed''"
definition ErrCodeMediaNotFound :: string where "ErrCodeMediaNotFound = ''media_not_found''"

definition openFailedPrefix :: string where
  "openFailedPrefix = ErrCodeOpenFailed @ '':''"

definition stableErrorText :: "stableError \<Rightarrow> string" where
  "stableErrorText e =
     (if seWire e \<noteq> [] then seWire e
      else if seDetail e = [] then seCode e
      else openFailedPrefix @ '' '' @ seDetail e)"

definition exactCodes :: "string list" where
  "exactCodes = [ErrCodeUnknownSession, ErrCodeSessionClosing, ErrCodeSessionPathInUse, ErrCodeMissingSessionID,
     ErrCodeMultiSessionDisabled, ErrCodeInvalidPath, ErrCodeTooManySessions, ErrCodeMediaNotFound]"

definition ParseStableError :: "string \<Rightarrow> stableError option" where
  "ParseStableError wire =
     (if wire \<in> set exactCodes then Some \<lparr>seCode = wire, seDetail = [], seWire = []\<rparr>
      else if take (length openFailedPrefix) wire = openFailedPrefix
      then Some \<lparr>seCode = ErrCodeOpenFailed, seDetail = dropWhile (\<lambda>c. c = CHR '' '') (drop (length openFailedPrefix) wire), seWire = wire\<rparr>
      else None)"

datatype rpcErr = PlainErr string | Stable stableError | Calling rpcErr | NilResponse | Decoding

record 'a response =
  respSuccess :: bool
  respError :: string
  respData :: "'a option"

definition ErrorFromResponse :: "'a response option \<Rightarrow> rpcErr option" where
  "ErrorFromResponse resp =
     (case resp of
        None \<Rightarrow> None
      | Some r \<Rightarrow>
          (if respSuccess r then None
           else (case ParseStableError (respError r) of
                   Some se \<Rightarrow> Some (Stable se)
                 | None \<Rightarrow> Some (PlainErr (respError r)))))"

text \<open>\<open>errors.As(err, &stable)\<close>.\<close>

fun asStable :: "rpcErr \<Rightarrow> stableError option" where
  "asStable (Stable e) = Some e"
| "asStable (Calling e) = asStable e"
| "asStable _ = None"

text \<open>\<open>Data\<close> is what the payload decodes to, \<open>None\<close> when it does not.\<close>

type_synonym 'a reply = "rpcErr + 'a response option"

definition callDaemon :: "'a reply \<Rightarrow> rpcErr + 'a" where
  "callDaemon rep =
     (case rep of
        Inl err \<Rightarrow> Inl (Calling err)
      | Inr None \<Rightarrow> Inl NilResponse
      | Inr (Some r) \<Rightarrow>
          (case ErrorFromResponse (Some r) of
             Some err \<Rightarrow> Inl err
           | None \<Rightarrow> (case respData r of None \<Rightarrow> Inl Decoding | Some d \<Rightarrow> Inr d)))"

subsection \<open>Snapshots\<close>

record wsession =
  wID :: string
  wDurable :: string
  wPath :: string
  wCwd :: string
  wName :: string
  wStatus :: string
  wQuestions :: "string list"
  wCount :: int
  wUpdatedAt :: int
  wObservedAt :: int

record wrecord =
  wSession :: wsession
  wRaw :: string
  wActive :: bool

record sessionState =
  ssID :: string
  ssFile :: string
  ssName :: string
  ssCount :: int
  ssStreaming :: "bool option"
  ssCompacting :: "bool option"
  ssPending :: "(string option \<times> string option) list list"

type_synonym watcher = "string \<rightharpoonup> wrecord"

definition zeroSession :: wsession where
  "zeroSession = \<lparr>wID = [], wDurable = [], wPath = [], wCwd = [], wName = [], wStatus = [], wQuestions = [], wCount = 0,
     wUpdatedAt = 0, wObservedAt = 0\<rparr>"

definition zeroRecord :: wrecord where
  "zeroRecord = \<lparr>wSession = zeroSession, wRaw = [], wActive = False\<rparr>"

text \<open>The first \<open>n\<close> code points of a UTF-8 text: a byte \<open>10xxxxxx\<close> continues a code point.\<close>

fun continues :: "char \<Rightarrow> bool" where
  "continues (Char b0 b1 b2 b3 b4 b5 b6 b7) \<longleftrightarrow> b7 \<and> \<not> b6"

fun takeRunes :: "nat \<Rightarrow> string \<Rightarrow> string" where
  "takeRunes n [] = []"
| "takeRunes n (c # cs) =
     (if continues c then c # takeRunes n cs
      else (case n of 0 \<Rightarrow> [] | Suc k \<Rightarrow> c # takeRunes k cs))"

definition questionText :: "string option \<times> string option \<Rightarrow> string" where
  "questionText q =
     (let t = (case fst q of Some s \<Rightarrow> s | None \<Rightarrow> []);
          u = (if t = [] then (case snd q of Some h \<Rightarrow> h | None \<Rightarrow> t) else t)
      in takeRunes 200 u)"

definition rawStatus :: "sessionState \<Rightarrow> string" where
  "rawStatus s =
     (if ssPending s \<noteq> [] then ''blocked''
      else if ssStreaming s = Some True \<or> ssCompacting s = Some True then ''working''
      else ''idle'')"

text \<open>
  The row of one session that answered: \<open>old\<close> is the previous row, \<open>file\<close> the path in the list entry,
  \<open>seenAt\<close> and \<open>now\<close> the clock before and after the state was read (the latter in milliseconds).
\<close>

definition observe :: "wrecord option \<Rightarrow> wsession \<Rightarrow> string \<Rightarrow> int \<Rightarrow> int \<Rightarrow> sessionState \<Rightarrow> wrecord" where
  "observe prev info0 path0 seenAt now s =
     (let old = (case prev of Some r \<Rightarrow> r | None \<Rightarrow> zeroRecord);
          observed = (prev \<noteq> None);
          info = info0\<lparr>wPath := (if ssFile s \<noteq> [] then ssFile s else if wPath info0 = [] then path0 else wPath info0),
                       wDurable := (if ssID s \<noteq> [] then ssID s else wDurable info0),
                       wName := (if ssName s \<noteq> [] then ssName s else wName info0)\<rparr>;
          raw = rawStatus s;
          info1 = info\<lparr>wStatus := raw, wCount := ssCount s, wUpdatedAt := now, wObservedAt := seenAt,
                       wQuestions := concat (map (map questionText) (ssPending s))\<rparr>;
          (info2, active) =
            (if raw = ''idle'' \<and> observed
             then (if wActive old \<or> ((wRaw old = ''idle'' \<or> wRaw old = ''blocked'') \<and> wCount (wSession old) < ssCount s)
                   then (info1\<lparr>wStatus := ''done''\<rparr>, False)
                   else if wStatus (wSession old) = ''done'' then (info1\<lparr>wStatus := ''done''\<rparr>, wActive old)
                   else (info1, wActive old))
             else (info1, wActive old))
      in \<lparr>wSession = info2, wRaw = raw, wActive = (if raw = ''working'' then True else active)\<rparr>)"

text \<open>
  The loop over the list. \<open>states\<close> are the replies to the state requests and \<open>clocks\<close> the clock readings,
  one for every entry reached; \<open>alive i\<close> says that the context is not done before entry \<open>i\<close>.
  \<open>None\<close> is the early return.
\<close>

fun tickRows ::
  "watcher \<Rightarrow> (nat \<Rightarrow> bool) \<Rightarrow> (nat \<Rightarrow> sessionState reply) \<Rightarrow> (nat \<Rightarrow> int \<times> int) \<Rightarrow> nat \<Rightarrow> (wsession \<times> string) list
     \<Rightarrow> watcher \<Rightarrow> watcher option" where
  "tickRows prev alive states clocks i [] nxt = Some nxt"
| "tickRows prev alive states clocks i ((info, path) # entries) nxt =
     (if \<not> alive i then None
      else tickRows prev alive states clocks (Suc i) entries
        (case callDaemon (states i) of
           Inl err \<Rightarrow>
             (case asStable err of
                Some se \<Rightarrow>
                  (if seCode se = ErrCodeUnknownSession then nxt
                   else (case prev (wID info) of Some old \<Rightarrow> nxt(wID info \<mapsto> old) | None \<Rightarrow> nxt))
              | None \<Rightarrow> (case prev (wID info) of Some old \<Rightarrow> nxt(wID info \<mapsto> old) | None \<Rightarrow> nxt))
         | Inr s \<Rightarrow> nxt(wID info \<mapsto> observe (prev (wID info)) info path (fst (clocks i)) (snd (clocks i)) s)))"

record tickInput =
  tiAlive :: "nat \<Rightarrow> bool"
  tiCaller :: bool
  tiList :: "(wsession \<times> string) list reply"
  tiStates :: "nat \<Rightarrow> sessionState reply"
  tiClocks :: "nat \<Rightarrow> int \<times> int"
  tiAliveAtEnd :: bool

definition sessionLess :: "wsession \<Rightarrow> wsession \<Rightarrow> bool" where
  "sessionLess a b \<longleftrightarrow> wCwd a < wCwd b \<or> (wCwd a = wCwd b \<and> wID a < wID b)"

text \<open>\<open>order\<close> is the order in which Go ranges over the map.\<close>

definition Sessions :: "string list \<Rightarrow> watcher \<Rightarrow> wsession list" where
  "Sessions order w = sort_by sessionLess (map wSession (List.map_filter w order))"

definition Lookup :: "string \<Rightarrow> watcher \<Rightarrow> wsession \<times> bool" where
  "Lookup i w = (case w i of Some r \<Rightarrow> (wSession r, True) | None \<Rightarrow> (zeroSession, False))"

text \<open>A tick: the new snapshot, and the sessions handed to the snapshot callback, if it runs.\<close>

definition Tick :: "string list \<Rightarrow> tickInput \<Rightarrow> watcher \<Rightarrow> wsession list option \<times> watcher" where
  "Tick order t w =
     (if \<not> tiAlive t 0 \<or> \<not> tiCaller t then (None, w)
      else (case callDaemon (tiList t) of
              Inl err \<Rightarrow> (None, w)
            | Inr entries \<Rightarrow>
                (case tickRows w (\<lambda>i. tiAlive t (Suc i)) (tiStates t) (tiClocks t) 0 entries Map.empty of
                   None \<Rightarrow> (None, w)
                 | Some nxt \<Rightarrow> if tiAliveAtEnd t then (Some (Sessions order nxt), nxt) else (None, w))))"

section \<open>Correctness\<close>

subsection \<open>What a status means\<close>

abbreviation idleState :: "sessionState \<Rightarrow> bool" where
  "idleState s \<equiv> rawStatus s = ''idle''"

abbreviation workingState :: "sessionState \<Rightarrow> bool" where
  "workingState s \<equiv> rawStatus s = ''working''"

text \<open>
  \<open>done\<close>, read off the observations of a session since it appeared (the newest first): it is idle, and
  either the busy stretch before the current idle stretch contains work, or the message count grew
  somewhere up the idle stretch from an observation that was not at work.
\<close>

definition grewOver :: "sessionState list \<Rightarrow> nat \<Rightarrow> bool" where
  "grewOver rs i \<longleftrightarrow> Suc i < length rs \<and> \<not> workingState (rs ! Suc i) \<and> ssCount (rs ! Suc i) < ssCount (rs ! i)"

definition doneSpec :: "sessionState list \<Rightarrow> bool" where
  "doneSpec rs \<longleftrightarrow> rs \<noteq> [] \<and> idleState (hd rs)
     \<and> (list_ex workingState (takeWhile (\<lambda>s. \<not> idleState s) (dropWhile idleState rs))
        \<or> (\<exists>i < length (takeWhile idleState rs). grewOver rs i))"

definition statusSpec :: "sessionState list \<Rightarrow> string" where
  "statusSpec rs = (if idleState (hd rs) then (if doneSpec rs then ''done'' else ''idle'') else rawStatus (hd rs))"

lemma rawStatus_cases: "rawStatus s = ''idle'' \<or> rawStatus s = ''working'' \<or> rawStatus s = ''blocked''"
  by (simp add: rawStatus_def)

lemma grewOver_Cons: "grewOver (s # rs) (Suc i) = grewOver rs i"
  by (simp add: grewOver_def)

lemma doneSpec_Cons:
  "doneSpec (s # rs) \<longleftrightarrow> idleState s \<and> rs \<noteq> [] \<and>
     ((if idleState (hd rs) then doneSpec rs else list_ex workingState (takeWhile (\<lambda>s. \<not> idleState s) rs))
      \<or> \<not> workingState (hd rs) \<and> ssCount (hd rs) < ssCount s)"
proof (cases rs)
  case Nil
  then show ?thesis by (simp add: doneSpec_def grewOver_def)
next
  case (Cons r rs')
  have "(\<exists>i < Suc n. grewOver (s # rs) i) \<longleftrightarrow> (\<not> workingState r \<and> ssCount r < ssCount s) \<or> (\<exists>i < n. grewOver rs i)" for n
    unfolding Ex_less_Suc2 grewOver_Cons by (simp add: grewOver_def Cons)
  with Cons show ?thesis by (auto simp: doneSpec_def)
qed

text \<open>A row agrees with the observations it was made from, the newest first.\<close>

definition agrees :: "sessionState list \<Rightarrow> wrecord \<Rightarrow> bool" where
  "agrees rs r \<longleftrightarrow> rs \<noteq> [] \<and> wRaw r = rawStatus (hd rs) \<and> wCount (wSession r) = ssCount (hd rs)
     \<and> wActive r = list_ex workingState (takeWhile (\<lambda>s. \<not> idleState s) rs) \<and> wStatus (wSession r) = statusSpec rs"

lemma agrees_first: "agrees [s] (observe None info path a b s)"
  using rawStatus_cases [of s]
  by (auto simp: agrees_def observe_def Let_def zeroRecord_def statusSpec_def doneSpec_def grewOver_def)

lemma agrees_next:
  assumes "agrees rs r"
  shows "agrees (s # rs) (observe (Some r) info path a b s)"
proof (cases "idleState s")
  case False
  with assms rawStatus_cases [of s] show ?thesis
    by (auto simp: agrees_def observe_def Let_def statusSpec_def)
next
  case True
  from assms have ne: "rs \<noteq> []" and raw: "wRaw r = rawStatus (hd rs)" and cnt: "wCount (wSession r) = ssCount (hd rs)"
    and act: "wActive r = list_ex workingState (takeWhile (\<lambda>s. \<not> idleState s) rs)" and st: "wStatus (wSession r) = statusSpec rs"
    by (simp_all add: agrees_def)
  let ?grew = "\<not> workingState (hd rs) \<and> ssCount (hd rs) < ssCount s"
  have calm: "(wRaw r = ''idle'' \<or> wRaw r = ''blocked'') = (\<not> workingState (hd rs))"
    using rawStatus_cases [of "hd rs"] by (auto simp: raw)
  have idle_act: "idleState (hd rs) \<Longrightarrow> \<not> wActive r" using ne by (cases rs) (simp_all add: act)
  have old: "(wStatus (wSession r) = ''done'') = (idleState (hd rs) \<and> doneSpec rs)"
    using rawStatus_cases [of "hd rs"] by (auto simp: st statusSpec_def)
  have "doneSpec (s # rs) = (wActive r \<or> ?grew \<or> wStatus (wSession r) = ''done'')"
    unfolding doneSpec_Cons old using True ne idle_act by (auto simp: act)
  with True raw cnt calm show ?thesis
    by (auto simp: agrees_def observe_def Let_def statusSpec_def)
qed

subsection \<open>Ticks\<close>

text \<open>What a tick does to the row of one session.\<close>

definition entryFor :: "string \<Rightarrow> (wsession \<times> string) list \<Rightarrow> nat option" where
  "entryFor i entries = index_of (\<lambda>e. wID (fst e) = i) entries"

definition rowAfter :: "tickInput \<Rightarrow> (wsession \<times> string) list \<Rightarrow> string \<Rightarrow> wrecord option \<Rightarrow> wrecord option" where
  "rowAfter t entries i old =
     (case entryFor i entries of
        None \<Rightarrow> None
      | Some k \<Rightarrow>
          (case callDaemon (tiStates t k) of
             Inl err \<Rightarrow> (if map_option seCode (asStable err) = Some ErrCodeUnknownSession then None else old)
           | Inr s \<Rightarrow> Some (observe old (fst (entries ! k)) (snd (entries ! k)) (fst (tiClocks t k)) (snd (tiClocks t k)) s)))"

definition completes :: "tickInput \<Rightarrow> (wsession \<times> string) list \<Rightarrow> bool" where
  "completes t entries \<longleftrightarrow> tiAlive t 0 \<and> tiCaller t \<and> callDaemon (tiList t) = Inr entries
     \<and> list_all (\<lambda>k. tiAlive t (Suc k)) [0..<length entries] \<and> tiAliveAtEnd t"

lemma tickRows_spec:
  assumes "distinct (map (wID \<circ> fst) entries)" and "\<And>i. i \<in> set (map (wID \<circ> fst) entries) \<Longrightarrow> nxt i = None"
  shows "tickRows prev alive states clocks n entries nxt =
    (if (\<forall>k < length entries. alive (n + k))
     then Some (\<lambda>i. case entryFor i entries of
            None \<Rightarrow> nxt i
          | Some k \<Rightarrow>
              (case callDaemon (states (n + k)) of
                 Inl err \<Rightarrow> (if map_option seCode (asStable err) = Some ErrCodeUnknownSession then None else prev i)
               | Inr s \<Rightarrow> Some (observe (prev i) (fst (entries ! k)) (snd (entries ! k)) (fst (clocks (n + k))) (snd (clocks (n + k))) s)))
     else None)"
  using assms
proof (induction entries arbitrary: n nxt)
  case Nil
  then show ?case by (simp add: entryFor_def)
next
  case (Cons e entries)
  obtain info path where e: "e = (info, path)" by (cases e)
  define nxt' where "nxt' = (case callDaemon (states n) of
      Inl err \<Rightarrow>
        (case asStable err of
           Some se \<Rightarrow> (if seCode se = ErrCodeUnknownSession then nxt
              else (case prev (wID info) of Some old \<Rightarrow> nxt(wID info \<mapsto> old) | None \<Rightarrow> nxt))
         | None \<Rightarrow> (case prev (wID info) of Some old \<Rightarrow> nxt(wID info \<mapsto> old) | None \<Rightarrow> nxt))
    | Inr s \<Rightarrow> nxt(wID info \<mapsto> observe (prev (wID info)) info path (fst (clocks n)) (snd (clocks n)) s))"
  have other: "i \<noteq> wID info \<Longrightarrow> nxt' i = nxt i" for i
    by (simp add: nxt'_def split: sum.split option.split)
  have own: "nxt' (wID info) = (case callDaemon (states n) of
      Inl err \<Rightarrow> (if map_option seCode (asStable err) = Some ErrCodeUnknownSession then None else prev (wID info))
    | Inr s \<Rightarrow> Some (observe (prev (wID info)) info path (fst (clocks n)) (snd (clocks n)) s))"
    using Cons.prems(2) [of "wID info"] e by (auto simp: nxt'_def split: sum.split option.split)
  have fresh: "i \<in> set (map (wID \<circ> fst) entries) \<Longrightarrow> nxt' i = None" for i
    using Cons.prems e other [of i] by force
  have alive_Cons: "(\<forall>k < length (e # entries). alive (n + k)) = (alive n \<and> (\<forall>k < length entries. alive (Suc n + k)))"
    by (simp add: All_less_Suc2)
  have ent: "entryFor i (e # entries) = (if wID info = i then Some 0 else map_option Suc (entryFor i entries))" for i
    by (simp add: entryFor_def e)
  have gone: "entryFor (wID info) entries = None"
    using Cons.prems(1) e by (auto simp: entryFor_def index_of_None image_iff)
  show ?case
  proof (cases "alive n")
    case False
    then show ?thesis unfolding alive_Cons by (simp add: e)
  next
    case True
    have step: "tickRows prev alive states clocks n (e # entries) nxt = tickRows prev alive states clocks (Suc n) entries nxt'"
      using True by (simp add: e nxt'_def)
    have IH: "tickRows prev alive states clocks (Suc n) entries nxt' =
      (if (\<forall>k < length entries. alive (Suc n + k))
       then Some (\<lambda>i. case entryFor i entries of
              None \<Rightarrow> nxt' i
            | Some k \<Rightarrow>
                (case callDaemon (states (Suc n + k)) of
                   Inl err \<Rightarrow> (if map_option seCode (asStable err) = Some ErrCodeUnknownSession then None else prev i)
                 | Inr s \<Rightarrow> Some (observe (prev i) (fst (entries ! k)) (snd (entries ! k)) (fst (clocks (Suc n + k))) (snd (clocks (Suc n + k))) s)))
       else None)"
      by (rule Cons.IH) (use Cons.prems(1) fresh in simp_all)
    have rows: "(case entryFor i entries of
          None \<Rightarrow> nxt' i
        | Some k \<Rightarrow>
            (case callDaemon (states (Suc n + k)) of
               Inl err \<Rightarrow> (if map_option seCode (asStable err) = Some ErrCodeUnknownSession then None else prev i)
             | Inr s \<Rightarrow> Some (observe (prev i) (fst (entries ! k)) (snd (entries ! k)) (fst (clocks (Suc n + k))) (snd (clocks (Suc n + k))) s)))
      = (case entryFor i (e # entries) of
          None \<Rightarrow> nxt i
        | Some k \<Rightarrow>
            (case callDaemon (states (n + k)) of
               Inl err \<Rightarrow> (if map_option seCode (asStable err) = Some ErrCodeUnknownSession then None else prev i)
             | Inr s \<Rightarrow> Some (observe (prev i) (fst ((e # entries) ! k)) (snd ((e # entries) ! k)) (fst (clocks (n + k))) (snd (clocks (n + k))) s)))"
      for i
    proof (cases "i = wID info")
      case True
      then show ?thesis unfolding True ent gone own by (simp add: e split: sum.split)
    next
      case False
      then show ?thesis unfolding ent other [OF False] by (cases "entryFor i entries") (auto split: sum.split)
    qed
    show ?thesis
      unfolding step IH alive_Cons using True by (simp only: rows simp_thms)
  qed
qed

interpretation session_order: comparator sessionLess wID
proof
  show "\<not> sessionLess a a" for a by (simp add: sessionLess_def)
  show "sessionLess a b \<Longrightarrow> sessionLess b c \<Longrightarrow> sessionLess a c" for a b c by (auto simp: sessionLess_def)
  show "wID a \<noteq> wID b \<Longrightarrow> sessionLess a b \<or> sessionLess b a" for a b by (auto simp: sessionLess_def neq_iff)
qed

definition watcherOK :: "watcher \<Rightarrow> bool" where
  "watcherOK w \<longleftrightarrow> (\<forall>i r. w i = Some r \<longrightarrow> wID (wSession r) = i)"

lemma wID_observe [simp]: "wID (wSession (observe old info path a b s)) = wID info"
  by (simp add: observe_def Let_def)

lemma entryFor_Some: "entryFor i entries = Some k \<Longrightarrow> k < length entries \<and> wID (fst (entries ! k)) = i"
  unfolding entryFor_def using index_of_Some by fastforce

text \<open>The ids in the daemon's list are distinct.\<close>

definition listedOnce :: "tickInput \<Rightarrow> bool" where
  "listedOnce t \<longleftrightarrow> (case callDaemon (tiList t) of Inl _ \<Rightarrow> True | Inr entries \<Rightarrow> distinct (map (wID \<circ> fst) entries))"

lemma Tick_cases:
  assumes "listedOnce t"
  obtains (replaced) entries where "callDaemon (tiList t) = Inr entries" and "completes t entries"
      and "Tick order t w = (Some (Sessions order (\<lambda>i. rowAfter t entries i (w i))), \<lambda>i. rowAfter t entries i (w i))"
  | (kept) "\<And>entries. callDaemon (tiList t) = Inr entries \<Longrightarrow> \<not> completes t entries" and "Tick order t w = (None, w)"
proof (cases "callDaemon (tiList t)")
  case (Inl err)
  then show thesis by (intro kept) (auto simp: Tick_def)
next
  case (Inr entries)
  with assms have d: "distinct (map (wID \<circ> fst) entries)" by (simp add: listedOnce_def)
  have rows: "tickRows w (\<lambda>i. tiAlive t (Suc i)) (tiStates t) (tiClocks t) 0 entries Map.empty =
      (if list_all (\<lambda>k. tiAlive t (Suc k)) [0..<length entries] then Some (\<lambda>i. rowAfter t entries i (w i)) else None)"
    by (simp add: tickRows_spec [OF d] rowAfter_def list_all_iff cong: option.case_cong sum.case_cong)
  show thesis
  proof (cases "completes t entries")
    case True
    with Inr rows show thesis by (intro replaced [of entries]) (auto simp: Tick_def completes_def)
  next
    case False
    with Inr rows show thesis by (intro kept) (auto simp: Tick_def completes_def)
  qed
qed

lemma rowAfter_OK: "watcherOK w \<Longrightarrow> watcherOK (\<lambda>i. rowAfter t entries i (w i))"
  unfolding watcherOK_def rowAfter_def
  by (auto dest: entryFor_Some split: option.splits sum.splits if_splits)

lemma Tick_OK: "listedOnce t \<Longrightarrow> watcherOK w \<Longrightarrow> watcherOK (snd (Tick order t w))"
  by (cases rule: Tick_cases [of t order w]) (auto simp: rowAfter_OK)

definition watched :: "tickInput list \<Rightarrow> watcher" where
  "watched ts = foldl (\<lambda>w t. snd (Tick [] t w)) Map.empty ts"

lemma watched_OK: "list_all listedOnce ts \<Longrightarrow> watcherOK (watched ts)"
proof (induction ts rule: rev_induct)
  case Nil
  show ?case by (simp add: watched_def watcherOK_def)
next
  case (snoc t ts)
  then show ?case using Tick_OK [of t "watched ts" "[]"] by (simp add: watched_def)
qed

lemma Sessions_spec:
  assumes "watcherOK w" and "distinct order" and "set order = dom w"
  shows "sorted_wrt sessionLess (Sessions order w) \<and> distinct (map wID (Sessions order w)) \<and> set (Sessions order w) = wSession ` ran w"
proof -
  have ids: "map (wID \<circ> wSession) (List.map_filter w is) = is" if "set is \<subseteq> dom w" for "is"
    using that assms(1) by (induction "is") (auto simp: List.map_filter_simps watcherOK_def)
  have "set (List.map_filter w is) = (\<lambda>i. the (w i)) ` set is" if "set is \<subseteq> dom w" for "is"
    using that by (induction "is") (auto simp: List.map_filter_simps)
  then have "set (List.map_filter w order) = ran w" using assms(3) by (auto simp: ran_def) force
  moreover have d: "distinct (map wID (map wSession (List.map_filter w order)))" using ids [of order] assms(2,3) by simp
  moreover have "mset (map wID (sort_by sessionLess xs)) = mset (map wID xs)" for xs by simp
  then have "distinct (map wID (Sessions order w))" unfolding Sessions_def using d by (metis mset_eq_imp_distinct_iff)
  ultimately show ?thesis using session_order.sorted_sort_by [OF d] by (simp add: Sessions_def)
qed

text \<open>
  C37: A tick is all or nothing. When the list call fails or the context is done at any of its checks,
  the snapshot stays as it is and no callback runs. Otherwise the new snapshot has exactly one row for
  each listed session the daemon knows: made from its state when the call answered, the old row when
  the call failed; unlisted and unknown sessions have none. The callback gets the rows of the new snapshot
  in the order of working directory and id, whatever order Go ranges over the map.
\<close>

theorem watch_tick_atomic:
  assumes "list_all listedOnce (ts @ [t])" and "Tick order t (watched ts) = (out, w')" and "distinct order" and "set order = dom w'"
  shows "case callDaemon (tiList t) of
      Inl _ \<Rightarrow> out = None \<and> w' = watched ts
    | Inr entries \<Rightarrow>
        (if completes t entries
         then w' = (\<lambda>i. rowAfter t entries i (watched ts i))
           \<and> (\<exists>rows. out = Some rows \<and> sorted_wrt sessionLess rows \<and> distinct (map wID rows) \<and> set rows = wSession ` ran w')
         else out = None \<and> w' = watched ts)"
proof -
  have t: "listedOnce t" and ok: "watcherOK (watched ts)" using assms(1) watched_OK by simp_all
  show ?thesis
  proof (cases rule: Tick_cases [OF t, of order "watched ts"])
    case (1 entries)
    with assms(2) have "out = Some (Sessions order w')" "w' = (\<lambda>i. rowAfter t entries i (watched ts i))" by auto
    moreover from this rowAfter_OK [OF ok] Sessions_spec [of w' order] assms(3,4)
    have "sorted_wrt sessionLess (Sessions order w') \<and> distinct (map wID (Sessions order w')) \<and> set (Sessions order w') = wSession ` ran w'" by simp
    ultimately show ?thesis using 1(1,2) by simp
  next
    case 2
    with assms(2) show ?thesis by (auto split: sum.split)
  qed
qed

text \<open>The observations of a session since it last appeared in the snapshot, the newest first.\<close>

definition obsStep :: "string \<Rightarrow> sessionState list option \<Rightarrow> tickInput \<Rightarrow> sessionState list option" where
  "obsStep i acc t =
     (case callDaemon (tiList t) of
        Inl _ \<Rightarrow> acc
      | Inr entries \<Rightarrow>
          (if \<not> completes t entries then acc
           else (case entryFor i entries of
                   None \<Rightarrow> None
                 | Some k \<Rightarrow>
                     (case callDaemon (tiStates t k) of
                        Inl err \<Rightarrow> (if map_option seCode (asStable err) = Some ErrCodeUnknownSession then None else acc)
                      | Inr s \<Rightarrow> Some (s # (case acc of None \<Rightarrow> [] | Some rs \<Rightarrow> rs))))))"

definition rowAgrees :: "sessionState list option \<Rightarrow> wrecord option \<Rightarrow> bool" where
  "rowAgrees acc row \<longleftrightarrow> (case (acc, row) of
       (None, None) \<Rightarrow> True
     | (Some rs, Some r) \<Rightarrow> agrees rs r
     | _ \<Rightarrow> False)"

lemma rowAgrees_step:
  assumes "rowAgrees acc (w i)" and "listedOnce t"
  shows "rowAgrees (obsStep i acc t) (snd (Tick order t w) i)"
proof (cases rule: Tick_cases [OF assms(2), of order w])
  case (1 entries)
  with assms(1) show ?thesis
    by (auto simp: obsStep_def rowAfter_def rowAgrees_def agrees_first agrees_next split: option.splits sum.splits)
next
  case 2
  with assms(1) show ?thesis by (auto simp: obsStep_def split: sum.splits)
qed

text \<open>
  C38: The status of a session is determined by what was observed of it since it appeared: its raw status
  while it is blocked or at work; when it is idle, done if the busy stretch before the current
  idle stretch contained work or its message count grew since without work being seen, and idle
  otherwise. Failed state calls and failed ticks change nothing; a session that disappears starts over.
\<close>

theorem watch_status_explained:
  assumes "list_all listedOnce ts"
  shows "map_option (\<lambda>r. wStatus (wSession r)) (watched ts i) = map_option statusSpec (foldl (obsStep i) None ts)"
proof -
  have "rowAgrees (foldl (obsStep i) None ts) (watched ts i)"
    using assms
  proof (induction ts rule: rev_induct)
    case Nil
    show ?case by (simp add: rowAgrees_def watched_def)
  next
    case (snoc t ts)
    then show ?case using rowAgrees_step [of _ "watched ts" i t "[]"] by (simp add: watched_def)
  qed
  then show ?thesis by (auto simp: rowAgrees_def agrees_def split: option.splits)
qed

subsection \<open>A concrete run\<close>

definition demoObserved :: "bool \<Rightarrow> sessionState" where
  "demoObserved busy = \<lparr>ssID = ''d'', ssFile = ''/s'', ssName = [], ssCount = 1, ssStreaming = Some busy, ssCompacting = None, ssPending = []\<rparr>"

definition demoTick :: "bool \<Rightarrow> tickInput" where
  "demoTick busy = \<lparr>tiAlive = (\<lambda>_. True), tiCaller = True,
     tiList = Inr (Some \<lparr>respSuccess = True, respError = [], respData = Some [(zeroSession\<lparr>wID := ''a''\<rparr>, [])]\<rparr>),
     tiStates = (\<lambda>_. Inr (Some \<lparr>respSuccess = True, respError = [], respData = Some (demoObserved busy)\<rparr>)),
     tiClocks = (\<lambda>_. (0, 0)), tiAliveAtEnd = True\<rparr>"

lemma demoTick_replies:
  "callDaemon (tiList (demoTick busy)) = Inr [(zeroSession\<lparr>wID := ''a''\<rparr>, [])]" "callDaemon (tiStates (demoTick busy) k) = Inr (demoObserved busy)"
  "completes (demoTick busy) [(zeroSession\<lparr>wID := ''a''\<rparr>, [])]" "listedOnce (demoTick busy)"
  by (simp_all add: demoTick_def callDaemon_def ErrorFromResponse_def completes_def listedOnce_def)

lemma demoObserved_raw: "rawStatus (demoObserved busy) = (if busy then ''working'' else ''idle'')"
  by (simp add: rawStatus_def demoObserved_def)

theorem watch_status_explained_witness:
  "map_option (\<lambda>r. wStatus (wSession r)) (watched [demoTick False, demoTick True, demoTick False] ''a'') = Some ''done''"
proof -
  have "foldl (obsStep ''a'') None [demoTick False, demoTick True, demoTick False] = Some [demoObserved False, demoObserved True, demoObserved False]"
    by (simp add: obsStep_def demoTick_replies entryFor_def)
  moreover have "statusSpec [demoObserved False, demoObserved True, demoObserved False] = ''done''"
    by (simp add: statusSpec_def doneSpec_def demoObserved_raw)
  ultimately show ?thesis
    using watch_status_explained [of "[demoTick False, demoTick True, demoTick False]" "''a''"] by (simp add: demoTick_replies)
qed

theorem watch_tick_atomic_witness:
  "\<exists>rows. fst (Tick [''a''] (demoTick True) (watched [demoTick False])) = Some rows \<and> sorted_wrt sessionLess rows"
proof -
  let ?w' = "snd (Tick [''a''] (demoTick True) (watched [demoTick False]))"
  have t: "list_all listedOnce ([demoTick False] @ [demoTick True])" by (simp add: demoTick_replies)
  have d: "set [''a''] = dom ?w'"
    by (cases rule: Tick_cases [OF demoTick_replies(4) [of True], of "[''a'']" "watched [demoTick False]"])
      (auto simp: demoTick_replies rowAfter_def entryFor_def split: if_splits)
  from watch_tick_atomic [OF t prod.collapse [symmetric] _ d] show ?thesis by (auto simp: demoTick_replies)
qed

end
