(* ===== verification/GoError.thy ===== *)
theory GoError
  imports Prelude
begin

text \<open>
  Go error values as \<open>internal/session\<close> and \<open>internal/omorpc\<close> use them: an error is the chain of
  sentinels and typed errors it wraps, outermost first, with the text \<open>Error\<close> returns; \<open>nil\<close> is
  \<open>None\<close>. \<open>errors.Is\<close> and \<open>errors.As\<close> search the chain, \<open>fmt.Errorf\<close> with two \<open>%w\<close> verbs joins two
  chains.
\<close>

datatype cause =
    ErrPromptInFlight | ErrCompactionInFlight | ErrSessionClosed | ErrSessionResumable
  | ErrSendBackpressure | ErrSendOutcomeUnknown | ErrDisconnected | ErrEpochMismatch | ErrWrittenUnanswered
  | ErrApprovalExpired | ErrQuestionDelivering | ContextDone
  | StableError string
  | ExternalWriteError string string
  | Foreign string

record goerror =
  causes :: "cause list"
  message :: string

definition sentinel :: "cause \<Rightarrow> string \<Rightarrow> goerror" where
  "sentinel c m = \<lparr>causes = [c], message = m\<rparr>"

definition wrapBoth :: "goerror \<Rightarrow> goerror \<Rightarrow> goerror" where
  "wrapBoth a b = \<lparr>causes = causes a @ causes b, message = message a @ '': '' @ message b\<rparr>"

definition withText :: "goerror \<Rightarrow> string \<Rightarrow> goerror" where
  "withText e t = e\<lparr>message := message e @ t\<rparr>"

definition errorsIs :: "goerror option \<Rightarrow> cause \<Rightarrow> bool" where
  "errorsIs e c = (case e of None \<Rightarrow> False | Some x \<Rightarrow> c \<in> set (causes x))"

fun asStable :: "cause list \<Rightarrow> string option" where
  "asStable [] = None"
| "asStable (StableError code # cs) = Some code"
| "asStable (_ # cs) = asStable cs"

fun asExternalWrite :: "cause list \<Rightarrow> (string \<times> string) option" where
  "asExternalWrite [] = None"
| "asExternalWrite (ExternalWriteError known observed # cs) = Some (known, observed)"
| "asExternalWrite (_ # cs) = asExternalWrite cs"

text \<open>The sentinels with the texts \<open>stub.go\<close> and \<open>errors.go\<close> give them.\<close>

definition errPromptInFlight :: goerror where
  "errPromptInFlight = sentinel ErrPromptInFlight ''session: prompt in flight''"

definition errCompactionInFlight :: goerror where
  "errCompactionInFlight = sentinel ErrCompactionInFlight ''session: compaction in flight''"

definition errSessionClosed :: goerror where
  "errSessionClosed = sentinel ErrSessionClosed ''session: closed''"

definition errSessionResumable :: goerror where
  "errSessionResumable = sentinel ErrSessionResumable ''session: provider session is resumable''"

definition errSendBackpressure :: goerror where
  "errSendBackpressure = sentinel ErrSendBackpressure ''session: detached mutation limit reached''"

definition errSendOutcomeUnknown :: goerror where
  "errSendOutcomeUnknown = sentinel ErrSendOutcomeUnknown ''session: send outcome unknown''"

text \<open>
  \<open>classifyRouteError\<close>: a definitive provider-side loss of the route becomes \<open>ErrSessionResumable\<close>.
  Marking the session unloaded is \<open>markUnloaded\<close> of \<open>SendSystem\<close>.
\<close>

definition routeLoss :: "goerror option \<Rightarrow> bool" where
  "routeLoss e = (case e of None \<Rightarrow> False
     | Some x \<Rightarrow> (case asStable (causes x) of None \<Rightarrow> False
                 | Some code \<Rightarrow> code = ''unknown_session'' \<or> code = ''session_closing''))"

definition classifyRouteError :: "goerror option \<Rightarrow> goerror option" where
  "classifyRouteError e =
     (if \<not> routeLoss e then e
      else if errorsIs e ErrSessionResumable then e
      else (case e of None \<Rightarrow> None | Some x \<Rightarrow> Some (wrapBoth errSessionResumable x)))"

lemma errorsIs_simps [simp]:
  "\<not> errorsIs None c"
  "errorsIs (Some (sentinel c' m)) c \<longleftrightarrow> c = c'"
  "errorsIs (Some (wrapBoth a b)) c \<longleftrightarrow> errorsIs (Some a) c \<or> errorsIs (Some b) c"
  "errorsIs (Some (withText a t)) c \<longleftrightarrow> errorsIs (Some a) c"
  by (auto simp: errorsIs_def sentinel_def wrapBoth_def withText_def)

lemma classify_None_iff [simp]: "classifyRouteError e = None \<longleftrightarrow> e = None"
  by (cases e) (auto simp: classifyRouteError_def routeLoss_def)

lemma classify_keeps: "errorsIs e c \<Longrightarrow> errorsIs (classifyRouteError e) c"
  by (cases e) (auto simp: classifyRouteError_def)

lemma classify_idem: "classifyRouteError (classifyRouteError e) = classifyRouteError e"
proof (cases e)
  case (Some x)
  then show ?thesis
    by (auto simp: classifyRouteError_def errSessionResumable_def)
qed (simp add: classifyRouteError_def)

end
