(* ===== verification/SendLedger.thy ===== *)
theory SendLedger
  imports GoError "HOL-Library.Word"
begin

text \<open>
  The send-operation ledger of \<open>internal/session/session.go\<close>: \<open>sendOperationOwner\<close>, which every
  \<open>Session\<close> of a chat shares, the admission, recording and completion of sends under a browser request
  id, retry tokens, and the ownership of detached provider calls.

  Every function below is one critical section under \<open>owner.mu\<close>. Senders, provider callbacks and the
  bridge run concurrently: a goroutine is a program counter (\<^emph>\<open>sendPC\<close>) and a step of the system lets
  one of them run its next critical section. What the provider answers, what the session's latches
  say and how the scheduler interleaves are choices of the steps; \<open>CallDetached\<close> is used through its
  contract (an error means no callback will come, otherwise the callback comes exactly once), which
  \<open>RpcProperties\<close> proves of the client.
\<close>

section \<open>State\<close>

definition SendOperationLedgerCapacity :: nat where
  "SendOperationLedgerCapacity = 64"

definition DetachedMutationLimit :: int where
  "DetachedMutationLimit = 16"

definition busyAgentErrorPrefix :: string where
  "busyAgentErrorPrefix = ''Agent is already processing''"

datatype sendOperationPhase = sendOperationAdmitted | sendOperationRetrying | sendOperationTerminal

text \<open>\<open>ErrorInfo\<close>, and the frames the ledger produces; \<open>None\<close> of the info is an acknowledgement.\<close>

record errorInfo =
  infoCode :: string
  infoMessage :: string
  infoKnownLeaf :: string
  infoObservedLeaf :: string

record sendFrame =
  sfSession :: string
  sfCommand :: string
  sfRequest :: string
  sfPhase :: string
  sfError :: "errorInfo option"

record sendOperation =
  phase :: sendOperationPhase
  outcome :: "sendFrame option"
  operr :: "goerror option"
  published :: bool

text \<open>A token is its owner and a counter value; the zero token is the pair of zeros.\<close>

type_synonym retryToken = "nat \<times> 64 word"

record sendOwner =
  ownerID :: nat
  operations :: "string \<rightharpoonup> sendOperation"
  fifo :: "string list"
  detachedMutations :: int
  retryRunAdmissionToken :: retryToken
  nextRetryToken :: "64 word"
  activeDetached :: int
  unresolvedWrites :: "(nat \<times> string) list"
  unresolvedWriteCount :: int
  ownerSessions :: "nat list"

definition newOwner :: "nat \<Rightarrow> nat \<Rightarrow> sendOwner" where
  "newOwner k s = \<lparr>ownerID = k, operations = Map.empty, fifo = [], detachedMutations = 0,
     retryRunAdmissionToken = (0, 0), nextRetryToken = 0, activeDetached = 0, unresolvedWrites = [],
     unresolvedWriteCount = 0, ownerSessions = [s]\<rparr>"

text \<open>The route state of a session that the ledger's callers read.\<close>

record routeState =
  durableID :: string
  closed :: bool
  closing :: bool
  resumable :: bool
  invalidated :: bool
  quarantineErr :: "goerror option"

section \<open>Critical sections\<close>

subsection \<open>Frames\<close>

definition sendOperationFrameLocked :: "string \<Rightarrow> string \<Rightarrow> goerror option \<Rightarrow> sendFrame" where
  "sendOperationFrameLocked durable requestID e =
     (case e of
        None \<Rightarrow> \<lparr>sfSession = durable, sfCommand = ''chat.send'', sfRequest = requestID, sfPhase = [], sfError = None\<rparr>
      | Some err \<Rightarrow>
          (let base = \<lparr>infoCode = ''provider_error'', infoMessage = message err, infoKnownLeaf = [], infoObservedLeaf = []\<rparr>;
               info = (if errorsIs e ErrSessionResumable
                       then base\<lparr>infoCode := ''session_unloaded'', infoMessage := ''provider unloaded the session''\<rparr>
                       else if errorsIs e ErrPromptInFlight then base\<lparr>infoCode := ''prompt_in_flight''\<rparr>
                       else if errorsIs e ErrCompactionInFlight then base\<lparr>infoCode := ''compaction_in_flight''\<rparr>
                       else if errorsIs e ErrSendBackpressure then base\<lparr>infoCode := ''send_backpressure''\<rparr>
                       else (case asExternalWrite (causes err) of
                               None \<Rightarrow> base
                             | Some (known, observed) \<Rightarrow>
                                 base\<lparr>infoCode := ''external-write-detected'', infoKnownLeaf := known, infoObservedLeaf := observed\<rparr>)) in
           \<lparr>sfSession = durable, sfCommand = ''chat.send'', sfRequest = requestID, sfPhase = [], sfError = Some info\<rparr>))"

subsection \<open>Admission\<close>

text \<open>The zero value of a missing operation is in phase admitted.\<close>

definition phaseOf :: "sendOwner \<Rightarrow> string \<Rightarrow> sendOperationPhase" where
  "phaseOf ow r = (case operations ow r of None \<Rightarrow> sendOperationAdmitted | Some op \<Rightarrow> phase op)"

definition terminalSlot :: "sendOwner \<Rightarrow> nat option" where
  "terminalSlot ow = index_of (\<lambda>r. phaseOf ow r = sendOperationTerminal) (fifo ow)"

definition admitOperation :: "string \<Rightarrow> sendOwner \<Rightarrow> sendOwner" where
  "admitOperation r ow =
     ow\<lparr>operations := (operations ow)(r \<mapsto> \<lparr>phase = sendOperationAdmitted, outcome = None, operr = None, published = False\<rparr>),
        fifo := fifo ow @ [r]\<rparr>"

definition evictOperation :: "nat \<Rightarrow> sendOwner \<Rightarrow> sendOwner" where
  "evictOperation i ow =
     ow\<lparr>operations := (operations ow)(fifo ow ! i := None), fifo := take i (fifo ow) @ drop (Suc i) (fifo ow)\<rparr>"

definition beginSendOperation :: "string \<Rightarrow> sendOwner \<Rightarrow> (goerror option \<times> bool) \<times> sendOwner" where
  "beginSendOperation r ow =
     (if r = [] then ((None, False), ow)
      else case operations ow r of
        Some op \<Rightarrow>
          (if phase op = sendOperationRetrying
           then ((None, False), ow\<lparr>operations := (operations ow)(r \<mapsto> op\<lparr>phase := sendOperationAdmitted\<rparr>)\<rparr>)
           else ((operr op, True), ow))
      | None \<Rightarrow>
          (if SendOperationLedgerCapacity \<le> length (fifo ow)
           then (case terminalSlot ow of
                   None \<Rightarrow> ((Some (withText errSendBackpressure '': maximum 64 operations are still in flight''), True), ow)
                 | Some i \<Rightarrow> ((None, False), admitOperation r (evictOperation i ow)))
           else ((None, False), admitOperation r ow)))"

definition SendOperationResult :: "string \<Rightarrow> sendOwner \<Rightarrow> goerror option \<times> bool" where
  "SendOperationResult r ow =
     (if r = [] then (None, False)
      else case operations ow r of None \<Rightarrow> (None, False) | Some op \<Rightarrow> (operr op, True))"

definition recordSendOperation :: "string \<Rightarrow> string \<Rightarrow> goerror option \<Rightarrow> sendOwner \<Rightarrow> sendOwner" where
  "recordSendOperation durable r e ow =
     (if r = [] then ow
      else case operations ow r of
        None \<Rightarrow> ow
      | Some op \<Rightarrow>
          (if phase op = sendOperationTerminal then ow
           else let op' = op\<lparr>outcome := Some (sendOperationFrameLocked durable r e), operr := e\<rparr>;
                    op'' = (if e \<noteq> None \<and> \<not> errorsIs e ErrSessionResumable \<and> \<not> errorsIs e ErrSessionClosed
                            then op'\<lparr>phase := sendOperationTerminal\<rparr> else op') in
                ow\<lparr>operations := (operations ow)(r \<mapsto> op'')\<rparr>))"

definition completeSendOperationLocked :: "string \<Rightarrow> string \<Rightarrow> goerror option \<Rightarrow> sendOwner \<Rightarrow> (sendFrame \<times> bool) \<times> sendOwner" where
  "completeSendOperationLocked durable r e ow =
     (let frame = sendOperationFrameLocked durable r e in
      case operations ow r of
        None \<Rightarrow> ((frame, False), ow)
      | Some op \<Rightarrow>
          (if phase op = sendOperationTerminal then ((frame, False), ow)
           else let out = (if e = None then frame\<lparr>sfPhase := ''completed''\<rparr> else frame) in
                ((out, True),
                 ow\<lparr>operations := (operations ow)(r \<mapsto> op\<lparr>phase := sendOperationTerminal, outcome := Some out, operr := e\<rparr>)\<rparr>)))"

subsection \<open>Retries\<close>

definition PrepareDetachedSendRetry :: "string \<Rightarrow> bool \<Rightarrow> sendOwner \<Rightarrow> (retryToken \<times> bool) \<times> sendOwner" where
  "PrepareDetachedSendRetry r preserveRunAdmission ow =
     (let blocked = (r \<noteq> [] \<and> (case operations ow r of None \<Rightarrow> True | Some op \<Rightarrow> phase op \<noteq> sendOperationAdmitted)) in
      if blocked then (((0, 0), False), ow)
      else
        let o1 = (if r = [] then ow
                  else ow\<lparr>operations := (operations ow)(r \<mapsto> (the (operations ow r))\<lparr>phase := sendOperationRetrying\<rparr>)\<rparr>);
            n = nextRetryToken ow + 1;
            n' = (if n = 0 then 1 else n);
            token = (ownerID ow, n');
            o2 = o1\<lparr>nextRetryToken := n'\<rparr> in
        ((token, True), if preserveRunAdmission then o2\<lparr>retryRunAdmissionToken := token\<rparr> else o2))"

definition RetireDetachedSendRetry :: "retryToken \<Rightarrow> sendOwner \<Rightarrow> sendOwner" where
  "RetireDetachedSendRetry token ow =
     (if snd token \<noteq> 0 \<and> retryRunAdmissionToken ow = token then ow\<lparr>retryRunAdmissionToken := (0, 0)\<rparr> else ow)"

definition consumeRetryRunAdmission :: "retryToken \<Rightarrow> sendOwner \<Rightarrow> bool \<times> sendOwner" where
  "consumeRetryRunAdmission token ow =
     (if snd token = 0 \<or> retryRunAdmissionToken ow \<noteq> token then (False, ow)
      else (True, ow\<lparr>retryRunAdmissionToken := (0, 0)\<rparr>))"

subsection \<open>Written sends\<close>

definition registerSendWrite :: "nat \<Rightarrow> string \<Rightarrow> sendOwner \<Rightarrow> sendOwner" where
  "registerSendWrite w r ow =
     (let ws = unresolvedWrites ow @ [(w, r)] in ow\<lparr>unresolvedWrites := ws, unresolvedWriteCount := int (length ws)\<rparr>)"

definition settleSendWriteLocked :: "nat \<Rightarrow> sendOwner \<Rightarrow> sendOwner" where
  "settleSendWriteLocked w ow =
     (let ws = filter (\<lambda>x. fst x \<noteq> w) (unresolvedWrites ow) in ow\<lparr>unresolvedWrites := ws, unresolvedWriteCount := int (length ws)\<rparr>)"

definition hasUnresolvedSendLocked :: "sendOwner \<Rightarrow> bool" where
  "hasUnresolvedSendLocked ow \<longleftrightarrow> unresolvedWriteCount ow \<noteq> 0"

text \<open>The admission of \<open>callDetachedMutation\<close>, and its two ways of giving the slot back.\<close>

definition admitMutation :: "sendOwner \<Rightarrow> goerror option \<times> sendOwner" where
  "admitMutation ow =
     (if DetachedMutationLimit \<le> detachedMutations ow
      then (Some (withText errSendBackpressure '': maximum 16 outstanding operations''), ow)
      else (None, ow\<lparr>detachedMutations := detachedMutations ow + 1, activeDetached := activeDetached ow + 1\<rparr>))"

definition releaseMutation :: "sendOwner \<Rightarrow> sendOwner" where
  "releaseMutation ow = ow\<lparr>detachedMutations := detachedMutations ow - 1\<rparr>"

definition leaveDetached :: "sendOwner \<Rightarrow> sendOwner" where
  "leaveDetached ow = ow\<lparr>activeDetached := activeDetached ow - 1\<rparr>"

subsection \<open>Outcomes\<close>

text \<open>
  What \<open>finishDetachedSend\<close> hands to a completion function: an error is rewritten by the state the
  session is in.
\<close>

definition detachedSendError :: "routeState \<Rightarrow> goerror option \<Rightarrow> goerror option" where
  "detachedSendError s e =
     (case e of
        None \<Rightarrow> None
      | Some err \<Rightarrow>
          (if quarantineErr s \<noteq> None then quarantineErr s
           else if resumable s
           then (if \<not> errorsIs e ErrSessionResumable \<and> \<not> errorsIs e ErrSendOutcomeUnknown
                 then Some (wrapBoth errSendOutcomeUnknown err) else e)
           else if closed s \<or> closing s
           then (if \<not> errorsIs e ErrSessionClosed then Some errSessionClosed else e)
           else e))"

text \<open>
  \<open>publishDetachedOutcomeWithPolicy\<close>, with the frame it broadcasts to the owner's sessions. The loop
  over the unresolved writes settles those of the request.
\<close>

definition publishDetachedOutcomeWithPolicy ::
  "string \<Rightarrow> goerror option \<Rightarrow> string \<Rightarrow> string \<Rightarrow> bool \<Rightarrow> sendOwner \<Rightarrow> sendFrame option \<times> sendOwner" where
  "publishDetachedOutcomeWithPolicy durable e command r suppressResumable ow =
     (if errorsIs e ErrSendOutcomeUnknown \<or> suppressResumable \<and> errorsIs e ErrSessionResumable \<or> e = None \<and> r = []
      then (None, ow)
      else if r = [] then (Some ((sendOperationFrameLocked durable [] e)\<lparr>sfCommand := command\<rparr>), ow)
      else
        let o1 = fold settleSendWriteLocked (map fst (filter (\<lambda>x. snd x = r) (unresolvedWrites ow))) ow;
            o2 = snd (completeSendOperationLocked durable r e o1) in
        case operations o2 r of
          None \<Rightarrow> (None, o2)
        | Some op \<Rightarrow>
            (if phase op = sendOperationTerminal \<and> \<not> published op
             then let f = map_option (\<lambda>x. x\<lparr>sfCommand := command\<rparr>) (outcome op) in
                  (f, o2\<lparr>operations := (operations o2)(r \<mapsto> op\<lparr>outcome := f, published := True\<rparr>)\<rparr>)
             else (None, o2)))"

definition publishDetachedOutcome :: "string \<Rightarrow> goerror option \<Rightarrow> string \<Rightarrow> string \<Rightarrow> sendOwner \<Rightarrow> sendFrame option \<times> sendOwner" where
  "publishDetachedOutcome durable e command r = publishDetachedOutcomeWithPolicy durable e command r True"

definition CompleteDetachedSend :: "string \<Rightarrow> string \<Rightarrow> goerror option \<Rightarrow> sendOwner \<Rightarrow> sendFrame option \<times> sendOwner" where
  "CompleteDetachedSend durable r e = publishDetachedOutcomeWithPolicy durable e ''chat.send'' r False"

definition PublishSendOperationError :: "string \<Rightarrow> string \<Rightarrow> errorInfo \<Rightarrow> sendOwner \<Rightarrow> sendFrame option \<times> sendOwner" where
  "PublishSendOperationError durable r info ow =
     (let frame = \<lparr>sfSession = durable, sfCommand = ''chat.send'', sfRequest = r, sfPhase = [], sfError = Some info\<rparr> in
      if r = [] then (Some frame, ow)
      else case operations ow r of
        None \<Rightarrow> (None, ow)
      | Some op \<Rightarrow>
          (if published op then (None, ow)
           else (Some frame,
                 ow\<lparr>operations := (operations ow)(r \<mapsto> op\<lparr>phase := sendOperationTerminal, outcome := Some frame,
                      operr := Some (sentinel (Foreign []) (infoMessage info)), published := True\<rparr>)\<rparr>)))"

text \<open>The retained outcomes a new subscriber is given, in admission order.\<close>

definition retainedOutcomes :: "sendOwner \<Rightarrow> sendFrame list" where
  "retainedOutcomes ow =
     List.map_filter (\<lambda>r. case operations ow r of None \<Rightarrow> None | Some op \<Rightarrow> outcome op) (fifo ow)"

end
