(* ===== verification/SendSystem.thy ===== *)
theory SendSystem
  imports SendLedger
begin

text \<open>
  The concurrent system around the send ledger of \<open>internal/session/session.go\<close>: the goroutines that
  send (\<open>SendPromptDetached...\<close>, \<open>sendSteerDetached\<close>, \<open>sendFollowUpDetached\<close>, \<open>sendPrompt\<close>,
  \<open>sendDuringRun\<close>, \<open>callDetachedSend\<close>, \<open>callDetachedMutation\<close>), the provider callbacks and the
  completions, as program counters; one step runs one critical section of one of them.

  The logs at the end of the state are history: nothing reads them.
\<close>

section \<open>Goroutines\<close>

text \<open>
  \<open>jNested\<close> marks the steer a busy prompt is turned into inside the prompt's own callback, \<open>jCustom\<close>
  that the caller passed a completion function.
\<close>

record job =
  jSess :: nat
  jReq :: string
  jPrompt :: bool
  jToken :: retryToken
  jCustom :: bool
  jNested :: bool

datatype sendPC =
    Checking job
  | Registering job
  | Writing job nat
  | Calling job nat
  | Unwritten job nat goerror
  | Recording job "goerror option"
  | Awaiting job nat
  | Answered job nat bool "goerror option"
  | Completing job "goerror option"
  | Finishing job "goerror option"
  | Leaving
  | Finished

record sendWorld =
  owner :: sendOwner
  routes :: "nat \<Rightarrow> routeState"
  threads :: "sendPC list"
  nextWrite :: nat
  deliveries :: "(nat \<times> sendFrame) list"
  announced :: "sendFrame list"
  handed :: "(string \<times> goerror option) list"
  evicted :: "string list"
  claimed :: "string list"
  steered :: "string list"
  attempted :: "string list"
  written :: "(nat \<times> string) list"
  answered :: "nat list"
  concluded :: "string list"

definition newSendWorld :: "nat \<Rightarrow> nat \<Rightarrow> (nat \<Rightarrow> routeState) \<Rightarrow> sendWorld" where
  "newSendWorld k s rs = \<lparr>owner = newOwner k s, routes = rs, threads = [], nextWrite = 0, deliveries = [], announced = [],
     handed = [], evicted = [], claimed = [], steered = [], attempted = [], written = [], answered = [], concluded = []\<rparr>"

section \<open>Steps\<close>

definition threadAt :: "nat \<Rightarrow> sendWorld \<Rightarrow> sendPC" where
  "threadAt i w = (if i < length (threads w) then threads w ! i else Finished)"

definition setPC :: "nat \<Rightarrow> sendPC \<Rightarrow> sendWorld \<Rightarrow> sendWorld" where
  "setPC i p w = w\<lparr>threads := (threads w)[i := p]\<rparr>"

text \<open>Which operation the admission of \<open>r\<close> drops from the ledger.\<close>

definition evictedBy :: "string \<Rightarrow> sendOwner \<Rightarrow> string list" where
  "evictedBy r ow =
     (if r = [] \<or> operations ow r \<noteq> None \<or> length (fifo ow) < SendOperationLedgerCapacity then []
      else case terminalSlot ow of None \<Rightarrow> [] | Some i \<Rightarrow> [fifo ow ! i])"

text \<open>\<open>owner.publishLocked\<close>: every session of the owner that is not closed gets the frame.\<close>

definition publishLocked :: "sendFrame option \<Rightarrow> sendOwner \<Rightarrow> sendWorld \<Rightarrow> sendWorld" where
  "publishLocked f ow w =
     (case f of
        None \<Rightarrow> w\<lparr>owner := ow\<rparr>
      | Some x \<Rightarrow> w\<lparr>owner := ow, announced := announced w @ [x],
          deliveries := deliveries w @ map (\<lambda>s. (s, x)) (filter (\<lambda>s. \<not> closed (routes w s)) (ownerSessions ow))\<rparr>)"

definition authoritative :: "goerror option \<Rightarrow> bool \<Rightarrow> string \<Rightarrow> bool" where
  "authoritative e suppressResumable r \<longleftrightarrow>
     \<not> (errorsIs e ErrSendOutcomeUnknown \<or> suppressResumable \<and> errorsIs e ErrSessionResumable \<or> e = None \<and> r = [])"

definition publishOutcome :: "string \<Rightarrow> goerror option \<Rightarrow> string \<Rightarrow> bool \<Rightarrow> sendWorld \<Rightarrow> sendWorld" where
  "publishOutcome durable e r suppressResumable w =
     (case publishDetachedOutcomeWithPolicy durable e ''chat.send'' r suppressResumable (owner w) of
        (f, ow) \<Rightarrow> publishLocked f ow
          (w\<lparr>concluded := concluded w @ (if authoritative e suppressResumable r \<and> r \<noteq> [] then [r] else [])\<rparr>))"

definition markUnloaded :: "nat \<Rightarrow> goerror option \<Rightarrow> sendWorld \<Rightarrow> sendWorld" where
  "markUnloaded s e w =
     (let x = routes w s in
      if routeLoss e \<and> \<not> closed x \<and> \<not> invalidated x
      then w\<lparr>routes := (routes w)(s := x\<lparr>invalidated := True, resumable := True\<rparr>)\<rparr> else w)"

text \<open>Where a sender goes once \<open>callDetachedSend\<close> has returned.\<close>

definition afterCall :: "job \<Rightarrow> goerror option \<Rightarrow> sendPC" where
  "afterCall j e =
     (if jNested j then (case e of None \<Rightarrow> Leaving | Some x \<Rightarrow> Finishing j e) else Recording j e)"

definition agentBusy :: "goerror option \<Rightarrow> bool" where
  "agentBusy e = (case e of None \<Rightarrow> False | Some x \<Rightarrow> take (length busyAgentErrorPrefix) (message x) = busyAgentErrorPrefix)"

text \<open>
  \<open>Check\<close> carries what \<open>prepareWrite\<close> answers, whether the session is active and what its latches and
  its route answer; \<open>CallReturns\<close>, \<open>Respond\<close> and \<open>Complete\<close> what the client and the provider answer and
  whether the prompt is still the session's. \<open>Claim\<close>, \<open>Retire\<close>, \<open>CompleteSend\<close> and \<open>PublishError\<close> are
  calls of the bridge, the last three events the life of the sessions.
\<close>

datatype sendEvent =
    Begin job
  | Check nat "goerror option" bool "goerror option"
  | Register nat
  | Admit nat
  | CallReturns nat "goerror option"
  | Settle nat
  | Record nat
  | Respond nat bool "goerror option"
  | SettleAnswer nat
  | Complete nat bool
  | Finish nat
  | Leave nat
  | Claim string bool
  | Retire retryToken
  | CompleteSend nat string "goerror option"
  | PublishError nat string errorInfo
  | SetRoute nat routeState
  | Join nat
  | Depart nat

definition checkSend :: "nat \<Rightarrow> job \<Rightarrow> goerror option \<Rightarrow> bool \<Rightarrow> goerror option \<Rightarrow> sendWorld \<Rightarrow> sendWorld" where
  "checkSend i j prep active route w =
     (if prep \<noteq> None then setPC i (Recording j prep) w
      else if jPrompt j
      then setPC i (if route \<noteq> None then Recording j route else Registering j) w
      else case consumeRetryRunAdmission (jToken j) (owner w) of
        (retryAdmission, ow) \<Rightarrow>
          setPC i (if \<not> active \<and> \<not> retryAdmission then Recording j (Some errPromptInFlight)
                   else if route \<noteq> None then Recording j route else Registering j) (w\<lparr>owner := ow\<rparr>))"

definition callReturns :: "nat \<Rightarrow> job \<Rightarrow> nat \<Rightarrow> goerror option \<Rightarrow> sendWorld \<Rightarrow> sendWorld" where
  "callReturns i j wid e w =
     (let w1 = w\<lparr>attempted := attempted w @ [jReq j]\<rparr> in
      case e of
        None \<Rightarrow> w1\<lparr>threads := (threads w)[i := afterCall j None] @ [Awaiting j wid], written := written w @ [(wid, jReq j)]\<rparr>
      | Some err \<Rightarrow> setPC i (Unwritten j wid err) (w1\<lparr>owner := leaveDetached (releaseMutation (owner w))\<rparr>))"

definition completeSend :: "nat \<Rightarrow> job \<Rightarrow> goerror option \<Rightarrow> bool \<Rightarrow> sendWorld \<Rightarrow> sendWorld" where
  "completeSend i j err ownsPrompt w =
     (let w1 = markUnloaded (jSess j) err w; e = classifyRouteError err in
      if jPrompt j \<and> agentBusy e \<and> ownsPrompt
      then setPC i (Registering (j\<lparr>jPrompt := False, jNested := True\<rparr>)) (w1\<lparr>steered := steered w @ [jReq j]\<rparr>)
      else setPC i (Finishing j e) w1)"

definition finishDetachedSend :: "nat \<Rightarrow> job \<Rightarrow> goerror option \<Rightarrow> sendWorld \<Rightarrow> sendWorld" where
  "finishDetachedSend i j e w =
     setPC i Leaving
       (if jCustom j then w\<lparr>handed := handed w @ [(jReq j, detachedSendError (routes w (jSess j)) e)]\<rparr>
        else publishOutcome (durableID (routes w (jSess j))) e (jReq j) True w)"

fun sendStep :: "sendEvent \<Rightarrow> sendWorld \<Rightarrow> sendWorld option" where
  "sendStep (Begin j) w =
     (case beginSendOperation (jReq j) (owner w) of
        ((prior, True), ow) \<Rightarrow> Some w
      | ((prior, False), ow) \<Rightarrow>
          Some (w\<lparr>owner := ow, threads := threads w @ [Checking (j\<lparr>jNested := False\<rparr>)], evicted := evicted w @ evictedBy (jReq j) (owner w)\<rparr>))"
| "sendStep (Check i prep active route) w =
     (case threadAt i w of Checking j \<Rightarrow> Some (checkSend i j prep active route w) | _ \<Rightarrow> None)"
| "sendStep (Register i) w =
     (case threadAt i w of
        Registering j \<Rightarrow> Some (setPC i (Writing j (nextWrite w))
          (w\<lparr>owner := registerSendWrite (nextWrite w) (jReq j) (owner w), nextWrite := Suc (nextWrite w)\<rparr>))
      | _ \<Rightarrow> None)"
| "sendStep (Admit i) w =
     (case threadAt i w of
        Writing j wid \<Rightarrow>
          (case admitMutation (owner w) of
             (None, ow) \<Rightarrow> Some (setPC i (Calling j wid) (w\<lparr>owner := ow\<rparr>))
           | (Some e, ow) \<Rightarrow> Some (setPC i (Unwritten j wid e) (w\<lparr>owner := ow\<rparr>)))
      | _ \<Rightarrow> None)"
| "sendStep (CallReturns i e) w =
     (case threadAt i w of Calling j wid \<Rightarrow> Some (callReturns i j wid e w) | _ \<Rightarrow> None)"
| "sendStep (Settle i) w =
     (case threadAt i w of
        Unwritten j wid e \<Rightarrow>
          Some (setPC i (afterCall j (classifyRouteError (Some e)))
            (markUnloaded (jSess j) (Some e) (w\<lparr>owner := settleSendWriteLocked wid (owner w)\<rparr>)))
      | _ \<Rightarrow> None)"
| "sendStep (Record i) w =
     (case threadAt i w of
        Recording j e \<Rightarrow>
          Some (setPC i Finished (w\<lparr>owner := recordSendOperation (durableID (routes w (jSess j))) (jReq j) e (owner w)\<rparr>))
      | _ \<Rightarrow> None)"
| "sendStep (Respond i resp e) w =
     (case threadAt i w of
        Awaiting j wid \<Rightarrow> Some (setPC i (Answered j wid resp e) (w\<lparr>owner := releaseMutation (owner w)\<rparr>))
      | _ \<Rightarrow> None)"
| "sendStep (SettleAnswer i) w =
     (case threadAt i w of
        Answered j wid resp e \<Rightarrow>
          Some (setPC i (Completing j e)
            (if resp then w\<lparr>owner := settleSendWriteLocked wid (owner w), answered := answered w @ [wid]\<rparr> else w))
      | _ \<Rightarrow> None)"
| "sendStep (Complete i ownsPrompt) w =
     (case threadAt i w of Completing j e \<Rightarrow> Some (completeSend i j e ownsPrompt w) | _ \<Rightarrow> None)"
| "sendStep (Finish i) w =
     (case threadAt i w of Finishing j e \<Rightarrow> Some (finishDetachedSend i j e w) | _ \<Rightarrow> None)"
| "sendStep (Leave i) w =
     (case threadAt i w of Leaving \<Rightarrow> Some (setPC i Finished (w\<lparr>owner := leaveDetached (owner w)\<rparr>)) | _ \<Rightarrow> None)"
| "sendStep (Claim r keep) w =
     (case PrepareDetachedSendRetry r keep (owner w) of
        ((token, ok), ow) \<Rightarrow> Some (w\<lparr>owner := ow, claimed := claimed w @ (if ok then [r] else [])\<rparr>))"
| "sendStep (Retire token) w = Some (w\<lparr>owner := RetireDetachedSendRetry token (owner w)\<rparr>)"
| "sendStep (CompleteSend s r e) w = Some (publishOutcome (durableID (routes w s)) e r False w)"
| "sendStep (PublishError s r info) w =
     (case PublishSendOperationError (durableID (routes w s)) r info (owner w) of (f, ow) \<Rightarrow> Some (publishLocked f ow w))"
| "sendStep (SetRoute s x) w = Some (w\<lparr>routes := (routes w)(s := x)\<rparr>)"
| "sendStep (Join s) w =
     Some (w\<lparr>owner := (owner w)\<lparr>ownerSessions := List.insert s (ownerSessions (owner w))\<rparr>\<rparr>)"
| "sendStep (Depart s) w =
     Some (w\<lparr>owner := (owner w)\<lparr>ownerSessions := removeAll s (ownerSessions (owner w))\<rparr>\<rparr>)"

inductive sendReachable :: "sendWorld \<Rightarrow> bool" where
  fresh: "sendReachable (newSendWorld k s rs)"
| step: "sendReachable w \<Longrightarrow> sendStep ev w = Some w' \<Longrightarrow> sendReachable w'"

fun sendRun :: "sendEvent list \<Rightarrow> sendWorld \<Rightarrow> sendWorld option" where
  "sendRun [] w = Some w"
| "sendRun (ev # evs) w = (case sendStep ev w of None \<Rightarrow> None | Some w' \<Rightarrow> sendRun evs w')"

lemma sendRun_reachable: "sendReachable w \<Longrightarrow> sendRun evs w = Some w' \<Longrightarrow> sendReachable w'"
  by (induction evs arbitrary: w) (auto split: option.splits intro: sendReachable.step)

end
