(* ===== verification/SendHistory.thy ===== *)
theory SendHistory
  imports SendSystem
begin

text \<open>
  What holds in every execution of the send system, under any interleaving, any answers of the
  provider and any use the bridge makes of retries: the ledger is bounded and consistent, a send is
  attempted at most once per licence, an outcome is announced at most once and is the one replayed
  afterwards, and a written send whose outcome is lost keeps the chat's work alive.
\<close>

section \<open>Vocabulary\<close>

text \<open>
  Sums over the goroutines: licences for an attempt of \<open>r\<close>, calls that are with the client, goroutines
  inside a detached call, and goroutines that hold the write identity \<open>k\<close> before the client has it.
\<close>

definition total :: "(sendPC \<Rightarrow> int) \<Rightarrow> sendWorld \<Rightarrow> int" where
  "total f w = sum_list (map f (threads w))"

fun licence :: "string \<Rightarrow> sendPC \<Rightarrow> int" where
  "licence r (Checking j) = (if jReq j = r then 1 else 0)"
| "licence r (Registering j) = (if jReq j = r then 1 else 0)"
| "licence r (Writing j wid) = (if jReq j = r then 1 else 0)"
| "licence r (Calling j wid) = (if jReq j = r then 1 else 0)"
| "licence r _ = 0"

fun calling :: "sendPC \<Rightarrow> int" where
  "calling (Calling j wid) = 1"
| "calling (Awaiting j wid) = 1"
| "calling _ = 0"

definition nested :: "job \<Rightarrow> int" where
  "nested j = (if jNested j then 1 else 0)"

fun inside :: "sendPC \<Rightarrow> int" where
  "inside (Checking j) = 0"
| "inside (Recording j e) = 0"
| "inside Finished = 0"
| "inside (Registering j) = nested j"
| "inside (Writing j wid) = nested j"
| "inside (Unwritten j wid e) = nested j"
| "inside (Calling j wid) = 1 + nested j"
| "inside _ = 1"

fun unsent :: "nat \<Rightarrow> sendPC \<Rightarrow> int" where
  "unsent k (Writing j wid) = (if wid = k then 1 else 0)"
| "unsent k (Calling j wid) = (if wid = k then 1 else 0)"
| "unsent k (Unwritten j wid e) = (if wid = k then 1 else 0)"
| "unsent k _ = 0"

definition slotOK :: "string \<Rightarrow> sendOperation \<Rightarrow> bool" where
  "slotOK r op \<longleftrightarrow>
     (case outcome op of None \<Rightarrow> phase op \<noteq> sendOperationTerminal | Some f \<Rightarrow> sfRequest f = r) \<and>
     (published op \<longrightarrow> phase op = sendOperationTerminal)"

definition ledgerInv :: "sendOwner \<Rightarrow> bool" where
  "ledgerInv ow \<longleftrightarrow>
     distinct (fifo ow) \<and> set (fifo ow) = dom (operations ow) \<and> [] \<notin> set (fifo ow) \<and>
     length (fifo ow) \<le> SendOperationLedgerCapacity \<and>
     (\<forall>r op. operations ow r = Some op \<longrightarrow> slotOK r op)"

text \<open>How often \<open>r\<close> may still be attempted, and announced, without a further licence.\<close>

definition credit :: "sendOwner \<Rightarrow> string \<Rightarrow> nat" where
  "credit ow r = (case operations ow r of None \<Rightarrow> 1 | Some op \<Rightarrow> if phase op = sendOperationRetrying then 1 else 0)"

definition quiet :: "sendOwner \<Rightarrow> string \<Rightarrow> nat" where
  "quiet ow r = (case operations ow r of None \<Rightarrow> 1 | Some op \<Rightarrow> if published op then 0 else 1)"

definition announcedFor :: "string \<Rightarrow> sendWorld \<Rightarrow> sendFrame list" where
  "announcedFor r w = filter (\<lambda>f. sfRequest f = r) (announced w)"

definition receivedFor :: "nat \<Rightarrow> string \<Rightarrow> sendWorld \<Rightarrow> sendFrame list" where
  "receivedFor s r w = map snd (filter (\<lambda>x. fst x = s \<and> sfRequest (snd x) = r) (deliveries w))"

section \<open>The ledger\<close>

lemma terminalSlot_Some:
  assumes "terminalSlot ow = Some i"
  shows "i < length (fifo ow)" "phaseOf ow (fifo ow ! i) = sendOperationTerminal"
  using index_of_Some[OF assms[unfolded terminalSlot_def]] by auto

lemma slotOK_fresh [simp]: "slotOK r \<lparr>phase = sendOperationAdmitted, outcome = None, operr = None, published = False\<rparr>"
  by (simp add: slotOK_def)

lemma sfRequest_frame [simp]: "sfRequest (sendOperationFrameLocked durable r e) = r"
  by (cases e) (simp_all add: sendOperationFrameLocked_def Let_def)

lemma ledgerInv_update:
  assumes "ledgerInv ow" "operations ow r = Some op" "slotOK r op'"
  shows "ledgerInv (ow\<lparr>operations := (operations ow)(r \<mapsto> op')\<rparr>)"
  using assms unfolding ledgerInv_def by (auto simp: domI insert_absorb)

lemma ledgerInv_same:
  "operations ow' = operations ow \<Longrightarrow> fifo ow' = fifo ow \<Longrightarrow> ledgerInv ow' = ledgerInv ow"
  by (simp add: ledgerInv_def)

lemma ledgerInv_evict:
  assumes "ledgerInv ow" "i < length (fifo ow)"
  shows "ledgerInv (evictOperation i ow)" "length (fifo (evictOperation i ow)) < SendOperationLedgerCapacity"
proof -
  have "fifo ow = take i (fifo ow) @ fifo ow ! i # drop (Suc i) (fifo ow)"
    using assms(2) by (simp add: id_take_nth_drop)
  then obtain xs ys where split: "fifo ow = xs @ fifo ow ! i # ys" "take i (fifo ow) @ drop (Suc i) (fifo ow) = xs @ ys"
    by blast
  have "distinct (xs @ fifo ow ! i # ys)" "set (xs @ fifo ow ! i # ys) = dom (operations ow)"
    using assms(1) split(1) by (auto simp: ledgerInv_def)
  then have "set (xs @ ys) = dom (operations ow) - {fifo ow ! i}"
    by auto
  moreover have "distinct (xs @ ys)"
    using \<open>distinct (xs @ fifo ow ! i # ys)\<close> by simp
  moreover have "length (xs @ ys) < length (fifo ow)"
    using arg_cong[OF split(1), of length] by simp
  ultimately show "ledgerInv (evictOperation i ow)" "length (fifo (evictOperation i ow)) < SendOperationLedgerCapacity"
    using assms(1) unfolding ledgerInv_def evictOperation_def by (auto simp: split(2))
qed

lemma ledgerInv_admit:
  assumes "ledgerInv ow" "length (fifo ow) < SendOperationLedgerCapacity" "operations ow r = None" "r \<noteq> []"
  shows "ledgerInv (admitOperation r ow)"
  using assms unfolding ledgerInv_def admitOperation_def by auto

lemma begin_cases:
  assumes "ledgerInv ow" and "beginSendOperation r ow = ((prior, dup), ow')"
  obtains (repeat) "dup" "ow' = ow"
    | (anonymous) "\<not> dup" "r = []" "ow' = ow" "evictedBy r ow = []"
    | (again) op where "\<not> dup" "r \<noteq> []" "operations ow r = Some op" "phase op = sendOperationRetrying"
        "ow' = ow\<lparr>operations := (operations ow)(r \<mapsto> op\<lparr>phase := sendOperationAdmitted\<rparr>)\<rparr>" "evictedBy r ow = []"
    | (admitted) "\<not> dup" "r \<noteq> []" "operations ow r = None" "ow' = admitOperation r ow" "evictedBy r ow = []"
        "length (fifo ow) < SendOperationLedgerCapacity"
    | (evicting) i where "\<not> dup" "r \<noteq> []" "operations ow r = None" "terminalSlot ow = Some i"
        "ow' = admitOperation r (evictOperation i ow)" "evictedBy r ow = [fifo ow ! i]"
  using assms(2)
  by (auto simp: beginSendOperation_def evictedBy_def not_le split: if_splits option.splits)

lemma evict_other:
  assumes "ledgerInv ow" "operations ow r = None" "i < length (fifo ow)"
  shows "operations (evictOperation i ow) r = None" "fifo ow ! i \<noteq> r"
  using assms nth_mem[of i "fifo ow"] by (auto simp: ledgerInv_def evictOperation_def)

lemma begin_ledger:
  assumes inv: "ledgerInv ow" and "beginSendOperation r ow = ((prior, dup), ow')"
  shows "ledgerInv ow'"
  using inv assms(2)
proof (cases rule: begin_cases)
  case (again op)
  have "slotOK r op"
    using inv again(3) by (simp add: ledgerInv_def)
  then show ?thesis
    using ledgerInv_update[OF inv again(3)] again(4,5) by (simp add: slotOK_def split: option.splits)
next
  case (evicting i)
  then show ?thesis
    using ledgerInv_admit[OF ledgerInv_evict[OF inv terminalSlot_Some(1)]] evict_other(1)[OF inv]
      terminalSlot_Some(1) by blast
qed (use inv ledgerInv_admit in auto)


subsection \<open>Effects on the ledger\<close>

text \<open>
  What every critical section but admission and claim does to the ledger: it gives no credit, and
  the frame \<open>f\<close> it announces uses up the announcement its request had left and is what the ledger
  retains.
\<close>

definition about :: "sendFrame option \<Rightarrow> string \<Rightarrow> bool" where
  "about f r \<longleftrightarrow> (case f of None \<Rightarrow> False | Some x \<Rightarrow> sfRequest x = r)"

lemma about_simps [simp]: "\<not> about None r" "about (Some x) r \<longleftrightarrow> sfRequest x = r"
  by (simp_all add: about_def)

definition moves :: "sendFrame option \<Rightarrow> sendOwner \<Rightarrow> sendOwner \<Rightarrow> bool" where
  "moves f ow ow' \<longleftrightarrow>
     ledgerInv ow' \<and> (\<forall>r. credit ow' r \<le> credit ow r) \<and>
     (\<forall>r. r \<noteq> [] \<longrightarrow> quiet ow' r + (if about f r then 1 else 0) \<le> quiet ow r) \<and>
     (\<forall>r op. operations ow' r = Some op \<longrightarrow> published op \<longrightarrow>
        (operations ow r = Some op \<and> \<not> about f r) \<or> (f = outcome op \<and> about f r))"

lemma moves_same:
  assumes "ledgerInv ow" "operations ow' = operations ow" "fifo ow' = fifo ow"
  shows "moves None ow ow'"
  using assms ledgerInv_same[OF assms(2,3)] by (simp add: moves_def credit_def quiet_def)

lemma moves_refl: "ledgerInv ow \<Longrightarrow> moves None ow ow"
  by (rule moves_same) simp_all

lemma moves_frozen:
  "moves f ow ow' \<Longrightarrow> operations ow' r = Some op \<Longrightarrow> published op \<Longrightarrow>
    (operations ow r = Some op \<and> \<not> about f r) \<or> (f = outcome op \<and> about f r)"
  by (simp add: moves_def)

lemma moves_trans:
  assumes "moves None a b" "moves f b c"
  shows "moves f a c"
proof -
  have quiet: "quiet c r + (if about f r then 1 else 0) \<le> quiet a r" if "r \<noteq> []" for r
    using assms that by (fastforce simp: moves_def)
  have credit: "credit c r \<le> credit a r" for r
    using assms by (fastforce simp: moves_def intro: order_trans)
  have frozen: "(operations a r = Some op \<and> \<not> about f r) \<or> (f = outcome op \<and> about f r)"
    if c: "operations c r = Some op" "published op" for r op
  proof -
    have "operations b r = Some op \<Longrightarrow> operations a r = Some op"
      using moves_frozen[OF assms(1) _ c(2)] by simp
    then show ?thesis
      using moves_frozen[OF assms(2) c] by blast
  qed
  have inv: "ledgerInv c"
    using assms(2) unfolding moves_def by blast
  show ?thesis
    unfolding moves_def by (intro conjI allI impI inv credit quiet frozen)
qed

lemma moves_slot:
  assumes inv: "ledgerInv ow" and op: "operations ow r = Some op" and ok: "slotOK r op'"
    and retry: "phase op' = sendOperationRetrying \<Longrightarrow> phase op = sendOperationRetrying"
    and pub: "published op' = published op" and frozen: "published op \<Longrightarrow> op' = op"
  shows "moves None ow (ow\<lparr>operations := (operations ow)(r \<mapsto> op')\<rparr>)"
proof -
  let ?ow = "ow\<lparr>operations := (operations ow)(r \<mapsto> op')\<rparr>"
  have "credit ?ow s \<le> credit ow s" for s
    using op retry by (simp add: credit_def)
  moreover have "quiet ?ow s = quiet ow s" for s
    using op pub by (simp add: quiet_def)
  moreover have "operations ow s = Some x" if "operations ?ow s = Some x" "published x" for s x
    using that op pub frozen by (auto split: if_splits)
  ultimately show ?thesis
    using ledgerInv_update[OF inv op ok] unfolding moves_def about_simps(1) by simp
qed

lemma moves_announce:
  assumes "ledgerInv ow" "operations ow r = Some op" "\<not> published op" "slotOK r op'" "published op'" "r \<noteq> []"
  shows "moves (outcome op') ow (ow\<lparr>operations := (operations ow)(r \<mapsto> op')\<rparr>)"
proof -
  obtain x where "outcome op' = Some x" "sfRequest x = r" "phase op' = sendOperationTerminal"
    using assms(4,5) by (auto simp: slotOK_def split: option.splits)
  then show ?thesis
    using assms ledgerInv_update[OF assms(1,2,4)] by (auto simp: moves_def credit_def quiet_def)
qed

lemma slotOK_D:
  assumes "ledgerInv ow" "operations ow r = Some op"
  shows "slotOK r op" "r \<noteq> []"
  using assms by (auto simp: ledgerInv_def)

lemma settled_slot:
  assumes "ledgerInv ow" "operations ow r = Some op" "phase op \<noteq> sendOperationTerminal"
    and "slotOK r op'" "phase op' \<noteq> sendOperationRetrying \<or> phase op' = phase op" "published op' = published op"
  shows "moves None ow (ow\<lparr>operations := (operations ow)(r \<mapsto> op')\<rparr>)"
  by (rule moves_slot[OF assms(1,2,4)])
    (use assms slotOK_D(1)[OF assms(1,2)] in \<open>auto simp: slotOK_def\<close>)

lemma record_moves:
  assumes inv: "ledgerInv ow"
  shows "moves None ow (recordSendOperation durable r e ow)"
proof (cases "operations ow r")
  case (Some op)
  let ?op' = "op\<lparr>outcome := Some (sendOperationFrameLocked durable r e), operr := e\<rparr>"
  let ?op'' = "if e \<noteq> None \<and> \<not> errorsIs e ErrSessionResumable \<and> \<not> errorsIs e ErrSessionClosed
                then ?op'\<lparr>phase := sendOperationTerminal\<rparr> else ?op'"
  have ok: "slotOK r ?op''" if "phase op \<noteq> sendOperationTerminal"
    using slotOK_D(1)[OF inv Some] that by (simp add: slotOK_def)
  show ?thesis
  proof (cases "phase op = sendOperationTerminal \<or> r = []")
    case False
    then have "moves None ow (ow\<lparr>operations := (operations ow)(r \<mapsto> ?op'')\<rparr>)"
      by (intro settled_slot[OF inv Some _ ok]) auto
    then show ?thesis
      using False Some by (simp add: recordSendOperation_def Let_def)
  qed (auto simp: recordSendOperation_def Some moves_refl[OF inv])
qed (simp add: recordSendOperation_def moves_refl[OF inv])

lemma complete_moves:
  assumes inv: "ledgerInv ow"
  shows "moves None ow (snd (completeSendOperationLocked durable r e ow))"
proof (cases "operations ow r")
  case (Some op)
  let ?out = "if e = None then (sendOperationFrameLocked durable r e)\<lparr>sfPhase := ''completed''\<rparr> else sendOperationFrameLocked durable r e"
  let ?op' = "op\<lparr>phase := sendOperationTerminal, outcome := Some ?out, operr := e\<rparr>"
  show ?thesis
  proof (cases "phase op = sendOperationTerminal")
    case False
    then have "moves None ow (ow\<lparr>operations := (operations ow)(r \<mapsto> ?op')\<rparr>)"
      by (intro settled_slot[OF inv Some]) (auto simp: slotOK_def)
    then show ?thesis
      using False Some by (simp add: completeSendOperationLocked_def Let_def)
  qed (simp add: completeSendOperationLocked_def Some Let_def moves_refl[OF inv])
qed (simp add: completeSendOperationLocked_def Let_def moves_refl[OF inv])

lemma settle_simps [simp]:
  "operations (settleSendWriteLocked w ow) = operations ow" "fifo (settleSendWriteLocked w ow) = fifo ow"
  "detachedMutations (settleSendWriteLocked w ow) = detachedMutations ow"
  "activeDetached (settleSendWriteLocked w ow) = activeDetached ow"
  "unresolvedWrites (settleSendWriteLocked w ow) = filter (\<lambda>x. fst x \<noteq> w) (unresolvedWrites ow)"
  "unresolvedWriteCount (settleSendWriteLocked w ow) = int (length (unresolvedWrites (settleSendWriteLocked w ow)))"
  by (simp_all add: settleSendWriteLocked_def Let_def)

lemma fold_settle [simp]:
  "operations (fold settleSendWriteLocked ws ow) = operations ow"
  "fifo (fold settleSendWriteLocked ws ow) = fifo ow"
  "detachedMutations (fold settleSendWriteLocked ws ow) = detachedMutations ow"
  "activeDetached (fold settleSendWriteLocked ws ow) = activeDetached ow"
  "unresolvedWrites (fold settleSendWriteLocked ws ow) = filter (\<lambda>x. fst x \<notin> set ws) (unresolvedWrites ow)"
  by (induction ws arbitrary: ow) (simp_all add: conj_commute)

lemma publish_moves:
  assumes inv: "ledgerInv ow"
    and run: "publishDetachedOutcomeWithPolicy durable e command r suppress ow = (f, ow')"
  shows "moves (if r = [] then None else f) ow ow'"
proof -
  let ?o1 = "fold settleSendWriteLocked (map fst (filter (\<lambda>x. snd x = r) (unresolvedWrites ow))) ow"
  let ?o2 = "snd (completeSendOperationLocked durable r e ?o1)"
  have 1: "moves None ow ?o1"
    by (rule moves_same[OF inv]) simp_all
  then have inv1: "ledgerInv ?o1"
    by (simp add: moves_def)
  have 2: "moves None ow ?o2"
    by (rule moves_trans[OF 1 complete_moves[OF inv1]])
  then have inv2: "ledgerInv ?o2"
    by (simp add: moves_def)
  have ann: "moves (map_option (\<lambda>x. x\<lparr>sfCommand := command\<rparr>) (outcome op)) ?o2
      (?o2\<lparr>operations := (operations ?o2)(r \<mapsto> op\<lparr>outcome := map_option (\<lambda>x. x\<lparr>sfCommand := command\<rparr>) (outcome op), published := True\<rparr>)\<rparr>)"
    if op: "operations ?o2 r = Some op" "phase op = sendOperationTerminal" "\<not> published op" for op
  proof -
    have "slotOK r (op\<lparr>outcome := map_option (\<lambda>x. x\<lparr>sfCommand := command\<rparr>) (outcome op), published := True\<rparr>)"
      using slotOK_D(1)[OF inv2 op(1)] op(2) by (auto simp: slotOK_def split: option.splits)
    from moves_announce[OF inv2 op(1,3) this] slotOK_D(2)[OF inv2 op(1)] show ?thesis
      by simp
  qed
  show ?thesis
    using run 2 moves_refl[OF inv] moves_trans[OF 2 ann]
    by (auto simp: publishDetachedOutcomeWithPolicy_def Let_def split: if_splits option.splits)
qed

lemma publishError_moves:
  assumes inv: "ledgerInv ow" and run: "PublishSendOperationError durable r info ow = (f, ow')"
  shows "moves (if r = [] then None else f) ow ow'"
proof (cases "operations ow r")
  case (Some op)
  let ?op = "op\<lparr>phase := sendOperationTerminal,
     outcome := Some \<lparr>sfSession = durable, sfCommand = ''chat.send'', sfRequest = r, sfPhase = [], sfError = Some info\<rparr>,
     operr := Some (sentinel (Foreign []) (infoMessage info)), published := True\<rparr>"
  have "moves (outcome ?op) ow (ow\<lparr>operations := (operations ow)(r \<mapsto> ?op)\<rparr>)" if "\<not> published op"
    by (rule moves_announce[OF inv Some that]) (use slotOK_D(2)[OF inv Some] in \<open>auto simp: slotOK_def\<close>)
  then show ?thesis
    using run moves_refl[OF inv] Some by (auto simp: PublishSendOperationError_def Let_def split: if_splits)
qed (use assms moves_refl[OF inv] in \<open>auto simp: PublishSendOperationError_def Let_def split: if_splits\<close>)

text \<open>Admission and claim: the two operations that give a licence.\<close>

definition given :: "bool \<Rightarrow> nat" where
  "given b = (if b then 1 else 0)"

lemma begin_effect:
  assumes inv: "ledgerInv ow" and run: "beginSendOperation r ow = ((prior, False), ow')" and s: "s \<noteq> []"
  shows "credit ow' s + given (r = s) \<le> credit ow s + count_list (evictedBy r ow) s \<and>
    quiet ow' s \<le> quiet ow s + count_list (evictedBy r ow) s \<and>
    (\<forall>op. operations ow' s = Some op \<longrightarrow> published op \<longrightarrow> operations ow s = Some op)"
  using inv run
proof (cases rule: begin_cases)
  case (evicting i)
  have terminal: "phaseOf ow (fifo ow ! i) = sendOperationTerminal"
    by (rule terminalSlot_Some(2)[OF evicting(4)])
  have other: "fifo ow ! i \<noteq> r"
    using evict_other(2)[OF inv evicting(3) terminalSlot_Some(1)[OF evicting(4)]] .
  obtain x where x: "operations ow (fifo ow ! i) = Some x" "phase x = sendOperationTerminal"
    using terminal by (auto simp: phaseOf_def split: option.splits)
  consider "s = r" | "s = fifo ow ! i" | "s \<noteq> r" "s \<noteq> fifo ow ! i"
    by blast
  then show ?thesis
    by cases (use evicting(3,5,6) x other in
      \<open>auto simp: credit_def quiet_def given_def admitOperation_def evictOperation_def\<close>)
next
  case (again op)
  have "\<not> published op"
    using slotOK_D(1)[OF inv again(3)] again(4) by (simp add: slotOK_def)
  then show ?thesis
    using again s by (cases "r = s") (simp_all add: credit_def quiet_def given_def)
qed (use s in \<open>auto simp: credit_def quiet_def given_def admitOperation_def split: option.splits\<close>)

lemmas begin_licences =
  begin_effect [THEN conjunct1] begin_effect [THEN conjunct2, THEN conjunct1]
  begin_effect [THEN conjunct2, THEN conjunct2, rule_format]

lemma claim_licences:
  assumes inv: "ledgerInv ow" and run: "PrepareDetachedSendRetry r keep ow = ((token, ok), ow')"
  shows "ledgerInv ow'"
    and "s \<noteq> [] \<Longrightarrow> credit ow' s \<le> credit ow s + given (ok \<and> r = s)"
    and "quiet ow' s = quiet ow s"
    and "operations ow' s = Some op \<Longrightarrow> published op \<Longrightarrow> operations ow s = Some op"
proof -
  let ?to = "\<lambda>x. x\<lparr>phase := sendOperationRetrying\<rparr>"
  have *: "ledgerInv ow' \<and> (s \<noteq> [] \<longrightarrow> credit ow' s \<le> credit ow s + given (ok \<and> r = s)) \<and> quiet ow' s = quiet ow s \<and>
    (\<forall>op. operations ow' s = Some op \<longrightarrow> published op \<longrightarrow> operations ow s = Some op)"
  proof (cases "r = [] \<or> \<not> ok")
    case True
    then have "operations ow' = operations ow" "fifo ow' = fifo ow"
      using run by (auto simp: PrepareDetachedSendRetry_def Let_def split: if_splits)
    then show ?thesis
      using ledgerInv_same[of ow' ow] inv by (simp add: credit_def quiet_def)
  next
    case False
    then obtain x where x: "operations ow r = Some x" "phase x = sendOperationAdmitted"
      and ow': "operations ow' = (operations ow)(r \<mapsto> ?to x)" "fifo ow' = fifo ow"
      using run by (auto simp: PrepareDetachedSendRetry_def Let_def split: if_splits option.splits)
    have slot: "\<not> published x" "slotOK r (?to x)"
      using slotOK_D(1)[OF inv x(1)] x(2) by (auto simp: slotOK_def split: option.splits)
    have "ledgerInv ow'"
      using ledgerInv_update[OF inv x(1) slot(2)] ledgerInv_same[of ow' "ow\<lparr>operations := (operations ow)(r \<mapsto> ?to x)\<rparr>"] ow'
      by simp
    then show ?thesis
      using x slot(1) False by (simp add: credit_def quiet_def given_def ow'(1))
  qed
  show "ledgerInv ow'" "s \<noteq> [] \<Longrightarrow> credit ow' s \<le> credit ow s + given (ok \<and> r = s)" "quiet ow' s = quiet ow s"
    "operations ow' s = Some op \<Longrightarrow> published op \<Longrightarrow> operations ow s = Some op"
    using * by blast+
qed

section \<open>Steps\<close>

lemma threadAt_Some:
  assumes "threadAt i w = p" "p \<noteq> Finished"
  shows "i < length (threads w)" "threads w ! i = p"
  using assms by (auto simp: threadAt_def split: if_splits)

text \<open>Every step runs one goroutine, or is an event of the bridge or of the sessions.\<close>

lemma sendStep_cases [consumes 1, case_names Rejected Begin Check Register Refused Admit CallReturns Settle Record Respond
    SettleAnswer Complete Finish Leave Claim Retire CompleteSend PublishError SetRoute Join Depart]:
  assumes "sendStep ev w = Some w'"
  obtains
    "w' = w"
  | j prior ow where "beginSendOperation (jReq j) (owner w) = ((prior, False), ow)"
      "w' = w\<lparr>owner := ow, threads := threads w @ [Checking (j\<lparr>jNested := False\<rparr>)], evicted := evicted w @ evictedBy (jReq j) (owner w)\<rparr>"
  | i j prep active route where "threadAt i w = Checking j" "w' = checkSend i j prep active route w"
  | i j where "threadAt i w = Registering j" "w' = setPC i (Writing j (nextWrite w))
      (w\<lparr>owner := registerSendWrite (nextWrite w) (jReq j) (owner w), nextWrite := Suc (nextWrite w)\<rparr>)"
  | i j wid e where "threadAt i w = Writing j wid" "w' = setPC i (Unwritten j wid e) w"
  | i j wid where "threadAt i w = Writing j wid" "detachedMutations (owner w) < DetachedMutationLimit"
      "w' = setPC i (Calling j wid) (w\<lparr>owner := (owner w)\<lparr>detachedMutations := detachedMutations (owner w) + 1,
         activeDetached := activeDetached (owner w) + 1\<rparr>\<rparr>)"
  | i j wid e where "threadAt i w = Calling j wid" "w' = callReturns i j wid e w"
  | i j wid e where "threadAt i w = Unwritten j wid e" "w' = setPC i (afterCall j (classifyRouteError (Some e)))
      (markUnloaded (jSess j) (Some e) (w\<lparr>owner := settleSendWriteLocked wid (owner w)\<rparr>))"
  | i j e where "threadAt i w = Recording j e"
      "w' = setPC i Finished (w\<lparr>owner := recordSendOperation (durableID (routes w (jSess j))) (jReq j) e (owner w)\<rparr>)"
  | i j wid resp e where "threadAt i w = Awaiting j wid" "w' = setPC i (Answered j wid resp e) (w\<lparr>owner := releaseMutation (owner w)\<rparr>)"
  | i j wid resp e where "threadAt i w = Answered j wid resp e" "w' = setPC i (Completing j e)
      (if resp then w\<lparr>owner := settleSendWriteLocked wid (owner w), answered := answered w @ [wid]\<rparr> else w)"
  | i j e ownsPrompt where "threadAt i w = Completing j e" "w' = completeSend i j e ownsPrompt w"
  | i j e where "threadAt i w = Finishing j e" "w' = finishDetachedSend i j e w"
  | i where "threadAt i w = Leaving" "w' = setPC i Finished (w\<lparr>owner := leaveDetached (owner w)\<rparr>)"
  | r keep token ok ow where "PrepareDetachedSendRetry r keep (owner w) = ((token, ok), ow)"
      "w' = w\<lparr>owner := ow, claimed := claimed w @ (if ok then [r] else [])\<rparr>"
  | token where "w' = w\<lparr>owner := RetireDetachedSendRetry token (owner w)\<rparr>"
  | s r e where "w' = publishOutcome (durableID (routes w s)) e r False w"
  | s r info f ow where "PublishSendOperationError (durableID (routes w s)) r info (owner w) = (f, ow)" "w' = publishLocked f ow w"
  | s x where "w' = w\<lparr>routes := (routes w)(s := x)\<rparr>"
  | s where "w' = w\<lparr>owner := (owner w)\<lparr>ownerSessions := List.insert s (ownerSessions (owner w))\<rparr>\<rparr>"
  | s where "w' = w\<lparr>owner := (owner w)\<lparr>ownerSessions := removeAll s (ownerSessions (owner w))\<rparr>\<rparr>"
proof (cases ev)
  case (Begin j)
  obtain prior dup ow where run: "beginSendOperation (jReq j) (owner w) = ((prior, dup), ow)"
    by (metis surj_pair)
  show thesis
  proof (cases dup)
    case True
    then show thesis
      using that(1) assms Begin run by simp
  next
    case False
    then show thesis
      using that(2)[of j prior ow] assms Begin run by simp
  qed
next
  case (Admit i)
  with assms obtain j wid where pc: "threadAt i w = Writing j wid"
    by (auto split: sendPC.splits)
  show thesis
  proof (cases "detachedMutations (owner w) < DetachedMutationLimit")
    case True
    then show thesis
      using that(6)[OF pc True] assms Admit pc by (simp add: admitMutation_def)
  next
    case False
    then show thesis
      using assms Admit pc by (intro that(5)[OF pc]) (auto simp: admitMutation_def)
  qed
next
  case (Claim r keep)
  obtain token ok ow where "PrepareDetachedSendRetry r keep (owner w) = ((token, ok), ow)"
    by (metis surj_pair)
  then show thesis
    using that(15)[of r keep token ok ow] assms Claim by simp
next
  case (PublishError s r info)
  obtain f ow where "PublishSendOperationError (durableID (routes w s)) r info (owner w) = (f, ow)"
    by (metis surj_pair)
  then show thesis
    using that(18)[of s r info f ow] assms PublishError by simp
next
  case (Check i prep active route)
  with assms obtain j where pc: "threadAt i w = Checking j"
    by (auto split: sendPC.splits)
  show thesis
    using that(3)[OF pc] assms Check pc by auto
next
  case (Register i)
  with assms obtain j where pc: "threadAt i w = Registering j"
    by (auto split: sendPC.splits)
  show thesis
    using that(4)[OF pc] assms Register pc by auto
next
  case (CallReturns i e)
  with assms obtain j wid where pc: "threadAt i w = Calling j wid"
    by (auto split: sendPC.splits)
  show thesis
    using that(7)[OF pc] assms CallReturns pc by auto
next
  case (Settle i)
  with assms obtain j wid e where pc: "threadAt i w = Unwritten j wid e"
    by (auto split: sendPC.splits)
  show thesis
    using that(8)[OF pc] assms Settle pc by auto
next
  case (Record i)
  with assms obtain j e where pc: "threadAt i w = Recording j e"
    by (auto split: sendPC.splits)
  show thesis
    using that(9)[OF pc] assms Record pc by auto
next
  case (Respond i resp e)
  with assms obtain j wid where pc: "threadAt i w = Awaiting j wid"
    by (auto split: sendPC.splits)
  show thesis
    using that(10)[OF pc] assms Respond pc by auto
next
  case (SettleAnswer i)
  with assms obtain j wid resp e where pc: "threadAt i w = Answered j wid resp e"
    by (auto split: sendPC.splits)
  show thesis
    using that(11)[OF pc] assms SettleAnswer pc by auto
next
  case (Complete i ownsPrompt)
  with assms obtain j e where pc: "threadAt i w = Completing j e"
    by (auto split: sendPC.splits)
  show thesis
    using that(12)[OF pc] assms Complete pc by auto
next
  case (Finish i)
  with assms obtain j e where pc: "threadAt i w = Finishing j e"
    by (auto split: sendPC.splits)
  show thesis
    using that(13)[OF pc] assms Finish pc by auto
next
  case (Leave i)
  with assms have pc: "threadAt i w = Leaving"
    by (simp split: sendPC.splits)
  show thesis
    using that(14)[OF pc] assms Leave pc by auto
next
  case (Retire token)
  then show thesis
    using that(16)[of token] assms by simp
next
  case (CompleteSend s r e)
  then show thesis
    using that(17) assms by auto
next
  case (SetRoute s x)
  then show thesis
    using that(19) assms by auto
next
  case (Join s)
  then show thesis
    using that(20) assms by auto
next
  case (Depart s)
  then show thesis
    using that(21) assms by auto
qed


text \<open>What the steps leave alone.\<close>

lemma setPC_simps [simp]:
  "owner (setPC i p w) = owner w" "routes (setPC i p w) = routes w" "threads (setPC i p w) = (threads w)[i := p]"
  "nextWrite (setPC i p w) = nextWrite w" "deliveries (setPC i p w) = deliveries w" "announced (setPC i p w) = announced w"
  "handed (setPC i p w) = handed w" "evicted (setPC i p w) = evicted w" "claimed (setPC i p w) = claimed w"
  "steered (setPC i p w) = steered w" "attempted (setPC i p w) = attempted w" "written (setPC i p w) = written w"
  "answered (setPC i p w) = answered w" "concluded (setPC i p w) = concluded w"
  by (simp_all add: setPC_def)

lemma markUnloaded_simps [simp]:
  "owner (markUnloaded s e w) = owner w" "threads (markUnloaded s e w) = threads w"
  "nextWrite (markUnloaded s e w) = nextWrite w" "deliveries (markUnloaded s e w) = deliveries w"
  "announced (markUnloaded s e w) = announced w" "handed (markUnloaded s e w) = handed w"
  "evicted (markUnloaded s e w) = evicted w" "claimed (markUnloaded s e w) = claimed w"
  "steered (markUnloaded s e w) = steered w" "attempted (markUnloaded s e w) = attempted w"
  "written (markUnloaded s e w) = written w" "answered (markUnloaded s e w) = answered w"
  "concluded (markUnloaded s e w) = concluded w"
  by (simp_all add: markUnloaded_def Let_def)

lemma publishLocked_simps [simp]:
  "owner (publishLocked f ow w) = ow" "threads (publishLocked f ow w) = threads w" "routes (publishLocked f ow w) = routes w"
  "nextWrite (publishLocked f ow w) = nextWrite w" "handed (publishLocked f ow w) = handed w"
  "evicted (publishLocked f ow w) = evicted w" "claimed (publishLocked f ow w) = claimed w"
  "steered (publishLocked f ow w) = steered w" "attempted (publishLocked f ow w) = attempted w"
  "written (publishLocked f ow w) = written w" "answered (publishLocked f ow w) = answered w"
  "concluded (publishLocked f ow w) = concluded w"
  "announced (publishLocked f ow w) = announced w @ (case f of None \<Rightarrow> [] | Some x \<Rightarrow> [x])"
  "deliveries (publishLocked f ow w) =
     deliveries w @ (case f of None \<Rightarrow> [] | Some x \<Rightarrow> map (\<lambda>s. (s, x)) (filter (\<lambda>s. \<not> closed (routes w s)) (ownerSessions ow)))"
  by (simp_all add: publishLocked_def split: option.splits)

lemma publishOutcome_simps [simp]:
  "threads (publishOutcome d e r b w) = threads w" "routes (publishOutcome d e r b w) = routes w"
  "nextWrite (publishOutcome d e r b w) = nextWrite w" "handed (publishOutcome d e r b w) = handed w"
  "evicted (publishOutcome d e r b w) = evicted w" "claimed (publishOutcome d e r b w) = claimed w"
  "steered (publishOutcome d e r b w) = steered w" "attempted (publishOutcome d e r b w) = attempted w"
  "written (publishOutcome d e r b w) = written w" "answered (publishOutcome d e r b w) = answered w"
  "concluded (publishOutcome d e r b w) = concluded w @ (if authoritative e b r \<and> r \<noteq> [] then [r] else [])"
  "owner (publishOutcome d e r b w) = snd (publishDetachedOutcomeWithPolicy d e ''chat.send'' r b (owner w))"
  by (simp_all add: publishOutcome_def split: prod.splits)

lemma sum_list_replace:
  fixes f :: "'a \<Rightarrow> int"
  shows "i < length xs \<Longrightarrow> sum_list (map f (xs[i := x])) = sum_list (map f xs) - f (xs ! i) + f x"
  by (induction xs arbitrary: i) (auto split: nat.splits)

lemma total_replace:
  "threadAt i w = p \<Longrightarrow> p \<noteq> Finished \<Longrightarrow>
    sum_list (map f ((threads w)[i := q])) = total f w - f p + f q"
  unfolding total_def by (simp add: sum_list_replace threadAt_Some)

section \<open>Bounds\<close>

definition boundsInv :: "sendWorld \<Rightarrow> bool" where
  "boundsInv w \<longleftrightarrow>
     detachedMutations (owner w) = total calling w \<and> detachedMutations (owner w) \<le> DetachedMutationLimit \<and>
     activeDetached (owner w) = total inside w \<and> (\<forall>j. Checking j \<in> set (threads w) \<longrightarrow> \<not> jNested j)"

lemma checking_update: "Checking j \<in> set (xs[i := p]) \<Longrightarrow> p \<noteq> Checking j \<Longrightarrow> Checking j \<in> set xs"
  using set_update_subset_insert by fastforce

lemma counters_keep [simp]:
  "detachedMutations (snd (completeSendOperationLocked d r e ow)) = detachedMutations ow"
  "activeDetached (snd (completeSendOperationLocked d r e ow)) = activeDetached ow"
  "detachedMutations (snd (publishDetachedOutcomeWithPolicy d e c r b ow)) = detachedMutations ow"
  "activeDetached (snd (publishDetachedOutcomeWithPolicy d e c r b ow)) = activeDetached ow"
  "detachedMutations (recordSendOperation d r e ow) = detachedMutations ow"
  "activeDetached (recordSendOperation d r e ow) = activeDetached ow"
  "detachedMutations (registerSendWrite k r ow) = detachedMutations ow"
  "activeDetached (registerSendWrite k r ow) = activeDetached ow"
  "detachedMutations (RetireDetachedSendRetry t ow) = detachedMutations ow"
  "activeDetached (RetireDetachedSendRetry t ow) = activeDetached ow"
  by (simp_all add: completeSendOperationLocked_def publishDetachedOutcomeWithPolicy_def recordSendOperation_def
      registerSendWrite_def RetireDetachedSendRetry_def Let_def split: option.splits)

lemma counters_pairs:
  "beginSendOperation r ow = (x, ow') \<Longrightarrow> detachedMutations ow' = detachedMutations ow \<and> activeDetached ow' = activeDetached ow"
  "PrepareDetachedSendRetry r keep ow = (y, ow') \<Longrightarrow> detachedMutations ow' = detachedMutations ow \<and> activeDetached ow' = activeDetached ow"
  "PublishSendOperationError d r info ow = (f, ow') \<Longrightarrow> detachedMutations ow' = detachedMutations ow \<and> activeDetached ow' = activeDetached ow"
  "consumeRetryRunAdmission t ow = (b, ow') \<Longrightarrow> detachedMutations ow' = detachedMutations ow \<and> activeDetached ow' = activeDetached ow"
  by (auto simp: beginSendOperation_def admitOperation_def evictOperation_def PrepareDetachedSendRetry_def
      PublishSendOperationError_def consumeRetryRunAdmission_def Let_def split: if_splits option.splits)

lemma total_setPC: "total f (setPC i q w) = sum_list (map f ((threads w)[i := q]))"
  by (simp add: total_def)

lemma total_threads:
  "total f (w\<lparr>attempted := a, threads := ps, written := b\<rparr>) = sum_list (map f ps)"
  "total f (w\<lparr>attempted := a\<rparr>) = total f w"
  by (simp_all add: total_def)

lemma total_fields [simp]:
  "total f (w\<lparr>owner := x1\<rparr>) = total f w" "total f (w\<lparr>claimed := x5\<rparr>) = total f w"
  "total f (w\<lparr>routes := x3\<rparr>) = total f w" "total f (w\<lparr>evicted := x4\<rparr>) = total f w"
  "total f (publishOutcome d e r b w) = total f w" "total f (publishLocked g ow w) = total f w"
  by (simp_all add: total_def)

lemma boundsInv_step:
  assumes inv: "boundsInv w" and "sendStep ev w = Some w'"
  shows "boundsInv w'"
  using assms(2)
proof (cases rule: sendStep_cases)
  case (Begin j prior ow)
  then show ?thesis
    using inv counters_pairs(1)[OF Begin(1)] by (auto simp: boundsInv_def total_def)
next
  case (Check i j prep active route)
  have flat: "\<not> jNested j"
    using inv threadAt_Some[OF Check(1)] by (metis boundsInv_def nth_mem sendPC.distinct(21))
  show ?thesis
    using inv Check(2) counters_pairs(4)[of "jToken j" "owner w"] flat
    by (auto simp: boundsInv_def checkSend_def total_setPC total_replace[OF Check(1)] nested_def dest!: checking_update
        split: prod.splits)
next
  case (Register i j)
  then show ?thesis
    using inv by (auto simp: boundsInv_def total_setPC total_replace[OF Register(1)] dest!: checking_update)
next
  case (Refused i j wid e)
  then show ?thesis
    using inv by (auto simp: boundsInv_def total_setPC total_replace[OF Refused(1)] dest!: checking_update)
next
  case (Admit i j wid)
  then show ?thesis
    using inv by (auto simp: boundsInv_def total_setPC total_replace[OF Admit(1)] dest!: checking_update)
next
  case (CallReturns i j wid e)
  show ?thesis
  proof (cases e)
    case None
    show ?thesis
      using inv CallReturns(2)
      by (auto simp: None boundsInv_def callReturns_def Let_def afterCall_def total_threads total_replace[OF CallReturns(1)]
          nested_def dest!: checking_update)
  next
    case (Some err)
    show ?thesis
      using inv CallReturns(2)
      by (auto simp: Some boundsInv_def callReturns_def Let_def total_setPC total_replace[OF CallReturns(1)]
          releaseMutation_def leaveDetached_def dest!: checking_update)
  qed
next
  case (Settle i j wid e)
  then show ?thesis
    using inv by (auto simp: boundsInv_def afterCall_def total_setPC total_replace[OF Settle(1)] nested_def
        dest!: checking_update split: option.splits)
next
  case (Record i j e)
  then show ?thesis
    using inv by (auto simp: boundsInv_def total_setPC total_replace[OF Record(1)] dest!: checking_update)
next
  case (Respond i j wid resp e)
  then show ?thesis
    using inv by (auto simp: boundsInv_def total_setPC total_replace[OF Respond(1)] releaseMutation_def dest!: checking_update)
next
  case (SettleAnswer i j wid resp e)
  then show ?thesis
    using inv by (auto simp: boundsInv_def total_setPC total_replace[OF SettleAnswer(1)] dest!: checking_update)
next
  case (Complete i j e ownsPrompt)
  then show ?thesis
    using inv by (auto simp: boundsInv_def completeSend_def Let_def total_setPC total_replace[OF Complete(1)] nested_def
        dest!: checking_update split: if_splits)
next
  case (Finish i j e)
  then show ?thesis
    using inv by (auto simp: boundsInv_def finishDetachedSend_def total_setPC total_replace[OF Finish(1)]
        dest!: checking_update split: if_splits)
next
  case (Leave i)
  then show ?thesis
    using inv by (auto simp: boundsInv_def leaveDetached_def total_setPC total_replace[OF Leave(1)] dest!: checking_update)
next
  case (Claim r keep token ok ow)
  then show ?thesis
    using inv counters_pairs(2)[OF Claim(1)] by (auto simp: boundsInv_def)
next
  case (PublishError s r info f ow)
  then show ?thesis
    using inv counters_pairs(3)[OF PublishError(1)] by (auto simp: boundsInv_def)
qed (use inv in \<open>auto simp: boundsInv_def\<close>)

section \<open>The ledger along the steps\<close>

text \<open>A step either moves the ledger, announcing at most one frame, or is an admission or a claim.\<close>

definition movesWorld :: "sendFrame option \<Rightarrow> sendWorld \<Rightarrow> sendWorld \<Rightarrow> bool" where
  "movesWorld f w w' \<longleftrightarrow>
     moves f (owner w) (owner w') \<and> evicted w' = evicted w \<and> claimed w' = claimed w \<and>
     (\<forall>r. r \<noteq> [] \<longrightarrow> announcedFor r w' = announcedFor r w @ (if about f r then [the f] else []))"

lemma movesWorld_quiet:
  assumes "moves None (owner w) (owner w')" "evicted w' = evicted w" "claimed w' = claimed w" "announced w' = announced w"
  shows "movesWorld None w w'"
  using assms by (simp add: movesWorld_def announcedFor_def)

lemma movesWorld_same:
  assumes "ledgerInv (owner w)" "operations (owner w') = operations (owner w)" "fifo (owner w') = fifo (owner w)"
    "evicted w' = evicted w" "claimed w' = claimed w" "announced w' = announced w"
  shows "movesWorld None w w'"
  using assms by (intro movesWorld_quiet moves_same) simp_all

lemma fold_settle_other:
  "operations (snd (completeSendOperationLocked d r e (fold settleSendWriteLocked ws ow))) =
   operations (snd (completeSendOperationLocked d r e ow))"
  by (auto simp: completeSendOperationLocked_def Let_def split: option.splits)

lemma publish_request:
  assumes run: "publishDetachedOutcomeWithPolicy durable e command r suppress ow = (Some x, ow')" and inv: "ledgerInv ow"
  shows "sfRequest x = r"
proof (cases "r = []")
  case True
  then show ?thesis
    using run by (auto simp: publishDetachedOutcomeWithPolicy_def split: if_splits)
next
  case False
  have "about (Some x) r"
  proof (rule ccontr)
    assume other: "\<not> about (Some x) r"
    obtain op where op: "operations ow' r = Some op" "published op" "outcome op = Some x"
      using run False by (auto simp: publishDetachedOutcomeWithPolicy_def Let_def split: if_splits option.splits)
    moreover have "moves (Some x) ow ow'"
      using publish_moves[OF inv run] False by simp
    then have "slotOK r op"
      using op(1) by (auto simp: moves_def ledgerInv_def)
    ultimately show False
      using other by (simp add: slotOK_def)
  qed
  then show ?thesis
    by simp
qed

lemma movesWorld_publish:
  assumes inv: "ledgerInv (owner w)"
  shows "\<exists>f. movesWorld f w (publishOutcome durable e r suppress w)"
proof -
  obtain f ow where run: "publishDetachedOutcomeWithPolicy durable e ''chat.send'' r suppress (owner w) = (f, ow)"
    by fastforce
  have request: "sfRequest x = r" if "f = Some x" for x
    using publish_request[OF run[unfolded that] inv] .
  have "movesWorld (if r = [] then None else f) w (publishOutcome durable e r suppress w)"
    using publish_moves[OF inv run] request
    by (auto simp: movesWorld_def run announcedFor_def publishOutcome_def split: option.splits)
  then show ?thesis ..
qed

lemma movesWorld_error:
  assumes inv: "ledgerInv (owner w)" and run: "PublishSendOperationError durable r info (owner w) = (f, ow)"
  shows "\<exists>g. movesWorld g w (publishLocked f ow w)"
proof -
  have request: "sfRequest x = r" if "f = Some x" for x
    using run that by (auto simp: PublishSendOperationError_def Let_def split: if_splits option.splits)
  have "movesWorld (if r = [] then None else f) w (publishLocked f ow w)"
    using publishError_moves[OF inv run] request by (auto simp: movesWorld_def announcedFor_def split: option.splits)
  then show ?thesis ..
qed

lemma owner_fields [simp]:
  "operations (registerSendWrite k r ow) = operations ow" "fifo (registerSendWrite k r ow) = fifo ow"
  "operations (RetireDetachedSendRetry t ow) = operations ow" "fifo (RetireDetachedSendRetry t ow) = fifo ow"
  "operations (releaseMutation ow) = operations ow" "fifo (releaseMutation ow) = fifo ow"
  "operations (leaveDetached ow) = operations ow" "fifo (leaveDetached ow) = fifo ow"
  "operations (snd (consumeRetryRunAdmission t ow)) = operations ow" "fifo (snd (consumeRetryRunAdmission t ow)) = fifo ow"
  by (simp_all add: registerSendWrite_def RetireDetachedSendRetry_def releaseMutation_def leaveDetached_def
      consumeRetryRunAdmission_def Let_def)

lemma consume_keeps:
  assumes "consumeRetryRunAdmission t ow = (b, ow')"
  shows "operations ow' = operations ow" "fifo ow' = fifo ow"
  using owner_fields(9,10)[of t ow] assms by simp_all

definition admission :: "sendWorld \<Rightarrow> sendWorld \<Rightarrow> bool" where
  "admission w w' \<longleftrightarrow> (\<exists>j prior ow. beginSendOperation (jReq j) (owner w) = ((prior, False), ow) \<and>
     w' = w\<lparr>owner := ow, threads := threads w @ [Checking (j\<lparr>jNested := False\<rparr>)], evicted := evicted w @ evictedBy (jReq j) (owner w)\<rparr>)"

definition claim :: "sendWorld \<Rightarrow> sendWorld \<Rightarrow> bool" where
  "claim w w' \<longleftrightarrow> (\<exists>r keep token ok ow. PrepareDetachedSendRetry r keep (owner w) = ((token, ok), ow) \<and>
     w' = w\<lparr>owner := ow, claimed := claimed w @ (if ok then [r] else [])\<rparr>)"

lemma step_ledger:
  assumes inv: "ledgerInv (owner w)" and "sendStep ev w = Some w'"
  shows "(\<exists>f. movesWorld f w w') \<or> admission w w' \<or> claim w w'"
  using assms(2)
proof (cases rule: sendStep_cases)
  case (Begin j prior ow)
  then show ?thesis unfolding admission_def by blast
next
  case (Claim r keep token ok ow)
  then show ?thesis unfolding claim_def by blast
next
  case (Check i j prep active route)
  have "movesWorld None w w'"
    using Check(2) by (intro movesWorld_same[OF inv]) (auto simp: checkSend_def consume_keeps split: prod.splits)
  then show ?thesis by blast
next
  case (Record i j e)
  have "movesWorld None w w'"
    using Record(2) record_moves[OF inv] by (intro movesWorld_quiet) simp_all
  then show ?thesis by blast
next
  case (Finish i j e)
  show ?thesis
  proof (cases "jCustom j")
    case True
    have "movesWorld None w w'"
      using Finish(2) True by (intro movesWorld_same[OF inv]) (simp_all add: finishDetachedSend_def)
    then show ?thesis by blast
  next
    case False
    then show ?thesis
      using movesWorld_publish[OF inv] Finish(2) by (auto simp: finishDetachedSend_def movesWorld_def announcedFor_def)
  qed
next
  case (CompleteSend s r e)
  then show ?thesis using movesWorld_publish[OF inv] by blast
next
  case (PublishError s r info f ow)
  then show ?thesis using movesWorld_error[OF inv PublishError(1)] by blast
next
  case (CallReturns i j wid e)
  have "movesWorld None w w'"
    using CallReturns(2) by (intro movesWorld_same[OF inv]) (auto simp: callReturns_def Let_def split: option.splits)
  then show ?thesis by blast
next
  case (Complete i j e ownsPrompt)
  have "movesWorld None w w'"
    using Complete(2) by (intro movesWorld_same[OF inv]) (auto simp: completeSend_def Let_def)
  then show ?thesis by blast
next
  case (SettleAnswer i j wid resp e)
  have "movesWorld None w w'"
    using SettleAnswer(2) by (intro movesWorld_same[OF inv]) auto
  then show ?thesis by blast
qed (intro disjI1 exI[of _ None] movesWorld_same[OF inv]; simp)+

section \<open>Licences\<close>

lemma checkSend_shape:
  obtains q w1 where "checkSend i j prep active route w = setPC i q w1"
    "w1 = w \<or> (\<exists>b ow. consumeRetryRunAdmission (jToken j) (owner w) = (b, ow) \<and> w1 = w\<lparr>owner := ow\<rparr>)"
    "q = Registering j \<or> (\<exists>e. q = Recording j e)"
proof (cases "prep = None \<and> \<not> jPrompt j")
  case True
  obtain b ow where run: "consumeRetryRunAdmission (jToken j) (owner w) = (b, ow)"
    by fastforce
  then have "checkSend i j prep active route w = setPC i (if \<not> active \<and> \<not> b then Recording j (Some errPromptInFlight)
      else if route \<noteq> None then Recording j route else Registering j) (w\<lparr>owner := ow\<rparr>)"
    using True by (simp add: checkSend_def)
  then show ?thesis
    by (rule that) (use run in blast, simp)
next
  case False
  then have "checkSend i j prep active route w = setPC i (if prep \<noteq> None then Recording j prep
      else if route \<noteq> None then Recording j route else Registering j) w"
    by (auto simp: checkSend_def)
  then show ?thesis
    by (rule that) simp_all
qed

definition spent :: "string \<Rightarrow> sendWorld \<Rightarrow> int" where
  "spent r w = int (count_list (attempted w) r) + total (licence r) w - int (count_list (steered w) r)"

definition licenceInv :: "sendWorld \<Rightarrow> bool" where
  "licenceInv w \<longleftrightarrow> ledgerInv (owner w) \<and>
     (\<forall>r. r \<noteq> [] \<longrightarrow> spent r w + int (credit (owner w) r) \<le> 1 + int (count_list (evicted w) r) + int (count_list (claimed w) r))"

lemma spent_quiet:
  assumes "threadAt i w = p" "p \<noteq> Finished" "threads w' = (threads w)[i := q]"
    and "attempted w' = attempted w" "steered w' = steered w" "licence r q \<le> licence r p"
  shows "spent r w' \<le> spent r w"
  using assms(3-6) total_replace[OF assms(1,2), of "licence r" q] by (simp add: spent_def total_def)

lemma spent_same: "threads w' = threads w \<Longrightarrow> attempted w' = attempted w \<Longrightarrow> steered w' = steered w \<Longrightarrow> spent r w' \<le> spent r w"
  by (simp add: spent_def total_def)

lemma step_spent:
  assumes "sendStep ev w = Some w'"
  shows "admission w w' \<or> spent r w' \<le> spent r w"
  using assms
proof (cases rule: sendStep_cases)
  case (Begin j prior ow)
  then show ?thesis unfolding admission_def by blast
next
  case (Check i j prep active route)
  obtain q w1 where "w' = setPC i q w1" "w1 = w \<or> (\<exists>ow. w1 = w\<lparr>owner := ow\<rparr>)" "q = Registering j \<or> (\<exists>e. q = Recording j e)"
    using checkSend_shape[of i j prep active route w] Check(2) by metis
  then show ?thesis
    by (intro disjI2 spent_quiet[OF Check(1), where q = q]) auto
next
  case (CallReturns i j wid e)
  show ?thesis
    using CallReturns(2)
    by (cases e) (auto simp: callReturns_def Let_def afterCall_def spent_def total_threads total_setPC total_replace[OF CallReturns(1)])
next
  case (Complete i j e ownsPrompt)
  then show ?thesis
    by (auto simp: completeSend_def Let_def spent_def total_def total_replace[OF Complete(1), unfolded total_def])
next
  case (Settle i j wid e)
  then show ?thesis
    by (intro disjI2 spent_quiet[OF Settle(1)]) (auto simp: afterCall_def split: option.splits)
next
  case (Finish i j e)
  show ?thesis
    by (rule disjI2, rule spent_quiet[OF Finish(1), where q = Leaving]) (auto simp: Finish(2) finishDetachedSend_def)
next
  case (Register i j)
  show ?thesis
    by (rule disjI2, rule spent_quiet[OF Register(1), where q = "Writing j (nextWrite w)"]) (auto simp: Register(2))
next
  case (Refused i j wid e)
  show ?thesis
    by (rule disjI2, rule spent_quiet[OF Refused(1), where q = "Unwritten j wid e"]) (auto simp: Refused(2))
next
  case (Admit i j wid)
  show ?thesis
    by (rule disjI2, rule spent_quiet[OF Admit(1), where q = "Calling j wid"]) (auto simp: Admit(3))
next
  case (Record i j e)
  show ?thesis
    by (rule disjI2, rule spent_quiet[OF Record(1), where q = Finished]) (auto simp: Record(2))
next
  case (Respond i j wid resp e)
  show ?thesis
    by (rule disjI2, rule spent_quiet[OF Respond(1), where q = "Answered j wid resp e"]) (auto simp: Respond(2))
next
  case (SettleAnswer i j wid resp e)
  show ?thesis
    by (rule disjI2, rule spent_quiet[OF SettleAnswer(1), where q = "Completing j e"]) (auto simp: SettleAnswer(2))
next
  case (Leave i)
  show ?thesis
    by (rule disjI2, rule spent_quiet[OF Leave(1), where q = Finished]) (auto simp: Leave(2))
qed (intro disjI2 spent_same; simp)+

lemma count_list_snoc [simp]: "count_list (xs @ ys) r = count_list xs r + count_list ys r"
  by (induction xs) auto

lemma licenceInv_step:
  assumes inv: "licenceInv w" and run: "sendStep ev w = Some w'"
  shows "licenceInv w'"
proof -
  have ledger: "ledgerInv (owner w)"
    using inv by (simp add: licenceInv_def)
  consider (moves) f where "movesWorld f w w'" "\<not> admission w w'" | (admission) "admission w w'" | (claim) "claim w w'" "\<not> admission w w'"
    using step_ledger[OF ledger run] by blast
  then show ?thesis
  proof cases
    case moves
    have "spent r w' + int (credit (owner w') r) \<le> spent r w + int (credit (owner w) r)" for r
      using step_spent[OF run, of r] moves by (auto simp: movesWorld_def moves_def intro!: add_mono)
    then have "spent r w' + int (credit (owner w') r) \<le> 1 + int (count_list (evicted w') r) + int (count_list (claimed w') r)"
      if "r \<noteq> []" for r
      using inv that moves(1) order_trans unfolding licenceInv_def movesWorld_def by metis
    then show ?thesis
      using moves(1) by (simp add: licenceInv_def movesWorld_def moves_def)
  next
    case admission
    then obtain j prior ow where b: "beginSendOperation (jReq j) (owner w) = ((prior, False), ow)"
      and w': "w' = w\<lparr>owner := ow, threads := threads w @ [Checking (j\<lparr>jNested := False\<rparr>)], evicted := evicted w @ evictedBy (jReq j) (owner w)\<rparr>"
      unfolding admission_def by blast
    have s: "spent r w' = spent r w + int (given (jReq j = r))" for r
      by (simp add: w' spent_def total_def given_def)
    have "spent r w' + int (credit ow r) \<le> 1 + int (count_list (evicted w') r) + int (count_list (claimed w') r)"
      if r: "r \<noteq> []" for r
    proof -
      have "int (credit ow r) + int (given (jReq j = r)) \<le> int (credit (owner w) r) + int (count_list (evictedBy (jReq j) (owner w)) r)"
        using begin_licences(1)[OF ledger b r] by linarith
      moreover have "spent r w + int (credit (owner w) r) \<le> 1 + int (count_list (evicted w) r) + int (count_list (claimed w) r)"
        using inv r by (simp add: licenceInv_def)
      ultimately show ?thesis
        unfolding s by (simp add: w')
    qed
    then show ?thesis
      using begin_ledger[OF ledger b] by (simp add: licenceInv_def w')
  next
    case claim
    then obtain r keep token ok ow where p: "PrepareDetachedSendRetry r keep (owner w) = ((token, ok), ow)"
      and w': "w' = w\<lparr>owner := ow, claimed := claimed w @ (if ok then [r] else [])\<rparr>"
      unfolding claim_def by blast
    have s: "spent t w' = spent t w" for t
      by (simp add: w' spent_def total_def)
    have "spent t w' + int (credit ow t) \<le> 1 + int (count_list (evicted w') t) + int (count_list (claimed w') t)"
      if t: "t \<noteq> []" for t
    proof -
      have "int (credit ow t) \<le> int (credit (owner w) t) + int (given (ok \<and> r = t))"
        using claim_licences(2)[OF ledger p t] by linarith
      moreover have "spent t w + int (credit (owner w) t) \<le> 1 + int (count_list (evicted w) t) + int (count_list (claimed w) t)"
        using inv t by (simp add: licenceInv_def)
      moreover have "count_list (claimed w') t = count_list (claimed w) t + given (ok \<and> r = t)"
        by (simp add: w' given_def)
      ultimately show ?thesis
        unfolding s by (simp add: w')
    qed
    then show ?thesis
      using claim_licences(1)[OF ledger p] by (simp add: licenceInv_def w')
  qed
qed

end
