(* ===== verification/SendProperties.thy ===== *)
theory SendProperties
  imports SendHistory
begin

text \<open>
  The properties of the send ledger and of the goroutines around it, over every reachable state of
  \<open>SendSystem\<close>: announced outcomes, the accounting of written sends, and the four claims.
\<close>

section \<open>Announcements\<close>

definition announceInv :: "sendWorld \<Rightarrow> bool" where
  "announceInv w \<longleftrightarrow> ledgerInv (owner w) \<and>
     (\<forall>r. r \<noteq> [] \<longrightarrow> length (announcedFor r w) + quiet (owner w) r \<le> 1 + count_list (evicted w) r) \<and>
     (\<forall>r op. operations (owner w) r = Some op \<longrightarrow> published op \<longrightarrow>
        announcedFor r w \<noteq> [] \<and> outcome op = Some (last (announcedFor r w)))"

lemma announceInv_step:
  assumes inv: "announceInv w" and run: "sendStep ev w = Some w'"
  shows "announceInv w'"
proof -
  have ledger: "ledgerInv (owner w)"
    using inv by (simp add: announceInv_def)
  consider (moves) f where "movesWorld f w w'" | (admission) "admission w w'" | (claim) "claim w w'"
    using step_ledger[OF ledger run] by blast
  then show ?thesis
  proof cases
    case moves
    have count: "length (announcedFor r w') + quiet (owner w') r \<le> 1 + count_list (evicted w') r" if r: "r \<noteq> []" for r
    proof -
      have "quiet (owner w') r + (if about f r then 1 else 0) \<le> quiet (owner w) r"
        using moves r by (simp add: movesWorld_def moves_def)
      moreover have "announcedFor r w' = announcedFor r w @ (if about f r then [the f] else [])" "evicted w' = evicted w"
        using moves r by (simp_all add: movesWorld_def)
      moreover have "length (announcedFor r w) + quiet (owner w) r \<le> 1 + count_list (evicted w) r"
        using inv r by (simp add: announceInv_def)
      ultimately show ?thesis
        by (simp split: if_splits)
    qed
    have kept: "announcedFor r w' \<noteq> [] \<and> outcome op = Some (last (announcedFor r w'))"
      if op: "operations (owner w') r = Some op" "published op" for r op
    proof -
      have mv: "moves f (owner w) (owner w')"
        using moves by (simp add: movesWorld_def)
      have "r \<noteq> []"
        using mv slotOK_D(2)[OF _ op(1)] by (simp add: moves_def)
      then have ann: "announcedFor r w' = announcedFor r w @ (if about f r then [the f] else [])"
        using moves by (simp add: movesWorld_def)
      show ?thesis
        using moves_frozen[OF mv op]
      proof
        assume "operations (owner w) r = Some op \<and> \<not> about f r"
        then show ?thesis
          using inv op(2) ann by (auto simp: announceInv_def)
      next
        assume "f = outcome op \<and> about f r"
        then show ?thesis
          using ann by (cases "outcome op") auto
      qed
    qed
    show ?thesis
      using count kept moves by (simp add: announceInv_def movesWorld_def moves_def)
  next
    case admission
    then obtain j prior ow where b: "beginSendOperation (jReq j) (owner w) = ((prior, False), ow)"
      and w': "w' = w\<lparr>owner := ow, threads := threads w @ [Checking (j\<lparr>jNested := False\<rparr>)], evicted := evicted w @ evictedBy (jReq j) (owner w)\<rparr>"
      unfolding admission_def by blast
    have same: "announcedFor r w' = announcedFor r w" for r
      by (simp add: w' announcedFor_def)
    have "length (announcedFor r w) + quiet ow r \<le> 1 + (count_list (evicted w) r + count_list (evictedBy (jReq j) (owner w)) r)"
      if r: "r \<noteq> []" for r
      using begin_licences(2)[OF ledger b r] inv r by (fastforce simp: announceInv_def)
    moreover have "operations (owner w) r = Some op" if "operations ow r = Some op" "published op" for r op
      using begin_licences(3)[OF ledger b _ that] slotOK_D(2)[OF begin_ledger[OF ledger b] that(1)] by blast
    ultimately show ?thesis
      using inv begin_ledger[OF ledger b] by (simp add: announceInv_def same) (simp add: w')
  next
    case claim
    then obtain r keep token ok ow where p: "PrepareDetachedSendRetry r keep (owner w) = ((token, ok), ow)"
      and w': "w' = w\<lparr>owner := ow, claimed := claimed w @ (if ok then [r] else [])\<rparr>"
      unfolding claim_def by blast
    have "announcedFor r w' = announcedFor r w" for r
      by (simp add: w' announcedFor_def)
    then show ?thesis
      using inv claim_licences(1,3,4)[OF ledger p] by (simp add: announceInv_def) (simp add: w')
  qed
qed

text \<open>A session receives at most what its owner announces.\<close>

definition deliveryInv :: "sendWorld \<Rightarrow> bool" where
  "deliveryInv w \<longleftrightarrow> distinct (ownerSessions (owner w)) \<and>
     (\<forall>s r. length (receivedFor s r w) \<le> length (announcedFor r w))"

lemma ownerSessions_keep [simp]:
  "ownerSessions (settleSendWriteLocked k ow) = ownerSessions ow"
  "ownerSessions (fold settleSendWriteLocked ks ow) = ownerSessions ow"
  "ownerSessions (snd (completeSendOperationLocked d r e ow)) = ownerSessions ow"
  "ownerSessions (recordSendOperation d r e ow) = ownerSessions ow"
  "ownerSessions (registerSendWrite k r ow) = ownerSessions ow"
  "ownerSessions (RetireDetachedSendRetry t ow) = ownerSessions ow"
  "ownerSessions (releaseMutation ow) = ownerSessions ow"
  "ownerSessions (leaveDetached ow) = ownerSessions ow"
proof -
  show settle: "ownerSessions (settleSendWriteLocked k ow) = ownerSessions ow" for k ow
    by (simp add: settleSendWriteLocked_def Let_def)
  show "ownerSessions (fold settleSendWriteLocked ks ow) = ownerSessions ow"
    by (induction ks arbitrary: ow) (simp_all add: settle)
qed (simp_all add: completeSendOperationLocked_def recordSendOperation_def registerSendWrite_def
    RetireDetachedSendRetry_def releaseMutation_def leaveDetached_def Let_def split: option.splits)

lemma ownerSessions_pairs:
  "beginSendOperation r ow = (x, ow') \<Longrightarrow> ownerSessions ow' = ownerSessions ow"
  "PrepareDetachedSendRetry r keep ow = (y, ow') \<Longrightarrow> ownerSessions ow' = ownerSessions ow"
  "PublishSendOperationError d r info ow = (f, ow') \<Longrightarrow> ownerSessions ow' = ownerSessions ow"
  "publishDetachedOutcomeWithPolicy d e c r b ow = (f, ow') \<Longrightarrow> ownerSessions ow' = ownerSessions ow"
  "consumeRetryRunAdmission t ow = (v, ow') \<Longrightarrow> ownerSessions ow' = ownerSessions ow"
proof -
  show "publishDetachedOutcomeWithPolicy d e c r b ow = (f, ow') \<Longrightarrow> ownerSessions ow' = ownerSessions ow"
    by (auto simp: publishDetachedOutcomeWithPolicy_def Let_def split: if_splits option.splits)
qed (auto simp: beginSendOperation_def admitOperation_def evictOperation_def PrepareDetachedSendRetry_def
    PublishSendOperationError_def consumeRetryRunAdmission_def Let_def split: if_splits option.splits)

lemma once_per_session:
  assumes "distinct ss"
  shows "length (filter (\<lambda>x. fst x = s \<and> sfRequest (snd x) = r) (map (\<lambda>t. (t, x)) (filter p ss))) \<le> (if sfRequest x = r then 1 else 0)"
proof -
  have "length (filter (\<lambda>t. t = s) (filter p ss)) \<le> 1"
    using distinct_filter[OF distinct_filter[OF assms, of p], of "\<lambda>t. t = s"]
      distinct_card[of "filter (\<lambda>t. t = s) (filter p ss)"] card_mono[of "{s}" "set (filter (\<lambda>t. t = s) (filter p ss))"]
    by auto
  then show ?thesis
    by (auto simp: filter_map o_def)
qed

lemma deliveryInv_publish:
  assumes "deliveryInv w" "ownerSessions ow = ownerSessions (owner w)"
  shows "deliveryInv (publishLocked f ow w)"
proof (cases f)
  case (Some x)
  have "length (receivedFor s r (publishLocked f ow w)) \<le> length (announcedFor r (publishLocked f ow w))" for s r
  proof -
    have "distinct (ownerSessions ow)" "length (receivedFor s r w) \<le> length (announcedFor r w)"
      using assms by (simp_all add: deliveryInv_def)
    then show ?thesis
      using once_per_session[of "ownerSessions ow" s r x "\<lambda>t. \<not> closed (routes w t)"]
      by (auto simp: receivedFor_def announcedFor_def Some)
  qed
  then show ?thesis
    using assms by (simp add: deliveryInv_def)
qed (use assms in \<open>simp add: deliveryInv_def receivedFor_def announcedFor_def\<close>)

lemma deliveryInv_same:
  assumes "deliveryInv w" "ownerSessions (owner w') = ownerSessions (owner w)" "deliveries w' = deliveries w" "announced w' = announced w"
  shows "deliveryInv w'"
  using assms by (simp add: deliveryInv_def receivedFor_def announcedFor_def)

lemma deliveryInv_outcome:
  assumes "deliveryInv w"
  shows "deliveryInv (publishOutcome d e r b w)"
proof -
  obtain f ow where run: "publishDetachedOutcomeWithPolicy d e ''chat.send'' r b (owner w) = (f, ow)"
    by fastforce
  show ?thesis
    unfolding publishOutcome_def run prod.case
    by (rule deliveryInv_publish) (use assms ownerSessions_pairs(4)[OF run] in \<open>simp_all add: deliveryInv_def receivedFor_def announcedFor_def\<close>)
qed

lemma deliveryInv_step:
  assumes inv: "deliveryInv w" and "sendStep ev w = Some w'"
  shows "deliveryInv w'"
  using assms(2)
proof (cases rule: sendStep_cases)
  case (Begin j prior ow)
  show ?thesis
    by (rule deliveryInv_same[OF inv]) (use Begin ownerSessions_pairs(1)[OF Begin(1)] in simp_all)
next
  case (Check i j prep active route)
  show ?thesis
    by (rule deliveryInv_same[OF inv]) (use Check(2) ownerSessions_pairs(5) in \<open>auto simp: checkSend_def split: prod.splits\<close>)
next
  case (CallReturns i j wid e)
  show ?thesis
    by (rule deliveryInv_same[OF inv]) (use CallReturns(2) in \<open>auto simp: callReturns_def Let_def split: option.splits\<close>)
next
  case (Complete i j e ownsPrompt)
  show ?thesis
    by (rule deliveryInv_same[OF inv]) (use Complete(2) in \<open>auto simp: completeSend_def Let_def\<close>)
next
  case (Finish i j e)
  show ?thesis
    using Finish(2) deliveryInv_outcome[OF inv, of "durableID (routes w (jSess j))" e "jReq j" True] inv
    by (auto simp: finishDetachedSend_def deliveryInv_def receivedFor_def announcedFor_def)
next
  case (CompleteSend s r e)
  then show ?thesis
    using deliveryInv_outcome[OF inv] by simp
next
  case (PublishError s r info f ow)
  then show ?thesis
    using deliveryInv_publish[OF inv ownerSessions_pairs(3)[OF PublishError(1)]] by simp
next
  case (Claim r keep token ok ow)
  show ?thesis
    by (rule deliveryInv_same[OF inv]) (use Claim ownerSessions_pairs(2)[OF Claim(1)] in simp_all)
next
  case (SettleAnswer i j wid resp e)
  show ?thesis
    by (rule deliveryInv_same[OF inv]) (use SettleAnswer(2) in auto)
next
  case (Join s)
  then show ?thesis
    using inv by (simp add: deliveryInv_def receivedFor_def announcedFor_def)
next
  case (Depart s)
  then show ?thesis
    using inv by (simp add: distinct_removeAll deliveryInv_def receivedFor_def announcedFor_def)
qed (rule deliveryInv_same[OF inv]; simp)+

section \<open>Written sends\<close>

definition identities :: "nat \<Rightarrow> sendWorld \<Rightarrow> int" where
  "identities k w = int (count_list (map fst (written w)) k) + total (unsent k) w"

definition identityInv :: "sendWorld \<Rightarrow> bool" where
  "identityInv w \<longleftrightarrow> (\<forall>k. identities k w \<le> (if k < nextWrite w then 1 else 0))"

lemma identities_step:
  assumes "sendStep ev w = Some w'"
  shows "(identities k w' \<le> identities k w \<and> nextWrite w' = nextWrite w) \<or>
    (identities k w' = identities k w + (if k = nextWrite w then 1 else 0) \<and> nextWrite w' = Suc (nextWrite w))"
  using assms
proof (cases rule: sendStep_cases)
  case (Check i j prep active route)
  obtain q w1 where "w' = setPC i q w1" "w1 = w \<or> (\<exists>ow. w1 = w\<lparr>owner := ow\<rparr>)" "q = Registering j \<or> (\<exists>e. q = Recording j e)"
    using checkSend_shape[of i j prep active route w] Check(2) by metis
  then show ?thesis
    by (auto simp: identities_def total_setPC total_replace[OF Check(1)])
next
  case (Register i j)
  then show ?thesis
    by (auto simp: identities_def total_setPC total_replace[OF Register(1)])
next
  case (Refused i j wid e)
  then show ?thesis
    by (auto simp: identities_def total_setPC total_replace[OF Refused(1)])
next
  case (Admit i j wid)
  then show ?thesis
    by (auto simp: identities_def total_setPC total_replace[OF Admit(1)])
next
  case (CallReturns i j wid e)
  then show ?thesis
    by (cases e) (auto simp: identities_def callReturns_def Let_def afterCall_def total_threads total_setPC total_replace[OF CallReturns(1)])
next
  case (Settle i j wid e)
  then show ?thesis
    by (auto simp: identities_def afterCall_def total_setPC total_replace[OF Settle(1)] split: option.splits)
next
  case (Record i j e)
  then show ?thesis
    by (auto simp: identities_def total_setPC total_replace[OF Record(1)])
next
  case (Respond i j wid resp e)
  then show ?thesis
    by (auto simp: identities_def total_setPC total_replace[OF Respond(1)])
next
  case (SettleAnswer i j wid resp e)
  then show ?thesis
    by (auto simp: identities_def total_setPC total_replace[OF SettleAnswer(1)])
next
  case (Complete i j e ownsPrompt)
  then show ?thesis
    by (auto simp: identities_def completeSend_def Let_def total_setPC total_replace[OF Complete(1)] split: if_splits)
next
  case (Finish i j e)
  then show ?thesis
    by (auto simp: identities_def finishDetachedSend_def total_setPC total_replace[OF Finish(1)] split: if_splits)
next
  case (Leave i)
  then show ?thesis
    by (auto simp: identities_def total_setPC total_replace[OF Leave(1)])
qed (simp_all add: identities_def total_def)

lemma identityInv_step:
  assumes "identityInv w" "sendStep ev w = Some w'"
  shows "identityInv w'"
  unfolding identityInv_def
proof
  fix k
  show "identities k w' \<le> (if k < nextWrite w' then 1 else 0)"
    using identities_step[OF assms(2), of k] assms(1)[unfolded identityInv_def, rule_format, of k] by (auto split: if_splits)
qed

text \<open>The identity a goroutine holds before the client has its write, and the one it waits for after.\<close>

fun holds :: "sendPC \<Rightarrow> (nat \<times> string) option" where
  "holds (Writing j k) = Some (k, jReq j)"
| "holds (Calling j k) = Some (k, jReq j)"
| "holds (Unwritten j k e) = Some (k, jReq j)"
| "holds _ = None"

fun awaits :: "sendPC \<Rightarrow> nat option" where
  "awaits (Awaiting j k) = Some k"
| "awaits (Answered j k resp e) = Some k"
| "awaits _ = None"

definition pcOwned :: "(nat \<times> string) list \<Rightarrow> string list \<Rightarrow> (nat \<times> string) list \<Rightarrow> sendPC \<Rightarrow> bool" where
  "pcOwned unresolved concl writ p \<longleftrightarrow>
     (case holds p of None \<Rightarrow> True | Some x \<Rightarrow> x \<in> set unresolved \<or> snd x \<in> set concl) \<and>
     (case awaits p of None \<Rightarrow> True | Some k \<Rightarrow> k \<in> fst ` set writ)"

definition ownedInv :: "sendWorld \<Rightarrow> bool" where
  "ownedInv w \<longleftrightarrow>
     distinct (map fst (unresolvedWrites (owner w))) \<and>
     (\<forall>x \<in> set (unresolvedWrites (owner w)). fst x < nextWrite w) \<and>
     unresolvedWriteCount (owner w) = int (length (unresolvedWrites (owner w))) \<and>
     (\<forall>p \<in> set (threads w). pcOwned (unresolvedWrites (owner w)) (concluded w) (written w) p) \<and>
     (\<forall>x \<in> set (written w). x \<in> set (unresolvedWrites (owner w)) \<or> fst x \<in> set (answered w) \<or> snd x \<in> set (concluded w))"

lemma pcOwned_mono:
  assumes "pcOwned u c wr p"
    and "\<And>x. holds p = Some x \<Longrightarrow> x \<in> set u \<Longrightarrow> x \<in> set u' \<or> snd x \<in> set c'"
    and "set c \<subseteq> set c'" "fst ` set wr \<subseteq> fst ` set wr'"
  shows "pcOwned u' c' wr' p"
  using assms unfolding pcOwned_def by (cases "holds p"; cases "awaits p") auto

lemma pcOwned_free: "holds p = None \<Longrightarrow> awaits p = None \<Longrightarrow> pcOwned u c wr p"
  by (simp add: pcOwned_def)

lemma in_set_update: "p \<in> set (xs[i := q]) \<Longrightarrow> p = q \<or> (\<exists>k < length xs. k \<noteq> i \<and> p = xs ! k)"
  by (metis in_set_conv_nth length_list_update nth_list_update_eq nth_list_update_neq)

lemma unsent_nonneg: "0 \<le> unsent k p"
  by (cases p) auto

lemma unsent_member: "p \<in> set ps \<Longrightarrow> unsent k p \<le> sum_list (map (unsent k) ps)"
proof (induction ps)
  case (Cons q ps)
  have "0 \<le> sum_list (map (unsent k) ps)"
    by (rule sum_list_nonneg) (auto simp: unsent_nonneg)
  then show ?case
    using Cons unsent_nonneg[of k q] by auto
qed simp

lemma holds_unsent: "holds p = Some x \<Longrightarrow> unsent (fst x) p = 1"
  by (cases p) auto

text \<open>An identity belongs to one goroutine, or to the client.\<close>

lemma identity_cases:
  assumes inv: "identityInv w" and i: "i < length (threads w)" "holds (threads w ! i) = Some x"
  shows "fst x \<notin> fst ` set (written w)"
    and "j < length (threads w) \<Longrightarrow> j \<noteq> i \<Longrightarrow> holds (threads w ! j) = Some y \<Longrightarrow> fst y \<noteq> fst x"
proof -
  have bound: "identities (fst x) w \<le> 1"
    using inv[unfolded identityInv_def, rule_format, of "fst x"] by (auto split: if_splits)
  have one: "1 \<le> total (unsent (fst x)) w"
    using unsent_member[of "threads w ! i" "threads w" "fst x"] holds_unsent[OF i(2)] i(1) by (simp add: total_def)
  show "fst x \<notin> fst ` set (written w)"
  proof
    assume "fst x \<in> fst ` set (written w)"
    then have "0 < count_list (map fst (written w)) (fst x)"
      by (metis count_list_0_iff gr0I set_map)
    then show False
      using bound one by (simp add: identities_def)
  qed
  show "fst y \<noteq> fst x" if j: "j < length (threads w)" "j \<noteq> i" "holds (threads w ! j) = Some y"
  proof
    assume same: "fst y = fst x"
    have "threads w ! j \<in> set ((threads w)[i := Finished])"
      using j by (metis length_list_update nth_list_update_neq nth_mem)
    then have "1 \<le> sum_list (map (unsent (fst x)) ((threads w)[i := Finished]))"
      using unsent_member[of "threads w ! j" _ "fst x"] holds_unsent[OF j(3)] same by fastforce
    then have "2 \<le> total (unsent (fst x)) w"
      using sum_list_replace[OF i(1), of "unsent (fst x)" Finished] holds_unsent[OF i(2)] by (simp add: total_def)
    then show False
      using bound by (simp add: identities_def)
  qed
qed

lemma written_not_held:
  assumes inv: "identityInv w" and "k \<in> fst ` set (written w)" "p \<in> set (threads w)" "holds p = Some y"
  shows "fst y \<noteq> k"
  using identity_cases(1)[OF inv] assms by (metis in_set_conv_nth)

text \<open>What an outcome does to the unresolved writes.\<close>

lemma count_settled:
  "unresolvedWriteCount ow = int (length (unresolvedWrites ow)) \<Longrightarrow>
    unresolvedWriteCount (fold settleSendWriteLocked ks ow) = int (length (unresolvedWrites (fold settleSendWriteLocked ks ow)))"
  by (induction ks arbitrary: ow) simp_all

lemma complete_unresolved [simp]:
  "unresolvedWrites (snd (completeSendOperationLocked d r e ow)) = unresolvedWrites ow"
  "unresolvedWriteCount (snd (completeSendOperationLocked d r e ow)) = unresolvedWriteCount ow"
  by (simp_all add: completeSendOperationLocked_def Let_def split: option.splits)

lemma keys_of_request:
  assumes "distinct (map fst xs)" "x \<in> set xs"
  shows "fst x \<in> set (map fst (filter (\<lambda>y. snd y = r) xs)) \<longleftrightarrow> snd x = r"
  using assms by (auto simp: distinct_map inj_on_def)

lemma publish_unresolved:
  assumes "distinct (map fst (unresolvedWrites ow))"
  shows "unresolvedWrites (snd (publishDetachedOutcomeWithPolicy d e c r b ow)) =
    (if authoritative e b r \<and> r \<noteq> [] then filter (\<lambda>x. snd x \<noteq> r) (unresolvedWrites ow) else unresolvedWrites ow)"
proof -
  have "filter (\<lambda>x. fst x \<notin> set (map fst (filter (\<lambda>y. snd y = r) (unresolvedWrites ow)))) (unresolvedWrites ow)
      = filter (\<lambda>x. snd x \<noteq> r) (unresolvedWrites ow)"
    using keys_of_request[OF assms] by (intro filter_cong refl) blast
  then show ?thesis
    by (auto simp: publishDetachedOutcomeWithPolicy_def authoritative_def Let_def split: option.splits)
qed

lemma publish_unresolved_count:
  assumes "unresolvedWriteCount ow = int (length (unresolvedWrites ow))"
  shows "unresolvedWriteCount (snd (publishDetachedOutcomeWithPolicy d e c r b ow)) =
    int (length (unresolvedWrites (snd (publishDetachedOutcomeWithPolicy d e c r b ow))))"
  using assms count_settled[OF assms]
  by (auto simp: publishDetachedOutcomeWithPolicy_def Let_def split: option.splits)

lemma ownedInv_same:
  assumes "ownedInv w" "unresolvedWrites (owner w') = unresolvedWrites (owner w)"
    "unresolvedWriteCount (owner w') = unresolvedWriteCount (owner w)" "nextWrite w' = nextWrite w"
    "written w' = written w" "answered w' = answered w" "concluded w' = concluded w"
    "\<forall>p \<in> set (threads w'). p \<in> set (threads w) \<or> holds p = None \<and> awaits p = None"
  shows "ownedInv w'"
  using assms pcOwned_free by (auto simp: ownedInv_def)

lemma ownedInv_moved:
  assumes inv: "ownedInv w" and same: "unresolvedWrites (owner w') = unresolvedWrites (owner w)"
    "unresolvedWriteCount (owner w') = unresolvedWriteCount (owner w)" "nextWrite w' = nextWrite w"
    "written w' = written w" "answered w' = answered w" "concluded w' = concluded w"
    and pc: "threadAt i w = p" "p \<noteq> Finished" "threads w' = (threads w)[i := q]"
    and q: "holds q = None \<or> holds q = holds p" "awaits q = None \<or> awaits q = awaits p"
  shows "ownedInv w'"
proof -
  have "p \<in> set (threads w)"
    using threadAt_Some[OF pc(1,2)] nth_mem by metis
  then have "pcOwned (unresolvedWrites (owner w)) (concluded w) (written w) q"
    using inv q by (auto simp: ownedInv_def pcOwned_def)
  then show ?thesis
    using inv same set_update_subset_insert[of "threads w" i q] by (auto simp: ownedInv_def pc(3))
qed

lemma unresolved_pairs:
  "beginSendOperation r ow = (x, ow') \<Longrightarrow> unresolvedWrites ow' = unresolvedWrites ow \<and> unresolvedWriteCount ow' = unresolvedWriteCount ow"
  "PrepareDetachedSendRetry r keep ow = (y, ow') \<Longrightarrow> unresolvedWrites ow' = unresolvedWrites ow \<and> unresolvedWriteCount ow' = unresolvedWriteCount ow"
  "PublishSendOperationError d r info ow = (f, ow') \<Longrightarrow> unresolvedWrites ow' = unresolvedWrites ow \<and> unresolvedWriteCount ow' = unresolvedWriteCount ow"
  "consumeRetryRunAdmission t ow = (v, ow') \<Longrightarrow> unresolvedWrites ow' = unresolvedWrites ow \<and> unresolvedWriteCount ow' = unresolvedWriteCount ow"
  by (auto simp: beginSendOperation_def admitOperation_def evictOperation_def PrepareDetachedSendRetry_def
    PublishSendOperationError_def consumeRetryRunAdmission_def Let_def split: if_splits option.splits)

lemma unresolved_keep [simp]:
  "unresolvedWrites (recordSendOperation d r e ow) = unresolvedWrites ow"
  "unresolvedWriteCount (recordSendOperation d r e ow) = unresolvedWriteCount ow"
  "unresolvedWrites (RetireDetachedSendRetry t ow) = unresolvedWrites ow"
  "unresolvedWriteCount (RetireDetachedSendRetry t ow) = unresolvedWriteCount ow"
  "unresolvedWrites (releaseMutation ow) = unresolvedWrites ow"
  "unresolvedWriteCount (releaseMutation ow) = unresolvedWriteCount ow"
  "unresolvedWrites (leaveDetached ow) = unresolvedWrites ow"
  "unresolvedWriteCount (leaveDetached ow) = unresolvedWriteCount ow"
  by (simp_all add: recordSendOperation_def RetireDetachedSendRetry_def releaseMutation_def leaveDetached_def Let_def split: option.splits)

lemma ownedInv_outcome:
  assumes inv: "ownedInv w"
  shows "ownedInv (publishOutcome d e r b w)"
proof -
  have "distinct (map fst (unresolvedWrites (owner w)))" "unresolvedWriteCount (owner w) = int (length (unresolvedWrites (owner w)))"
    using inv by (simp_all add: ownedInv_def)
  note unres = publish_unresolved[OF this(1)] publish_unresolved_count[OF this(2)]
  have "pcOwned (unresolvedWrites (owner (publishOutcome d e r b w))) (concluded (publishOutcome d e r b w)) (written w) p"
    if "pcOwned (unresolvedWrites (owner w)) (concluded w) (written w) p" for p
    by (rule pcOwned_mono[OF that]) (auto simp: unres(1))
  then show ?thesis
    using inv by (auto simp: ownedInv_def unres distinct_map_filter)
qed

lemma ownedInv_settle:
  assumes inv: "ownedInv w"
    and owner: "unresolvedWrites (owner w') = filter (\<lambda>x. fst x \<noteq> k) (unresolvedWrites (owner w))"
    "unresolvedWriteCount (owner w') = int (length (unresolvedWrites (owner w')))"
    and same: "nextWrite w' = nextWrite w" "written w' = written w" "concluded w' = concluded w"
    and threads: "\<forall>p \<in> set (threads w'). (holds p = None \<and> awaits p = None) \<or>
       (p \<in> set (threads w) \<and> (\<forall>x. holds p = Some x \<longrightarrow> fst x \<noteq> k))"
    and gone: "set (answered w) \<subseteq> set (answered w')" "\<forall>x \<in> set (written w). fst x = k \<longrightarrow> k \<in> set (answered w')"
  shows "ownedInv w'"
proof -
  have "pcOwned (unresolvedWrites (owner w')) (concluded w') (written w') p" if p: "p \<in> set (threads w')" for p
  proof (cases "holds p = None \<and> awaits p = None")
    case False
    then have "p \<in> set (threads w)" "\<forall>x. holds p = Some x \<longrightarrow> fst x \<noteq> k"
      using threads p by auto
    then show ?thesis
      using inv pcOwned_mono[of "unresolvedWrites (owner w)" "concluded w" "written w" p] by (auto simp: ownedInv_def owner same)
  qed (simp add: pcOwned_free)
  then show ?thesis
    using inv gone by (auto simp: ownedInv_def owner same distinct_map_filter)
qed

lemma holds_afterCall: "holds (afterCall j e) = None \<and> awaits (afterCall j e) = None"
  by (simp add: afterCall_def split: option.splits)

lemma ownedInv_step:
  assumes inv: "ownedInv w" and ids: "identityInv w" and "sendStep ev w = Some w'"
  shows "ownedInv w'"
  using assms(3)
proof (cases rule: sendStep_cases)
  case (Begin j prior ow)
  show ?thesis
    by (rule ownedInv_same[OF inv]) (use Begin(2) unresolved_pairs(1)[OF Begin(1)] in auto)
next
  case (Check i j prep active route)
  obtain q w1 where "w' = setPC i q w1"
    "w1 = w \<or> (\<exists>b ow. consumeRetryRunAdmission (jToken j) (owner w) = (b, ow) \<and> w1 = w\<lparr>owner := ow\<rparr>)"
    "q = Registering j \<or> (\<exists>e. q = Recording j e)"
    using checkSend_shape[of i j prep active route w] Check(2) by metis
  then show ?thesis
    by (intro ownedInv_moved[OF inv _ _ _ _ _ _ Check(1), where q = q]) (use unresolved_pairs(4)[of "jToken j" "owner w"] in auto)
next
  case (Register i j)
  have "ownedInv (w\<lparr>owner := registerSendWrite (nextWrite w) (jReq j) (owner w), nextWrite := Suc (nextWrite w)\<rparr>)"
  proof -
    have "pcOwned (unresolvedWrites (owner w) @ [(nextWrite w, jReq j)]) (concluded w) (written w) p"
      if "pcOwned (unresolvedWrites (owner w)) (concluded w) (written w) p" for p
      by (rule pcOwned_mono[OF that]) auto
    then show ?thesis
      using inv by (auto simp: ownedInv_def registerSendWrite_def Let_def less_Suc_eq)
  qed
  moreover have "pcOwned (unresolvedWrites (owner w) @ [(nextWrite w, jReq j)]) (concluded w) (written w) (Writing j (nextWrite w))"
    by (simp add: pcOwned_def)
  ultimately show ?thesis
    unfolding Register(2) ownedInv_def using set_update_subset_insert[of "threads w" i]
    by (fastforce simp: registerSendWrite_def Let_def)
next
  case (Refused i j wid e)
  show ?thesis
    by (rule ownedInv_moved[OF inv _ _ _ _ _ _ Refused(1), where q = "Unwritten j wid e"]) (use Refused(2) in simp_all)
next
  case (Admit i j wid)
  show ?thesis
    by (rule ownedInv_moved[OF inv _ _ _ _ _ _ Admit(1), where q = "Calling j wid"]) (use Admit(3) in simp_all)
next
  case (CallReturns i j wid e)
  have held: "pcOwned (unresolvedWrites (owner w)) (concluded w) (written w) (Calling j wid)"
    using inv threadAt_Some[OF CallReturns(1), simplified] nth_mem[of i "threads w"] by (auto simp: ownedInv_def)
  show ?thesis
  proof (cases e)
    case None
    have "pcOwned (unresolvedWrites (owner w)) (concluded w) (written w @ [(wid, jReq j)]) p"
      if "pcOwned (unresolvedWrites (owner w)) (concluded w) (written w) p" for p
      by (rule pcOwned_mono[OF that]) auto
    moreover have "(wid, jReq j) \<in> set (unresolvedWrites (owner w)) \<or> jReq j \<in> set (concluded w)"
      using held by (simp add: pcOwned_def)
    moreover have "pcOwned u c wr (afterCall j None)" for u c wr
      by (auto simp: afterCall_def pcOwned_def)
    moreover have "pcOwned u c (written w @ [(wid, jReq j)]) (Awaiting j wid)" for u c
      by (auto simp: pcOwned_def)
    ultimately show ?thesis
      using inv set_update_subset_insert[of "threads w" i "afterCall j None"]
      by (auto simp: CallReturns(2) callReturns_def None Let_def ownedInv_def)
  next
    case (Some err)
    show ?thesis
      by (rule ownedInv_moved[OF inv _ _ _ _ _ _ CallReturns(1), where q = "Unwritten j wid err"])
        (simp_all add: CallReturns(2) callReturns_def Some Let_def)
  qed
next
  case (Settle i j wid e)
  note at = threadAt_Some[OF Settle(1), simplified]
  have held: "holds (threads w ! i) = Some (wid, jReq j)"
    using at by simp
  show ?thesis
  proof (rule ownedInv_settle[OF inv, of _ wid])
    show "\<forall>p \<in> set (threads w'). (holds p = None \<and> awaits p = None) \<or> (p \<in> set (threads w) \<and> (\<forall>x. holds p = Some x \<longrightarrow> fst x \<noteq> wid))"
    proof
      fix p assume "p \<in> set (threads w')"
      then have "p \<in> set ((threads w)[i := afterCall j (classifyRouteError (Some e))])"
        by (simp add: Settle(2))
      from in_set_update[OF this] show "(holds p = None \<and> awaits p = None) \<or> (p \<in> set (threads w) \<and> (\<forall>x. holds p = Some x \<longrightarrow> fst x \<noteq> wid))"
      proof
        assume "\<exists>k < length (threads w). k \<noteq> i \<and> p = threads w ! k"
        then obtain k where k: "k < length (threads w)" "k \<noteq> i" "p = threads w ! k"
          by blast
        have "fst x \<noteq> wid" if "holds p = Some x" for x
          using identity_cases(2)[OF ids at(1) held k(1,2)] that k(3) by simp
        then show ?thesis
          using k by auto
      qed (simp add: holds_afterCall)
    qed
    show "\<forall>x \<in> set (written w). fst x = wid \<longrightarrow> wid \<in> set (answered w')"
      using identity_cases(1)[OF ids at(1) held] by force
  qed (simp_all add: Settle(2))
next
  case (Record i j e)
  show ?thesis
    by (rule ownedInv_moved[OF inv _ _ _ _ _ _ Record(1), where q = Finished]) (use Record(2) in simp_all)
next
  case (Respond i j wid resp e)
  show ?thesis
    by (rule ownedInv_moved[OF inv _ _ _ _ _ _ Respond(1), where q = "Answered j wid resp e"]) (use Respond(2) in simp_all)
next
  case (SettleAnswer i j wid resp e)
  show ?thesis
  proof (cases resp)
    case True
    note at = threadAt_Some[OF SettleAnswer(1)]
    have "wid \<in> fst ` set (written w)"
      using inv at nth_mem by (fastforce simp: ownedInv_def pcOwned_def)
    note free = written_not_held[OF ids this]
    show ?thesis
    proof (rule ownedInv_settle[OF inv, of _ wid])
      show "\<forall>p \<in> set (threads w'). (holds p = None \<and> awaits p = None) \<or> (p \<in> set (threads w) \<and> (\<forall>x. holds p = Some x \<longrightarrow> fst x \<noteq> wid))"
      proof
        fix p assume "p \<in> set (threads w')"
        then have "p = Completing j e \<or> p \<in> set (threads w)"
          using set_update_subset_insert[of "threads w" i "Completing j e"] by (auto simp: SettleAnswer(2) True)
        then show "(holds p = None \<and> awaits p = None) \<or> (p \<in> set (threads w) \<and> (\<forall>x. holds p = Some x \<longrightarrow> fst x \<noteq> wid))"
          using free by fastforce
      qed
    qed (auto simp: SettleAnswer(2) True)
  next
    case False
    show ?thesis
      by (rule ownedInv_moved[OF inv _ _ _ _ _ _ SettleAnswer(1), where q = "Completing j e"]) (use SettleAnswer(2) False in simp_all)
  qed
next
  case (Complete i j e ownsPrompt)
  show ?thesis
    by (rule ownedInv_moved[OF inv _ _ _ _ _ _ Complete(1), where q =
          "if jPrompt j \<and> agentBusy (classifyRouteError e) \<and> ownsPrompt then Registering (j\<lparr>jPrompt := False, jNested := True\<rparr>)
           else Finishing j (classifyRouteError e)"])
      (simp_all add: Complete(2) completeSend_def Let_def)
next
  case (Finish i j e)
  have "ownedInv (if jCustom j then w\<lparr>handed := handed w @ [(jReq j, detachedSendError (routes w (jSess j)) e)]\<rparr>
        else publishOutcome (durableID (routes w (jSess j))) e (jReq j) True w)" (is "ownedInv ?w")
    using inv ownedInv_outcome[OF inv] by (auto intro: ownedInv_same[OF inv])
  then show ?thesis
    by (rule ownedInv_same) (use set_update_subset_insert[of "threads w" i Leaving] in
      \<open>auto simp: Finish(2) finishDetachedSend_def\<close>)
next
  case (Leave i)
  show ?thesis
    by (rule ownedInv_moved[OF inv _ _ _ _ _ _ Leave(1), where q = Finished]) (use Leave(2) in simp_all)
next
  case (Claim r keep token ok ow)
  show ?thesis
    by (rule ownedInv_same[OF inv]) (use Claim(2) unresolved_pairs(2)[OF Claim(1)] in auto)
next
  case (CompleteSend s r e)
  then show ?thesis
    using ownedInv_outcome[OF inv] by simp
next
  case (PublishError s r info f ow)
  show ?thesis
    by (rule ownedInv_same[OF inv]) (use PublishError(2) unresolved_pairs(3)[OF PublishError(1)] in auto)
qed (rule ownedInv_same[OF inv]; simp)+

section \<open>Properties\<close>

definition sendInv :: "sendWorld \<Rightarrow> bool" where
  "sendInv w \<longleftrightarrow> boundsInv w \<and> licenceInv w \<and> announceInv w \<and> deliveryInv w \<and> identityInv w \<and> ownedInv w"

lemma sendInv_new: "sendInv (newSendWorld k s rs)"
  by (simp add: sendInv_def boundsInv_def licenceInv_def announceInv_def deliveryInv_def identityInv_def ownedInv_def
      newSendWorld_def newOwner_def ledgerInv_def total_def spent_def identities_def credit_def quiet_def announcedFor_def
      receivedFor_def DetachedMutationLimit_def)

lemma sendReachable_inv: "sendReachable w \<Longrightarrow> sendInv w"
proof (induction rule: sendReachable.induct)
  case (step w ev w')
  then show ?case
    unfolding sendInv_def
    using boundsInv_step licenceInv_step announceInv_step deliveryInv_step identityInv_step ownedInv_step by blast
qed (rule sendInv_new)

lemma licence_nonneg: "0 \<le> total (licence r) w"
proof -
  have "0 \<le> licence r p" for p
    by (cases p) auto
  then show ?thesis
    unfolding total_def by (intro sum_list_nonneg) auto
qed

text \<open>
  C21: A send is attempted at most once for its admission, plus once for every retry the bridge claimed
  and once for every busy prompt turned into a steer; a further admission needs the ledger to have
  dropped the finished operation in between.
\<close>

theorem send_attempts_licensed:
  assumes "sendReachable w" "r \<noteq> []"
  shows "count_list (attempted w) r \<le> 1 + count_list (evicted w) r + count_list (claimed w) r + count_list (steered w) r"
proof -
  have "spent r w + int (credit (owner w) r) \<le> 1 + int (count_list (evicted w) r) + int (count_list (claimed w) r)"
    using sendReachable_inv[OF assms(1)] assms(2) by (simp add: sendInv_def licenceInv_def)
  then show ?thesis
    using licence_nonneg[of r w] by (simp add: spent_def)
qed

text \<open>
  C22: No session receives a second outcome of an operation the ledger still knows, and once an outcome
  has been announced the one the ledger retains, and replays to whoever attaches, is the announced one.
\<close>

theorem send_outcome_once:
  assumes "sendReachable w" "r \<noteq> []"
  shows "length (receivedFor s r w) \<le> 1 + count_list (evicted w) r \<and>
    (case operations (owner w) r of
       Some op \<Rightarrow> published op \<longrightarrow> announcedFor r w \<noteq> [] \<and> outcome op = Some (last (announcedFor r w)) \<and>
         last (announcedFor r w) \<in> set (retainedOutcomes (owner w))
     | None \<Rightarrow> True)"
proof -
  have inv: "announceInv w" "deliveryInv w" "ledgerInv (owner w)"
    using sendReachable_inv[OF assms(1)] by (simp_all add: sendInv_def announceInv_def)
  have "length (announcedFor r w) + quiet (owner w) r \<le> 1 + count_list (evicted w) r"
    using inv(1) assms(2) by (simp add: announceInv_def)
  moreover have "length (receivedFor s r w) \<le> length (announcedFor r w)"
    using inv(2) by (simp add: deliveryInv_def)
  ultimately have once: "length (receivedFor s r w) \<le> 1 + count_list (evicted w) r"
    by linarith
  have "announcedFor r w \<noteq> [] \<and> outcome op = Some (last (announcedFor r w)) \<and> last (announcedFor r w) \<in> set (retainedOutcomes (owner w))"
    if op: "operations (owner w) r = Some op" "published op" for op
  proof -
    have last: "announcedFor r w \<noteq> []" "outcome op = Some (last (announcedFor r w))"
      using inv(1) op by (simp_all add: announceInv_def)
    moreover have "r \<in> set (fifo (owner w))"
      using inv(3) op(1) by (auto simp: ledgerInv_def)
    ultimately show ?thesis
      using op(1) by (auto simp: retainedOutcomes_def List.map_filter_def image_iff intro!: bexI[of _ r])
  qed
  with once show ?thesis
    by (auto split: option.splits)
qed


text \<open>
  C23: A send that was written and of which neither a response arrived nor an authoritative outcome was
  published keeps the chat's unresolved-work marker, whatever else happens to the ledger.
\<close>

theorem lost_send_keeps_ownership:
  assumes "sendReachable w" "(k, r) \<in> set (written w)" "k \<notin> set (answered w)" "r \<notin> set (concluded w)"
  shows "hasUnresolvedSendLocked (owner w)"
proof -
  have inv: "ownedInv w"
    using sendReachable_inv[OF assms(1)] by (simp add: sendInv_def)
  then have "(k, r) \<in> set (unresolvedWrites (owner w))"
    using assms(2-4) by (fastforce simp: ownedInv_def)
  then show ?thesis
    using inv by (auto simp: hasUnresolvedSendLocked_def ownedInv_def)
qed

subsection \<open>Concrete runs\<close>

text \<open>
  A prompt that finds the agent busy is steered and acknowledged; a second one is written, its session
  loses the transport and the completion hands the ambiguity to the bridge.
\<close>

definition demoRoute :: routeState where
  "demoRoute = \<lparr>durableID = ''d'', closed = False, closing = False, resumable = False, invalidated = False, quarantineErr = None\<rparr>"

definition demoJob :: "string \<Rightarrow> bool \<Rightarrow> job" where
  "demoJob r custom = \<lparr>jSess = 0, jReq = r, jPrompt = True, jToken = (0, 0), jCustom = custom, jNested = False\<rparr>"

definition busyError :: goerror where
  "busyError = \<lparr>causes = [Foreign ''agent''], message = ''Agent is already processing a prompt''\<rparr>"

definition busyRun :: "sendEvent list" where
  "busyRun = [Begin (demoJob ''m1'' False), Check 0 None False None, Register 0, Admit 0, CallReturns 0 None, Record 0,
     Respond 1 True (Some busyError), SettleAnswer 1, Complete 1 True, Register 1, Admit 1, CallReturns 1 None,
     Respond 2 True None, SettleAnswer 2, Complete 2 False, Finish 2, Leave 2, Leave 1]"

definition lostRun :: "sendEvent list" where
  "lostRun = [Begin (demoJob ''m2'' True), Check 0 None False None, Register 0, Admit 0, CallReturns 0 None, Record 0,
     SetRoute 0 (demoRoute\<lparr>resumable := True\<rparr>), Respond 1 False (Some (sentinel ErrDisconnected ''gone'')), SettleAnswer 1,
     Complete 1 True, Finish 1, Leave 1]"

definition busyWorld :: sendWorld where
  "busyWorld = the (sendRun busyRun (newSendWorld 1 0 (\<lambda>_. demoRoute)))"

definition lostWorld :: sendWorld where
  "lostWorld = the (sendRun lostRun (newSendWorld 1 0 (\<lambda>_. demoRoute)))"

lemma busyRun_ends: "sendRun busyRun (newSendWorld 1 0 (\<lambda>_. demoRoute)) \<noteq> None"
  by code_simp

lemma lostRun_ends: "sendRun lostRun (newSendWorld 1 0 (\<lambda>_. demoRoute)) \<noteq> None"
  by code_simp

lemma busyWorld_reachable: "sendReachable busyWorld"
  using busyRun_ends unfolding busyWorld_def by (auto intro: sendRun_reachable sendReachable.fresh)

lemma lostWorld_reachable: "sendReachable lostWorld"
  using lostRun_ends unfolding lostWorld_def by (auto intro: sendRun_reachable sendReachable.fresh)

lemma busyWorld_logs:
  "attempted busyWorld = [''m1'', ''m1''] \<and> steered busyWorld = [''m1''] \<and> evicted busyWorld = [] \<and> claimed busyWorld = [] \<and>
   length (receivedFor 0 ''m1'' busyWorld) = 1 \<and> map_option published (operations (owner busyWorld) ''m1'') = Some True \<and>
   length (fifo (owner busyWorld)) = 1 \<and> activeDetached (owner busyWorld) = 0"
  by code_simp

lemma lostWorld_logs:
  "written lostWorld = [(0, ''m2'')] \<and> answered lostWorld = [] \<and> concluded lostWorld = [] \<and>
   map (\<lambda>x. errorsIs (snd x) ErrSendOutcomeUnknown) (handed lostWorld) = [True]"
  by code_simp

lemma send_attempts_licensed_witness:
  "count_list (attempted busyWorld) ''m1'' = 2 \<and>
   count_list (attempted busyWorld) ''m1'' \<le> 1 + count_list (evicted busyWorld) ''m1'' + count_list (claimed busyWorld) ''m1'' + count_list (steered busyWorld) ''m1''"
  using send_attempts_licensed[OF busyWorld_reachable, of "''m1''"] busyWorld_logs by simp

lemma send_outcome_once_witness:
  "length (receivedFor 0 ''m1'' busyWorld) = 1 \<and> announcedFor ''m1'' busyWorld \<noteq> []"
proof -
  obtain op where "operations (owner busyWorld) ''m1'' = Some op" "published op"
    using busyWorld_logs by auto
  then show ?thesis
    using send_outcome_once[OF busyWorld_reachable, of "''m1''"] busyWorld_logs by simp
qed


lemma lost_send_keeps_ownership_witness: "hasUnresolvedSendLocked (owner lostWorld)"
  using lost_send_keeps_ownership[OF lostWorld_reachable, of 0 "''m2''"] lostWorld_logs by simp

end
