(* ===== verification/RpcClient.thy ===== *)
theory RpcClient
  imports GoText "HOL-Library.Sublist"
begin

text \<open>
  The multiplexed client of \<open>internal/omorpc/client.go\<close>: connection epochs, the table of correlated
  requests, the reconnect flight, and the goroutines of its callers. Each function on the client is one
  critical section under \<open>c.mu\<close>; callers and flights are program counters, and a step of the system
  runs one section of one of them, or a section of a read loop, a fence or \<open>Close\<close>. What the dialer, the
  transport and the engine answer are choices of the steps.

  Epochs, flights and result channels are identified by their place in the tables that allocate them,
  as Go identifies them by pointer. A result channel has capacity one; its content is a list here so
  that the capacity is something to prove. The request counter is a \<open>uint64\<close>: the identifier of request
  \<open>n\<close> is the text of \<open>n\<close> modulo \<open>2^64\<close>.
\<close>

section \<open>Event streams\<close>

text \<open>A hard-bounded queue that drops its oldest unread event when it is full.\<close>

record eventStream =
  out :: "string list"
  capacity :: nat
  dropped :: nat
  streamClosed :: bool

definition newEventStream :: "nat \<Rightarrow> eventStream" where
  "newEventStream n = \<lparr>out = [], capacity = n, dropped = 0, streamClosed = False\<rparr>"

definition enqueueEvent :: "string \<Rightarrow> eventStream \<Rightarrow> eventStream" where
  "enqueueEvent ev s =
     (if streamClosed s then s
      else if length (out s) < capacity s then s\<lparr>out := out s @ [ev]\<rparr>
      else s\<lparr>out := tl (out s) @ [ev], dropped := Suc (dropped s)\<rparr>)"

definition receiveEvent :: "eventStream \<Rightarrow> eventStream" where
  "receiveEvent s = s\<lparr>out := tl (out s)\<rparr>"

definition closeStream :: "eventStream \<Rightarrow> eventStream" where
  "closeStream s = s\<lparr>streamClosed := True\<rparr>"

section \<open>Configuration\<close>

record config =
  EventBuffer :: int
  MaxLineBytes :: int
  WriteTimeout :: int
  ReconnectInitial :: int
  ReconnectMax :: int
  ReconnectMaxAttempts :: int
  NoReconnect :: bool

text \<open>Durations are nanoseconds; the line bound is \<open>defaultMaxLineBytes\<close> of \<open>protocol.go\<close>.\<close>

definition DefaultConfig :: config where
  "DefaultConfig =
     \<lparr>EventBuffer = 64, MaxLineBytes = 4194304, WriteTimeout = 5000000000, ReconnectInitial = 250000000,
      ReconnectMax = 5000000000, ReconnectMaxAttempts = 8, NoReconnect = False\<rparr>"

definition normalizeConfig :: "config \<Rightarrow> config" where
  "normalizeConfig cfg =
     (let buffer = (if EventBuffer cfg = 0 \<or> EventBuffer cfg < 1 then EventBuffer DefaultConfig else EventBuffer cfg);
          line = (if MaxLineBytes cfg = 0 \<or> MaxLineBytes cfg < 1 then MaxLineBytes DefaultConfig else MaxLineBytes cfg);
          timeout = (if WriteTimeout cfg = 0 \<or> WriteTimeout cfg < 0 then WriteTimeout DefaultConfig else WriteTimeout cfg);
          initial = (if ReconnectInitial cfg = 0 \<or> ReconnectInitial cfg < 0 then ReconnectInitial DefaultConfig else ReconnectInitial cfg);
          maximum = (if ReconnectMax cfg = 0 then ReconnectMax DefaultConfig else ReconnectMax cfg);
          attempts = (if ReconnectMaxAttempts cfg = 0 then ReconnectMaxAttempts DefaultConfig else ReconnectMaxAttempts cfg)
      in cfg\<lparr>EventBuffer := buffer, MaxLineBytes := line, WriteTimeout := timeout, ReconnectInitial := initial,
             ReconnectMax := (if maximum < initial then initial else maximum),
             ReconnectMaxAttempts := (if attempts < 1 then 1 else attempts)\<rparr>)"

section \<open>State\<close>

datatype rpcResult = Answered nat string string | Oversized nat string string | Disconnected nat

record connectionEpoch =
  number :: nat
  negotiated :: bool
  previous :: "nat option"
  events :: eventStream

text \<open>
  A caller asks \<open>connection\<close> for its epoch or, \<open>direct\<close>, was given one: the requests of a flight that
  negotiates, and \<open>CallInEpochToken\<close> and \<open>CallRetainedInEpoch\<close>. \<open>Waiting\<close> holds the request it wrote: its epoch, identifier
  and channel; \<open>Returned\<close> its outcome, \<open>None\<close> for a call that gave up unanswered or was refused.
\<close>

datatype callKind = Call | CallRetained | CallDetached | Notify

datatype callerPC =
    Connecting
  | OnFlight nat
  | OnEpoch nat
  | Registered nat string nat
  | Waiting nat string nat
  | WriteFailed nat string nat bool
  | Invalidating nat
  | Claiming nat string nat
  | Settling nat string nat
  | Returned "rpcResult option"

record caller =
  kind :: callKind
  command :: string
  direct :: bool
  at :: callerPC

datatype flightPC =
    Dialing nat
  | Establishing nat
  | Negotiating nat nat
  | Failing nat nat
  | Ending "nat option"
  | Landed "nat option"

record client =
  maxAttempts :: nat
  eventBuffer :: nat
  noReconnect :: bool
  closed :: bool
  epochCount :: nat
  current :: "nat option"
  connecting :: "nat option"
  pending :: "string \<rightharpoonup> string \<times> nat"
  infoSet :: bool
  nextID :: nat
  epochs :: "connectionEpoch list"
  flights :: "flightPC list"
  callers :: "caller list"
  channels :: "rpcResult list list"
  transit :: "(nat \<times> rpcResult) list"
  droppedHistory :: nat
  sentOn :: "(nat \<times> bool) list"

definition requestID :: "nat \<Rightarrow> string" where
  "requestID n = ''omo_go_'' @ natText (n mod 18446744073709551616)"

section \<open>Critical sections\<close>

definition setEpoch :: "nat \<Rightarrow> (connectionEpoch \<Rightarrow> connectionEpoch) \<Rightarrow> client \<Rightarrow> client" where
  "setEpoch e f c = c\<lparr>epochs := (epochs c)[e := f (epochs c ! e)]\<rparr>"

text \<open>\<open>connection\<close>, up to the point where it returns or waits for a flight.\<close>

definition connectionLocked :: "client \<Rightarrow> callerPC \<times> client" where
  "connectionLocked c =
     (if closed c then (Returned None, c)
      else case connecting c of
        Some f \<Rightarrow> (OnFlight f, c)
      | None \<Rightarrow>
          (case current c of
             Some e \<Rightarrow> (OnEpoch e, c)
           | None \<Rightarrow>
               (if noReconnect c then (Returned None, c)
                else let f = length (flights c) in
                  (OnFlight f, c\<lparr>connecting := Some f, flights := flights c @ [Dialing 0]\<rparr>))))"

text \<open>The locked part of a call: refused on a retired epoch, correlated otherwise.\<close>

definition registerCall :: "nat \<Rightarrow> string \<Rightarrow> client \<Rightarrow> callerPC \<times> client" where
  "registerCall e cmd c =
     (let rid = requestID (Suc (nextID c)); c1 = c\<lparr>nextID := Suc (nextID c)\<rparr> in
      if closed c \<or> current c \<noteq> Some e then (Returned None, c1)
      else let ch = length (channels c) in
        (Registered e rid ch, c1\<lparr>pending := (pending c)(rid \<mapsto> (cmd, ch)), channels := channels c @ [[]]\<rparr>))"

definition removePending :: "string \<Rightarrow> nat \<Rightarrow> client \<Rightarrow> bool \<times> client" where
  "removePending rid ch c =
     (case pending c rid of
        Some (cmd, ch') \<Rightarrow> if ch' = ch then (True, c\<lparr>pending := (pending c)(rid := None)\<rparr>) else (False, c)
      | None \<Rightarrow> (False, c))"

text \<open>
  \<open>settleResponse\<close>: the correlation is deleted under the lock, the result sent afterwards. A response
  nobody waits for becomes an event of the epoch.
\<close>

definition settleResponse :: "nat \<Rightarrow> string \<Rightarrow> string \<Rightarrow> client \<Rightarrow> client" where
  "settleResponse e rid cmd c =
     (if current c \<noteq> Some e then c
      else case pending c rid of
        Some (cmd', ch) \<Rightarrow>
          (if cmd' = cmd
           then c\<lparr>pending := (pending c)(rid := None), transit := transit c @ [(ch, Answered e rid cmd)]\<rparr>
           else setEpoch e (\<lambda>x. x\<lparr>events := enqueueEvent ''response'' (events x)\<rparr>) c)
      | None \<Rightarrow> setEpoch e (\<lambda>x. x\<lparr>events := enqueueEvent ''response'' (events x)\<rparr>) c)"

definition settleOversizedHistory :: "nat \<Rightarrow> string \<Rightarrow> string \<Rightarrow> client \<Rightarrow> bool \<times> client" where
  "settleOversizedHistory e rid cmd c =
     (if current c \<noteq> Some e then (False, c)
      else case pending c rid of
        Some (cmd', ch) \<Rightarrow>
          (if cmd' \<noteq> cmd then (False, c)
           else (True, c\<lparr>pending := (pending c)(rid := None), transit := transit c @ [(ch, Oversized e rid cmd)]\<rparr>))
      | None \<Rightarrow> (True, c\<lparr>droppedHistory := Suc (droppedHistory c)\<rparr>))"

text \<open>\<open>ids\<close>: the order in which the loop over the swapped-out table sends the failures.\<close>

definition failAll :: "nat \<Rightarrow> string list \<Rightarrow> (string \<rightharpoonup> string \<times> nat) \<Rightarrow> (nat \<times> rpcResult) list" where
  "failAll e ids p = List.map_filter (\<lambda>rid. map_option (\<lambda>x. (snd x, Disconnected e)) (p rid)) ids"

definition retireEpoch :: "nat \<Rightarrow> string list \<Rightarrow> client \<Rightarrow> client" where
  "retireEpoch e ids c =
     setEpoch e (\<lambda>x. x\<lparr>events := closeStream (events x)\<rparr>)
       (c\<lparr>current := None, infoSet := False, epochCount := Suc (epochCount c), pending := Map.empty,
          transit := transit c @ failAll e ids (pending c)\<rparr>)"

definition invalidate :: "nat \<Rightarrow> string list \<Rightarrow> client \<Rightarrow> client" where
  "invalidate e ids c = (if current c \<noteq> Some e then c else retireEpoch e ids c)"

definition FenceConnectionGeneration :: "string list \<Rightarrow> client \<Rightarrow> client" where
  "FenceConnectionGeneration ids c =
     (let c1 = c\<lparr>connecting := None\<rparr> in
      case current c of None \<Rightarrow> c1 | Some e \<Rightarrow> retireEpoch e ids c1)"

definition establishLocked :: "nat \<Rightarrow> client \<Rightarrow> nat option \<times> client" where
  "establishLocked f c =
     (if closed c \<or> connecting c \<noteq> Some f then (None, c)
      else let e = length (epochs c) in
        (Some e, c\<lparr>epochCount := Suc (epochCount c), current := Some e, infoSet := False,
           epochs := epochs c @ [\<lparr>number = Suc (epochCount c), negotiated = False, previous = current c,
             events = newEventStream (eventBuffer c)\<rparr>]\<rparr>))"

text \<open>The end of \<open>negotiate\<close>: the epoch is published as negotiated if it is still the current one.\<close>

definition publishNegotiated :: "nat \<Rightarrow> client \<Rightarrow> bool \<times> client" where
  "publishNegotiated e c =
     (if closed c \<or> current c \<noteq> Some e then (False, c)
      else (True, setEpoch e (\<lambda>x. x\<lparr>negotiated := True\<rparr>) (c\<lparr>infoSet := True\<rparr>)))"

definition finishReconnect :: "nat \<Rightarrow> client \<Rightarrow> client" where
  "finishReconnect f c = (if connecting c = Some f then c\<lparr>connecting := None\<rparr> else c)"

definition EpochCurrent :: "nat option \<Rightarrow> client \<Rightarrow> bool" where
  "EpochCurrent token c \<longleftrightarrow> (case token of None \<Rightarrow> False | Some e \<Rightarrow> current c = Some e)"

section \<open>Goroutines\<close>

definition callerAt :: "nat \<Rightarrow> client \<Rightarrow> caller option" where
  "callerAt i c = (if i < length (callers c) then Some (callers c ! i) else None)"

definition setCaller :: "nat \<Rightarrow> callerPC \<Rightarrow> client \<Rightarrow> client" where
  "setCaller i p c = c\<lparr>callers := (callers c)[i := (callers c ! i)\<lparr>at := p\<rparr>]\<rparr>"

text \<open>
  What \<open>writeFrame\<close> answered: \<open>None\<close> for a complete write, otherwise whether the failure belongs to the
  transport. Unless the caller gave up before its turn, some of the frame is on the wire.
\<close>

definition writeFrame :: "nat \<Rightarrow> caller \<Rightarrow> bool option \<Rightarrow> client \<Rightarrow> client" where
  "writeFrame e x failure c = (if failure = Some False then c else c\<lparr>sentOn := sentOn c @ [(e, direct x)]\<rparr>)"

definition flightAt :: "nat \<Rightarrow> client \<Rightarrow> flightPC option" where
  "flightAt f c = (if f < length (flights c) then Some (flights c ! f) else None)"

definition setFlight :: "nat \<Rightarrow> flightPC \<Rightarrow> client \<Rightarrow> client" where
  "setFlight f p c = c\<lparr>flights := (flights c)[f := p]\<rparr>"

text \<open>
  \<open>StartCall\<close> is a call that asks for its epoch, \<open>StartDirect\<close> one that was given it. \<open>Expire\<close> is the end of
  the caller's context. \<open>EndRead\<close> is every \<open>invalidate\<close> that no caller and no flight makes: a read loop that
  ends, \<open>FenceEpoch\<close>, the second half of \<open>Close\<close>.
\<close>

datatype rpcEvent =
    StartCall callKind string
  | StartDirect callKind nat string
  | Connect nat
  | FlightDone nat
  | Abandon nat
  | Register nat
  | WriteDone nat "bool option"
  | WriteNotification nat "bool option"
  | DropCorrelation nat
  | Invalidate nat "string list"
  | Expire nat
  | ClaimResult nat
  | TakeResult nat
  | Send nat
  | Respond nat string string
  | RespondOversized nat string string
  | EndRead nat "string list"
  | Event nat string
  | Consume nat
  | Fence "string list"
  | Close
  | Dialed nat bool bool
  | Establish nat bool
  | Negotiated nat bool
  | FlightInvalidate nat "string list" bool
  | FlightEnd nat

text \<open>
  After an attempt failed the flight dials again while its budget lasts and nothing ended it: \<open>goOn\<close>
  says that the back-off timer fired before the context of the flight was done.
\<close>

definition nextAttempt :: "client \<Rightarrow> nat \<Rightarrow> bool \<Rightarrow> flightPC" where
  "nextAttempt c n goOn = (if goOn \<and> Suc n < maxAttempts c then Dialing (Suc n) else Ending None)"

definition callerStep :: "rpcEvent \<Rightarrow> nat \<Rightarrow> caller \<Rightarrow> client \<Rightarrow> client option" where
  "callerStep ev i x c =
     (case ev of
        Connect _ \<Rightarrow>
         (case at x of Connecting \<Rightarrow> (case connectionLocked c of (p, c') \<Rightarrow> Some (setCaller i p c')) | _ \<Rightarrow> None)
      | FlightDone _ \<Rightarrow>
         (case at x of
            OnFlight f \<Rightarrow>
              (case flightAt f c of
                 Some (Landed (Some e)) \<Rightarrow> Some (setCaller i (OnEpoch e) c)
               | Some (Landed None) \<Rightarrow> Some (setCaller i (Returned None) c)
               | _ \<Rightarrow> None)
          | _ \<Rightarrow> None)
      | Abandon _ \<Rightarrow>
         (case at x of OnFlight f \<Rightarrow> Some (setCaller i (Returned None) c) | _ \<Rightarrow> None)
      | Register _ \<Rightarrow>
         (case at x of
            OnEpoch e \<Rightarrow>
              (if kind x = Notify then None
               else case registerCall e (command x) c of (p, c') \<Rightarrow> Some (setCaller i p c'))
          | _ \<Rightarrow> None)
      | WriteNotification _ failure \<Rightarrow>
         (case at x of
            OnEpoch e \<Rightarrow>
              (if kind x \<noteq> Notify then None
               else Some (setCaller i (if failure = Some True then Invalidating e else Returned None) (writeFrame e x failure c)))
          | _ \<Rightarrow> None)
      | WriteDone _ failure \<Rightarrow>
         (case at x of
            Registered e rid ch \<Rightarrow>
              Some (setCaller i
                 (case failure of None \<Rightarrow> Waiting e rid ch | Some transport \<Rightarrow> WriteFailed e rid ch transport)
                 (writeFrame e x failure c))
          | _ \<Rightarrow> None)
      | DropCorrelation _ \<Rightarrow>
         (case at x of
            WriteFailed e rid ch transport \<Rightarrow>
              Some (setCaller i (if transport then Invalidating e else Returned None) (snd (removePending rid ch c)))
          | _ \<Rightarrow> None)
      | Invalidate _ ids \<Rightarrow>
         (case at x of
            Invalidating e \<Rightarrow> Some (setCaller i (Returned (Some (Disconnected e))) (invalidate e ids c))
          | _ \<Rightarrow> None)
      | Expire _ \<Rightarrow>
         (case at x of
            Waiting e rid ch \<Rightarrow> (if kind x = Call then Some (setCaller i (Claiming e rid ch) c) else None)
          | _ \<Rightarrow> None)
      | ClaimResult _ \<Rightarrow>
         (case at x of
            Claiming e rid ch \<Rightarrow>
              (case removePending rid ch c of
                 (True, c') \<Rightarrow> Some (setCaller i (Returned None) c')
               | (False, c') \<Rightarrow> Some (setCaller i (Settling e rid ch) c'))
          | _ \<Rightarrow> None)
      | TakeResult _ \<Rightarrow>
         (case at x of
            Waiting e rid ch \<Rightarrow>
              (case channels c ! ch of [] \<Rightarrow> None
               | r # rs \<Rightarrow> Some (setCaller i (Returned (Some r)) (c\<lparr>channels := (channels c)[ch := rs]\<rparr>)))
          | Settling e rid ch \<Rightarrow>
              (case channels c ! ch of [] \<Rightarrow> None
               | r # rs \<Rightarrow> Some (setCaller i (Returned (Some r)) (c\<lparr>channels := (channels c)[ch := rs]\<rparr>)))
          | _ \<Rightarrow> None)
      | _ \<Rightarrow> None)"

definition flightStep :: "rpcEvent \<Rightarrow> nat \<Rightarrow> flightPC \<Rightarrow> client \<Rightarrow> client option" where
  "flightStep ev f p c =
     (case ev of
        Dialed _ ok goOn \<Rightarrow>
         (case p of
            Dialing n \<Rightarrow>
              (if closed c then Some (setFlight f (Ending None) c)
               else Some (setFlight f (if ok then Establishing n else nextAttempt c n goOn) c))
          | _ \<Rightarrow> None)
      | Establish _ goOn \<Rightarrow>
         (case p of
            Establishing n \<Rightarrow>
              (case establishLocked f c of
                 (Some e, c') \<Rightarrow> Some (setFlight f (Negotiating n e) c')
               | (None, c') \<Rightarrow> Some (setFlight f (nextAttempt c n goOn) c'))
          | _ \<Rightarrow> None)
      | Negotiated _ ok \<Rightarrow>
         (case p of
            Negotiating n e \<Rightarrow>
              (if \<not> ok then Some (setFlight f (Failing n e) c)
               else case publishNegotiated e c of
                 (True, c') \<Rightarrow> Some (setFlight f (Ending (Some e)) c')
               | (False, c') \<Rightarrow> Some (setFlight f (Failing n e) c'))
          | _ \<Rightarrow> None)
      | FlightInvalidate _ ids goOn \<Rightarrow>
         (case p of
            Failing n e \<Rightarrow> Some (setFlight f (nextAttempt c n goOn) (invalidate e ids c))
          | _ \<Rightarrow> None)
      | FlightEnd _ \<Rightarrow>
         (case p of Ending r \<Rightarrow> Some (setFlight f (Landed r) (finishReconnect f c)) | _ \<Rightarrow> None)
      | _ \<Rightarrow> None)"

text \<open>\<open>ids\<close> lists the keys of a map that is ranged over, each once.\<close>

definition enumerates :: "string list \<Rightarrow> client \<Rightarrow> bool" where
  "enumerates ids c \<longleftrightarrow> distinct ids \<and> set ids = dom (pending c)"

definition callerOf :: "rpcEvent \<Rightarrow> nat option" where
  "callerOf ev =
     (case ev of
        Connect i \<Rightarrow> Some i
      | FlightDone i \<Rightarrow> Some i
      | Abandon i \<Rightarrow> Some i
      | Register i \<Rightarrow> Some i
      | WriteDone i failure \<Rightarrow> Some i
      | WriteNotification i failure \<Rightarrow> Some i
      | DropCorrelation i \<Rightarrow> Some i
      | Invalidate i ids \<Rightarrow> Some i
      | Expire i \<Rightarrow> Some i
      | ClaimResult i \<Rightarrow> Some i
      | TakeResult i \<Rightarrow> Some i
      | _ \<Rightarrow> None)"

definition flightOf :: "rpcEvent \<Rightarrow> nat option" where
  "flightOf ev =
     (case ev of
        Dialed f ok goOn \<Rightarrow> Some f
      | Establish f goOn \<Rightarrow> Some f
      | Negotiated f ok \<Rightarrow> Some f
      | FlightInvalidate f ids goOn \<Rightarrow> Some f
      | FlightEnd f \<Rightarrow> Some f
      | _ \<Rightarrow> None)"

definition otherStep :: "rpcEvent \<Rightarrow> client \<Rightarrow> client option" where
  "otherStep ev c =
     (case ev of
        StartCall k cmd \<Rightarrow>
         Some (c\<lparr>callers := callers c @ [\<lparr>kind = k, command = cmd, direct = False, at = Connecting\<rparr>]\<rparr>)
      | StartDirect k e cmd \<Rightarrow>
         (if e < length (epochs c)
          then Some (c\<lparr>callers := callers c @ [\<lparr>kind = k, command = cmd, direct = True, at = OnEpoch e\<rparr>]\<rparr>)
          else None)
      | Send k \<Rightarrow>
         (if k < length (transit c)
          then case transit c ! k of (ch, r) \<Rightarrow>
            Some (c\<lparr>transit := take k (transit c) @ drop (Suc k) (transit c), channels := (channels c)[ch := channels c ! ch @ [r]]\<rparr>)
          else None)
      | Respond e rid cmd \<Rightarrow>
         Some (settleResponse e rid cmd c)
      | RespondOversized e rid cmd \<Rightarrow>
         Some (snd (settleOversizedHistory e rid cmd c))
      | EndRead e ids \<Rightarrow>
         (if enumerates ids c then Some (invalidate e ids c) else None)
      | Event e ev \<Rightarrow>
         Some (setEpoch e (\<lambda>x. x\<lparr>events := enqueueEvent ev (events x)\<rparr>) c)
      | Consume e \<Rightarrow>
         Some (setEpoch e (\<lambda>x. x\<lparr>events := receiveEvent (events x)\<rparr>) c)
      | Fence ids \<Rightarrow>
         (if enumerates ids c then Some (FenceConnectionGeneration ids c) else None)
      | Close \<Rightarrow>
         Some (c\<lparr>closed := True\<rparr>)
      | _ \<Rightarrow> None)"

text \<open>An event that ranges over the table names its keys.\<close>

definition rangesOver :: "rpcEvent \<Rightarrow> client \<Rightarrow> bool" where
  "rangesOver ev c =
     (case ev of
        Invalidate i ids \<Rightarrow> enumerates ids c
      | FlightInvalidate f ids goOn \<Rightarrow> enumerates ids c
      | _ \<Rightarrow> True)"

definition rpcStep :: "rpcEvent \<Rightarrow> client \<Rightarrow> client option" where
  "rpcStep ev c =
     (if \<not> rangesOver ev c then None
      else case callerOf ev of
        Some i \<Rightarrow> (case callerAt i c of None \<Rightarrow> None | Some x \<Rightarrow> callerStep ev i x c)
      | None \<Rightarrow>
          (case flightOf ev of
             Some f \<Rightarrow> (case flightAt f c of None \<Rightarrow> None | Some p \<Rightarrow> flightStep ev f p c)
           | None \<Rightarrow> otherStep ev c))"

text \<open>What \<open>DialWithConfig\<close> returns: one negotiated epoch, nothing pending, two requests answered.\<close>

definition dialed :: "config \<Rightarrow> client" where
  "dialed raw =
     (let cfg = normalizeConfig raw in
      \<lparr>maxAttempts = nat (ReconnectMaxAttempts cfg), eventBuffer = nat (EventBuffer cfg), noReconnect = NoReconnect cfg,
       closed = False, epochCount = 1, current = Some 0, connecting = None, pending = Map.empty, infoSet = True, nextID = 2,
       epochs = [\<lparr>number = 1, negotiated = True, previous = None, events = newEventStream (nat (EventBuffer cfg))\<rparr>],
       flights = [], callers = [], channels = [], transit = [], droppedHistory = 0, sentOn = []\<rparr>)"

inductive rpcReachable :: "client \<Rightarrow> bool" where
  fresh: "rpcReachable (dialed cfg)"
| step: "rpcReachable c \<Longrightarrow> rpcStep ev c = Some c' \<Longrightarrow> rpcReachable c'"

fun rpcRun :: "rpcEvent list \<Rightarrow> client \<Rightarrow> client option" where
  "rpcRun [] c = Some c"
| "rpcRun (ev # evs) c = (case rpcStep ev c of None \<Rightarrow> None | Some c' \<Rightarrow> rpcRun evs c')"

lemma rpcRun_reachable: "rpcReachable c \<Longrightarrow> rpcRun evs c = Some c' \<Longrightarrow> rpcReachable c'"
  by (induction evs arbitrary: c) (auto split: option.splits intro: rpcReachable.step)

lemma rpcRun_append:
  "rpcRun (xs @ ys) c = (case rpcRun xs c of None \<Rightarrow> None | Some d \<Rightarrow> rpcRun ys d)"
  by (induction xs arbitrary: c) (auto split: option.splits)

end
