(* ===== verification/RpcCorrelation.thy ===== *)
theory RpcCorrelation
  imports RpcClient
begin

text \<open>
  What the client guarantees its callers: a written request is answered by its own response or by the
  loss of its epoch, once, and never forgotten. This theory holds the vocabulary and the lemmas on the
  table of correlations; \<open>RpcProperties\<close> proves the steps.
\<close>

section \<open>Vocabulary\<close>

text \<open>The results that are in a channel or on their way to it.\<close>

definition results :: "client \<Rightarrow> nat \<Rightarrow> rpcResult list" where
  "results c ch = channels c ! ch @ map snd (filter (\<lambda>x. fst x = ch) (transit c))"

fun holding :: "callerPC \<Rightarrow> (nat \<times> string \<times> nat) option" where
  "holding (Registered e rid ch) = Some (e, rid, ch)"
| "holding (Waiting e rid ch) = Some (e, rid, ch)"
| "holding (WriteFailed e rid ch t) = Some (e, rid, ch)"
| "holding (Claiming e rid ch) = Some (e, rid, ch)"
| "holding (Settling e rid ch) = Some (e, rid, ch)"
| "holding _ = None"

text \<open>A result that belongs to the request: its response on its epoch, or the loss of the epoch.\<close>

definition answers :: "nat \<Rightarrow> string \<Rightarrow> string \<Rightarrow> rpcResult \<Rightarrow> bool" where
  "answers e rid cmd r \<longleftrightarrow> r = Answered e rid cmd \<or> r = Oversized e rid cmd \<or> r = Disconnected e"

definition correlated :: "client \<Rightarrow> nat \<Rightarrow> string \<Rightarrow> string \<Rightarrow> nat \<Rightarrow> bool" where
  "correlated c e rid cmd ch \<longleftrightarrow> current c = Some e \<and> pending c rid = Some (cmd, ch)"

definition callerOK :: "client \<Rightarrow> caller \<Rightarrow> bool" where
  "callerOK c x \<longleftrightarrow>
     (case holding (at x) of
        None \<Rightarrow> True
      | Some (e, rid, ch) \<Rightarrow>
          ch < length (channels c) \<and> (\<forall>r \<in> set (results c ch). answers e rid (command x) r) \<and>
          (case at x of
             Settling _ _ _ \<Rightarrow> results c ch \<noteq> []
           | WriteFailed _ _ _ _ \<Rightarrow> True
           | _ \<Rightarrow> correlated c e rid (command x) ch \<or> results c ch \<noteq> []))"

definition entryOK :: "client \<Rightarrow> string \<Rightarrow> string \<times> nat \<Rightarrow> bool" where
  "entryOK c rid p \<longleftrightarrow>
     snd p < length (channels c) \<and> results c (snd p) = [] \<and> (\<exists>n \<le> nextID c. rid = requestID n) \<and>
     (\<exists>e. current c = Some e \<and> (\<exists>x \<in> set (callers c). holding (at x) = Some (e, rid, snd p) \<and> command x = fst p))"

definition holdsChannel :: "caller \<Rightarrow> nat \<Rightarrow> bool" where
  "holdsChannel x ch \<longleftrightarrow> (\<exists>e rid. holding (at x) = Some (e, rid, ch))"

definition correlationInv :: "client \<Rightarrow> bool" where
  "correlationInv c \<longleftrightarrow>
     (\<forall>rid p. pending c rid = Some p \<longrightarrow> entryOK c rid p) \<and>
     (\<forall>ch. ch < length (channels c) \<longrightarrow> length (results c ch) \<le> 1) \<and>
     (\<forall>x \<in> set (transit c). fst x < length (channels c)) \<and>
     (\<forall>x \<in> set (callers c). callerOK c x) \<and>
     (\<forall>i j ch. i < length (callers c) \<longrightarrow> j < length (callers c) \<longrightarrow> holdsChannel (callers c ! i) ch \<longrightarrow>
        holdsChannel (callers c ! j) ch \<longrightarrow> i = j)"

section \<open>Request identifiers\<close>

lemma requestID_inject:
  assumes "requestID m = requestID n" "m < 18446744073709551616" "n < 18446744073709551616"
  shows "m = n"
  using assms by (simp add: requestID_def natText_inject)

section \<open>The table of correlations\<close>

lemma correlationInvI:
  assumes "\<And>rid p. pending c rid = Some p \<Longrightarrow> entryOK c rid p"
    and "\<And>ch. ch < length (channels c) \<Longrightarrow> length (results c ch) \<le> 1"
    and "\<And>y. y \<in> set (transit c) \<Longrightarrow> fst y < length (channels c)"
    and "\<And>x. x \<in> set (callers c) \<Longrightarrow> callerOK c x"
    and "\<And>i j ch. i < length (callers c) \<Longrightarrow> j < length (callers c) \<Longrightarrow> holdsChannel (callers c ! i) ch \<Longrightarrow>
        holdsChannel (callers c ! j) ch \<Longrightarrow> i = j"
  shows "correlationInv c"
  using assms by (simp add: correlationInv_def)

lemma correlationInvD:
  assumes "correlationInv c"
  shows "pending c rid = Some p \<Longrightarrow> entryOK c rid p"
    and "ch < length (channels c) \<Longrightarrow> length (results c ch) \<le> 1"
    and "y \<in> set (transit c) \<Longrightarrow> fst y < length (channels c)"
    and "x \<in> set (callers c) \<Longrightarrow> callerOK c x"
    and "i < length (callers c) \<Longrightarrow> j < length (callers c) \<Longrightarrow> holdsChannel (callers c ! i) ch \<Longrightarrow>
        holdsChannel (callers c ! j) ch \<Longrightarrow> i = j"
  using assms unfolding correlationInv_def by blast+

lemma entryD:
  assumes "correlationInv c" "pending c rid = Some (cmd, ch)"
  obtains e x where "current c = Some e" "x \<in> set (callers c)" "holding (at x) = Some (e, rid, ch)" "command x = cmd"
    "ch < length (channels c)" "results c ch = []"
  using correlationInvD(1)[OF assms] by (auto simp: entryOK_def)

text \<open>The channel of a caller is in the table under its own identifier only.\<close>

lemma own_entry:
  assumes inv: "correlationInv c" and i: "i < length (callers c)" "holding (at (callers c ! i)) = Some (e, rid, ch)"
    and entry: "pending c rid' = Some (cmd, ch)"
  shows "rid' = rid \<and> cmd = command (callers c ! i) \<and> current c = Some e"
proof -
  obtain e' x where x: "current c = Some e'" "x \<in> set (callers c)" "holding (at x) = Some (e', rid', ch)" "command x = cmd"
    using entryD[OF inv entry] by metis
  then obtain j where j: "j < length (callers c)" "x = callers c ! j"
    by (auto simp: in_set_conv_nth)
  then have "j = i"
    using correlationInvD(5)[OF inv j(1) i(1), of ch] x i(2) by (auto simp: holdsChannel_def)
  then show ?thesis
    using x i j by simp
qed

lemma setCaller_simps [simp]:
  "pending (setCaller i p c) = pending c" "current (setCaller i p c) = current c" "channels (setCaller i p c) = channels c"
  "transit (setCaller i p c) = transit c" "nextID (setCaller i p c) = nextID c" "epochs (setCaller i p c) = epochs c"
  "flights (setCaller i p c) = flights c" "connecting (setCaller i p c) = connecting c" "closed (setCaller i p c) = closed c"
  "sentOn (setCaller i p c) = sentOn c" "length (callers (setCaller i p c)) = length (callers c)"
  by (simp_all add: setCaller_def)

lemma results_cong: "channels c' = channels c \<Longrightarrow> transit c' = transit c \<Longrightarrow> results c' ch = results c ch"
  by (simp add: results_def)

lemma callerOK_cong:
  "channels c' = channels c \<Longrightarrow> transit c' = transit c \<Longrightarrow> current c' = current c \<Longrightarrow> pending c' = pending c \<Longrightarrow>
    callerOK c' x = callerOK c x"
  by (auto simp: callerOK_def correlated_def results_cong[of c' c] split: option.splits callerPC.splits)

text \<open>Steps that do not touch the table, the channels or what a caller holds.\<close>

lemma correlationInv_core:
  assumes inv: "correlationInv c" and same: "pending c' = pending c" "current c' = current c" "channels c' = channels c"
    "transit c' = transit c" "nextID c \<le> nextID c'" "callers c' = callers c"
  shows "correlationInv c'"
proof (rule correlationInvI)
  fix rid p assume "pending c' rid = Some p"
  then have "entryOK c rid p"
    using correlationInvD(1)[OF inv] same(1) by simp
  then show "entryOK c' rid p"
    using same order_trans by (auto simp: entryOK_def results_cong[OF same(3,4)])
qed (use correlationInvD[OF inv] same callerOK_cong[OF same(3,4,2,1)] results_cong[OF same(3,4)] in auto)

lemma callers_setCaller: "callers (setCaller i p c) = (callers c)[i := (callers c ! i)\<lparr>at := p\<rparr>]"
  by (simp add: setCaller_def)

lemma caller_update:
  assumes "i < length (callers c)" "j < length (callers c)"
  shows "callers (setCaller i p c) ! j = (if j = i then (callers c ! i)\<lparr>at := p\<rparr> else callers c ! j)"
  using assms by (simp add: callers_setCaller)

text \<open>
  A caller moves while the table, the channels and the results on their way may change for its channel
  only; afterwards it holds its channel still or nobody holds it.
\<close>

lemma correlationInv_move:
  assumes inv: "correlationInv c" and i: "i < length (callers c)"
    and callers: "callers c' = callers (setCaller i p c)"
    and same: "current c' = current c" "length (channels c') = length (channels c)" "nextID c' = nextID c"
    and bound: "\<And>y. y \<in> set (transit c') \<Longrightarrow> fst y < length (channels c')"
    and held: "holding p = None \<or> holding p = holding (at (callers c ! i))"
    and table: "\<And>rid q. pending c' rid = Some q \<Longrightarrow> pending c rid = Some q \<and> (holdsChannel (callers c ! i) (snd q) \<longrightarrow> holding p \<noteq> None)"
    and kept: "\<And>rid q. pending c rid = Some q \<Longrightarrow> \<not> holdsChannel (callers c ! i) (snd q) \<Longrightarrow> pending c' rid = Some q"
    and res: "\<And>ch. \<not> holdsChannel (callers c ! i) ch \<Longrightarrow> results c' ch = results c ch"
    and own: "\<And>ch. holdsChannel (callers c ! i) ch \<Longrightarrow> length (results c' ch) \<le> 1"
    and idle: "\<And>rid q. pending c' rid = Some q \<Longrightarrow> results c' (snd q) = []"
    and ok: "callerOK c' ((callers c ! i)\<lparr>at := p\<rparr>)"
  shows "correlationInv c'"
proof (rule correlationInvI)
  have n: "length (callers c') = length (callers c)"
    by (simp add: callers)
  have upd: "callers c' ! j = (if j = i then (callers c ! i)\<lparr>at := p\<rparr> else callers c ! j)" if "j < length (callers c)" for j
    using caller_update[OF i that] by (simp add: callers)
  have sub: "holdsChannel (callers c ! j) ch" if "j < length (callers c)" "holdsChannel (callers c' ! j) ch" for j ch
    using that held upd[OF that(1)] by (cases "j = i") (auto simp: holdsChannel_def)
  show "entryOK c' rid q" if q: "pending c' rid = Some q" for rid q
  proof -
    obtain e x where x: "current c = Some e" "x \<in> set (callers c)" "holding (at x) = Some (e, rid, snd q)" "command x = fst q"
      "snd q < length (channels c)" "\<exists>n \<le> nextID c. rid = requestID n"
      using correlationInvD(1)[OF inv table[OF q, THEN conjunct1]] unfolding entryOK_def by blast
    then obtain j where j: "j < length (callers c)" "x = callers c ! j"
      by (auto simp: in_set_conv_nth)
    have "holding (at (callers c' ! j)) = Some (e, rid, snd q) \<and> command (callers c' ! j) = fst q"
    proof (cases "j = i")
      case True
      then have "holding p \<noteq> None"
        using table[OF q] x(3) j by (auto simp: holdsChannel_def)
      then show ?thesis
        using held x j True upd[OF j(1)] by (cases "holding p") auto
    qed (use x j upd[OF j(1)] in simp)
    moreover have "callers c' ! j \<in> set (callers c')"
      using j n by simp
    ultimately show ?thesis
      using x idle[OF q] same by (auto simp: entryOK_def)
  qed
  show "length (results c' ch) \<le> 1" if "ch < length (channels c')" for ch
    using that correlationInvD(2)[OF inv] res own same(2) by (cases "holdsChannel (callers c ! i) ch") simp_all
  show "callerOK c' x" if "x \<in> set (callers c')" for x
  proof -
    obtain j where j: "j < length (callers c)" "x = callers c' ! j"
      using \<open>x \<in> set (callers c')\<close> n by (auto simp: in_set_conv_nth)
    show ?thesis
    proof (cases "j = i")
      case False
      have old: "callerOK c (callers c ! j)"
        using correlationInvD(4)[OF inv] j by simp
      have other: "\<not> holdsChannel (callers c ! i) ch" if "holdsChannel (callers c ! j) ch" for ch
        using correlationInvD(5)[OF inv i j(1)] that False by blast
      show ?thesis
      proof (cases "holding (at (callers c ! j))")
        case (Some h)
        obtain e rid ch where h: "h = (e, rid, ch)"
          by (cases h)
        have free: "\<not> holdsChannel (callers c ! i) ch"
          using other Some h by (auto simp: holdsChannel_def)
        have "correlated c' e rid cmd ch" if "correlated c e rid cmd ch" for cmd
          using that kept[of rid "(cmd, ch)"] free same(1) by (simp add: correlated_def)
        then show ?thesis
          using old Some h False upd[OF j(1)] j(2) res[OF free] same(2)
          by (auto simp: callerOK_def split: callerPC.splits)
      qed (use False upd[OF j(1)] j(2) in \<open>simp add: callerOK_def\<close>)
    qed (use ok j upd[OF j(1)] in simp)
  qed
  show "j = k" if "j < length (callers c')" "k < length (callers c')" "holdsChannel (callers c' ! j) ch" "holdsChannel (callers c' ! k) ch" for j k ch
    using correlationInvD(5)[OF inv, of j k ch] sub that n by simp
qed (use bound in auto)

text \<open>Moves that leave the table and the channels alone.\<close>

lemma correlationInv_pc:
  assumes inv: "correlationInv c" and i: "i < length (callers c)" and p: "holding p = holding (at (callers c ! i))"
    and same: "pending c' = pending c" "current c' = current c" "channels c' = channels c" "transit c' = transit c" "nextID c' = nextID c"
    and callers: "callers c' = callers (setCaller i p c)" and ok: "callerOK c ((callers c ! i)\<lparr>at := p\<rparr>)"
  shows "correlationInv c'"
proof (rule correlationInv_move[OF inv i callers])
  show "pending c rid = Some q \<and> (holdsChannel (callers c ! i) (snd q) \<longrightarrow> holding p \<noteq> None)" if "pending c' rid = Some q" for rid q
    using that same p by (auto simp: holdsChannel_def)
  show "length (results c' ch) \<le> 1" if "holdsChannel (callers c ! i) ch" for ch
  proof -
    have "ch < length (channels c)"
      using correlationInvD(4)[OF inv nth_mem[OF i]] that by (auto simp: callerOK_def holdsChannel_def)
    then show ?thesis
      using correlationInvD(2)[OF inv] results_cong[OF same(3,4)] by simp
  qed
  show "results c' (snd q) = []" if "pending c' rid = Some q" for rid q
    using correlationInvD(1)[OF inv, of rid q] that same results_cong[OF same(3,4)] by (auto simp: entryOK_def)
qed (use same p ok correlationInvD(3)[OF inv] results_cong[OF same(3,4)] callerOK_cong[OF same(3,4,2,1)] in auto)

text \<open>A caller that gives its request up, with the correlation removed.\<close>

lemma correlationInv_drop:
  assumes inv: "correlationInv c" and i: "i < length (callers c)" "holding (at (callers c ! i)) = Some (e, rid, ch)" "holding p = None"
  shows "correlationInv (setCaller i p (snd (removePending rid ch c)))"
proof -
  let ?c = "snd (removePending rid ch c)"
  have same: "current ?c = current c" "channels ?c = channels c" "transit ?c = transit c" "nextID ?c = nextID c" "callers ?c = callers c"
    by (auto simp: removePending_def split: option.splits)
  have gone: "pending c rid' = Some q \<and> snd q \<noteq> ch" if "pending ?c rid' = Some q" for rid' q
    using that own_entry[OF inv i(1,2), of rid' "fst q"]
    by (cases q) (auto simp: removePending_def split: option.splits if_splits)
  show ?thesis
  proof (rule correlationInv_move[OF inv i(1), where p = p])
    show "callers (setCaller i p ?c) = callers (setCaller i p c)"
      by (simp add: callers_setCaller same)
    show "pending c rid' = Some q \<and> (holdsChannel (callers c ! i) (snd q) \<longrightarrow> holding p \<noteq> None)" if "pending (setCaller i p ?c) rid' = Some q" for rid' q
      using gone[of rid' q] that i(2) by (auto simp: holdsChannel_def)
    show "pending (setCaller i p ?c) rid' = Some q" if q: "pending c rid' = Some q" "\<not> holdsChannel (callers c ! i) (snd q)" for rid' q
      using q i(2) by (auto simp: removePending_def holdsChannel_def split: option.splits)
    show "results (setCaller i p ?c) (snd q) = []" if "pending (setCaller i p ?c) rid' = Some q" for rid' q
      using correlationInvD(1)[OF inv, of rid' q] gone[of rid' q] that by (simp add: entryOK_def results_def same)
    show "length (results (setCaller i p ?c) ch') \<le> 1" if "holdsChannel (callers c ! i) ch'" for ch'
    proof -
      have "ch' < length (channels c)"
        using correlationInvD(4)[OF inv nth_mem[OF i(1)]] that by (auto simp: callerOK_def holdsChannel_def)
      then show ?thesis
        using correlationInvD(2)[OF inv] by (simp add: results_def same)
    qed
  qed (use same i correlationInvD(3)[OF inv] in \<open>auto simp: results_def callerOK_def\<close>)
qed

text \<open>Taking the result out of the channel.\<close>

lemma correlationInv_take:
  assumes inv: "correlationInv c" and i: "i < length (callers c)" "holding (at (callers c ! i)) = Some (e, rid, ch)" "holding p = None"
    and box: "channels c ! ch = r # rs"
  shows "correlationInv (setCaller i p (c\<lparr>channels := (channels c)[ch := rs]\<rparr>))"
proof -
  let ?c = "setCaller i p (c\<lparr>channels := (channels c)[ch := rs]\<rparr>)"
  have ch: "ch < length (channels c)"
    using correlationInvD(4)[OF inv nth_mem[OF i(1)]] i(2) by (simp add: callerOK_def)
  have free: "snd q \<noteq> ch" if "pending c rid' = Some q" for rid' q
    using correlationInvD(1)[OF inv that] box by (auto simp: entryOK_def results_def)
  have res: "results ?c ch' = results c ch'" if "ch' \<noteq> ch" for ch'
    using that ch by (simp add: results_def)
  show ?thesis
  proof (rule correlationInv_move[OF inv i(1), where p = p])
    show "callers ?c = callers (setCaller i p c)"
      by (simp add: callers_setCaller)
    show "pending c rid' = Some q \<and> (holdsChannel (callers c ! i) (snd q) \<longrightarrow> holding p \<noteq> None)" if "pending ?c rid' = Some q" for rid' q
      using that free[of rid' q] i(2) by (auto simp: holdsChannel_def)
    show "results ?c (snd q) = []" if "pending ?c rid' = Some q" for rid' q
      using correlationInvD(1)[OF inv, of rid' q] that free[of rid' q] res[of "snd q"] by (simp add: entryOK_def)
    show "results ?c ch' = results c ch'" if "\<not> holdsChannel (callers c ! i) ch'" for ch'
      using that res i(2) by (auto simp: holdsChannel_def)
    show "length (results ?c ch') \<le> 1" if "holdsChannel (callers c ! i) ch'" for ch'
      using that i(2) ch correlationInvD(2)[OF inv ch] box by (auto simp: holdsChannel_def results_def)
  qed (use i correlationInvD(3)[OF inv] in \<open>auto simp: callerOK_def\<close>)
qed

subsection \<open>Results\<close>

lemma results_append: "results (c\<lparr>transit := transit c @ xs\<rparr>) ch = results c ch @ map snd (filter (\<lambda>x. fst x = ch) xs)"
  by (simp add: results_def)

text \<open>
  A batch of results for correlated requests: the requests leave the table and each gets one result
  that answers it. The epoch stays current unless the whole table goes.
\<close>

lemma correlationInv_settled:
  assumes inv: "correlationInv c"
    and new: "\<And>ch. (filter (\<lambda>x. fst x = ch) xs = [] \<and> (\<forall>rid cmd. pending c rid = Some (cmd, ch) \<longrightarrow> pending c' rid = Some (cmd, ch))) \<or>
      (\<exists>rid cmd r e. pending c rid = Some (cmd, ch) \<and> current c = Some e \<and> filter (\<lambda>x. fst x = ch) xs = [(ch, r)] \<and> answers e rid cmd r)"
    and table: "\<And>rid q. pending c' rid = Some q \<Longrightarrow> pending c rid = Some q \<and> filter (\<lambda>x. fst x = snd q) xs = [] \<and> current c' = current c"
    and kept: "current c' = current c \<or> (\<forall>rid. pending c rid \<noteq> None \<longrightarrow> (\<exists>x \<in> set xs. fst x = snd (the (pending c rid))))"
    and same: "channels c' = channels c" "transit c' = transit c @ xs" "callers c' = callers c" "nextID c' = nextID c"
  shows "correlationInv c'"
proof (rule correlationInvI)
  have res: "results c' ch = results c ch @ map snd (filter (\<lambda>x. fst x = ch) xs)" for ch
    by (simp add: results_def same)
  show "entryOK c' rid q" if "pending c' rid = Some q" for rid q
    using correlationInvD(1)[OF inv, of rid q] table[OF that] by (simp add: entryOK_def same res)
  show "length (results c' ch) \<le> 1" if "ch < length (channels c')" for ch
    using new[of ch]
  proof
    assume "\<exists>rid cmd r e. pending c rid = Some (cmd, ch) \<and> current c = Some e \<and> filter (\<lambda>x. fst x = ch) xs = [(ch, r)] \<and> answers e rid cmd r"
    then obtain rid cmd r where "pending c rid = Some (cmd, ch)" "filter (\<lambda>x. fst x = ch) xs = [(ch, r)]"
      by blast
    then show ?thesis
      using correlationInvD(1)[OF inv] res by (fastforce simp: entryOK_def)
  qed (use that correlationInvD(2)[OF inv] same res in simp)
  show "fst y < length (channels c')" if y: "y \<in> set (transit c')" for y
  proof (cases "y \<in> set (transit c)")
    case False
    then have "filter (\<lambda>x. fst x = fst y) xs \<noteq> []"
      using y by (auto simp: same filter_empty_conv)
    then obtain rid cmd where "pending c rid = Some (cmd, fst y)"
      using new[of "fst y"] by blast
    then show ?thesis
      using correlationInvD(1)[OF inv] same by (fastforce simp: entryOK_def)
  qed (use correlationInvD(3)[OF inv] same in simp)
  show "callerOK c' x" if x: "x \<in> set (callers c')" for x
  proof (cases "holding (at x)")
    case (Some h)
    obtain e rid ch where h: "h = (e, rid, ch)"
      by (cases h)
    have old: "callerOK c x" "x \<in> set (callers c)"
      using correlationInvD(4)[OF inv] x same by auto
    show ?thesis
      using new[of ch]
    proof
      assume quiet: "filter (\<lambda>x. fst x = ch) xs = [] \<and> (\<forall>rid cmd. pending c rid = Some (cmd, ch) \<longrightarrow> pending c' rid = Some (cmd, ch))"
      have "correlated c' e rid (command x) ch" if "correlated c e rid (command x) ch"
      proof -
        have "pending c' rid = Some (command x, ch)"
          using that quiet by (simp add: correlated_def)
        then show ?thesis
          using that table[of rid] by (auto simp: correlated_def)
      qed
      then show ?thesis
        using old(1) Some h quiet res[of ch] same by (auto simp: callerOK_def split: callerPC.splits)
    next
      assume "\<exists>rid cmd r e. pending c rid = Some (cmd, ch) \<and> current c = Some e \<and> filter (\<lambda>x. fst x = ch) xs = [(ch, r)] \<and> answers e rid cmd r"
      then obtain rid' cmd r e' where r: "pending c rid' = Some (cmd, ch)" "current c = Some e'" "filter (\<lambda>x. fst x = ch) xs = [(ch, r)]" "answers e' rid' cmd r"
        by blast
      obtain i where i: "i < length (callers c)" "x = callers c ! i"
        using old(2) by (auto simp: in_set_conv_nth)
      have "rid' = rid \<and> cmd = command x \<and> e' = e"
        using own_entry[OF inv i(1) _ r(1)] Some h i(2) r(2) by simp
      moreover have "results c ch = []"
        using correlationInvD(1)[OF inv r(1)] by (simp add: entryOK_def)
      ultimately show ?thesis
        using old(1) Some h r res[of ch] same by (auto simp: callerOK_def split: callerPC.splits)
    qed
  qed (simp add: callerOK_def)
qed (use correlationInvD(5)[OF inv] same in auto)

subsection \<open>Registration\<close>

text \<open>A caller without a request registers one: its channel and its identifier are fresh.\<close>

lemma correlationInv_register:
  assumes inv: "correlationInv c" and i: "i < length (callers c)" "holding (at (callers c ! i)) = None"
    and epoch: "current c = Some e" and few: "Suc (nextID c) < 18446744073709551616"
  defines "rid \<equiv> requestID (Suc (nextID c))" and "ch \<equiv> length (channels c)"
  defines "c' \<equiv> setCaller i (Registered e rid ch)
     (c\<lparr>nextID := Suc (nextID c), pending := (pending c)(rid \<mapsto> (command (callers c ! i), ch)), channels := channels c @ [[]]\<rparr>)"
  shows "correlationInv c'"
proof (rule correlationInvI)
  have fresh: "pending c rid = None"
  proof (rule ccontr)
    assume "pending c rid \<noteq> None"
    then obtain n where "n \<le> nextID c" "rid = requestID n"
      using correlationInvD(1)[OF inv] by (fastforce simp: entryOK_def)
    then show False
      using requestID_inject[of "Suc (nextID c)" n] few by (simp add: rid_def)
  qed
  have old: "results c' ch' = results c ch'" if "ch' < length (channels c)" for ch'
    using that by (simp add: results_def c'_def nth_append)
  have new: "results c' ch = []"
    using correlationInvD(3)[OF inv] by (fastforce simp: results_def c'_def ch_def filter_empty_conv)
  have upd: "callers c' ! j = (if j = i then (callers c ! i)\<lparr>at := Registered e rid ch\<rparr> else callers c ! j)" if "j < length (callers c)" for j
    using i(1) that by (simp add: c'_def callers_setCaller)
  have n: "length (callers c') = length (callers c)" "length (channels c') = Suc (length (channels c))"
    by (simp_all add: c'_def)
  have low: "ch' < ch" if "j < length (callers c)" "holding (at (callers c ! j)) = Some (e', rid', ch')" for j e' rid' ch'
    using correlationInvD(4)[OF inv nth_mem[OF that(1)]] that(2) by (simp add: callerOK_def ch_def)
  show "entryOK c' rid' q" if q: "pending c' rid' = Some q" for rid' q
  proof (cases "rid' = rid")
    case True
    then have "q = (command (callers c ! i), ch)"
      using q by (simp add: c'_def)
    moreover have "\<exists>x \<in> set (callers c'). holding (at x) = Some (e, rid, ch) \<and> command x = command (callers c ! i)"
      using upd[OF i(1)] n i(1) nth_mem[of i "callers c'"] by (intro bexI[of _ "callers c' ! i"]) simp_all
    ultimately show ?thesis
      using True new epoch by (auto simp: entryOK_def n ch_def rid_def c'_def intro: exI[of _ "Suc (nextID c)"])
  next
    case False
    then have old_q: "pending c rid' = Some q"
      using q by (simp add: c'_def)
    then obtain e' x where x: "current c = Some e'" "x \<in> set (callers c)" "holding (at x) = Some (e', rid', snd q)" "command x = fst q"
      "snd q < length (channels c)" "results c (snd q) = []" "\<exists>n \<le> nextID c. rid' = requestID n"
      using correlationInvD(1)[OF inv] unfolding entryOK_def by blast
    obtain j where j: "j < length (callers c)" "x = callers c ! j"
      using x(2) by (auto simp: in_set_conv_nth)
    then have "j \<noteq> i"
      using x(3) i(2) by auto
    then have "x \<in> set (callers c')"
      using j upd[OF j(1)] n nth_mem[of j "callers c'"] by simp
    moreover have "\<exists>n \<le> nextID c'. rid' = requestID n"
      using x(7) by (auto simp: c'_def intro: le_SucI)
    ultimately show ?thesis
      using x old[OF x(5)] by (auto simp: entryOK_def n c'_def)
  qed
  show "length (results c' ch') \<le> 1" if "ch' < length (channels c')" for ch'
    using that old[of ch'] new correlationInvD(2)[OF inv, of ch'] by (cases "ch' = ch") (simp_all add: n ch_def)
  show "fst y < length (channels c')" if "y \<in> set (transit c')" for y
    using that correlationInvD(3)[OF inv, of y] by (simp add: c'_def)
  show "callerOK c' x" if mem: "x \<in> set (callers c')" for x
  proof -
    obtain j where j: "j < length (callers c)" "x = callers c' ! j"
      using mem n by (auto simp: in_set_conv_nth)
    show ?thesis
    proof (cases "j = i")
      case True
      then show ?thesis
        using j upd[OF j(1)] new epoch by (simp add: callerOK_def correlated_def n ch_def c'_def)
    next
      case False
      then have x: "x = callers c ! j" "callerOK c x"
        using j upd[OF j(1)] correlationInvD(4)[OF inv] by simp_all
      show ?thesis
      proof (cases "holding (at x)")
        case (Some h)
        obtain e' rid' ch' where h: "h = (e', rid', ch')"
          by (cases h)
        have lt: "ch' < length (channels c)"
          using low[OF j(1)] Some h x(1) by (simp add: ch_def)
        have "correlated c' e' rid' cmd ch'" if "correlated c e' rid' cmd ch'" for cmd
          using that fresh by (auto simp: correlated_def c'_def)
        then show ?thesis
          using x(2) Some h old[OF lt] lt by (auto simp: callerOK_def n split: callerPC.splits)
      qed (simp add: callerOK_def)
    qed
  qed
  show "j = k" if jk: "j < length (callers c')" "k < length (callers c')" "holdsChannel (callers c' ! j) ch'" "holdsChannel (callers c' ! k) ch'" for j k ch'
  proof -
    have own: "j = i \<longleftrightarrow> ch' = ch" if "j < length (callers c)" "holdsChannel (callers c' ! j) ch'" for j
      using that upd[OF that(1)] low[OF that(1)] by (auto simp: holdsChannel_def split: if_splits)
    show ?thesis
    proof (cases "ch' = ch")
      case False
      then show ?thesis
        using own[of j] own[of k] jk n upd correlationInvD(5)[OF inv, of j k ch'] by auto
    qed (use own[of j] own[of k] jk n in simp)
  qed
qed

subsection \<open>Settlement, loss and delivery\<close>

lemma pending_channel_inj:
  assumes inv: "correlationInv c" and "pending c rid = Some (cmd, ch)" "pending c rid' = Some (cmd', ch)"
  shows "rid' = rid"
proof -
  obtain e x where x: "x \<in> set (callers c)" "holding (at x) = Some (e, rid, ch)"
    using entryD[OF inv assms(2)] by metis
  then obtain i where "i < length (callers c)" "x = callers c ! i"
    by (auto simp: in_set_conv_nth)
  then show ?thesis
    using own_entry[OF inv _ _ assms(3), of i e rid] x by simp
qed

lemma correlationInv_answer:
  assumes inv: "correlationInv c" and entry: "pending c rid = Some (cmd, ch)" "current c = Some e" and r: "answers e rid cmd r"
  shows "correlationInv (c\<lparr>pending := (pending c)(rid := None), transit := transit c @ [(ch, r)]\<rparr>)"
proof (rule correlationInv_settled[OF inv, where xs = "[(ch, r)]"])
  show "pending c rid' = Some q \<and> filter (\<lambda>x. fst x = snd q) [(ch, r)] = [] \<and>
      current (c\<lparr>pending := (pending c)(rid := None), transit := transit c @ [(ch, r)]\<rparr>) = current c"
    if "pending (c\<lparr>pending := (pending c)(rid := None), transit := transit c @ [(ch, r)]\<rparr>) rid' = Some q" for rid' q
    using that pending_channel_inj[OF inv entry(1), of rid' "fst q"] by (cases q) (auto split: if_splits)
  show "(filter (\<lambda>x. fst x = ch') [(ch, r)] = [] \<and>
       (\<forall>rid' cmd'. pending c rid' = Some (cmd', ch') \<longrightarrow>
         pending (c\<lparr>pending := (pending c)(rid := None), transit := transit c @ [(ch, r)]\<rparr>) rid' = Some (cmd', ch'))) \<or>
      (\<exists>rid' cmd' r' e'. pending c rid' = Some (cmd', ch') \<and> current c = Some e' \<and>
         filter (\<lambda>x. fst x = ch') [(ch, r)] = [(ch', r')] \<and> answers e' rid' cmd' r')" for ch'
  proof (cases "ch' = ch")
    case True
    then show ?thesis
      using entry r by (intro disjI2 exI[of _ rid] exI[of _ cmd] exI[of _ r] exI[of _ e]) simp
  qed (use entry in auto)
qed (auto simp: map_eq_conv)

lemma failAll_none:
  assumes "\<And>rid cmd. rid \<in> set ids \<Longrightarrow> p rid \<noteq> Some (cmd, ch)"
  shows "filter (\<lambda>x. fst x = ch) (failAll e ids p) = []"
  using assms
proof (induction ids)
  case (Cons rid ids)
  have "p rid \<noteq> Some (cmd, ch)" for cmd
    using Cons.prems[of rid cmd] by simp
  then show ?case
    using Cons.IH Cons.prems by (cases "p rid") (auto simp: failAll_def List.map_filter_simps)
qed (simp add: failAll_def List.map_filter_simps)

lemma failAll_one:
  assumes "distinct ids" "rid \<in> set ids" "p rid = Some (cmd, ch)" "\<And>rid' cmd'. p rid' = Some (cmd', ch) \<Longrightarrow> rid' = rid"
  shows "filter (\<lambda>x. fst x = ch) (failAll e ids p) = [(ch, Disconnected e)]"
  using assms(1,2)
proof (induction ids)
  case (Cons x ids)
  have step: "failAll e (x # ids) p = (case p x of None \<Rightarrow> [] | Some q \<Rightarrow> [(snd q, Disconnected e)]) @ failAll e ids p"
    by (simp add: failAll_def List.map_filter_simps split: option.splits)
  show ?case
  proof (cases "x = rid")
    case True
    have "filter (\<lambda>x. fst x = ch) (failAll e ids p) = []"
      using True Cons.prems(1) assms(4) by (intro failAll_none) auto
    then show ?thesis
      using True assms(3) step by simp
  next
    case False
    then have "p x \<noteq> Some (cmd', ch)" for cmd'
      using assms(4)[of x cmd'] by blast
    then show ?thesis
      using Cons False step by (auto split: option.splits)
  qed
qed simp

lemma failAll_hit: "rid \<in> set ids \<Longrightarrow> p rid = Some q \<Longrightarrow> (snd q, Disconnected e) \<in> set (failAll e ids p)"
  by (induction ids) (auto simp: failAll_def List.map_filter_simps split: option.splits)

text \<open>The loss of the current epoch fails the whole table.\<close>

lemma correlationInv_retire:
  assumes inv: "correlationInv c" and epoch: "current c = Some e" and ids: "enumerates ids c"
    and c': "pending c' = Map.empty" "transit c' = transit c @ failAll e ids (pending c)" "channels c' = channels c"
      "callers c' = callers c" "nextID c' = nextID c"
  shows "correlationInv c'"
proof (rule correlationInv_settled[OF inv, where xs = "failAll e ids (pending c)"])
  show "(filter (\<lambda>x. fst x = ch) (failAll e ids (pending c)) = [] \<and>
       (\<forall>rid cmd. pending c rid = Some (cmd, ch) \<longrightarrow> pending c' rid = Some (cmd, ch))) \<or>
      (\<exists>rid cmd r e'. pending c rid = Some (cmd, ch) \<and> current c = Some e' \<and>
         filter (\<lambda>x. fst x = ch) (failAll e ids (pending c)) = [(ch, r)] \<and> answers e' rid cmd r)" for ch
  proof (cases "\<exists>rid cmd. pending c rid = Some (cmd, ch)")
    case True
    then obtain rid cmd where hit: "pending c rid = Some (cmd, ch)"
      by blast
    then have "rid \<in> set ids" "distinct ids"
      using ids by (auto simp: enumerates_def)
    then have "filter (\<lambda>x. fst x = ch) (failAll e ids (pending c)) = [(ch, Disconnected e)]"
      using failAll_one[where p = "pending c" and e = e, OF \<open>distinct ids\<close> \<open>rid \<in> set ids\<close> hit] pending_channel_inj[OF inv hit] by blast
    then show ?thesis
      using hit epoch by (auto simp: answers_def)
  next
    case False
    then show ?thesis
      using failAll_none[of ids "pending c" ch e] by blast
  qed
  show "current c' = current c \<or> (\<forall>rid. pending c rid \<noteq> None \<longrightarrow> (\<exists>x \<in> set (failAll e ids (pending c)). fst x = snd (the (pending c rid))))"
  proof (intro disjI2 allI impI)
    fix rid assume "pending c rid \<noteq> None"
    then obtain q where q: "pending c rid = Some q"
      by blast
    then have "rid \<in> set ids"
      using ids by (auto simp: enumerates_def)
    then show "\<exists>x \<in> set (failAll e ids (pending c)). fst x = snd (the (pending c rid))"
      using failAll_hit[of rid ids "pending c" q e] q by force
  qed
qed (use c' in auto)

text \<open>Results only move between the goroutine that sends them and the channel.\<close>

lemma correlationInv_perm:
  assumes inv: "correlationInv c" and perm: "\<And>ch. ch < length (channels c) \<Longrightarrow> mset (results c' ch) = mset (results c ch)"
    and bound: "\<And>y. y \<in> set (transit c') \<Longrightarrow> fst y < length (channels c')"
    and same: "pending c' = pending c" "current c' = current c" "callers c' = callers c" "nextID c' = nextID c"
      "length (channels c') = length (channels c)"
  shows "correlationInv c'"
proof (rule correlationInvI)
  have res: "set (results c' ch) = set (results c ch)" "length (results c' ch) = length (results c ch)" if "ch < length (channels c)" for ch
    using perm[OF that] by (metis mset_eq_setD, metis mset_eq_length)
  show "entryOK c' rid p" if "pending c' rid = Some p" for rid p
    using correlationInvD(1)[OF inv, of rid p] that res(2)[of "snd p"] by (auto simp: entryOK_def same)
  show "length (results c' ch) \<le> 1" if "ch < length (channels c')" for ch
    using correlationInvD(2)[OF inv, of ch] that res(2)[of ch] same by simp
  show "callerOK c' x" if "x \<in> set (callers c')" for x
  proof (cases "holding (at x)")
    case (Some h)
    obtain e rid ch where h: "h = (e, rid, ch)"
      by (cases h)
    have ok: "callerOK c x" and lt: "ch < length (channels c)"
      using correlationInvD(4)[OF inv, of x] that same Some h by (auto simp: callerOK_def)
    have "results c' ch \<noteq> [] \<longleftrightarrow> results c ch \<noteq> []"
      using res(2)[OF lt] by (metis length_0_conv)
    then show ?thesis
      using ok Some h res(1)[OF lt] same by (auto simp: callerOK_def correlated_def split: callerPC.splits)
  qed (simp add: callerOK_def)
qed (use correlationInvD(5)[OF inv] bound same in auto)

lemma correlationInv_spawn:
  assumes inv: "correlationInv c" and x: "holding (at x) = None"
  shows "correlationInv (c\<lparr>callers := callers c @ [x]\<rparr>)" (is "correlationInv ?c")
proof (rule correlationInvI)
  have free: "\<not> holdsChannel x ch" for ch
    using x by (simp add: holdsChannel_def)
  show "entryOK ?c rid p" if "pending ?c rid = Some p" for rid p
    using correlationInvD(1)[OF inv, of rid p] that by (auto simp: entryOK_def results_def)
  show "length (results ?c ch) \<le> 1" if "ch < length (channels ?c)" for ch
    using correlationInvD(2)[OF inv, of ch] that by (simp add: results_def)
  show "callerOK ?c y" if "y \<in> set (callers ?c)" for y
    using that correlationInvD(4)[OF inv, of y] x callerOK_cong[of ?c c y] by (auto simp: callerOK_def[of _ x])
  show "i = j" if "i < length (callers ?c)" "j < length (callers ?c)" "holdsChannel (callers ?c ! i) ch" "holdsChannel (callers ?c ! j) ch" for i j ch
    using that free correlationInvD(5)[OF inv, of i j ch] by (auto simp: nth_append less_Suc_eq split: if_splits)
qed (use correlationInvD(3)[OF inv] in auto)

end
