(* ===== verification/RpcProperties.thy ===== *)
theory RpcProperties
  imports RpcCorrelation
begin

text \<open>
  The invariants of the client over its reachable states, and what they give its callers: correlation,
  negotiation before use, the dial budget and the event streams.
\<close>

section \<open>Correlation is kept\<close>

text \<open>The request counter only grows, so a bound on it after a step is a bound before.\<close>

abbreviation fewRequests :: "client \<Rightarrow> bool" where
  "fewRequests c \<equiv> nextID c < 18446744073709551616"

lemma setEpoch_simps [simp]:
  "pending (setEpoch e f c) = pending c" "current (setEpoch e f c) = current c" "channels (setEpoch e f c) = channels c"
  "transit (setEpoch e f c) = transit c" "nextID (setEpoch e f c) = nextID c" "callers (setEpoch e f c) = callers c"
  "flights (setEpoch e f c) = flights c" "connecting (setEpoch e f c) = connecting c" "closed (setEpoch e f c) = closed c"
  "sentOn (setEpoch e f c) = sentOn c" "infoSet (setEpoch e f c) = infoSet c" "noReconnect (setEpoch e f c) = noReconnect c"
  "maxAttempts (setEpoch e f c) = maxAttempts c" "length (epochs (setEpoch e f c)) = length (epochs c)"
  by (simp_all add: setEpoch_def)

lemma setFlight_simps [simp]:
  "pending (setFlight f p c) = pending c" "current (setFlight f p c) = current c" "channels (setFlight f p c) = channels c"
  "transit (setFlight f p c) = transit c" "nextID (setFlight f p c) = nextID c" "callers (setFlight f p c) = callers c"
  "epochs (setFlight f p c) = epochs c" "connecting (setFlight f p c) = connecting c" "closed (setFlight f p c) = closed c"
  "sentOn (setFlight f p c) = sentOn c" "infoSet (setFlight f p c) = infoSet c" "noReconnect (setFlight f p c) = noReconnect c"
  "maxAttempts (setFlight f p c) = maxAttempts c" "length (flights (setFlight f p c)) = length (flights c)"
  by (simp_all add: setFlight_def)

lemma correlationInv_setEpoch: "correlationInv c \<Longrightarrow> correlationInv (setEpoch e f c)"
  by (rule correlationInv_core[of c]) simp_all

lemma correlationInv_setFlight: "correlationInv c \<Longrightarrow> correlationInv (setFlight f p c)"
  by (rule correlationInv_core[of c]) simp_all

lemma correlationInv_settleResponse:
  assumes "correlationInv c"
  shows "correlationInv (settleResponse e rid cmd c)"
  using assms correlationInv_answer[OF assms, of rid cmd _ e "Answered e rid cmd"]
  by (auto simp: settleResponse_def answers_def intro: correlationInv_setEpoch split: option.splits)

lemma correlationInv_oversized:
  assumes "correlationInv c"
  shows "correlationInv (snd (settleOversizedHistory e rid cmd c))"
  using assms correlationInv_answer[OF assms, of rid cmd _ e "Oversized e rid cmd"]
    correlationInv_core[OF assms, of "c\<lparr>droppedHistory := Suc (droppedHistory c)\<rparr>"]
  by (auto simp: settleOversizedHistory_def answers_def split: option.splits)

lemma retireEpoch_simps [simp]:
  "pending (retireEpoch e ids c) = Map.empty" "current (retireEpoch e ids c) = None" "channels (retireEpoch e ids c) = channels c"
  "transit (retireEpoch e ids c) = transit c @ failAll e ids (pending c)" "nextID (retireEpoch e ids c) = nextID c"
  "callers (retireEpoch e ids c) = callers c" "flights (retireEpoch e ids c) = flights c" "connecting (retireEpoch e ids c) = connecting c"
  "closed (retireEpoch e ids c) = closed c" "sentOn (retireEpoch e ids c) = sentOn c" "infoSet (retireEpoch e ids c) = False"
  "noReconnect (retireEpoch e ids c) = noReconnect c" "maxAttempts (retireEpoch e ids c) = maxAttempts c"
  "length (epochs (retireEpoch e ids c)) = length (epochs c)"
  by (simp_all add: retireEpoch_def)

lemma correlationInv_invalidate:
  assumes "correlationInv c" "enumerates ids c"
  shows "correlationInv (invalidate e ids c)"
proof (cases "current c = Some e")
  case True
  then show ?thesis
    using correlationInv_retire[OF assms(1) True assms(2), of "retireEpoch e ids c"] by (simp add: invalidate_def)
qed (use assms in \<open>simp add: invalidate_def\<close>)

lemma correlationInv_fence:
  assumes "correlationInv c" "enumerates ids c"
  shows "correlationInv (FenceConnectionGeneration ids c)"
proof -
  have quiet: "correlationInv (c\<lparr>connecting := None\<rparr>)" "enumerates ids (c\<lparr>connecting := None\<rparr>)"
    using assms by (auto simp: enumerates_def intro: correlationInv_core[of c])
  show ?thesis
  proof (cases "current c")
    case (Some e)
    then show ?thesis
      using correlationInv_retire[OF quiet(1) _ quiet(2), of e "retireEpoch e ids (c\<lparr>connecting := None\<rparr>)"]
      by (simp add: FenceConnectionGeneration_def Let_def)
  qed (use quiet in \<open>simp add: FenceConnectionGeneration_def Let_def\<close>)
qed

text \<open>A flight publishes its epoch where none was current: nothing was pending.\<close>

lemma correlationInv_establish:
  assumes inv: "correlationInv c" and none: "current c = None" and r: "establishLocked f c = (r, c')"
  shows "correlationInv c'"
proof -
  have empty: "pending c rid = None" for rid
    using correlationInvD(1)[OF inv, of rid] none by (cases "pending c rid") (auto simp: entryOK_def)
  have same: "pending c' = pending c" "channels c' = channels c" "transit c' = transit c" "callers c' = callers c" "nextID c' = nextID c"
    using r by (auto simp: establishLocked_def Let_def split: if_splits)
  have ok: "callerOK c' x = callerOK c x" for x
    using empty same results_cong[OF same(2,3)] by (auto simp: callerOK_def correlated_def split: option.splits callerPC.splits)
  show ?thesis
    using correlationInvD[OF inv] same ok empty results_cong[OF same(2,3)] by (intro correlationInvI) auto
qed

section \<open>Steps\<close>

text \<open>What a step of the system is, by the goroutine that takes it.\<close>

lemma rpcStepE:
  assumes "rpcStep ev c = Some c'"
  obtains (caller) i where "callerOf ev = Some i" "i < length (callers c)" "callerStep ev i (callers c ! i) c = Some c'" "rangesOver ev c"
  | (flight) f where "flightOf ev = Some f" "f < length (flights c)" "flightStep ev f (flights c ! f) c = Some c'" "rangesOver ev c"
  | (other) "otherStep ev c = Some c'"
proof (cases "callerOf ev")
  case (Some i)
  then show ?thesis
    using assms caller[of i] by (auto simp: rpcStep_def callerAt_def split: if_splits)
next
  case None
  show ?thesis
  proof (cases "flightOf ev")
    case (Some f)
    then show ?thesis
      using assms None flight[of f] by (auto simp: rpcStep_def flightAt_def split: if_splits)
  qed (use assms None other in \<open>auto simp: rpcStep_def split: if_splits\<close>)
qed

subsection \<open>Epochs\<close>

definition known :: "client \<Rightarrow> nat \<Rightarrow> bool" where
  "known c e \<longleftrightarrow> e < length (epochs c) \<and> negotiated (epochs c ! e)"

fun epochHeld :: "callerPC \<Rightarrow> nat option" where
  "epochHeld (OnEpoch e) = Some e"
| "epochHeld (Registered e _ _) = Some e"
| "epochHeld (Waiting e _ _) = Some e"
| "epochHeld (WriteFailed e _ _ _) = Some e"
| "epochHeld (Invalidating e) = Some e"
| "epochHeld (Claiming e _ _) = Some e"
| "epochHeld (Settling e _ _) = Some e"
| "epochHeld _ = None"

text \<open>A flight that is still at work on an epoch of its own.\<close>

fun working :: "nat \<Rightarrow> flightPC \<Rightarrow> bool" where
  "working e (Negotiating n e') = (e' = e)"
| "working e (Failing n e') = (e' = e)"
| "working e _ = False"

fun dialing :: "flightPC \<Rightarrow> bool" where
  "dialing (Dialing n) = True"
| "dialing (Establishing n) = True"
| "dialing _ = False"

fun landing :: "flightPC \<Rightarrow> nat option" where
  "landing (Ending r) = r"
| "landing (Landed r) = r"
| "landing _ = None"

definition epochInv :: "client \<Rightarrow> bool" where
  "epochInv c \<longleftrightarrow>
     (\<forall>e. current c = Some e \<longrightarrow> e < length (epochs c)) \<and>
     (\<forall>e. current c = Some e \<longrightarrow> known c e \<or> (\<exists>f. connecting c = Some f \<and> working e (flights c ! f))) \<and>
     (\<forall>f. connecting c = Some f \<longrightarrow> f < length (flights c)) \<and>
     (\<forall>f. connecting c = Some f \<longrightarrow> dialing (flights c ! f) \<longrightarrow> current c = None) \<and>
     (\<forall>f e e'. connecting c = Some f \<longrightarrow> working e (flights c ! f) \<longrightarrow> current c = Some e' \<longrightarrow> e' = e) \<and>
     (\<forall>p \<in> set (flights c). \<forall>e. landing p = Some e \<longrightarrow> known c e) \<and>
     (\<forall>x \<in> set (callers c). \<not> direct x \<longrightarrow> (\<forall>e. epochHeld (at x) = Some e \<longrightarrow> known c e)) \<and>
     (\<forall>e. (e, False) \<in> set (sentOn c) \<longrightarrow> known c e) \<and>
     (infoSet c \<longleftrightarrow> (\<exists>e. current c = Some e \<and> known c e)) \<and>
     (noReconnect c \<longrightarrow> flights c = [] \<and> length (epochs c) = 1)"

lemma epochInvI:
  assumes "\<And>e. current c = Some e \<Longrightarrow> e < length (epochs c)"
    and "\<And>e. current c = Some e \<Longrightarrow> known c e \<or> (\<exists>f. connecting c = Some f \<and> working e (flights c ! f))"
    and "\<And>f. connecting c = Some f \<Longrightarrow> f < length (flights c)"
    and "\<And>f. connecting c = Some f \<Longrightarrow> dialing (flights c ! f) \<Longrightarrow> current c = None"
    and "\<And>f e e'. connecting c = Some f \<Longrightarrow> working e (flights c ! f) \<Longrightarrow> current c = Some e' \<Longrightarrow> e' = e"
    and "\<And>p e. p \<in> set (flights c) \<Longrightarrow> landing p = Some e \<Longrightarrow> known c e"
    and "\<And>x e. x \<in> set (callers c) \<Longrightarrow> \<not> direct x \<Longrightarrow> epochHeld (at x) = Some e \<Longrightarrow> known c e"
    and "\<And>e. (e, False) \<in> set (sentOn c) \<Longrightarrow> known c e"
    and "infoSet c \<longleftrightarrow> (\<exists>e. current c = Some e \<and> known c e)"
    and "noReconnect c \<Longrightarrow> flights c = [] \<and> length (epochs c) = 1"
  shows "epochInv c"
  unfolding epochInv_def using assms by (intro conjI allI impI ballI) blast+

lemma epochInvD:
  assumes "epochInv c"
  shows "current c = Some e \<Longrightarrow> e < length (epochs c)"
    and "current c = Some e \<Longrightarrow> known c e \<or> (\<exists>f. connecting c = Some f \<and> working e (flights c ! f))"
    and "connecting c = Some f \<Longrightarrow> f < length (flights c)"
    and "connecting c = Some f \<Longrightarrow> dialing (flights c ! f) \<Longrightarrow> current c = None"
    and "connecting c = Some f \<Longrightarrow> working e (flights c ! f) \<Longrightarrow> current c = Some e' \<Longrightarrow> e' = e"
    and "p \<in> set (flights c) \<Longrightarrow> landing p = Some e \<Longrightarrow> known c e"
    and "x \<in> set (callers c) \<Longrightarrow> \<not> direct x \<Longrightarrow> epochHeld (at x) = Some e \<Longrightarrow> known c e"
    and "(e, False) \<in> set (sentOn c) \<Longrightarrow> known c e"
    and "infoSet c \<longleftrightarrow> (\<exists>e. current c = Some e \<and> known c e)"
    and "noReconnect c \<Longrightarrow> flights c = [] \<and> length (epochs c) = 1"
  using assms unfolding epochInv_def by blast+

text \<open>An operation on events only leaves what is known of the epochs alone.\<close>

lemma known_setEpoch: "(\<And>x. negotiated (f x) = negotiated x) \<Longrightarrow> known (setEpoch e f c) = known c"
  by (rule ext, case_tac "x = e") (simp_all add: known_def setEpoch_def nth_list_update cong: conj_cong)

lemma known_cong: "epochs c' = epochs c \<Longrightarrow> known c' = known c"
  by (rule ext) (simp add: known_def)

text \<open>Steps that change no epoch and no flight: what they add must be on known epochs.\<close>

lemma epochInv_quiet:
  assumes inv: "epochInv c" and same: "current c' = current c" "known c' = known c" "length (epochs c') = length (epochs c)"
      "connecting c' = connecting c" "flights c' = flights c" "infoSet c' = infoSet c" "noReconnect c' = noReconnect c"
    and callers: "\<And>x e. x \<in> set (callers c') \<Longrightarrow> x \<notin> set (callers c) \<Longrightarrow> \<not> direct x \<Longrightarrow> epochHeld (at x) = Some e \<Longrightarrow> known c e"
    and sent: "\<And>e. (e, False) \<in> set (sentOn c') \<Longrightarrow> (e, False) \<notin> set (sentOn c) \<Longrightarrow> known c e"
  shows "epochInv c'"
proof (rule epochInvI)
  show "known c' e" if "x \<in> set (callers c')" "\<not> direct x" "epochHeld (at x) = Some e" for x e
    using that callers[of x e] epochInvD(7)[OF inv, of x e] same by auto
  show "known c' e" if "(e, False) \<in> set (sentOn c')" for e
    using that sent[of e] epochInvD(8)[OF inv, of e] same by auto
  show "known c' e \<or> (\<exists>f. connecting c' = Some f \<and> working e (flights c' ! f))" if "current c' = Some e" for e
    using that epochInvD(2)[OF inv, of e] same by simp
  show "e' = e" if "connecting c' = Some f" "working e (flights c' ! f)" "current c' = Some e'" for f e e'
    using that epochInvD(5)[OF inv, of f e e'] same by simp
  show "known c' e" if "p \<in> set (flights c')" "landing p = Some e" for p e
    using that epochInvD(6)[OF inv, of p e] same by simp
  show "infoSet c' \<longleftrightarrow> (\<exists>e. current c' = Some e \<and> known c' e)"
    using epochInvD(9)[OF inv] same by simp
qed (use epochInvD(1,3,4,10)[OF inv] same in simp_all)

text \<open>The loss of the current epoch.\<close>

lemma epochInv_lost:
  assumes inv: "epochInv c" and lost: "current c' = None" "infoSet c' = False"
    and same: "known c' = known c" "length (epochs c') = length (epochs c)" "connecting c' = connecting c \<or> connecting c' = None"
      "flights c' = flights c" "noReconnect c' = noReconnect c" "sentOn c' = sentOn c"
    and callers: "\<And>x e. x \<in> set (callers c') \<Longrightarrow> x \<notin> set (callers c) \<Longrightarrow> \<not> direct x \<Longrightarrow> epochHeld (at x) = Some e \<Longrightarrow> known c e"
  shows "epochInv c'"
proof (rule epochInvI)
  show "known c' e" if "x \<in> set (callers c')" "\<not> direct x" "epochHeld (at x) = Some e" for x e
    using that callers[of x e] epochInvD(7)[OF inv, of x e] same by auto
  show "f < length (flights c')" if "connecting c' = Some f" for f
    using that same epochInvD(3)[OF inv, of f] by auto
  show "known c' e" if "p \<in> set (flights c')" "landing p = Some e" for p e
    using that epochInvD(6)[OF inv, of p e] same by simp
qed (use epochInvD(8,10)[OF inv] lost same in simp_all)

lemma known_retire [simp]: "known (retireEpoch e ids c) = known c"
  unfolding retireEpoch_def by (subst known_setEpoch) (auto simp: known_def fun_eq_iff)

lemma epochInv_invalidate:
  assumes "epochInv c"
  shows "epochInv (invalidate e ids c)"
proof (cases "current c = Some e")
  case True
  then show ?thesis
    by (intro epochInv_lost[OF assms]) (simp_all add: invalidate_def)
qed (use assms in \<open>simp add: invalidate_def\<close>)

lemma setCaller_more [simp]:
  "infoSet (setCaller i p c) = infoSet c" "noReconnect (setCaller i p c) = noReconnect c" "maxAttempts (setCaller i p c) = maxAttempts c"
  by (simp_all add: setCaller_def)

lemma moved_caller:
  "y \<in> set (callers (setCaller i p c)) \<Longrightarrow> y \<notin> set (callers c) \<Longrightarrow> y = (callers c ! i)\<lparr>at := p\<rparr>"
  using set_update_subset_insert[of "callers c" i "(callers c ! i)\<lparr>at := p\<rparr>"] by (auto simp: callers_setCaller)

text \<open>A caller moves on an epoch it has, or on one that is known.\<close>

lemma epochInv_move:
  assumes inv: "epochInv c" and i: "i < length (callers c)"
    and epoch: "\<And>e. epochHeld p = Some e \<Longrightarrow> epochHeld (at (callers c ! i)) = Some e \<or> known c e"
    and same: "current c' = current c" "epochs c' = epochs c" "connecting c' = connecting c" "flights c' = flights c"
      "infoSet c' = infoSet c" "noReconnect c' = noReconnect c"
    and callers: "callers c' = callers (setCaller i p c)"
    and sent: "\<And>e. (e, False) \<in> set (sentOn c') \<Longrightarrow> (e, False) \<notin> set (sentOn c) \<Longrightarrow> known c e"
  shows "epochInv c'"
proof (rule epochInv_quiet[OF inv])
  show "known c e" if "x \<in> set (callers c')" "x \<notin> set (callers c)" "\<not> direct x" "epochHeld (at x) = Some e" for x e
  proof -
    have x: "x = (callers c ! i)\<lparr>at := p\<rparr>"
      using moved_caller that(1,2) callers by metis
    then show ?thesis
      using epoch[of e] that(3,4) epochInvD(7)[OF inv nth_mem[OF i], of e] by auto
  qed
qed (use same sent known_cong[of c' c] in auto)

lemma epochInv_lost_move:
  assumes inv: "epochInv c" and i: "i < length (callers c)" and p: "epochHeld p = None" and ids: "enumerates ids c"
  shows "epochInv (setCaller i p (invalidate e ids c))"
proof (cases "current c = Some e")
  case True
  show ?thesis
  proof (rule epochInv_lost[OF inv])
    show "known c e'" if "x \<in> set (callers (setCaller i p (invalidate e ids c)))" "x \<notin> set (callers c)" "epochHeld (at x) = Some e'" for x e'
    proof -
      have "x = (callers c ! i)\<lparr>at := p\<rparr>"
        using that(1,2) moved_caller[of x i p c] True by (simp add: invalidate_def callers_setCaller)
      then show ?thesis
        using that(3) p by simp
    qed
  qed (use True known_cong[of "setCaller i p (retireEpoch e ids c)" "retireEpoch e ids c"] in \<open>simp_all add: invalidate_def\<close>)
next
  case False
  then show ?thesis
    using p by (intro epochInv_move[OF inv i, where p = p]) (simp_all add: invalidate_def)
qed

lemma epochInv_depart:
  assumes inv: "epochInv c" and free: "connecting c = None" "current c = None" "\<not> noReconnect c"
    and c': "current c' = None" "epochs c' = epochs c" "connecting c' = Some (length (flights c))" "flights c' = flights c @ [Dialing 0]"
      "infoSet c' = infoSet c" "noReconnect c' = noReconnect c" "sentOn c' = sentOn c"
    and callers: "\<And>x e. x \<in> set (callers c') \<Longrightarrow> x \<notin> set (callers c) \<Longrightarrow> \<not> direct x \<Longrightarrow> epochHeld (at x) = Some e \<Longrightarrow> known c e"
  shows "epochInv c'"
proof (rule epochInvI)
  have known: "known c' = known c"
    by (rule known_cong[OF c'(2)])
  show "known c' e" if "x \<in> set (callers c')" "\<not> direct x" "epochHeld (at x) = Some e" for x e
    using that callers[of x e] epochInvD(7)[OF inv, of x e] known by auto
  show "known c' e" if "p \<in> set (flights c')" "landing p = Some e" for p e
    using that epochInvD(6)[OF inv, of p e] known c'(4) by auto
  show "infoSet c' \<longleftrightarrow> (\<exists>e. current c' = Some e \<and> known c' e)"
    using epochInvD(9)[OF inv] free c' by simp
qed (use epochInvD(8)[OF inv] known_cong[OF c'(2)] free c' in simp_all)

lemma epochInv_caller:
  assumes inv: "epochInv c" and i: "i < length (callers c)" and r: "rangesOver ev c" and ev: "callerOf ev = Some i"
    and step: "callerStep ev i (callers c ! i) c = Some c'"
  shows "epochInv c'"
proof (cases ev)
  case (Connect j)
  then have at: "at (callers c ! i) = Connecting" and c': "c' = setCaller i (fst (connectionLocked c)) (snd (connectionLocked c))"
    using step by (auto simp: callerStep_def split: callerPC.splits prod.splits)
  show ?thesis
  proof (cases "\<not> closed c \<and> connecting c = None \<and> current c = None \<and> \<not> noReconnect c")
    case True
    show ?thesis
    proof (rule epochInv_depart[OF inv])
      show "known c e" if "x \<in> set (callers c')" "x \<notin> set (callers c)" "epochHeld (at x) = Some e" for x e
      proof -
        have "x = (callers c ! i)\<lparr>at := OnFlight (length (flights c))\<rparr>"
          using that(1,2) moved_caller[of x i "OnFlight (length (flights c))" c] True c' by (simp add: connectionLocked_def callers_setCaller Let_def)
        then show ?thesis
          using that(3) by simp
      qed
    qed (use True c' in \<open>simp_all add: connectionLocked_def Let_def\<close>)
  next
    case False
    then have same: "snd (connectionLocked c) = c"
      by (auto simp: connectionLocked_def split: option.splits)
    have "known c e" if "epochHeld (fst (connectionLocked c)) = Some e" for e
    proof -
      have cur: "connecting c = None" "current c = Some e"
        using that by (auto simp: connectionLocked_def Let_def split: if_splits option.splits)
      then show ?thesis
        using epochInvD(2)[OF inv, of e] by auto
    qed
    then show ?thesis
      using c' same by (intro epochInv_move[OF inv i, where p = "fst (connectionLocked c)"]) auto
  qed
next
  case (FlightDone j)
  then obtain f where at: "at (callers c ! i) = OnFlight f"
    using step by (auto simp: callerStep_def split: callerPC.splits)
  then obtain r where r: "flightAt f c = Some (Landed r)"
    using step FlightDone by (auto simp: callerStep_def split: option.splits flightPC.splits)
  then have "f < length (flights c)" "flights c ! f = Landed r"
    by (auto simp: flightAt_def split: if_splits)
  then have "Landed r \<in> set (flights c)"
    by (metis nth_mem)
  then have "known c e" if "r = Some e" for e
    using that epochInvD(6)[OF inv, of "Landed r" e] by simp
  moreover have "c' = setCaller i (case r of None \<Rightarrow> Returned None | Some e \<Rightarrow> OnEpoch e) c"
    using step FlightDone at r by (auto simp: callerStep_def split: option.splits)
  ultimately show ?thesis
    by (intro epochInv_move[OF inv i, where p = "case r of None \<Rightarrow> Returned None | Some e \<Rightarrow> OnEpoch e"]) (auto split: option.splits)
next
  case (Register j)
  then obtain e where at: "at (callers c ! i) = OnEpoch e" and c': "c' = setCaller i (fst (registerCall e (command (callers c ! i)) c)) (snd (registerCall e (command (callers c ! i)) c))"
    using step by (auto simp: callerStep_def split: callerPC.splits prod.splits if_splits)
  show ?thesis
    using c' at by (intro epochInv_move[OF inv i, where p = "fst (registerCall e (command (callers c ! i)) c)"])
      (auto simp: registerCall_def Let_def callers_setCaller split: if_splits)
next
  case (Invalidate j ids)
  then obtain e where "at (callers c ! i) = Invalidating e" "c' = setCaller i (Returned (Some (Disconnected e))) (invalidate e ids c)"
    using step by (auto simp: callerStep_def split: callerPC.splits)
  then show ?thesis
    using epochInv_lost_move[OF inv i] r Invalidate by (simp add: rangesOver_def)
next
  case (WriteDone j failure)
  then obtain e rid ch where at: "at (callers c ! i) = Registered e rid ch" and
    c': "c' = setCaller i (case failure of None \<Rightarrow> Waiting e rid ch | Some transport \<Rightarrow> WriteFailed e rid ch transport) (writeFrame e (callers c ! i) failure c)"
    using step by (auto simp: callerStep_def split: callerPC.splits)
  have "known c e" if "\<not> direct (callers c ! i)"
    using that at epochInvD(7)[OF inv nth_mem[OF i]] by simp
  then show ?thesis
    using at c' by (intro epochInv_move[OF inv i, where p = "case failure of None \<Rightarrow> Waiting e rid ch | Some transport \<Rightarrow> WriteFailed e rid ch transport"])
      (auto simp: writeFrame_def callers_setCaller split: option.splits if_splits)
next
  case (WriteNotification j failure)
  then obtain e where at: "at (callers c ! i) = OnEpoch e" and
    c': "c' = setCaller i (if failure = Some True then Invalidating e else Returned None) (writeFrame e (callers c ! i) failure c)"
    using step by (auto simp: callerStep_def split: callerPC.splits if_splits)
  have "known c e" if "\<not> direct (callers c ! i)"
    using that at epochInvD(7)[OF inv nth_mem[OF i]] by simp
  then show ?thesis
    using at c' by (intro epochInv_move[OF inv i, where p = "if failure = Some True then Invalidating e else Returned None"])
      (auto simp: writeFrame_def callers_setCaller split: option.splits if_splits)
next
  case (DropCorrelation j)
  then obtain e rid ch t where at: "at (callers c ! i) = WriteFailed e rid ch t" and
    c': "c' = setCaller i (if t then Invalidating e else Returned None) (snd (removePending rid ch c))"
    using step by (auto simp: callerStep_def split: callerPC.splits)
  show ?thesis
    using at c' by (intro epochInv_move[OF inv i, where p = "if t then Invalidating e else Returned None"])
      (auto simp: removePending_def callers_setCaller split: option.splits if_splits)
next
  case (ClaimResult j)
  then obtain e rid ch where at: "at (callers c ! i) = Claiming e rid ch" and
    c': "c' = setCaller i (if fst (removePending rid ch c) then Returned None else Settling e rid ch) (snd (removePending rid ch c))"
    using step by (auto simp: callerStep_def split: callerPC.splits prod.splits bool.splits)
  show ?thesis
    using at c' by (intro epochInv_move[OF inv i, where p = "if fst (removePending rid ch c) then Returned None else Settling e rid ch"])
      (auto simp: removePending_def callers_setCaller split: option.splits if_splits)
next
  case (TakeResult j)
  then obtain e rid ch r rs where at: "holding (at (callers c ! i)) = Some (e, rid, ch)" and
    c': "c' = setCaller i (Returned (Some r)) (c\<lparr>channels := (channels c)[ch := rs]\<rparr>)"
    using step by (auto simp: callerStep_def split: callerPC.splits list.splits)
  show ?thesis
    using c' by (intro epochInv_move[OF inv i, where p = "Returned (Some r)"]) (auto simp: callers_setCaller)
next
  case (Expire j)
  then obtain e rid ch where "at (callers c ! i) = Waiting e rid ch" "c' = setCaller i (Claiming e rid ch) c"
    using step by (auto simp: callerStep_def split: callerPC.splits if_splits)
  then show ?thesis
    by (intro epochInv_move[OF inv i, where p = "Claiming e rid ch"]) auto
next
  case (Abandon j)
  then have "c' = setCaller i (Returned None) c"
    using step by (auto simp: callerStep_def split: callerPC.splits)
  then show ?thesis
    by (intro epochInv_move[OF inv i, where p = "Returned None"]) auto
qed (use step ev in \<open>simp_all add: callerOf_def\<close>)

subsection \<open>Flights\<close>

lemma moved_flight: "y \<in> set (flights (setFlight f p c)) \<Longrightarrow> y \<in> set (flights c) \<or> y = p"
  using set_update_subset_insert[of "flights c" f p] by (auto simp: setFlight_def)

lemma flight_update:
  "f < length (flights c) \<Longrightarrow> flights (setFlight f p c) ! g = (if g = f then p else flights c ! g)"
  by (simp add: setFlight_def)

text \<open>A flight moves; what it leaves behind must fit the epoch it worked on.\<close>

lemma epochInv_fly:
  assumes inv: "epochInv c" and f: "f < length (flights c)"
    and idle: "connecting c = Some f \<Longrightarrow> dialing p \<Longrightarrow> current c = None"
    and own: "\<And>e. connecting c = Some f \<Longrightarrow> working e p \<Longrightarrow> current c = None \<or> current c = Some e"
    and left: "\<And>e. connecting c = Some f \<Longrightarrow> working e (flights c ! f) \<Longrightarrow> working e p \<or> current c \<noteq> Some e \<or> known c e"
    and lands: "\<And>e. landing p = Some e \<Longrightarrow> known c e"
  shows "epochInv (setFlight f p c)"
proof (rule epochInvI)
  have known: "known (setFlight f p c) = known c"
    by (rule known_cong) simp
  have upd: "flights (setFlight f p c) ! g = (if g = f then p else flights c ! g)" for g
    using flight_update[OF f] .
  show "known (setFlight f p c) e \<or> (\<exists>g. connecting (setFlight f p c) = Some g \<and> working e (flights (setFlight f p c) ! g))"
    if "current (setFlight f p c) = Some e" for e
    using that epochInvD(2)[OF inv, of e] left[of e] upd known by auto
  show "current (setFlight f p c) = None" if "connecting (setFlight f p c) = Some g" "dialing (flights (setFlight f p c) ! g)" for g
    using that epochInvD(4)[OF inv, of g] idle upd by (auto split: if_splits)
  show "e' = e" if "connecting (setFlight f p c) = Some g" "working e (flights (setFlight f p c) ! g)" "current (setFlight f p c) = Some e'" for g e e'
    using that epochInvD(5)[OF inv, of g e e'] own[of e] upd by (auto split: if_splits)
  show "known (setFlight f p c) e" if "q \<in> set (flights (setFlight f p c))" "landing q = Some e" for q e
    using moved_flight[OF that(1)] that(2) lands[of e] epochInvD(6)[OF inv, of q e] known by auto
  show "known (setFlight f p c) e" if "x \<in> set (callers (setFlight f p c))" "\<not> direct x" "epochHeld (at x) = Some e" for x e
    using that epochInvD(7)[OF inv, of x e] known by simp
  show "infoSet (setFlight f p c) \<longleftrightarrow> (\<exists>e. current (setFlight f p c) = Some e \<and> known (setFlight f p c) e)"
    using epochInvD(9)[OF inv] known by simp
  show "flights (setFlight f p c) = [] \<and> length (epochs (setFlight f p c)) = 1" if "noReconnect (setFlight f p c)"
    using epochInvD(10)[OF inv] that f by simp
qed (use epochInvD(1,3,8)[OF inv] known_cong[of "setFlight f p c" c] in simp_all)

text \<open>The epoch a flight dialed becomes current; it is not negotiated yet.\<close>

lemma epochInv_established:
  assumes inv: "epochInv c" and f: "f < length (flights c)" "flights c ! f = Establishing n"
    and ok: "establishLocked f c = (Some e, c')"
  shows "epochInv (setFlight f (Negotiating n e) c')"
proof (rule epochInvI)
  let ?c = "setFlight f (Negotiating n e) c'"
  have c': "connecting c = Some f" "e = length (epochs c)" "current c' = Some e" "infoSet c' = False" "flights c' = flights c"
      "connecting c' = connecting c" "callers c' = callers c" "sentOn c' = sentOn c" "noReconnect c' = noReconnect c"
      "\<exists>x. epochs c' = epochs c @ [x] \<and> \<not> negotiated x"
    using ok by (auto simp: establishLocked_def Let_def split: if_splits)
  have known: "known ?c = known c"
    using c'(10) by (auto simp: known_def fun_eq_iff nth_append less_Suc_eq)
  have upd: "flights ?c ! g = (if g = f then Negotiating n e else flights c ! g)" for g
    using f(1) c'(5) by (simp add: setFlight_def)
  show "e' < length (epochs ?c)" if "current ?c = Some e'" for e'
    using that c' by auto
  show "known ?c e' \<or> (\<exists>g. connecting ?c = Some g \<and> working e' (flights ?c ! g))" if "current ?c = Some e'" for e'
    using that c' upd by simp
  show "g < length (flights ?c)" if "connecting ?c = Some g" for g
    using that c' f(1) by simp
  show "current ?c = None" if "connecting ?c = Some g" "dialing (flights ?c ! g)" for g
    using that c' upd by simp
  show "e'' = e'" if "connecting ?c = Some g" "working e' (flights ?c ! g)" "current ?c = Some e''" for g e' e''
    using that c' upd by simp
  show "known ?c e'" if "q \<in> set (flights ?c)" "landing q = Some e'" for q e'
    using moved_flight[OF that(1)] that(2) epochInvD(6)[OF inv, of q e'] known c'(5) by auto
  show "known ?c e'" if "x \<in> set (callers ?c)" "\<not> direct x" "epochHeld (at x) = Some e'" for x e'
    using that epochInvD(7)[OF inv, of x e'] known c'(7) by simp
  show "known ?c e'" if "(e', False) \<in> set (sentOn ?c)" for e'
    using that epochInvD(8)[OF inv] known c'(8) by simp
  show "infoSet ?c \<longleftrightarrow> (\<exists>e. current ?c = Some e \<and> known ?c e)"
    using c' known by (auto simp: known_def)
  show "flights ?c = [] \<and> length (epochs ?c) = 1" if "noReconnect ?c"
    using that epochInvD(10)[OF inv] c'(9) f(1) by simp
qed

lemma epochInv_published:
  assumes inv: "epochInv c" and f: "f < length (flights c)" "flights c ! f = Negotiating n e"
    and ok: "publishNegotiated e c = (True, c')"
  shows "epochInv (setFlight f (Ending (Some e)) c')"
proof (rule epochInvI)
  let ?c = "setFlight f (Ending (Some e)) c'"
  have c': "current c = Some e" "c' = setEpoch e (\<lambda>x. x\<lparr>negotiated := True\<rparr>) (c\<lparr>infoSet := True\<rparr>)"
    using ok by (auto simp: publishNegotiated_def split: if_splits)
  have lt: "e < length (epochs c)"
    using epochInvD(1)[OF inv c'(1)] .
  have known: "known ?c e' \<longleftrightarrow> known c e' \<or> e' = e" for e'
    using lt by (auto simp: known_def c'(2) setEpoch_def nth_list_update)
  show "known ?c e'" if "q \<in> set (flights ?c)" "landing q = Some e'" for q e'
    using moved_flight[OF that(1)] that(2) epochInvD(6)[OF inv, of q e'] known[of e'] c'(2) by auto
  show "known ?c e'" if "x \<in> set (callers ?c)" "\<not> direct x" "epochHeld (at x) = Some e'" for x e'
    using that epochInvD(7)[OF inv, of x e'] known[of e'] c'(2) by simp
  show "known ?c e'" if "(e', False) \<in> set (sentOn ?c)" for e'
    using that epochInvD(8)[OF inv] known[of e'] c'(2) by simp
  show "known ?c e' \<or> (\<exists>g. connecting ?c = Some g \<and> working e' (flights ?c ! g))" if "current ?c = Some e'" for e'
    using that c' known[of e'] by simp
  show "current ?c = None" if "connecting ?c = Some g" "dialing (flights ?c ! g)" for g
    using that c' epochInvD(4)[OF inv, of g] f flight_update[of f c' "Ending (Some e)" g] by (auto split: if_splits)
  show "e'' = e'" if "connecting ?c = Some g" "working e' (flights ?c ! g)" "current ?c = Some e''" for g e' e''
    using that c' epochInvD(5)[OF inv, of g e' e''] f flight_update[of f c' "Ending (Some e)" g] by (auto split: if_splits)
  show "flights ?c = [] \<and> length (epochs ?c) = 1" if "noReconnect ?c"
    using that epochInvD(10)[OF inv] c'(2) f(1) by simp
  show "infoSet ?c \<longleftrightarrow> (\<exists>e. current ?c = Some e \<and> known ?c e)"
    using c' known[of e] by simp
qed (use epochInvD(1,3)[OF inv] ok in \<open>auto simp: publishNegotiated_def split: if_splits\<close>)

lemma nextAttempt_pc: "\<not> working e (nextAttempt c n b)" "landing (nextAttempt c n b) = None"
  by (auto simp: nextAttempt_def)

lemma epochInv_flight:
  assumes inv: "epochInv c" and f: "f < length (flights c)" and r: "rangesOver ev c"
    and ev: "flightOf ev = Some f" and step: "flightStep ev f (flights c ! f) c = Some c'"
  shows "epochInv c'"
proof (cases ev)
  case (Dialed g ok goOn)
  then obtain n where at: "flights c ! f = Dialing n"
    using step by (auto simp: flightStep_def split: flightPC.splits)
  then obtain p where c': "c' = setFlight f p c" and p: "\<And>e. \<not> working e p" "landing p = None"
    using step Dialed nextAttempt_pc by (auto simp: flightStep_def split: if_splits)
  show ?thesis
    unfolding c' using epochInvD(4)[OF inv, of f] at p by (intro epochInv_fly[OF inv f]) simp_all
next
  case (Establish g goOn)
  then obtain n where at: "flights c ! f = Establishing n"
    using step by (auto simp: flightStep_def split: flightPC.splits)
  show ?thesis
  proof (cases "fst (establishLocked f c)")
    case None
    then have "establishLocked f c = (None, c)"
      by (auto simp: establishLocked_def Let_def split: if_splits)
    then have c': "c' = setFlight f (nextAttempt c n goOn) c"
      using step at Establish by (simp add: flightStep_def)
    show ?thesis
      unfolding c' using epochInvD(4)[OF inv, of f] at nextAttempt_pc by (intro epochInv_fly[OF inv f]) simp_all
  next
    case (Some e)
    then obtain d where d: "establishLocked f c = (Some e, d)"
      by (cases "establishLocked f c") simp
    then have "c' = setFlight f (Negotiating n e) d"
      using step at Establish by (simp add: flightStep_def)
    then show ?thesis
      using epochInv_established[OF inv f at d] by simp
  qed
next
  case (Negotiated g ok)
  then obtain n e where at: "flights c ! f = Negotiating n e"
    using step by (auto simp: flightStep_def split: flightPC.splits)
  show ?thesis
  proof (cases "ok \<and> fst (publishNegotiated e c)")
    case True
    then obtain d where d: "publishNegotiated e c = (True, d)"
      by (cases "publishNegotiated e c") simp
    then have "c' = setFlight f (Ending (Some e)) d"
      using step at Negotiated True by (simp add: flightStep_def)
    then show ?thesis
      using epochInv_published[OF inv f at d] by simp
  next
    case False
    then have "ok \<Longrightarrow> publishNegotiated e c = (False, c)"
      by (auto simp: publishNegotiated_def split: if_splits)
    then have c': "c' = setFlight f (Failing n e) c"
      using step at Negotiated False by (cases ok) (simp_all add: flightStep_def)
    have own: "current c = None \<or> current c = Some e" if "connecting c = Some f"
      using epochInvD(5)[OF inv that, of e] at by (cases "current c") simp_all
    show ?thesis
      unfolding c'
    proof (rule epochInv_fly[OF inv f])
      show "current c = None \<or> current c = Some e'" if "connecting c = Some f" "working e' (Failing n e)" for e'
        using own[OF that(1)] that(2) by simp
    qed (simp_all add: at)
  qed
next
  case (FlightInvalidate g ids goOn)
  then obtain n e where at: "flights c ! f = Failing n e" and c': "c' = setFlight f (nextAttempt c n goOn) (invalidate e ids c)"
    using step by (auto simp: flightStep_def split: flightPC.splits)
  have lost: "epochInv (invalidate e ids c)"
    by (rule epochInv_invalidate[OF inv])
  have same: "flights (invalidate e ids c) = flights c" "connecting (invalidate e ids c) = connecting c"
    by (simp_all add: invalidate_def)
  have gone: "current (invalidate e ids c) = None" if "connecting c = Some f"
    using epochInvD(5)[OF inv that, of e] at by (cases "current c") (auto simp: invalidate_def)
  show ?thesis
    unfolding c' using gone nextAttempt_pc f same at by (intro epochInv_fly[OF lost]) simp_all
next
  case (FlightEnd g)
  then obtain r where at: "flights c ! f = Ending r" and c': "c' = setFlight f (Landed r) (finishReconnect f c)"
    using step by (auto simp: flightStep_def split: flightPC.splits)
  have "epochInv (finishReconnect f c)"
  proof (cases "connecting c = Some f")
    case True
    have free: "known c e" if "current c = Some e" for e
      using epochInvD(2)[OF inv that] True at by auto
    have known: "known (c\<lparr>connecting := None\<rparr>) = known c"
      by (rule known_cong) simp
    have "epochInv (c\<lparr>connecting := None\<rparr>)"
    proof (rule epochInvI)
      show "infoSet (c\<lparr>connecting := None\<rparr>) \<longleftrightarrow> (\<exists>e. current (c\<lparr>connecting := None\<rparr>) = Some e \<and> known (c\<lparr>connecting := None\<rparr>) e)"
        using epochInvD(9)[OF inv] known by simp
    qed (use epochInvD(1,6,7,8,10)[OF inv] free known in simp_all)
    then show ?thesis
      using True by (simp add: finishReconnect_def)
  qed (use inv in \<open>simp add: finishReconnect_def\<close>)
  moreover have "landing (Ending r) = Some e \<Longrightarrow> known (finishReconnect f c) e" for e
    using epochInvD(6)[OF inv nth_mem[OF f], of e] at known_cong[of "finishReconnect f c" c] by (simp add: finishReconnect_def)
  moreover have "flights (finishReconnect f c) = flights c" "connecting (finishReconnect f c) \<noteq> Some f"
    by (simp_all add: finishReconnect_def)
  ultimately show ?thesis
    unfolding c' using f by (intro epochInv_fly[of "finishReconnect f c" f "Landed r"]) simp_all
qed (use step ev in \<open>simp_all add: flightOf_def\<close>)

lemma epochInv_other:
  assumes inv: "epochInv c" and step: "otherStep ev c = Some c'"
  shows "epochInv c'"
proof (cases ev)
  case (StartCall k cmd)
  then have c': "c' = c\<lparr>callers := callers c @ [\<lparr>kind = k, command = cmd, direct = False, at = Connecting\<rparr>]\<rparr>"
    using step by (simp add: otherStep_def)
  show ?thesis
    unfolding c' by (rule epochInv_quiet[OF inv]) (auto intro!: known_cong)
next
  case (StartDirect k e cmd)
  then have c': "c' = c\<lparr>callers := callers c @ [\<lparr>kind = k, command = cmd, direct = True, at = OnEpoch e\<rparr>]\<rparr>"
    using step by (simp add: otherStep_def split: if_splits)
  show ?thesis
    unfolding c' by (rule epochInv_quiet[OF inv]) (auto intro!: known_cong)
next
  case (Send k)
  then have c': "c' = c\<lparr>transit := take k (transit c) @ drop (Suc k) (transit c),
      channels := (channels c)[fst (transit c ! k) := channels c ! fst (transit c ! k) @ [snd (transit c ! k)]]\<rparr>"
    using step by (auto simp: otherStep_def split: if_splits prod.splits)
  show ?thesis
    unfolding c' by (rule epochInv_quiet[OF inv]) (auto intro!: known_cong)
next
  case (Respond e rid cmd)
  have "known (settleResponse e rid cmd c) = known c"
    unfolding settleResponse_def
    by (auto split: option.splits intro!: known_cong known_setEpoch)
  then show ?thesis
    using step Respond by (intro epochInv_quiet[OF inv]) (auto simp: otherStep_def settleResponse_def split: option.splits if_splits)
next
  case (RespondOversized e rid cmd)
  have "known (snd (settleOversizedHistory e rid cmd c)) = known c"
    by (rule known_cong) (auto simp: settleOversizedHistory_def split: option.splits)
  then show ?thesis
    using step RespondOversized
    by (intro epochInv_quiet[OF inv]) (auto simp: otherStep_def settleOversizedHistory_def split: option.splits if_splits)
next
  case (EndRead e ids)
  then show ?thesis
    using step epochInv_invalidate[OF inv] by (auto simp: otherStep_def split: if_splits)
next
  case (Fence ids)
  then have c': "c' = FenceConnectionGeneration ids c"
    using step by (simp add: otherStep_def split: if_splits)
  show ?thesis
  proof (cases "current c")
    case None
    then show ?thesis
      using epochInvD(9)[OF inv] unfolding c'
      by (intro epochInv_lost[OF inv]) (auto simp: FenceConnectionGeneration_def Let_def intro!: known_cong)
  next
    case (Some e)
    have "known (c\<lparr>connecting := None\<rparr>) = known c"
      by (rule known_cong) simp
    then show ?thesis
      using Some unfolding c' by (intro epochInv_lost[OF inv]) (simp_all add: FenceConnectionGeneration_def Let_def)
  qed
next
  case (Event e ev')
  then have c': "c' = setEpoch e (\<lambda>x. x\<lparr>events := enqueueEvent ev' (events x)\<rparr>) c"
    using step by (simp add: otherStep_def)
  show ?thesis
    unfolding c' by (rule epochInv_quiet[OF inv]) (auto intro!: known_setEpoch)
next
  case (Consume e)
  then have c': "c' = setEpoch e (\<lambda>x. x\<lparr>events := receiveEvent (events x)\<rparr>) c"
    using step by (simp add: otherStep_def)
  show ?thesis
    unfolding c' by (rule epochInv_quiet[OF inv]) (auto intro!: known_setEpoch)
next
  case Close
  then have c': "c' = c\<lparr>closed := True\<rparr>"
    using step by (simp add: otherStep_def)
  show ?thesis
    unfolding c' by (rule epochInv_quiet[OF inv]) (auto intro!: known_cong)
qed (use step in \<open>simp_all add: otherStep_def\<close>)

lemma epochInv_step: "epochInv c \<Longrightarrow> rpcStep ev c = Some c' \<Longrightarrow> epochInv c'"
  by (erule rpcStepE) (auto intro: epochInv_caller epochInv_flight epochInv_other)

lemma epochInv_reachable: "rpcReachable c \<Longrightarrow> epochInv c"
proof (induction rule: rpcReachable.induct)
  case (fresh cfg)
  show ?case
    by (rule epochInvI) (auto simp: dialed_def Let_def known_def)
qed (rule epochInv_step)

subsection \<open>Correlation\<close>

lemma correlationInv_idle_move:
  assumes "correlationInv c" "i < length (callers c)" "holding (at (callers c ! i)) = None" "holding p = None"
  shows "correlationInv (setCaller i p c)"
proof (rule correlationInv_pc[OF assms(1,2), where p = p])
  show "callerOK c ((callers c ! i)\<lparr>at := p\<rparr>)"
    using assms(4) by (simp add: callerOK_def)
qed (simp_all add: assms)

lemma correlationInv_caller:
  assumes inv: "correlationInv c" and i: "i < length (callers c)" and r: "rangesOver ev c" and ev: "callerOf ev = Some i"
    and few: "fewRequests c'" and step: "callerStep ev i (callers c ! i) c = Some c'"
  shows "correlationInv c'"
proof (cases ev)
  case (Connect j)
  then have at: "at (callers c ! i) = Connecting" and c': "c' = setCaller i (fst (connectionLocked c)) (snd (connectionLocked c))"
    using step by (auto simp: callerStep_def split: callerPC.splits prod.splits)
  have quiet: "correlationInv (snd (connectionLocked c))" "callers (snd (connectionLocked c)) = callers c"
    using inv correlationInv_core[OF inv, of "snd (connectionLocked c)"]
    by (simp_all add: connectionLocked_def Let_def split: option.splits)
  have "holding (fst (connectionLocked c)) = None"
    by (simp add: connectionLocked_def Let_def split: option.splits)
  then show ?thesis
    unfolding c' using correlationInv_idle_move[OF quiet(1)] quiet(2) i at by simp
next
  case (FlightDone j)
  then obtain p where "holding (at (callers c ! i)) = None" "c' = setCaller i p c" "holding p = None"
    using step by (auto simp: callerStep_def split: callerPC.splits option.splits flightPC.splits)
  then show ?thesis
    using correlationInv_idle_move[OF inv i] by simp
next
  case (Abandon j)
  then have "holding (at (callers c ! i)) = None" "c' = setCaller i (Returned None) c"
    using step by (auto simp: callerStep_def split: callerPC.splits)
  then show ?thesis
    using correlationInv_idle_move[OF inv i] by simp
next
  case (Register j)
  then obtain e where at: "at (callers c ! i) = OnEpoch e" and
    c': "c' = setCaller i (fst (registerCall e (command (callers c ! i)) c)) (snd (registerCall e (command (callers c ! i)) c))"
    using step by (auto simp: callerStep_def split: callerPC.splits prod.splits if_splits)
  have n: "Suc (nextID c) < 18446744073709551616"
    using few c' by (simp add: registerCall_def Let_def split: if_splits)
  show ?thesis
  proof (cases "closed c \<or> current c \<noteq> Some e")
    case True
    have "correlationInv (c\<lparr>nextID := Suc (nextID c)\<rparr>)"
      by (rule correlationInv_core[OF inv]) simp_all
    then show ?thesis
      using correlationInv_idle_move[of "c\<lparr>nextID := Suc (nextID c)\<rparr>" i "Returned None"] i at True c' by (simp add: registerCall_def Let_def)
  next
    case False
    then show ?thesis
      using correlationInv_register[OF inv i, of e] n at c' by (simp add: registerCall_def Let_def)
  qed
next
  case (WriteDone j failure)
  then obtain e rid ch where at: "at (callers c ! i) = Registered e rid ch" and
    c': "c' = setCaller i (case failure of None \<Rightarrow> Waiting e rid ch | Some transport \<Rightarrow> WriteFailed e rid ch transport) (writeFrame e (callers c ! i) failure c)"
    using step by (auto simp: callerStep_def split: callerPC.splits)
  have ok: "callerOK c (callers c ! i)"
    using correlationInvD(4)[OF inv nth_mem[OF i]] .
  show ?thesis
    unfolding c' using ok at
    by (intro correlationInv_pc[OF inv i, where p = "case failure of None \<Rightarrow> Waiting e rid ch | Some transport \<Rightarrow> WriteFailed e rid ch transport"])
      (auto simp: writeFrame_def callers_setCaller callerOK_def split: option.splits)
next
  case (WriteNotification j failure)
  then obtain e where at: "at (callers c ! i) = OnEpoch e" and
    c': "c' = setCaller i (if failure = Some True then Invalidating e else Returned None) (writeFrame e (callers c ! i) failure c)"
    using step by (auto simp: callerStep_def split: callerPC.splits if_splits)
  show ?thesis
    unfolding c' using at
    by (intro correlationInv_pc[OF inv i, where p = "if failure = Some True then Invalidating e else Returned None"])
      (auto simp: writeFrame_def callers_setCaller callerOK_def)
next
  case (DropCorrelation j)
  then obtain e rid ch t where "holding (at (callers c ! i)) = Some (e, rid, ch)"
    "c' = setCaller i (if t then Invalidating e else Returned None) (snd (removePending rid ch c))"
    using step by (auto simp: callerStep_def split: callerPC.splits)
  then show ?thesis
    using correlationInv_drop[OF inv i, of e rid ch] by simp
next
  case (Invalidate j ids)
  then obtain e where at: "at (callers c ! i) = Invalidating e" and c': "c' = setCaller i (Returned (Some (Disconnected e))) (invalidate e ids c)"
    using step by (auto simp: callerStep_def split: callerPC.splits)
  have "correlationInv (invalidate e ids c)" "callers (invalidate e ids c) = callers c"
    using correlationInv_invalidate[OF inv] r Invalidate by (simp_all add: rangesOver_def invalidate_def)
  then show ?thesis
    unfolding c' using correlationInv_idle_move[of "invalidate e ids c" i] i at by simp
next
  case (Expire j)
  then obtain e rid ch where at: "at (callers c ! i) = Waiting e rid ch" and c': "c' = setCaller i (Claiming e rid ch) c"
    using step by (auto simp: callerStep_def split: callerPC.splits if_splits)
  have "callerOK c (callers c ! i)"
    using correlationInvD(4)[OF inv nth_mem[OF i]] .
  then show ?thesis
    unfolding c' using at
    by (intro correlationInv_pc[OF inv i, where p = "Claiming e rid ch"]) (simp_all add: callerOK_def)
next
  case (ClaimResult j)
  then obtain e rid ch where at: "at (callers c ! i) = Claiming e rid ch" and
    c': "c' = setCaller i (if fst (removePending rid ch c) then Returned None else Settling e rid ch) (snd (removePending rid ch c))"
    using step by (auto simp: callerStep_def split: callerPC.splits prod.splits bool.splits)
  show ?thesis
  proof (cases "fst (removePending rid ch c)")
    case True
    then show ?thesis
      using correlationInv_drop[OF inv i, of e rid ch "Returned None"] at c' by simp
  next
    case False
    then have none: "snd (removePending rid ch c) = c" "pending c rid \<noteq> Some (command (callers c ! i), ch)"
      by (auto simp: removePending_def split: option.splits if_splits)
    have "callerOK c (callers c ! i)"
      using correlationInvD(4)[OF inv nth_mem[OF i]] .
    then have "callerOK c ((callers c ! i)\<lparr>at := Settling e rid ch\<rparr>)"
      using at none(2) by (simp add: callerOK_def correlated_def)
    then show ?thesis
      using False none(1) c' at by (intro correlationInv_pc[OF inv i, where p = "Settling e rid ch"]) simp_all
  qed
next
  case (TakeResult j)
  then obtain e rid ch r' rs where "holding (at (callers c ! i)) = Some (e, rid, ch)" "channels c ! ch = r' # rs"
    "c' = setCaller i (Returned (Some r')) (c\<lparr>channels := (channels c)[ch := rs]\<rparr>)"
    using step by (auto simp: callerStep_def split: callerPC.splits list.splits)
  then show ?thesis
    using correlationInv_take[OF inv i] by simp
qed (use step ev in \<open>simp_all add: callerOf_def\<close>)

lemma correlationInv_flight:
  assumes inv: "correlationInv c" and epochs: "epochInv c" and f: "f < length (flights c)" and r: "rangesOver ev c"
    and step: "flightStep ev f (flights c ! f) c = Some c'"
  shows "correlationInv c'"
proof -
  have est: "correlationInv (snd (establishLocked f c))" if "flights c ! f = Establishing n" for n
  proof (cases "connecting c = Some f \<and> \<not> closed c")
    case True
    then have "current c = None"
      using epochInvD(4)[OF epochs, of f] that by simp
    then show ?thesis
      using correlationInv_establish[OF inv, of f "fst (establishLocked f c)" "snd (establishLocked f c)"] by simp
  qed (use inv in \<open>auto simp: establishLocked_def\<close>)
  have pub: "correlationInv (snd (publishNegotiated e c))" for e
    using inv correlationInv_setEpoch[of "c\<lparr>infoSet := True\<rparr>"] correlationInv_core[OF inv, of "c\<lparr>infoSet := True\<rparr>"]
    by (simp add: publishNegotiated_def)
  have fin: "correlationInv (finishReconnect f c)"
    using inv correlationInv_core[OF inv, of "c\<lparr>connecting := None\<rparr>"] by (simp add: finishReconnect_def)
  have lost: "correlationInv (invalidate e ids c)" if "ev = FlightInvalidate g ids b" for e g ids b
    using correlationInv_invalidate[OF inv] r that by (simp add: rangesOver_def)
  obtain d p where "c' = setFlight f p d" "correlationInv d"
  proof (cases "\<exists>g b. ev = Establish g b")
    case True
    then obtain n where at: "flights c ! f = Establishing n"
      using step by (auto simp: flightStep_def split: flightPC.splits)
    then have "\<exists>p. c' = setFlight f p (snd (establishLocked f c))"
      using step True by (auto simp: flightStep_def split: option.splits prod.splits)
    then show ?thesis
      using that est[OF at] by blast
  next
    case False
    have "\<exists>p d. c' = setFlight f p d \<and> correlationInv d"
    proof (cases ev)
      case (Dialed g ok goOn)
      then show ?thesis
        using step inv by (auto simp: flightStep_def split: flightPC.splits if_splits)
    next
      case (Negotiated g ok)
      then obtain n e where at: "flights c ! f = Negotiating n e"
        using step by (auto simp: flightStep_def split: flightPC.splits)
      then have "\<exists>p. c' = setFlight f p (if ok then snd (publishNegotiated e c) else c)"
        using step Negotiated by (auto simp: flightStep_def split: if_splits prod.splits bool.splits)
      then show ?thesis
        using inv pub by metis
    next
      case (FlightInvalidate g ids b)
      then obtain n e where "flights c ! f = Failing n e"
        using step by (auto simp: flightStep_def split: flightPC.splits)
      then have "c' = setFlight f (nextAttempt c n b) (invalidate e ids c)"
        using step FlightInvalidate by (simp add: flightStep_def)
      then show ?thesis
        using lost[OF FlightInvalidate] by blast
    next
      case (FlightEnd g)
      then obtain p where "c' = setFlight f p (finishReconnect f c)"
        using step by (auto simp: flightStep_def split: flightPC.splits)
      then show ?thesis
        using fin by blast
    qed (use step False in \<open>simp_all add: flightStep_def\<close>)
    then show ?thesis
      using that by blast
  qed
  then show ?thesis
    by (simp add: correlationInv_setFlight)
qed

lemma correlationInv_other:
  assumes inv: "correlationInv c" and step: "otherStep ev c = Some c'"
  shows "correlationInv c'"
proof (cases ev)
  case (StartCall k cmd)
  then show ?thesis
    using step correlationInv_spawn[OF inv] by (auto simp: otherStep_def)
next
  case (StartDirect k e cmd)
  then show ?thesis
    using step correlationInv_spawn[OF inv] by (auto simp: otherStep_def split: if_splits)
next
  case (Send k)
  obtain ch r where x: "transit c ! k = (ch, r)"
    by (cases "transit c ! k")
  then have k: "k < length (transit c)" and c': "c' = c\<lparr>transit := take k (transit c) @ drop (Suc k) (transit c),
      channels := (channels c)[ch := channels c ! ch @ [r]]\<rparr>"
    using step Send by (auto simp: otherStep_def split: if_splits)
  have split: "transit c = take k (transit c) @ (ch, r) # drop (Suc k) (transit c)"
    using id_take_nth_drop[OF k] x by simp
  have bound: "fst y < length (channels c)" if "y \<in> set (transit c)" for y
    using correlationInvD(3)[OF inv that] .
  have ch: "ch < length (channels c)"
    using bound[of "(ch, r)"] nth_mem[OF k] x by simp
  show ?thesis
  proof (rule correlationInv_perm[OF inv])
    show "mset (results c' ch') = mset (results c ch')" if "ch' < length (channels c)" for ch'
    proof -
      have "results c ch' = channels c ! ch' @ map snd (filter (\<lambda>x. fst x = ch') (take k (transit c) @ (ch, r) # drop (Suc k) (transit c)))"
        using split by (simp add: results_def)
      then show ?thesis
        using ch by (simp add: results_def c' nth_list_update)
    qed
    show "fst y < length (channels c')" if "y \<in> set (transit c')" for y
      using that bound[of y] c' by (auto dest: in_set_takeD in_set_dropD)
  qed (simp_all add: c')
next
  case (Respond e rid cmd)
  then show ?thesis
    using step correlationInv_settleResponse[OF inv, of e rid cmd] by (simp add: otherStep_def)
next
  case (RespondOversized e rid cmd)
  then show ?thesis
    using step correlationInv_oversized[OF inv] by (auto simp: otherStep_def)
next
  case (EndRead e ids)
  then show ?thesis
    using step correlationInv_invalidate[OF inv] by (auto simp: otherStep_def split: if_splits)
next
  case (Fence ids)
  then show ?thesis
    using step correlationInv_fence[OF inv] by (auto simp: otherStep_def split: if_splits)
next
  case (Event e x)
  then show ?thesis
    using step correlationInv_setEpoch[OF inv] by (auto simp: otherStep_def)
next
  case (Consume e)
  then show ?thesis
    using step correlationInv_setEpoch[OF inv] by (auto simp: otherStep_def)
next
  case Close
  then show ?thesis
    using step correlationInv_core[OF inv, of "c\<lparr>closed := True\<rparr>"] by (auto simp: otherStep_def)
qed (use step in \<open>simp_all add: otherStep_def\<close>)

lemma nextID_mono:
  assumes "rpcStep ev c = Some c'"
  shows "nextID c \<le> nextID c'"
  using assms
proof (cases rule: rpcStepE)
  case (caller i)
  then show ?thesis
    by (cases ev) (auto simp: callerStep_def connectionLocked_def registerCall_def removePending_def writeFrame_def invalidate_def Let_def
        split: callerPC.splits option.splits flightPC.splits if_splits bool.splits list.splits)
next
  case (flight f)
  then show ?thesis
    by (cases ev) (auto simp: flightStep_def establishLocked_def publishNegotiated_def finishReconnect_def invalidate_def Let_def
        split: option.splits flightPC.splits if_splits bool.splits)
next
  case other
  then show ?thesis
    by (cases ev) (auto simp: otherStep_def settleResponse_def settleOversizedHistory_def invalidate_def FenceConnectionGeneration_def Let_def
        split: option.splits if_splits prod.splits)
qed

lemma correlationInv_step:
  assumes "correlationInv c" "epochInv c" "rpcStep ev c = Some c'" "fewRequests c'"
  shows "correlationInv c'"
  using assms(3)
proof (cases rule: rpcStepE)
  case (caller i)
  then show ?thesis
    using correlationInv_caller[OF assms(1)] assms(4) by blast
next
  case (flight f)
  then show ?thesis
    using correlationInv_flight[OF assms(1,2)] by blast
next
  case other
  then show ?thesis
    using correlationInv_other[OF assms(1)] by blast
qed

lemma correlationInv_reachable: "rpcReachable c \<Longrightarrow> fewRequests c \<Longrightarrow> correlationInv c"
proof (induction rule: rpcReachable.induct)
  case (fresh cfg)
  show ?case
    by (rule correlationInvI) (simp_all add: dialed_def Let_def)
next
  case (step c ev c')
  then show ?case
    using nextID_mono[OF step.hyps(2)] correlationInv_step[OF _ epochInv_reachable[OF step.hyps(1)] step.hyps(2)] by simp
qed

section \<open>What the callers are promised\<close>

lemma results_split:
  assumes "results c ch \<noteq> []"
  shows "channels c ! ch \<noteq> [] \<or> (\<exists>k r. k < length (transit c) \<and> transit c ! k = (ch, r))"
proof (rule disjCI)
  assume "\<not> (\<exists>k r. k < length (transit c) \<and> transit c ! k = (ch, r))"
  then have "filter (\<lambda>x. fst x = ch) (transit c) = []"
    by (auto simp: filter_empty_conv in_set_conv_nth)
  then show "channels c ! ch \<noteq> []"
    using assms by (simp add: results_def)
qed

lemma take_result_step:
  assumes i: "i < length (callers c)" "at (callers c ! i) = Waiting e rid ch" and box: "channels c ! ch = r # rs"
  shows "rpcRun [TakeResult i] c = Some (setCaller i (Returned (Some r)) (c\<lparr>channels := (channels c)[ch := rs]\<rparr>))"
  using assms by (simp add: rpcStep_def rangesOver_def callerOf_def callerAt_def callerStep_def)

lemma at_setCaller: "i < length (callers c) \<Longrightarrow> at (callers (setCaller i p c) ! i) = p"
  by (simp add: setCaller_def)

text \<open>A waiting caller with a result gets it, in two steps of the system at most.\<close>

lemma waiting_served:
  assumes inv: "correlationInv c" and i: "i < length (callers c)" "at (callers c ! i) = Waiting e rid ch"
    and some: "results c ch \<noteq> []"
  shows "\<exists>evs c' r. length evs \<le> 2 \<and> rpcRun evs c = Some c' \<and> at (callers c' ! i) = Returned (Some r) \<and>
    answers e rid (command (callers c ! i)) r"
proof -
  have ok: "ch < length (channels c)" "\<And>r. r \<in> set (results c ch) \<Longrightarrow> answers e rid (command (callers c ! i)) r"
    using correlationInvD(4)[OF inv nth_mem[OF i(1)]] i(2) by (auto simp: callerOK_def)
  from results_split[OF some] show ?thesis
  proof (elim disjE exE conjE)
    assume "channels c ! ch \<noteq> []"
    then obtain r rs where box: "channels c ! ch = r # rs"
      by (cases "channels c ! ch") auto
    then have "answers e rid (command (callers c ! i)) r"
      using ok(2) by (simp add: results_def)
    then show ?thesis
      using take_result_step[OF i box] at_setCaller i(1) by (intro exI[of _ "[TakeResult i]"]) force
  next
    fix k r
    assume k: "k < length (transit c)" "transit c ! k = (ch, r)"
    have "(ch, r) \<in> set (transit c)"
      using nth_mem[OF k(1)] k(2) by simp
    then have r: "r \<in> set (results c ch)"
      by (force simp: results_def)
    define d where "d = c\<lparr>transit := take k (transit c) @ drop (Suc k) (transit c), channels := (channels c)[ch := channels c ! ch @ [r]]\<rparr>"
    have d: "rpcRun [Send k] c = Some d"
      using k by (simp add: rpcStep_def rangesOver_def callerOf_def flightOf_def otherStep_def d_def)
    obtain r' rs where box: "channels d ! ch = r' # rs" "r' \<in> set (results c ch)"
      using ok(1) r by (cases "channels c ! ch") (auto simp: d_def results_def)
    have "i < length (callers d)" "at (callers d ! i) = Waiting e rid ch"
      using i by (simp_all add: d_def)
    then have "rpcRun [Send k, TakeResult i] c = Some (setCaller i (Returned (Some r')) (d\<lparr>channels := (channels d)[ch := rs]\<rparr>))"
      using d take_result_step[of i d e rid ch r' rs] box(1) rpcRun_append[of "[Send k]" "[TakeResult i]" c] by simp
    then show ?thesis
      using ok(2)[OF box(2)] at_setCaller[of i "d\<lparr>channels := (channels d)[ch := rs]\<rparr>"] i(1)
      by (intro exI[of _ "[Send k, TakeResult i]"]) (force simp: d_def)
  qed
qed

text \<open>A client whose first call is on the wire, and the same client after its connection died.\<close>

definition askedClient :: client where
  "askedClient = (dialed DefaultConfig)
     \<lparr>nextID := 3, pending := [requestID 3 \<mapsto> (''prompt'', 0)], channels := [[]], sentOn := [(0, False)],
      callers := [\<lparr>kind = Call, command = ''prompt'', direct = False, at = Waiting 0 (requestID 3) 0\<rparr>]\<rparr>"

definition lostClient :: client where
  "lostClient = retireEpoch 0 [requestID 3] askedClient"

lemma askedClient_reachable: "rpcReachable askedClient"
proof (rule rpcRun_reachable[OF rpcReachable.fresh])
  show "rpcRun [StartCall Call ''prompt'', Connect 0, Register 0, WriteDone 0 None] (dialed DefaultConfig) = Some askedClient"
    by (simp add: rpcStep_def rangesOver_def callerOf_def flightOf_def callerAt_def otherStep_def callerStep_def connectionLocked_def
        registerCall_def writeFrame_def setCaller_def dialed_def askedClient_def Let_def)
qed

lemma lostClient_reachable: "rpcReachable lostClient"
proof (rule rpcRun_reachable[OF askedClient_reachable])
  show "rpcRun [EndRead 0 [requestID 3]] askedClient = Some lostClient"
    by (simp add: rpcStep_def rangesOver_def callerOf_def flightOf_def otherStep_def enumerates_def invalidate_def lostClient_def
        askedClient_def dialed_def Let_def)
qed

text \<open>
  C31: nobody waits for ever on a dead connection. When the epoch of a written request is no longer the
  current one, the waiting caller has the request's outcome within two steps: its own response, if that
  arrived before the loss, or the loss of that epoch.
\<close>

theorem dead_epoch_wakes_caller:
  assumes "rpcReachable c" "nextID c < 18446744073709551616" "i < length (callers c)"
    and "at (callers c ! i) = Waiting e rid ch" "current c \<noteq> Some e"
  shows "\<exists>evs c' r. length evs \<le> 2 \<and> rpcRun evs c = Some c' \<and> at (callers c' ! i) = Returned (Some r) \<and>
    answers e rid (command (callers c ! i)) r"
proof -
  have inv: "correlationInv c"
    by (rule correlationInv_reachable[OF assms(1,2)])
  have "results c ch \<noteq> []"
    using correlationInvD(4)[OF inv nth_mem[OF assms(3)]] assms(4,5) by (simp add: callerOK_def correlated_def)
  then show ?thesis
    by (rule waiting_served[OF inv assms(3,4)])
qed

theorem dead_epoch_wakes_caller_witness:
  "\<exists>evs c' r. length evs \<le> 2 \<and> rpcRun evs lostClient = Some c' \<and> at (callers c' ! 0) = Returned (Some r) \<and>
    answers 0 (requestID 3) (command (callers lostClient ! 0)) r"
proof (rule dead_epoch_wakes_caller[OF lostClient_reachable])
  show "at (callers lostClient ! 0) = Waiting 0 (requestID 3) 0"
    by (simp add: lostClient_def askedClient_def)
qed (simp_all add: lostClient_def askedClient_def)

text \<open>
  C32: a result reaches the request it answers and no other, once. The channel of a request holds or is
  promised at most one result, that result carries the request's own epoch, identifier and command or is
  the loss of that epoch, and no other caller listens on the channel.
\<close>

theorem result_answers_request:
  assumes "rpcReachable c" "nextID c < 18446744073709551616" "i < length (callers c)"
    and "holding (at (callers c ! i)) = Some (e, rid, ch)"
  shows "(results c ch = [] \<or> (\<exists>r. results c ch = [r] \<and> answers e rid (command (callers c ! i)) r)) \<and>
    (\<forall>j < length (callers c). holdsChannel (callers c ! j) ch \<longrightarrow> j = i)"
proof -
  have inv: "correlationInv c"
    by (rule correlationInv_reachable[OF assms(1,2)])
  have ok: "ch < length (channels c)" "\<And>r. r \<in> set (results c ch) \<Longrightarrow> answers e rid (command (callers c ! i)) r"
    using correlationInvD(4)[OF inv nth_mem[OF assms(3)]] assms(4) by (auto simp: callerOK_def)
  have "results c ch = [] \<or> (\<exists>r. results c ch = [r])"
    using correlationInvD(2)[OF inv ok(1)] by (cases "results c ch") auto
  moreover have "j = i" if "j < length (callers c)" "holdsChannel (callers c ! j) ch" for j
    using correlationInvD(5)[OF inv that(1) assms(3) that(2)] assms(4) by (simp add: holdsChannel_def)
  ultimately show ?thesis
    using ok(2) by auto
qed

theorem result_answers_request_witness:
  "\<exists>r. results lostClient 0 = [r] \<and> answers 0 (requestID 3) ''prompt'' r"
proof -
  have "results lostClient 0 \<noteq> []"
    by (simp add: results_def lostClient_def askedClient_def dialed_def failAll_def List.map_filter_simps Let_def)
  then show ?thesis
    using result_answers_request[OF lostClient_reachable, of 0 0 "requestID 3" 0] by (simp add: lostClient_def askedClient_def)
qed

text \<open>
  C33: a call that asks the client for a connection writes on an epoch that completed its handshake, the
  published protocol information is that of the current epoch, and a client that must not reconnect never
  has a second epoch.
\<close>

theorem calls_use_negotiated_epochs:
  assumes "rpcReachable c"
  shows "(\<forall>e. (e, False) \<in> set (sentOn c) \<longrightarrow> known c e) \<and> (infoSet c \<longleftrightarrow> (\<exists>e. current c = Some e \<and> known c e)) \<and>
    (noReconnect c \<longrightarrow> length (epochs c) = 1)"
  using epochInvD(8,9,10)[OF epochInv_reachable[OF assms]] by blast

theorem calls_use_negotiated_epochs_witness: "known askedClient 0 \<and> infoSet askedClient"
proof -
  have "(0, False) \<in> set (sentOn askedClient)" "current askedClient = Some 0"
    by (simp_all add: askedClient_def dialed_def Let_def)
  then show ?thesis
    using calls_use_negotiated_epochs[OF askedClient_reachable] by blast
qed

section \<open>The dial budget\<close>

text \<open>What a flight has left to do: its attempts, and the stages of the one it is at.\<close>

fun flightRank :: "nat \<Rightarrow> flightPC \<Rightarrow> nat" where
  "flightRank limit (Dialing n) = 4 * (limit - n) + 1"
| "flightRank limit (Establishing n) = 4 * (limit - n)"
| "flightRank limit (Negotiating n e) = 4 * (limit - n) - 1"
| "flightRank limit (Failing n e) = 4 * (limit - n) - 2"
| "flightRank limit (Ending r) = 1"
| "flightRank limit (Landed r) = 0"

fun attemptOf :: "flightPC \<Rightarrow> nat option" where
  "attemptOf (Dialing n) = Some n"
| "attemptOf (Establishing n) = Some n"
| "attemptOf (Negotiating n e) = Some n"
| "attemptOf (Failing n e) = Some n"
| "attemptOf _ = None"

definition budgetInv :: "client \<Rightarrow> bool" where
  "budgetInv c \<longleftrightarrow> 0 < maxAttempts c \<and> finite (dom (pending c)) \<and> (\<forall>p \<in> set (flights c). \<forall>n. attemptOf p = Some n \<longrightarrow> n < maxAttempts c)"

lemma nextAttempt_rank:
  assumes "n < maxAttempts c"
  shows "flightRank (maxAttempts c) (nextAttempt c n b) < 4 * (maxAttempts c - n) - 2"
  using assms by (auto simp: nextAttempt_def)

lemma flightStep_moves:
  assumes "flightStep ev f p c = Some c'" "f < length (flights c)"
  shows "\<exists>q. flights c' = (flights c)[f := q] \<and>
    (case p of
       Dialing n \<Rightarrow> q = Establishing n \<or> q = Ending None \<or> (\<exists>b. q = nextAttempt c n b)
     | Establishing n \<Rightarrow> (\<exists>e. q = Negotiating n e) \<or> (\<exists>b. q = nextAttempt c n b)
     | Negotiating n e \<Rightarrow> q = Failing n e \<or> q = Ending (Some e)
     | Failing n e \<Rightarrow> (\<exists>b. q = nextAttempt c n b)
     | Ending r \<Rightarrow> q = Landed r
     | Landed r \<Rightarrow> False) \<and> maxAttempts c' = maxAttempts c"
  using assms
  by (cases ev; cases p)
    (auto simp: flightStep_def setFlight_def establishLocked_def publishNegotiated_def setEpoch_def invalidate_def retireEpoch_def
       finishReconnect_def Let_def split: if_splits)

lemma flight_rank_step:
  assumes step: "flightStep ev f (flights c ! f) c = Some c'" and f: "f < length (flights c)"
    and bound: "\<And>n. attemptOf (flights c ! f) = Some n \<Longrightarrow> n < maxAttempts c"
  shows "flightRank (maxAttempts c) (flights c' ! f) < flightRank (maxAttempts c) (flights c ! f)"
proof -
  obtain q where q: "flights c' = (flights c)[f := q]"
      and move: "case flights c ! f of Dialing n \<Rightarrow> q = Establishing n \<or> q = Ending None \<or> (\<exists>b. q = nextAttempt c n b)
        | Establishing n \<Rightarrow> (\<exists>e. q = Negotiating n e) \<or> (\<exists>b. q = nextAttempt c n b)
        | Negotiating n e \<Rightarrow> q = Failing n e \<or> q = Ending (Some e)
        | Failing n e \<Rightarrow> (\<exists>b. q = nextAttempt c n b) | Ending r \<Rightarrow> q = Landed r | Landed r \<Rightarrow> False"
    using flightStep_moves[OF step f] by blast
  have next_rank: "flightRank (maxAttempts c) (nextAttempt c n b) < 4 * (maxAttempts c - n) - 2" if "attemptOf (flights c ! f) = Some n" for n b
    using nextAttempt_rank[OF bound[OF that]] .
  have "flightRank (maxAttempts c) q < flightRank (maxAttempts c) (flights c ! f)"
  proof (cases "flights c ! f")
    case (Dialing n)
    then show ?thesis
      using move bound[of n] by (auto intro!: less_le_trans[OF next_rank])
  next
    case (Establishing n)
    then show ?thesis
      using move bound[of n] by (auto intro!: less_le_trans[OF next_rank])
  next
    case (Negotiating n e)
    then show ?thesis
      using move bound[of n] by auto
  next
    case (Failing n e)
    then show ?thesis
      using move bound[of n] by (auto intro!: less_le_trans[OF next_rank])
  qed (use move in auto)
  then show ?thesis
    using f q by simp
qed

lemma otherwise_flights:
  assumes "rpcStep ev c = Some c'" "flightOf ev = None"
  shows "maxAttempts c' = maxAttempts c \<and> (flights c' = flights c \<or> flights c' = flights c @ [Dialing 0])"
  using assms(1)
proof (cases rule: rpcStepE)
  case (caller i)
  then show ?thesis
    by (cases ev) (auto simp: callerStep_def connectionLocked_def registerCall_def removePending_def writeFrame_def invalidate_def
        setCaller_def retireEpoch_def setEpoch_def Let_def
        split: callerPC.splits option.splits flightPC.splits if_splits bool.splits list.splits)
next
  case (flight f)
  then show ?thesis
    using assms(2) by simp
next
  case other
  then show ?thesis
    by (cases ev) (auto simp: otherStep_def settleResponse_def settleOversizedHistory_def invalidate_def FenceConnectionGeneration_def
        retireEpoch_def setEpoch_def Let_def split: option.splits if_splits prod.splits)
qed

lemma pending_finite_step:
  assumes "rpcStep ev c = Some c'" "finite (dom (pending c))"
  shows "finite (dom (pending c'))"
  using assms(1)
proof (cases rule: rpcStepE)
  case (caller i)
  then show ?thesis
    using assms(2) by (cases ev) (auto simp: callerStep_def connectionLocked_def registerCall_def removePending_def writeFrame_def
        invalidate_def Let_def split: callerPC.splits option.splits flightPC.splits if_splits bool.splits list.splits)
next
  case (flight f)
  then show ?thesis
    using assms(2) by (cases ev) (auto simp: flightStep_def establishLocked_def publishNegotiated_def invalidate_def finishReconnect_def
        Let_def split: option.splits flightPC.splits if_splits bool.splits)
next
  case other
  then show ?thesis
    using assms(2) by (cases ev) (auto simp: otherStep_def settleResponse_def settleOversizedHistory_def invalidate_def
        FenceConnectionGeneration_def Let_def split: option.splits if_splits prod.splits)
qed

lemma flight_of_step:
  assumes "rpcStep ev c = Some c'" "flightOf ev = Some f"
  shows "f < length (flights c)" "flightStep ev f (flights c ! f) c = Some c'"
  using assms by (auto simp: rpcStep_def callerOf_def flightOf_def flightAt_def split: rpcEvent.splits if_splits)

lemma attempt_next: "0 < maxAttempts c \<Longrightarrow> attemptOf (nextAttempt c n b) = Some m \<Longrightarrow> m < maxAttempts c"
  by (auto simp: nextAttempt_def split: if_splits)

lemma budgetInv_step:
  assumes inv: "budgetInv c" and step: "rpcStep ev c = Some c'"
  shows "budgetInv c'"
proof (cases "flightOf ev")
  case None
  then show ?thesis
    using otherwise_flights[OF step] pending_finite_step[OF step] inv by (auto simp: budgetInv_def)
next
  case (Some f)
  obtain q where q: "flights c' = (flights c)[f := q]" "maxAttempts c' = maxAttempts c"
      and from_p: "case flights c ! f of Dialing n \<Rightarrow> q = Establishing n \<or> q = Ending None \<or> (\<exists>b. q = nextAttempt c n b)
        | Establishing n \<Rightarrow> (\<exists>e. q = Negotiating n e) \<or> (\<exists>b. q = nextAttempt c n b)
        | Negotiating n e \<Rightarrow> q = Failing n e \<or> q = Ending (Some e)
        | Failing n e \<Rightarrow> (\<exists>b. q = nextAttempt c n b) | Ending r \<Rightarrow> q = Landed r | Landed r \<Rightarrow> False"
    using flightStep_moves[OF flight_of_step(2)[OF step Some] flight_of_step(1)[OF step Some]] by blast
  have old: "n < maxAttempts c" if "attemptOf (flights c ! f) = Some n" for n
    using inv that nth_mem[OF flight_of_step(1)[OF step Some]] by (auto simp: budgetInv_def)
  have "m < maxAttempts c" if "attemptOf q = Some m" for m
    using from_p that old attempt_next inv by (cases "flights c ! f") (auto simp: budgetInv_def)
  moreover have "p \<in> set (flights c) \<or> p = q" if "p \<in> set (flights c')" for p
    using that q(1) set_update_subset_insert[of "flights c" f q] by auto
  ultimately show ?thesis
    using inv q(2) pending_finite_step[OF step] by (auto simp: budgetInv_def)
qed

lemma normalize_attempts: "0 < ReconnectMaxAttempts (normalizeConfig cfg)"
  by (simp add: normalizeConfig_def Let_def DefaultConfig_def)

lemma budgetInv_reachable: "rpcReachable c \<Longrightarrow> budgetInv c"
proof (induction rule: rpcReachable.induct)
  case (fresh cfg)
  show ?case
    using normalize_attempts[of cfg] by (simp add: budgetInv_def dialed_def Let_def)
qed (rule budgetInv_step)

lemma flight_can_step:
  assumes "budgetInv c" "f < length (flights c)" "\<And>r. flights c ! f \<noteq> Landed r"
  shows "\<exists>ev c'. flightOf ev = Some f \<and> rpcStep ev c = Some c'"
proof -
  obtain ids where ids: "set ids = dom (pending c)" "distinct ids"
    using assms(1) finite_distinct_list unfolding budgetInv_def by metis
  define ev where "ev = (case flights c ! f of Dialing n \<Rightarrow> Dialed f True True | Establishing n \<Rightarrow> Establish f True
    | Negotiating n e \<Rightarrow> Negotiated f False | Failing n e \<Rightarrow> FlightInvalidate f ids False | _ \<Rightarrow> FlightEnd f)"
  have "flightOf ev = Some f" "callerOf ev = None" "rangesOver ev c"
    using ids by (auto simp: ev_def flightOf_def callerOf_def rangesOver_def enumerates_def split: flightPC.splits)
  moreover have "\<exists>c'. flightStep ev f (flights c ! f) c = Some c'"
    using assms(3) by (auto simp: ev_def flightStep_def split: flightPC.splits option.splits prod.splits)
  ultimately show ?thesis
    using assms(2) by (auto simp: rpcStep_def flightAt_def)
qed

text \<open>The client after a call found the connection dead and started a flight.\<close>

definition dialingClient :: client where
  "dialingClient = lostClient
     \<lparr>connecting := Some 0, flights := [Dialing 0],
      callers := callers lostClient @ [\<lparr>kind = Call, command = ''abort'', direct = False, at = OnFlight 0\<rparr>]\<rparr>"

lemma dialingClient_reachable: "rpcReachable dialingClient"
proof (rule rpcRun_reachable[OF lostClient_reachable])
  show "rpcRun [StartCall Call ''abort'', Connect 1] lostClient = Some dialingClient"
    by (simp add: rpcStep_def rangesOver_def callerOf_def flightOf_def callerAt_def otherStep_def callerStep_def connectionLocked_def
        setCaller_def dialed_def askedClient_def lostClient_def dialingClient_def retireEpoch_def setEpoch_def Let_def
        normalizeConfig_def DefaultConfig_def)
qed



section \<open>Event streams\<close>

datatype streamOp = Enqueue string | Receive | CloseOp

text \<open>The stream, what was read from it, and what was offered to it while it was open.\<close>

fun streamRun :: "streamOp list \<Rightarrow> eventStream \<times> string list \<times> string list \<Rightarrow> eventStream \<times> string list \<times> string list" where
  "streamRun [] w = w"
| "streamRun (Enqueue ev # ops) (s, got, offered) =
     streamRun ops (enqueueEvent ev s, got, if streamClosed s then offered else offered @ [ev])"
| "streamRun (Receive # ops) (s, got, offered) = streamRun ops (receiveEvent s, got @ take 1 (out s), offered)"
| "streamRun (CloseOp # ops) (s, got, offered) = streamRun ops (closeStream s, got, offered)"

definition streamInv :: "nat \<Rightarrow> eventStream \<times> string list \<times> string list \<Rightarrow> bool" where
  "streamInv n w = (case w of (s, got, offered) \<Rightarrow>
     capacity s = n \<and> length (out s) \<le> n \<and> dropped s + length got + length (out s) = length offered \<and>
     (\<exists>older. offered = older @ out s \<and> subseq got older))"

lemma streamInv_enqueue:
  assumes "0 < n" "streamInv n (s, got, offered)"
  shows "streamInv n (enqueueEvent ev s, got, if streamClosed s then offered else offered @ [ev])"
proof -
  obtain older where older: "offered = older @ out s" "subseq got older"
    using assms(2) by (auto simp: streamInv_def)
  show ?thesis
  proof (cases "streamClosed s \<or> length (out s) < capacity s")
    case True
    then show ?thesis
      using assms(2) older by (auto simp: streamInv_def enqueueEvent_def intro: exI[of _ older])
  next
    case False
    then obtain x xs where x: "out s = x # xs"
      using assms by (cases "out s") (auto simp: streamInv_def)
    then have "offered @ [ev] = (older @ [x]) @ xs @ [ev]" "subseq got (older @ [x])"
      using older by (auto intro: subseq_order.trans)
    then show ?thesis
      using assms(2) False x by (auto simp: streamInv_def enqueueEvent_def)
  qed
qed

lemma streamInv_receive:
  assumes "streamInv n (s, got, offered)"
  shows "streamInv n (receiveEvent s, got @ take 1 (out s), offered)"
proof (cases "out s")
  case (Cons x xs)
  then obtain older where "offered = (older @ [x]) @ xs" "subseq (got @ [x]) (older @ [x])"
    using assms by (auto simp: streamInv_def)
  then show ?thesis
    using assms Cons by (auto simp: streamInv_def receiveEvent_def intro: exI[of _ "older @ [x]"])
qed (use assms in \<open>auto simp: streamInv_def receiveEvent_def\<close>)

lemma streamInv_run: "0 < n \<Longrightarrow> streamInv n w \<Longrightarrow> streamInv n (streamRun ops w)"
proof (induction ops w rule: streamRun.induct)
  case (2 ev ops s got offered)
  then show ?case
    using streamInv_enqueue[of n s got offered ev] by simp
next
  case (3 ops s got offered)
  then show ?case
    using streamInv_receive[of n s got offered] by simp
qed (auto simp: streamInv_def closeStream_def)

text \<open>
  The event stream of an epoch is bounded and keeps the newest events. After any interleaving of
  arrivals and reads, what it holds is the end of what was offered, in order, within the capacity; the reader got a
  subsequence of what came before; and every event that is in neither is counted as dropped.
\<close>

theorem event_stream_keeps_newest:
  assumes "0 < n"
  shows "case streamRun ops (newEventStream n, [], []) of (s, got, offered) \<Rightarrow>
    length (out s) \<le> n \<and> dropped s + length got + length (out s) = length offered \<and>
    (\<exists>older. offered = older @ out s \<and> subseq got older)"
proof -
  have "streamInv n (newEventStream n, [], [])"
    by (simp add: streamInv_def newEventStream_def)
  then show ?thesis
    using streamInv_run[OF assms, of "(newEventStream n, [], [])" ops] by (auto simp: streamInv_def)
qed

theorem event_stream_keeps_newest_witness:
  "case streamRun [Enqueue ''a'', Enqueue ''b'', Enqueue ''c'', Receive] (newEventStream 2, [], []) of (s, got, offered) \<Rightarrow>
    length (out s) \<le> 2 \<and> dropped s + length got + length (out s) = length offered \<and>
    (\<exists>older. offered = older @ out s \<and> subseq got older)"
  by (rule event_stream_keeps_newest) simp

end
