(* ===== verification/SessionState.thy ===== *)
theory SessionState
  imports GoError GoText "HOL-Library.Word"
begin

text \<open>
  The state of one attached session of \<open>internal/session\<close>, its run latches and idle timer (\<open>session.go\<close>) and
  the asks that wait for an answer (\<open>question_state.go\<close>, \<open>approval_response.go\<close>, \<open>approval_progress.go\<close>).

  Every function is one critical section under \<open>lifecycleMu\<close>. The frames a section publishes are appended
  to \<open>published\<close>, with the fields that the lifecycle decides. Decoded event fields, what the client and the
  provider answer, and what other locks guard (written sends, detached calls, subscribers) are arguments or
  fields the environment sets.
\<close>

section \<open>State\<close>

text \<open>
  A pending ask. It is identified by its pointer; \<open>aDelivery\<close>, \<open>aDeliveryError\<close> and \<open>aShown\<close> are the members
  the server adds to the published frame. A timer is the number it was armed under.
\<close>

record approval =
  aPtr :: nat
  aID :: string
  aRequest :: string
  aQuestion :: bool
  aDelivery :: "string option"
  aDeliveryError :: "string option"
  aShown :: "string option"
  confirmTimer :: "nat option"
  progressTimer :: "nat option"
  aProgress :: "string option"
  delivering :: bool
  submitted :: "string option"

datatype sessFrame =
    RunStarted
  | RunDone string
  | CompactionStarted string string
  | CompactionDone string string string
  | ErrorFrame string
  | Ack string string
  | ApprovalFrame string string "string option" "string option" "string option"
  | ApprovalResolved string string
  | NoticeFrame string
  | Passed string

text \<open>
  The runtime's timers: \<open>armed\<close> ones may expire, \<open>due\<close> ones have expired and their callback waits for the
  lock; \<open>Stop\<close> reaches the former only. A timer is of a confirmation or of a draft, and its callback closes
  over the pointer and the identifier of the ask.
\<close>

record askTimer =
  tNo :: nat
  tConfirm :: bool
  tPtr :: nat
  tID :: string

record session =
  durable :: string
  routing :: string
  closed :: bool
  closing :: bool
  resumable :: bool
  invalidated :: bool
  quarantined :: "goerror option"
  workAtLoss :: bool
  runAtLoss :: bool
  compactionAtLoss :: bool
  hydrationPending :: bool
  activityRevision :: "64 word"
  promptInFlight :: bool
  providerRunActive :: bool
  compactionActive :: bool
  localCommandActive :: bool
  promptResponse :: bool
  closeRunSettled :: bool
  closeRunReason :: string
  promptSeq :: "64 word"
  localCommandSeq :: "64 word"
  compactSeq :: "64 word"
  compactRPCID :: string
  compactProviderID :: string
  compactPhase :: string
  completedCompactions :: "string set"
  completedFIFO :: "string list list"
  completedUnpaired :: "string list"
  diagnostics :: "(string \<times> string) list"
  closeTxn :: "(nat \<times> bool) option"
  nextTxn :: nat
  settledTxns :: "(nat \<times> goerror option) list"
  idleTimer :: bool
  pendingApprovals :: "approval list"
  nextPtr :: nat
  nextTimer :: nat
  armed :: "askTimer list"
  due :: "askTimer list"
  answersWritten :: "(nat \<times> string) list"
  published :: "sessFrame list"
  settledCalls :: nat
  unresolvedSends :: bool
  activeDetached :: bool
  subscribers :: nat

definition maxCompletedCompactions :: nat where
  "maxCompletedCompactions = 8"

definition emit :: "sessFrame \<Rightarrow> session \<Rightarrow> session" where
  "emit f s = s\<lparr>published := published s @ [f]\<rparr>"

section \<open>Latches and the idle timer\<close>

definition activeLocked :: "session \<Rightarrow> bool" where
  "activeLocked s \<longleftrightarrow> promptInFlight s \<or> providerRunActive s \<or> compactionActive s \<or> localCommandActive s"

definition recoveryWorkLocked :: "session \<Rightarrow> bool" where
  "recoveryWorkLocked s \<longleftrightarrow> workAtLoss s \<or> unresolvedSends s"

definition cancelIdleLocked :: "session \<Rightarrow> session" where
  "cancelIdleLocked s = s\<lparr>idleTimer := False\<rparr>"

definition mayIdle :: "session \<Rightarrow> bool" where
  "mayIdle s \<longleftrightarrow> \<not> (closed s \<or> closing s \<or> resumable s \<or> quarantined s \<noteq> None \<or> activeLocked s \<or> recoveryWorkLocked s \<or>
     subscribers s \<noteq> 0 \<or> activeDetached s)"

definition scheduleIdleLocked :: "session \<Rightarrow> session" where
  "scheduleIdleLocked s = (if \<not> mayIdle s then s else (cancelIdleLocked s)\<lparr>idleTimer := True\<rparr>)"

definition routeLocked :: "session \<Rightarrow> goerror + string" where
  "routeLocked s =
     (case quarantined s of
        Some e \<Rightarrow> Inl e
      | None \<Rightarrow>
          (if closed s \<or> closing s then Inl errSessionClosed
           else if resumable s then Inl errSessionResumable
           else Inr (routing s)))"

definition observeLiveActivityLocked :: "session \<Rightarrow> session" where
  "observeLiveActivityLocked s = s\<lparr>activityRevision := activityRevision s + 1, hydrationPending := unresolvedSends s\<rparr>"

text \<open>\<open>notifyRunSettledLocked\<close> calls the embedder back; the calls are counted.\<close>

definition notifyRunSettledLocked :: "session \<Rightarrow> session" where
  "notifyRunSettledLocked s = s\<lparr>settledCalls := Suc (settledCalls s)\<rparr>"

section \<open>Pending asks\<close>

definition pendingByID :: "string \<Rightarrow> session \<Rightarrow> approval option" where
  "pendingByID i s = List.find (\<lambda>p. aID p = i) (pendingApprovals s)"

definition viewOf :: "approval \<Rightarrow> sessFrame" where
  "viewOf p = ApprovalFrame (aID p) (aRequest p) (aDelivery p) (aDeliveryError p) (aShown p)"

definition approvalKey :: "approval \<Rightarrow> string" where
  "approvalKey p = (if aRequest p \<noteq> [] then aRequest p else aID p)"

definition updateApproval :: "nat \<Rightarrow> (approval \<Rightarrow> approval) \<Rightarrow> session \<Rightarrow> session" where
  "updateApproval k f s = s\<lparr>pendingApprovals := map (\<lambda>p. if aPtr p = k then f p else p) (pendingApprovals s)\<rparr>"

definition stopTimer :: "nat option \<Rightarrow> session \<Rightarrow> session" where
  "stopTimer t s = (case t of None \<Rightarrow> s | Some k \<Rightarrow> s\<lparr>armed := filter (\<lambda>x. tNo x \<noteq> k) (armed s)\<rparr>)"

definition stopTimers :: "approval \<Rightarrow> session \<Rightarrow> session" where
  "stopTimers p s =
     updateApproval (aPtr p) (\<lambda>q. q\<lparr>confirmTimer := None, progressTimer := None, aProgress := None\<rparr>)
       (stopTimer (progressTimer p) (stopTimer (confirmTimer p) s))"

definition lookupPtr :: "nat \<Rightarrow> session \<Rightarrow> approval option" where
  "lookupPtr k s = List.find (\<lambda>p. aPtr p = k) (pendingApprovals s)"

definition setQuestionDeliveryLocked :: "nat \<Rightarrow> string \<Rightarrow> string \<Rightarrow> session \<Rightarrow> session" where
  "setQuestionDeliveryLocked k delivery reason s =
     (let s1 = updateApproval k (\<lambda>p. p\<lparr>aDelivery := Some delivery,
            aDeliveryError := (if reason \<noteq> [] then Some reason else None),
            aShown := (if submitted p \<noteq> None then submitted p else aShown p)\<rparr>) s in
      case lookupPtr k s1 of None \<Rightarrow> s1 | Some p \<Rightarrow> emit (viewOf p) s1)"

definition failDelivery :: "approval \<Rightarrow> session \<Rightarrow> session" where
  "failDelivery p s =
     (if delivering p
      then setQuestionDeliveryLocked (aPtr p) ''failed'' ''unconfirmed'' (updateApproval (aPtr p) (\<lambda>q. q\<lparr>delivering := False\<rparr>) s)
      else s)"

definition upsertApprovalLocked :: "string \<Rightarrow> string \<Rightarrow> bool \<Rightarrow> session \<Rightarrow> session" where
  "upsertApprovalLocked i r isQuestion s =
     (case List.find (\<lambda>p. aID p = i \<or> r \<noteq> [] \<and> aRequest p = r) (pendingApprovals s) of
        Some p \<Rightarrow>
          updateApproval (aPtr p)
            (\<lambda>q. q\<lparr>aID := i, aRequest := r, aQuestion := isQuestion,
                   aDelivery := aDelivery q,
                   aDeliveryError := (if aDelivery q \<noteq> None then aDeliveryError q else None),
                   aShown := (if aDelivery q \<noteq> None then aShown q else None)\<rparr>)
            (failDelivery p (stopTimers p s))
      | None \<Rightarrow>
          s\<lparr>nextPtr := Suc (nextPtr s),
            pendingApprovals := pendingApprovals s @
              [\<lparr>aPtr = nextPtr s, aID = i, aRequest = r, aQuestion = isQuestion, aDelivery = None, aDeliveryError = None,
                aShown = None, confirmTimer = None, progressTimer = None, aProgress = None, delivering = False, submitted = None\<rparr>]\<rparr>)"

definition removeApprovalLocked :: "string \<Rightarrow> session \<Rightarrow> session" where
  "removeApprovalLocked i s =
     (case pendingByID i s of
        None \<Rightarrow> s
      | Some p \<Rightarrow> (stopTimers p s)\<lparr>pendingApprovals := filter (\<lambda>q. aPtr q \<noteq> aPtr p) (pendingApprovals s)\<rparr>)"

definition resolveApprovalLocked :: "string \<Rightarrow> string \<Rightarrow> session \<Rightarrow> session" where
  "resolveApprovalLocked i outcome s = emit (ApprovalResolved i outcome) (removeApprovalLocked i s)"

definition failOnLoss :: "approval \<Rightarrow> session \<Rightarrow> session" where
  "failOnLoss p s =
     (if \<not> aQuestion p then resolveApprovalLocked (aID p) ''expired'' s else failDelivery p (stopTimers p s))"

text \<open>The loop runs from the last ask down; the counter is one past the index it looks at.\<close>

fun failFrom :: "nat \<Rightarrow> session \<Rightarrow> session" where
  "failFrom 0 s = s"
| "failFrom (Suc n) s = failFrom n (failOnLoss (pendingApprovals s ! n) s)"

definition failQuestionsOnLossLocked :: "session \<Rightarrow> session" where
  "failQuestionsOnLossLocked s = failFrom (length (pendingApprovals s)) s"

definition stopQuestionTimersLocked :: "session \<Rightarrow> session" where
  "stopQuestionTimersLocked s = fold stopTimers (pendingApprovals s) s"

text \<open>The frames a subscriber is given: the asks in order, and the keys of the questions among them.\<close>

definition questionReplayLocked :: "session \<Rightarrow> sessFrame list \<times> string list" where
  "questionReplayLocked s = (map viewOf (pendingApprovals s), map approvalKey (filter aQuestion (pendingApprovals s)))"

definition approvalAwaitsAnswer :: "string \<Rightarrow> bool \<times> bool" where
  "approvalAwaitsAnswer m =
     (if m \<in> {''select'', ''confirm'', ''input'', ''editor'', ''question''} then (True, True)
      else if m \<in> {''notify'', ''setStatus'', ''setWidget''} then (False, True)
      else (False, False))"

subsection \<open>Answers and drafts\<close>

definition armTimer :: "bool \<Rightarrow> nat \<Rightarrow> string \<Rightarrow> session \<Rightarrow> session" where
  "armTimer confirm k i s =
     s\<lparr>armed := armed s @ [\<lparr>tNo = nextTimer s, tConfirm = confirm, tPtr = k, tID = i\<rparr>], nextTimer := Suc (nextTimer s)\<rparr>"

text \<open>\<open>prep\<close> is what \<open>prepareWrite\<close> answers, \<open>write\<close> what \<open>Notify\<close> answers when it is reached.\<close>

definition respondExtensionUI ::
  "string \<Rightarrow> string \<Rightarrow> string \<Rightarrow> goerror option \<Rightarrow> goerror option \<Rightarrow> session \<Rightarrow> goerror option \<times> session" where
  "respondExtensionUI i requestID answer prep write s =
     (let expire = (\<lambda>s. case pendingByID i s of
                       Some p \<Rightarrow> if \<not> aQuestion p then resolveApprovalLocked i ''expired'' s else s
                     | None \<Rightarrow> s) in
      if prep \<noteq> None then (prep, expire s)
      else case routeLocked s of
        Inl e \<Rightarrow> (Some e, expire s)
      | Inr route \<Rightarrow>
          (case pendingByID i s of
             None \<Rightarrow> (Some (sentinel ErrApprovalExpired ''This question has expired. Ask the assistant to request it again.''), s)
           | Some p \<Rightarrow>
               (if aQuestion p \<and> delivering p then (Some (sentinel ErrQuestionDelivering ''question_delivering''), s)
                else if write \<noteq> None then (write, expire s)
                else
                  let s1 = s\<lparr>answersWritten := answersWritten s @ [(aPtr p, i)]\<rparr>;
                      s2 = (if aQuestion p
                            then let t = nextTimer s1;
                                     u = updateApproval (aPtr p) (\<lambda>q. q\<lparr>submitted := Some answer, delivering := True\<rparr>) (stopTimers p s1)
                                 in updateApproval (aPtr p) (\<lambda>q. q\<lparr>confirmTimer := Some t\<rparr>)
                                      (armTimer True (aPtr p) i (setQuestionDeliveryLocked (aPtr p) ''sending'' [] u))
                            else removeApprovalLocked i s1)
                  in (None, emit (Ack i requestID) s2))))"

definition confirmCallback :: "nat \<Rightarrow> string \<Rightarrow> session \<Rightarrow> session" where
  "confirmCallback k i s =
     (case pendingByID i s of
        Some p \<Rightarrow>
          (if aPtr p = k \<and> delivering p
           then setQuestionDeliveryLocked k ''failed'' ''unconfirmed''
                  (updateApproval k (\<lambda>q. q\<lparr>delivering := False, confirmTimer := None\<rparr>) s)
           else s)
      | None \<Rightarrow> s)"

definition ProgressApproval :: "string \<Rightarrow> string \<Rightarrow> session \<Rightarrow> session" where
  "ProgressApproval i draft s =
     (case pendingByID i s of
        None \<Rightarrow> s
      | Some p \<Rightarrow>
          (if \<not> aQuestion p \<or> delivering p then s
           else
             let s1 = updateApproval (aPtr p) (\<lambda>q. q\<lparr>aProgress := Some draft\<rparr>) s in
             if progressTimer p \<noteq> None then s1
             else updateApproval (aPtr p) (\<lambda>q. q\<lparr>progressTimer := Some (nextTimer s1)\<rparr>) (armTimer False (aPtr p) i s1)))"

text \<open>The draft the callback hands to \<open>Notify\<close>, if it gets that far.\<close>

definition progressCallback :: "nat \<Rightarrow> string \<Rightarrow> session \<Rightarrow> string option \<times> session" where
  "progressCallback k i s =
     (case pendingByID i s of
        Some p \<Rightarrow>
          (if aPtr p = k \<and> \<not> delivering p
           then (case routeLocked s of Inl _ \<Rightarrow> None | Inr _ \<Rightarrow> aProgress p,
                 updateApproval k (\<lambda>q. q\<lparr>progressTimer := None, aProgress := None\<rparr>) s)
           else (None, s))
      | None \<Rightarrow> (None, s))"

end
