(* ===== verification/SessionRuns.thy ===== *)
theory SessionRuns
  imports SessionState
begin

text \<open>
  Runs, compactions, the loss of the provider route, replacement and the close transaction of a session
  (\<open>internal/session/session.go\<close>, \<open>dispatch.go\<close>), and the steps of a session's life: calls of the embedder,
  provider events, callbacks and timers, in any order.
\<close>

section \<open>Completed compactions\<close>

definition rememberCompletedCompactionLocked :: "string list \<Rightarrow> session \<Rightarrow> session" where
  "rememberCompletedCompactionLocked ids s =
     (case foldl (\<lambda>(known, unique) i. if i = [] \<or> i \<in> known then (known, unique) else (insert i known, unique @ [i]))
             (completedCompactions s, []) ids of
        (known, unique) \<Rightarrow>
          (if unique = [] then s
           else let fifo = completedFIFO s @ [unique] in
             if maxCompletedCompactions < length fifo
             then s\<lparr>completedCompactions := known - set (hd fifo), completedFIFO := tl fifo\<rparr>
             else s\<lparr>completedCompactions := known, completedFIFO := fifo\<rparr>))"

definition rememberCompactionDiagnosticLocked :: "string \<Rightarrow> string \<Rightarrow> session \<Rightarrow> bool \<times> session" where
  "rememberCompactionDiagnosticLocked i err s =
     (if (i, err) \<in> set (diagnostics s) then (False, s)
      else if length (diagnostics s) = maxCompletedCompactions
      then (True, s\<lparr>diagnostics := tl (diagnostics s) @ [(i, err)]\<rparr>)
      else (True, s\<lparr>diagnostics := diagnostics s @ [(i, err)]\<rparr>))"

text \<open>The end of a compaction once its latch fell: the run-settled call unless a run still holds the session.\<close>

definition settleIfQuiet :: "session \<Rightarrow> session" where
  "settleIfQuiet s =
     (if \<not> promptInFlight s \<and> \<not> providerRunActive s \<and> \<not> localCommandActive s then notifyRunSettledLocked s else s)"

definition finishCompactionLocked :: "string \<Rightarrow> string \<Rightarrow> session \<Rightarrow> session" where
  "finishCompactionLocked requestID err s =
     (let r1 = (if requestID = [] then compactRPCID s else requestID);
          r = (if r1 = [] then compactProviderID s else r1);
          s1 = rememberCompletedCompactionLocked [compactRPCID s, compactProviderID s, r] s;
          s2 = s1\<lparr>compactionActive := False, compactionAtLoss := False,
                  workAtLoss := workAtLoss s \<and> (providerRunActive s \<or> promptInFlight s \<or> localCommandActive s),
                  compactRPCID := [], compactProviderID := []\<rparr> in
      settleIfQuiet (scheduleIdleLocked (emit (CompactionDone r (compactPhase s) err) s2)))"

section \<open>Runs\<close>

definition completeProviderRunLocked :: "string \<Rightarrow> session \<Rightarrow> session" where
  "completeProviderRunLocked reason s =
     (let s1 = (if compactionActive s \<and> compactRPCID s = [] then finishCompactionLocked [] [] s else s);
          s2 = s1\<lparr>providerRunActive := False, promptInFlight := False, localCommandActive := False, promptResponse := False,
                  runAtLoss := False, workAtLoss := compactionActive s1\<rparr> in
      notifyRunSettledLocked (scheduleIdleLocked (emit (RunDone reason) s2)))"

definition completeLocalCommandLocked :: "64 word \<Rightarrow> session \<Rightarrow> session" where
  "completeLocalCommandLocked n s =
     (if promptSeq s \<noteq> n \<or> \<not> promptInFlight s \<or> \<not> localCommandActive s then s
      else notifyRunSettledLocked (scheduleIdleLocked (emit (RunDone ''local_command'')
        (s\<lparr>promptInFlight := False, providerRunActive := False, localCommandActive := False, promptResponse := False\<rparr>))))"

text \<open>The admission of \<open>sendPrompt\<close>, and \<open>completePrompt\<close>.\<close>

definition admitPrompt :: "session \<Rightarrow> (goerror + 64 word) \<times> session" where
  "admitPrompt s =
     (if compactionActive s then (Inl errCompactionInFlight, s)
      else if promptInFlight s \<or> providerRunActive s \<or> localCommandActive s then (Inl errPromptInFlight, s)
      else case routeLocked s of
        Inl e \<Rightarrow> (Inl e, s)
      | Inr route \<Rightarrow>
          (let s1 = observeLiveActivityLocked s; n = promptSeq s1 + 1 in
           (Inr n, cancelIdleLocked (s1\<lparr>promptSeq := n, promptInFlight := True, promptResponse := False, localCommandActive := False\<rparr>))))"

definition completePrompt :: "64 word \<Rightarrow> bool \<Rightarrow> session \<Rightarrow> session" where
  "completePrompt n failed s =
     (if promptSeq s \<noteq> n then s
      else if failed
      then (if \<not> providerRunActive s
            then scheduleIdleLocked (s\<lparr>promptInFlight := False, localCommandActive := False, promptResponse := False\<rparr>)
            else s)
      else let s1 = s\<lparr>promptResponse := True\<rparr> in
        if localCommandActive s1 \<and> localCommandSeq s1 = n then completeLocalCommandLocked n s1 else s1)"

section \<open>Compactions\<close>

definition compactID :: "64 word \<Rightarrow> string" where
  "compactID n = ''compact-'' @ natText (unat n)"

definition admitCompact :: "session \<Rightarrow> (goerror + 64 word) \<times> session" where
  "admitCompact s =
     (if promptInFlight s \<or> providerRunActive s \<or> compactionActive s \<or> localCommandActive s then (Inl errCompactionInFlight, s)
      else case routeLocked s of
        Inl e \<Rightarrow> (Inl e, s)
      | Inr route \<Rightarrow>
          (let s1 = observeLiveActivityLocked s; n = compactSeq s1 + 1 in
           (Inr n, emit (CompactionStarted (compactID n) ''manual'')
             (cancelIdleLocked (s1\<lparr>compactSeq := n, compactionActive := True, compactRPCID := compactID n, compactProviderID := [],
                compactPhase := ''manual''\<rparr>)))))"

definition completeCompact :: "64 word \<Rightarrow> string \<Rightarrow> string \<Rightarrow> session \<Rightarrow> session" where
  "completeCompact n rpcID err s =
     (if compactSeq s = n \<and> compactionActive s \<and> compactRPCID s = rpcID
      then
        let provider = compactProviderID s;
            s1 = rememberCompletedCompactionLocked [rpcID, provider] (s\<lparr>compactionActive := False\<rparr>);
            unpaired = completedUnpaired s1 @ [rpcID];
            s2 = (if provider = []
                  then s1\<lparr>completedUnpaired := drop (length unpaired - maxCompletedCompactions) unpaired\<rparr> else s1);
            s3 = (emit (CompactionDone rpcID ''manual'' err) s2)\<lparr>compactRPCID := [], compactProviderID := []\<rparr>
        in settleIfQuiet (scheduleIdleLocked s3)
      else s)"

definition beginCompactionLocked :: "string \<Rightarrow> string \<Rightarrow> session \<Rightarrow> session" where
  "beginCompactionLocked i reason s =
     (let phase = (if reason = [] then ''manual'' else reason) in
      if i \<noteq> [] \<and> i \<in> completedCompactions s then s
      else if i \<noteq> [] \<and> phase = ''manual'' \<and> completedUnpaired s \<noteq> []
      then rememberCompletedCompactionLocked [i] (s\<lparr>completedUnpaired := tl (completedUnpaired s)\<rparr>)
      else if compactionActive s
      then (if compactProviderID s = [] then s\<lparr>compactProviderID := i\<rparr> else s)
      else if phase = ''manual'' then s
      else
        emit (CompactionStarted i phase)
          (cancelIdleLocked (s\<lparr>diagnostics := filter (\<lambda>d. fst d \<noteq> []) (diagnostics s), compactionActive := True,
             compactSeq := compactSeq s + 1, compactProviderID := i, compactRPCID := [], compactPhase := phase\<rparr>)))"

text \<open>\<open>isEnd\<close> tells \<open>compaction_end\<close> from \<open>compaction_done\<close>.\<close>

definition compactionMatches :: "string \<Rightarrow> string \<Rightarrow> session \<Rightarrow> bool" where
  "compactionMatches i reason s \<longleftrightarrow>
     compactionActive s \<and> i \<notin> completedCompactions s \<and>
     \<not> (compactRPCID s \<noteq> [] \<and> (i = [] \<or> reason \<noteq> [] \<and> reason \<noteq> ''manual'')) \<and>
     \<not> (i \<noteq> [] \<and> compactProviderID s \<noteq> [] \<and> i \<noteq> compactProviderID s)"

definition endCompactionLocked :: "bool \<Rightarrow> string \<Rightarrow> string \<Rightarrow> string \<Rightarrow> bool option \<Rightarrow> session \<Rightarrow> session" where
  "endCompactionLocked isEnd i err reason willRetry s =
     (let exhausted = (isEnd \<and> reason = ''overflow'' \<and> willRetry = Some False \<and> err \<noteq> []) in
      if compactionMatches i reason s
      then
        let s1 = observeLiveActivityLocked s;
            s2 = (if exhausted then snd (rememberCompactionDiagnosticLocked i err s1) else s1)
        in finishCompactionLocked i err s2
      else if exhausted
      then (case rememberCompactionDiagnosticLocked i err s of
              (True, s1) \<Rightarrow> emit (NoticeFrame ''compaction_error'') s1
            | (False, s1) \<Rightarrow> s1)
      else s)"

section \<open>Loss, hydration and replacement\<close>

definition dropLatches :: "session \<Rightarrow> session" where
  "dropLatches s = s\<lparr>invalidated := True, resumable := True, promptInFlight := False, providerRunActive := False,
     compactionActive := False, localCommandActive := False\<rparr>"

definition markProviderUnloadedLocked :: "session \<Rightarrow> session" where
  "markProviderUnloadedLocked s = cancelIdleLocked (failQuestionsOnLossLocked (dropLatches s))"

definition invalidate :: "string \<Rightarrow> session \<Rightarrow> session" where
  "invalidate code s =
     (if closed s \<or> invalidated s then s
      else
        let s1 = s\<lparr>workAtLoss := workAtLoss s \<or> activeLocked s,
                   runAtLoss := runAtLoss s \<or> promptInFlight s \<or> providerRunActive s \<or> localCommandActive s,
                   compactionAtLoss := compactionAtLoss s \<or> compactionActive s\<rparr>
        in emit (ErrorFrame code) (cancelIdleLocked (failQuestionsOnLossLocked (dropLatches s1))))"

text \<open>What the engine says of its activity: \<open>None\<close> is an absent field.\<close>

definition hydrateActivityLocked :: "bool option \<Rightarrow> bool option \<Rightarrow> session \<Rightarrow> session" where
  "hydrateActivityLocked streaming compacting s =
     (let run0 = (case streaming of None \<Rightarrow> providerRunActive s | Some b \<Rightarrow> b);
          com0 = (case compacting of None \<Rightarrow> compactionActive s | Some b \<Rightarrow> b);
          unknown = (streaming = None \<or> compacting = None);
          run = (if unknown then run0 \<or> runAtLoss s else run0);
          com = (if unknown then com0 \<or> compactionAtLoss s else com0);
          work = (workAtLoss s \<and> (run \<or> com)) in
      s\<lparr>providerRunActive := run, compactionActive := com, workAtLoss := work, runAtLoss := work \<and> run,
        compactionAtLoss := work \<and> com,
        compactRPCID := (if com then compactRPCID s else []), compactProviderID := (if com then compactProviderID s else [])\<rparr>)"

definition newSession :: "string \<Rightarrow> string \<Rightarrow> bool \<Rightarrow> bool option \<Rightarrow> bool option \<Rightarrow> session" where
  "newSession durableID route resumed streaming compacting =
     (hydrateActivityLocked streaming compacting
       \<lparr>durable = durableID, routing = route, closed = False, closing = False, resumable = False, invalidated = False,
        quarantined = None, workAtLoss = False, runAtLoss = False, compactionAtLoss = False, hydrationPending = False,
        activityRevision = 0, promptInFlight = False, providerRunActive = False, compactionActive = False,
        localCommandActive = False, promptResponse = False, closeRunSettled = False, closeRunReason = [], promptSeq = 0,
        localCommandSeq = 0, compactSeq = 0, compactRPCID = [], compactProviderID = [], compactPhase = [],
        completedCompactions = {}, completedFIFO = [], completedUnpaired = [], diagnostics = [], closeTxn = None, nextTxn = 0,
        settledTxns = [], idleTimer = False, pendingApprovals = [], nextPtr = 0, nextTimer = 0, armed = [], due = [],
        answersWritten = [], published = [], settledCalls = 0, unresolvedSends = False, activeDetached = False,
        subscribers = 0\<rparr>)\<lparr>hydrationPending := resumed\<rparr>"

text \<open>The lineage check of the caller is \<open>sameLineage\<close>: same durable session, file and directory.\<close>

definition inheritWork :: "bool \<Rightarrow> session \<Rightarrow> bool option \<Rightarrow> bool option \<Rightarrow> session \<Rightarrow> session" where
  "inheritWork sameLineage prior streaming compacting s =
     (if \<not> sameLineage then s
      else
        let com = (compactionAtLoss prior \<or> compactionActive prior);
            s1 = s\<lparr>workAtLoss := workAtLoss prior \<or> activeLocked prior, compactionAtLoss := com,
                   runAtLoss := runAtLoss prior \<or> promptInFlight prior \<or> providerRunActive prior \<or> localCommandActive prior \<or>
                     workAtLoss prior \<and> \<not> com\<rparr>;
            s2 = (if com then s1\<lparr>compactSeq := compactSeq prior, compactRPCID := compactRPCID prior,
                                 compactProviderID := compactProviderID prior, compactPhase := compactPhase prior\<rparr> else s1)
        in hydrateActivityLocked streaming compacting s2)"

text \<open>The second half of \<open>QueryState\<close>: \<open>revision\<close> is the activity revision its first half saw.\<close>

definition applyQueriedState :: "64 word \<Rightarrow> bool option \<Rightarrow> bool option \<Rightarrow> session \<Rightarrow> session" where
  "applyQueriedState revision streaming compacting s =
     (if (hydrationPending s \<or> unresolvedSends s) \<and> revision = activityRevision s \<and> \<not> resumable s \<and> \<not> closed s
      then
        let s1 = hydrateActivityLocked streaming compacting s;
            s2 = s1\<lparr>hydrationPending := streaming = None \<or> compacting = None \<or> unresolvedSends s1\<rparr>
        in if activeLocked s2 \<or> recoveryWorkLocked s2 then cancelIdleLocked s2 else scheduleIdleLocked s2
      else s)"

definition quarantineExternalWrite :: "goerror \<Rightarrow> session \<Rightarrow> session" where
  "quarantineExternalWrite e s =
     (if closed s \<or> quarantined s \<noteq> None then s
      else emit (ErrorFrame ''external-write-detected'') (cancelIdleLocked (s\<lparr>quarantined := Some e\<rparr>)))"

text \<open>
  The questions a replacement takes over. The engine names a pending question by its dialog and request
  identifiers; the notices about questions that were closed meanwhile are collected.
\<close>

definition currentQuestion :: "approval \<Rightarrow> (string \<times> string) list \<Rightarrow> (string \<times> string) option" where
  "currentQuestion old qs =
     List.find (\<lambda>(i, r). r \<noteq> [] \<and> r = aRequest old \<or> r = [] \<and> i = aID old) qs"

definition reconcileQuestion ::
  "(string \<times> string) list \<Rightarrow> approval \<Rightarrow> session \<times> session \<times> (string \<times> bool) list \<Rightarrow> session \<times> session \<times> (string \<times> bool) list" where
  "reconcileQuestion qs old w =
     (case w of (s, prior, notices) \<Rightarrow>
        if \<not> aQuestion old then w
        else case currentQuestion old qs of
          None \<Rightarrow> (s, resolveApprovalLocked (aID old) ''closed_while_disconnected'' prior, notices @ [(aID old, submitted old \<noteq> None)])
        | Some (i, r) \<Rightarrow>
            (let s1 = upsertApprovalLocked i r True s in
             case List.find (\<lambda>p. aID p = i \<and> aRequest p = r) (pendingApprovals s1) of
               None \<Rightarrow> (s1, prior, notices)
             | Some p \<Rightarrow>
                 (let s2 = updateApproval (aPtr p)
                             (\<lambda>q. q\<lparr>submitted := submitted old, aDelivery := (if aDelivery q = None then aDelivery old else aDelivery q),
                                    aDeliveryError := (if aDelivery q = None then aDeliveryError old else aDeliveryError q),
                                    aShown := (if aDelivery q = None then aShown old else aShown q)\<rparr>) s1
                  in (if delivering old then setQuestionDeliveryLocked (aPtr p) ''failed'' ''unconfirmed'' s2 else s2, prior, notices))))"

definition inheritQuestions ::
  "bool \<Rightarrow> session \<Rightarrow> (string \<times> string) list \<Rightarrow> session \<Rightarrow> session \<times> session \<times> (string \<times> bool) list" where
  "inheritQuestions sameLineage prior qs s =
     (case (if sameLineage then fold (reconcileQuestion qs) (pendingApprovals prior) (s, prior, []) else (s, prior, [])) of
        (s1, prior1, notices) \<Rightarrow>
          (fold (\<lambda>(i, r) s. if pendingByID i s \<noteq> None then s else upsertApprovalLocked i r True s) qs s1, prior1, notices))"

section \<open>Closing\<close>

definition definitiveCloseFailure :: "goerror option \<Rightarrow> bool" where
  "definitiveCloseFailure e =
     (case e of None \<Rightarrow> True
      | Some x \<Rightarrow> (case asStable (causes x) of None \<Rightarrow> False
                  | Some code \<Rightarrow> code = ''unknown_session'' \<or> code = ''session_closing''))"

definition beginCloseLocked :: "bool \<Rightarrow> session \<Rightarrow> session" where
  "beginCloseLocked idle s =
     cancelIdleLocked (s\<lparr>closeTxn := Some (nextTxn s, idle), nextTxn := Suc (nextTxn s), closing := True\<rparr>)"

text \<open>\<open>closeContext\<close>: the transaction the caller waits for or runs, and whether it runs it.\<close>

definition closeContext :: "session \<Rightarrow> (nat \<times> bool) option \<times> session" where
  "closeContext s =
     (if closed s then (None, s)
      else case closeTxn s of
        Some (t, idle) \<Rightarrow> (Some (t, False), s)
      | None \<Rightarrow> (Some (nextTxn s, True), beginCloseLocked False s))"

definition evictable :: "session \<Rightarrow> bool" where
  "evictable s \<longleftrightarrow> \<not> (closed s \<or> closing s \<or> resumable s \<or> activeLocked s \<or> recoveryWorkLocked s \<or> subscribers s \<noteq> 0 \<or> activeDetached s)"

definition evict :: "bool \<Rightarrow> session \<Rightarrow> session" where
  "evict isCurrent s = (if \<not> evictable s \<or> \<not> isCurrent then s else beginCloseLocked True s)"

definition reconcileFailedCloseLocked :: "session \<Rightarrow> session" where
  "reconcileFailedCloseLocked s =
     (if \<not> closeRunSettled s then s
      else completeProviderRunLocked (closeRunReason s) (s\<lparr>closeRunSettled := False, closeRunReason := []\<rparr>))"

definition completeClose :: "nat \<Rightarrow> bool \<Rightarrow> goerror option \<Rightarrow> bool \<Rightarrow> session \<Rightarrow> session" where
  "completeClose t idle callErr managerClosed s =
     (let settle = (\<lambda>s. s\<lparr>settledTxns := settledTxns s @ [(t, callErr)]\<rparr>) in
      if \<not> definitiveCloseFailure callErr \<and> \<not> managerClosed
      then settle
        (if closed s then s
         else let s1 = s\<lparr>closing := False, closeTxn := None\<rparr> in
           if errorsIs callErr ErrDisconnected then s1 else scheduleIdleLocked (reconcileFailedCloseLocked s1))
      else settle
        (if closed s then s
         else
           let s1 = cancelIdleLocked ((stopQuestionTimersLocked (s\<lparr>closed := True\<rparr>))
                 \<lparr>closing := False, closeTxn := None, closeRunSettled := False, closeRunReason := []\<rparr>)
           in if idle then emit (ErrorFrame ''session_unloaded'') s1 else s1))"

definition retireReplaced :: "session \<Rightarrow> session" where
  "retireReplaced s = cancelIdleLocked (stopQuestionTimersLocked (s\<lparr>closed := True\<rparr>))"

section \<open>Provider events\<close>

text \<open>
  The events that reach latches, compactions or asks. An event whose payload is only passed on to subscribers
  is \<open>OtherEvent\<close>; events that publish nothing (turn markers, goal activations) are no events of the model.
  The fields of an event are decoded by the time it is dispatched.
\<close>

datatype providerEvent =
    AgentStart
  | AgentSettled string
  | CommandInvocation bool
  | CompactionStart string string
  | CompactionEnd bool string string string "bool option"
  | Unloaded
  | CloseResponse bool
  | ResponseRejected string string
  | UIRequest string string string
  | QuestionResolved string string
  | QuestionUpdated string
  | OtherEvent string

definition responseRejected :: "string \<Rightarrow> string \<Rightarrow> session \<Rightarrow> session" where
  "responseRejected i reason s =
     (let report = emit (ErrorFrame ''provider_error'') in
      case pendingByID i s of
        Some p \<Rightarrow>
          (if aQuestion p \<and> reason = ''question_incomplete''
           then report (setQuestionDeliveryLocked (aPtr p) ''failed'' reason
                  (updateApproval (aPtr p) (\<lambda>q. q\<lparr>delivering := False\<rparr>) (stopTimers p s)))
           else if aQuestion p \<and> reason = ''question_already_resolved''
           then resolveApprovalLocked i (if delivering p then ''answered'' else ''already_resolved'') s
           else report (resolveApprovalLocked i ''expired'' s))
      | None \<Rightarrow> report (resolveApprovalLocked i ''expired'' s))"

definition uiRequest :: "string \<Rightarrow> string \<Rightarrow> string \<Rightarrow> session \<Rightarrow> session" where
  "uiRequest method i requestID s =
     (if method = ''notify'' then emit (NoticeFrame ''engine_notify'') s
      else case approvalAwaitsAnswer method of
        (awaits, known) \<Rightarrow>
          (if awaits \<or> \<not> known
           then let s1 = upsertApprovalLocked i requestID (method = ''question'') s in
             (case pendingByID i s1 of None \<Rightarrow> s1 | Some p \<Rightarrow> emit (viewOf p) s1)
           else emit (ApprovalFrame i requestID None None None) s))"

definition dispatch :: "providerEvent \<Rightarrow> session \<Rightarrow> session" where
  "dispatch ev s =
     (if closed s \<or> resumable s then s
      else if closing s
      then (case ev of
              AgentSettled reason \<Rightarrow>
                (if \<not> closeRunSettled s \<and> (providerRunActive s \<or> promptInFlight s \<or> localCommandActive s)
                 then s\<lparr>closeRunSettled := True, closeRunReason := reason\<rparr> else s)
            | _ \<Rightarrow> s)
      else case ev of
        AgentStart \<Rightarrow>
          (let s1 = observeLiveActivityLocked s in
           if \<not> providerRunActive s1 then emit RunStarted (cancelIdleLocked (s1\<lparr>providerRunActive := True\<rparr>)) else s1)
      | AgentSettled reason \<Rightarrow>
          (if \<not> providerRunActive s \<and> \<not> promptInFlight s then s
           else completeProviderRunLocked reason (observeLiveActivityLocked s))
      | CommandInvocation isExtension \<Rightarrow>
          (if isExtension \<and> promptInFlight s
           then let s1 = s\<lparr>localCommandActive := True, localCommandSeq := promptSeq s\<rparr> in
             if promptResponse s1 then completeLocalCommandLocked (promptSeq s1) s1 else s1
           else s)
      | CompactionStart i reason \<Rightarrow> beginCompactionLocked i reason (observeLiveActivityLocked s)
      | CompactionEnd isEnd i err reason willRetry \<Rightarrow> endCompactionLocked isEnd i err reason willRetry s
      | Unloaded \<Rightarrow> markProviderUnloadedLocked s
      | CloseResponse success \<Rightarrow> (if success then markProviderUnloadedLocked s else s)
      | ResponseRejected i reason \<Rightarrow> responseRejected i reason s
      | UIRequest method i requestID \<Rightarrow> uiRequest method i requestID s
      | QuestionResolved i outcome \<Rightarrow> (case pendingByID i s of None \<Rightarrow> s | Some p \<Rightarrow> resolveApprovalLocked i outcome s)
      | QuestionUpdated i \<Rightarrow>
          (case pendingByID i s of None \<Rightarrow> s | Some p \<Rightarrow> (if aQuestion p then emit (viewOf p) s else s))
      | OtherEvent kind \<Rightarrow> emit (Passed kind) s)"

section \<open>Steps\<close>

text \<open>
  \<open>Expire\<close> is a timer of the runtime that runs out, \<open>Due\<close> its callback once it has the lock.
  \<open>Environment\<close> sets what other locks guard.
\<close>

datatype sessEvent =
    Prompt
  | PromptDone "64 word" bool
  | Compact
  | CompactDone "64 word" string
  | Provider providerEvent
  | Invalidate string
  | RouteLost
  | Queried "64 word" "bool option" "bool option"
  | Quarantine goerror
  | CloseCall
  | Evict bool
  | CloseDone nat bool "goerror option" bool
  | Retire
  | Respond string string string "goerror option" "goerror option"
  | Progress string string
  | Expire nat
  | Due nat
  | AttachSub
  | DetachSub
  | Rearm
  | Environment bool bool

definition runDue :: "nat \<Rightarrow> session \<Rightarrow> session" where
  "runDue t s =
     (case List.find (\<lambda>x. tNo x = t) (due s) of
        None \<Rightarrow> s
      | Some x \<Rightarrow>
          (let s1 = s\<lparr>due := filter (\<lambda>y. tNo y \<noteq> t) (due s)\<rparr> in
           if tConfirm x then confirmCallback (tPtr x) (tID x) s1 else snd (progressCallback (tPtr x) (tID x) s1)))"

definition sessStep :: "sessEvent \<Rightarrow> session \<Rightarrow> session" where
  "sessStep ev s =
     (case ev of
        Prompt \<Rightarrow> snd (admitPrompt s)
      | PromptDone n failed \<Rightarrow> completePrompt n failed s
      | Compact \<Rightarrow> snd (admitCompact s)
      | CompactDone n err \<Rightarrow> completeCompact n (compactID n) err s
      | Provider e \<Rightarrow> dispatch e s
      | Invalidate code \<Rightarrow> invalidate code s
      | RouteLost \<Rightarrow> (if \<not> closed s \<and> \<not> invalidated s then markProviderUnloadedLocked s else s)
      | Queried revision streaming compacting \<Rightarrow> applyQueriedState revision streaming compacting s
      | Quarantine e \<Rightarrow> quarantineExternalWrite e s
      | CloseCall \<Rightarrow> snd (closeContext s)
      | Evict isCurrent \<Rightarrow> evict isCurrent s
      | CloseDone t idle e managerClosed \<Rightarrow>
          (if t < nextTxn s \<and> t \<notin> fst ` set (settledTxns s) then completeClose t idle e managerClosed s else s)
      | Retire \<Rightarrow> retireReplaced s
      | Respond i requestID answer prep write \<Rightarrow> snd (respondExtensionUI i requestID answer prep write s)
      | Progress i draft \<Rightarrow> ProgressApproval i draft s
      | Expire t \<Rightarrow> s\<lparr>due := due s @ filter (\<lambda>x. tNo x = t) (armed s), armed := filter (\<lambda>x. tNo x \<noteq> t) (armed s)\<rparr>
      | Due t \<Rightarrow> runDue t s
      | AttachSub \<Rightarrow>
          (case routeLocked s of Inl e \<Rightarrow> s | Inr r \<Rightarrow> (cancelIdleLocked s)\<lparr>subscribers := Suc (subscribers s)\<rparr>)
      | DetachSub \<Rightarrow> scheduleIdleLocked (s\<lparr>subscribers := subscribers s - 1\<rparr>)
      | Rearm \<Rightarrow> scheduleIdleLocked s
      | Environment unresolved detached \<Rightarrow> s\<lparr>unresolvedSends := unresolved, activeDetached := detached\<rparr>)"

definition sessRun :: "sessEvent list \<Rightarrow> session \<Rightarrow> session" where
  "sessRun evs s = fold sessStep evs s"

end
