(* ===== verification/SessionLifecycle.thy ===== *)
theory SessionLifecycle
  imports SessionRuns
begin

text \<open>
  Which parts of the state the operations on asks leave alone, and the invariant of the idle timer: it runs on
  idle sessions only.
\<close>

section \<open>Operations on asks\<close>

text \<open>They touch the asks and their timers and publish frames about asks only.\<close>

definition askless :: "session \<Rightarrow> session" where
  "askless s = s\<lparr>pendingApprovals := [], nextPtr := 0, nextTimer := 0, armed := [], due := [], answersWritten := [], published := []\<rparr>"

fun aboutAsks :: "sessFrame \<Rightarrow> bool" where
  "aboutAsks (Ack i r) = True"
| "aboutAsks (ApprovalFrame i r d e a) = True"
| "aboutAsks (ApprovalResolved i out) = True"
| "aboutAsks (ErrorFrame c) = True"
| "aboutAsks (NoticeFrame k) = True"
| "aboutAsks (Passed k) = True"
| "aboutAsks _ = False"

definition asksOnly :: "session \<Rightarrow> session \<Rightarrow> bool" where
  "asksOnly s s' \<longleftrightarrow> askless s' = askless s \<and> (\<exists>new. published s' = published s @ new \<and> (\<forall>f \<in> set new. aboutAsks f))"

lemma asksOnly_refl [simp, intro]: "asksOnly s s"
  by (simp add: asksOnly_def)

lemma asksOnly_trans:
  assumes "asksOnly a b" "asksOnly b c"
  shows "asksOnly a c"
proof -
  obtain m n where "published b = published a @ m" "\<forall>f \<in> set m. aboutAsks f" "published c = published b @ n" "\<forall>f \<in> set n. aboutAsks f"
    using assms by (auto simp: asksOnly_def)
  then show ?thesis
    using assms by (auto simp: asksOnly_def)
qed

lemma asksOnly_emit: "aboutAsks f \<Longrightarrow> asksOnly s (emit f s)"
  by (simp add: asksOnly_def emit_def askless_def)

lemma asksOnly_updateApproval: "asksOnly s (updateApproval k f s)"
  by (simp add: asksOnly_def updateApproval_def askless_def)

lemma asksOnly_stopTimer: "asksOnly s (stopTimer t s)"
  by (simp add: asksOnly_def stopTimer_def askless_def split: option.splits)

lemma asksOnly_stopTimers: "asksOnly s (stopTimers p s)"
  unfolding stopTimers_def by (meson asksOnly_trans asksOnly_updateApproval asksOnly_stopTimer)

lemma asksOnly_set: "asksOnly s (setQuestionDeliveryLocked k d r s)"
  unfolding setQuestionDeliveryLocked_def Let_def
  by (auto split: option.splits simp: viewOf_def intro: asksOnly_updateApproval asksOnly_trans[OF asksOnly_updateApproval asksOnly_emit])

lemma asksOnly_failDelivery: "asksOnly s (failDelivery p s)"
  unfolding failDelivery_def by (auto intro: asksOnly_trans[OF asksOnly_updateApproval asksOnly_set])

lemma asksOnly_upsert: "asksOnly s (upsertApprovalLocked i r q s)"
proof (cases "List.find (\<lambda>p. aID p = i \<or> r \<noteq> [] \<and> aRequest p = r) (pendingApprovals s)")
  case None
  then show ?thesis
    by (simp add: upsertApprovalLocked_def asksOnly_def askless_def)
next
  case (Some p)
  then show ?thesis
    unfolding upsertApprovalLocked_def
    by (auto intro: asksOnly_trans[OF asksOnly_trans[OF asksOnly_stopTimers asksOnly_failDelivery] asksOnly_updateApproval])
qed

lemma asksOnly_remove: "asksOnly s (removeApprovalLocked i s)"
proof (cases "pendingByID i s")
  case (Some p)
  have "asksOnly (stopTimers p s) ((stopTimers p s)\<lparr>pendingApprovals := x\<rparr>)" for x
    by (simp add: asksOnly_def askless_def)
  then show ?thesis
    using Some by (auto simp: removeApprovalLocked_def intro: asksOnly_trans[OF asksOnly_stopTimers])
qed (simp add: removeApprovalLocked_def)

lemma asksOnly_resolve: "asksOnly s (resolveApprovalLocked i out s)"
  unfolding resolveApprovalLocked_def by (rule asksOnly_trans[OF asksOnly_remove asksOnly_emit]) simp

lemma asksOnly_failOnLoss: "asksOnly s (failOnLoss p s)"
  unfolding failOnLoss_def by (auto intro: asksOnly_resolve asksOnly_trans[OF asksOnly_stopTimers asksOnly_failDelivery])

lemma asksOnly_failFrom: "asksOnly s (failFrom n s)"
  by (induction n s rule: failFrom.induct) (auto intro: asksOnly_trans[OF asksOnly_failOnLoss])

lemma asksOnly_failQuestions: "asksOnly s (failQuestionsOnLossLocked s)"
  by (simp add: failQuestionsOnLossLocked_def asksOnly_failFrom)

lemma asksOnly_fold: "(\<And>x s. asksOnly s (f x s)) \<Longrightarrow> asksOnly s (fold f xs s)"
  by (induction xs arbitrary: s) (auto intro: asksOnly_trans)

lemma asksOnly_stopQuestionTimers: "asksOnly s (stopQuestionTimersLocked s)"
  unfolding stopQuestionTimersLocked_def by (rule asksOnly_fold) (rule asksOnly_stopTimers)

lemma asksOnly_armTimer: "asksOnly s (armTimer c k i s)"
  by (simp add: asksOnly_def armTimer_def askless_def)

lemma asksOnly_written: "asksOnly s (s\<lparr>answersWritten := x\<rparr>)"
  by (simp add: asksOnly_def askless_def)

lemma asksOnly_expire: "asksOnly s (case pendingByID i s of Some p \<Rightarrow> if \<not> aQuestion p then resolveApprovalLocked i x s else s | None \<Rightarrow> s)"
  by (auto split: option.splits intro: asksOnly_resolve)

lemma asksOnly_respond: "asksOnly s (snd (respondExtensionUI i r a prep write s))"
  unfolding respondExtensionUI_def Let_def
  by (auto split: option.splits sum.splits if_splits
      intro: asksOnly_resolve asksOnly_trans[OF _ asksOnly_emit] asksOnly_trans[OF asksOnly_written asksOnly_remove]
        asksOnly_trans[OF asksOnly_trans[OF asksOnly_trans[OF asksOnly_trans[OF asksOnly_trans[OF asksOnly_written asksOnly_stopTimers]
          asksOnly_updateApproval] asksOnly_set] asksOnly_armTimer] asksOnly_updateApproval])

lemma asksOnly_progress: "asksOnly s (ProgressApproval i d s)"
  unfolding ProgressApproval_def Let_def
  by (auto split: option.splits if_splits intro: asksOnly_updateApproval
      asksOnly_trans[OF asksOnly_trans[OF asksOnly_updateApproval asksOnly_armTimer] asksOnly_updateApproval])

lemma asksOnly_callbacks: "asksOnly s (confirmCallback k i s)" "asksOnly s (snd (progressCallback k i s))"
  by (auto simp: confirmCallback_def progressCallback_def split: option.splits
      intro: asksOnly_updateApproval asksOnly_trans[OF asksOnly_updateApproval asksOnly_set])

lemma asksOnly_due: "asksOnly s (s\<lparr>due := x\<rparr>)"
  by (simp add: asksOnly_def askless_def)

lemma asksOnly_runDue: "asksOnly s (runDue t s)"
  unfolding runDue_def Let_def
  by (auto split: option.splits intro: asksOnly_trans[OF asksOnly_due asksOnly_callbacks(1)] asksOnly_trans[OF asksOnly_due asksOnly_callbacks(2)])

lemma asksOnly_expireTimer: "asksOnly s (s\<lparr>due := x, armed := y\<rparr>)"
  by (simp add: asksOnly_def askless_def)

lemmas asksOnly_ops = asksOnly_emit asksOnly_upsert asksOnly_resolve asksOnly_failQuestions asksOnly_stopQuestionTimers asksOnly_respond
  asksOnly_progress asksOnly_runDue asksOnly_expireTimer

lemma asksOnly_rejected: "asksOnly s (responseRejected i reason s)"
  unfolding responseRejected_def Let_def
  by (auto split: option.splits intro!: asksOnly_trans[OF _ asksOnly_emit] intro: asksOnly_resolve
      asksOnly_trans[OF asksOnly_trans[OF asksOnly_stopTimers asksOnly_updateApproval] asksOnly_set])

lemma asksOnly_uiRequest: "asksOnly s (uiRequest m i r s)"
  unfolding uiRequest_def Let_def
  by (auto split: option.splits prod.splits simp: viewOf_def intro!: asksOnly_emit asksOnly_upsert asksOnly_trans[OF asksOnly_upsert asksOnly_emit])

section \<open>Fields the asks leave alone\<close>

lemma asksOnly_fields:
  assumes "asksOnly s s'"
  shows "closed s' = closed s" "closing s' = closing s" "resumable s' = resumable s" "invalidated s' = invalidated s"
    "quarantined s' = quarantined s" "workAtLoss s' = workAtLoss s" "runAtLoss s' = runAtLoss s"
    "compactionAtLoss s' = compactionAtLoss s" "promptInFlight s' = promptInFlight s" "providerRunActive s' = providerRunActive s"
    "compactionActive s' = compactionActive s" "localCommandActive s' = localCommandActive s" "idleTimer s' = idleTimer s"
    "completedCompactions s' = completedCompactions s" "completedFIFO s' = completedFIFO s" "completedUnpaired s' = completedUnpaired s"
    "diagnostics s' = diagnostics s" "unresolvedSends s' = unresolvedSends s" "activeDetached s' = activeDetached s"
    "subscribers s' = subscribers s" "compactRPCID s' = compactRPCID s" "compactProviderID s' = compactProviderID s"
    "closeRunSettled s' = closeRunSettled s" "closeRunReason s' = closeRunReason s" "compactSeq s' = compactSeq s"
    "compactPhase s' = compactPhase s" "closeTxn s' = closeTxn s" "promptSeq s' = promptSeq s"
proof -
  have same: "askless s' = askless s"
    using assms by (simp add: asksOnly_def)
  show "closed s' = closed s" using arg_cong[OF same, of closed] by (simp add: askless_def)
  show "closing s' = closing s" using arg_cong[OF same, of closing] by (simp add: askless_def)
  show "resumable s' = resumable s" using arg_cong[OF same, of resumable] by (simp add: askless_def)
  show "invalidated s' = invalidated s" using arg_cong[OF same, of invalidated] by (simp add: askless_def)
  show "quarantined s' = quarantined s" using arg_cong[OF same, of quarantined] by (simp add: askless_def)
  show "workAtLoss s' = workAtLoss s" using arg_cong[OF same, of workAtLoss] by (simp add: askless_def)
  show "runAtLoss s' = runAtLoss s" using arg_cong[OF same, of runAtLoss] by (simp add: askless_def)
  show "compactionAtLoss s' = compactionAtLoss s" using arg_cong[OF same, of compactionAtLoss] by (simp add: askless_def)
  show "promptInFlight s' = promptInFlight s" using arg_cong[OF same, of promptInFlight] by (simp add: askless_def)
  show "providerRunActive s' = providerRunActive s" using arg_cong[OF same, of providerRunActive] by (simp add: askless_def)
  show "compactionActive s' = compactionActive s" using arg_cong[OF same, of compactionActive] by (simp add: askless_def)
  show "localCommandActive s' = localCommandActive s" using arg_cong[OF same, of localCommandActive] by (simp add: askless_def)
  show "idleTimer s' = idleTimer s" using arg_cong[OF same, of idleTimer] by (simp add: askless_def)
  show "completedCompactions s' = completedCompactions s" using arg_cong[OF same, of completedCompactions] by (simp add: askless_def)
  show "completedFIFO s' = completedFIFO s" using arg_cong[OF same, of completedFIFO] by (simp add: askless_def)
  show "completedUnpaired s' = completedUnpaired s" using arg_cong[OF same, of completedUnpaired] by (simp add: askless_def)
  show "diagnostics s' = diagnostics s" using arg_cong[OF same, of diagnostics] by (simp add: askless_def)
  show "unresolvedSends s' = unresolvedSends s" using arg_cong[OF same, of unresolvedSends] by (simp add: askless_def)
  show "activeDetached s' = activeDetached s" using arg_cong[OF same, of activeDetached] by (simp add: askless_def)
  show "subscribers s' = subscribers s" using arg_cong[OF same, of subscribers] by (simp add: askless_def)
  show "compactRPCID s' = compactRPCID s" using arg_cong[OF same, of compactRPCID] by (simp add: askless_def)
  show "compactProviderID s' = compactProviderID s" using arg_cong[OF same, of compactProviderID] by (simp add: askless_def)
  show "closeRunSettled s' = closeRunSettled s" using arg_cong[OF same, of closeRunSettled] by (simp add: askless_def)
  show "closeRunReason s' = closeRunReason s" using arg_cong[OF same, of closeRunReason] by (simp add: askless_def)
  show "compactSeq s' = compactSeq s" using arg_cong[OF same, of compactSeq] by (simp add: askless_def)
  show "compactPhase s' = compactPhase s" using arg_cong[OF same, of compactPhase] by (simp add: askless_def)
  show "closeTxn s' = closeTxn s" using arg_cong[OF same, of closeTxn] by (simp add: askless_def)
  show "promptSeq s' = promptSeq s" using arg_cong[OF same, of promptSeq] by (simp add: askless_def)
qed

text \<open>A step of the session by what it does to the asks: all the others keep the asks out of it.\<close>

fun asksEvent :: "sessEvent \<Rightarrow> bool" where
  "asksEvent (Respond i r a p w) = True"
| "asksEvent (Progress i d) = True"
| "asksEvent (Expire t) = True"
| "asksEvent (Due t) = True"
| "asksEvent (Provider (ResponseRejected i r)) = True"
| "asksEvent (Provider (UIRequest m i r)) = True"
| "asksEvent (Provider (QuestionResolved i out)) = True"
| "asksEvent (Provider (QuestionUpdated i)) = True"
| "asksEvent (Provider (OtherEvent k)) = True"
| "asksEvent _ = False"

lemma asksEvent_step:
  assumes "asksEvent ev"
  shows "asksOnly s (sessStep ev s)"
proof (cases ev)
  case (Provider e)
  then show ?thesis
    using assms asksOnly_rejected asksOnly_uiRequest
    by (cases e) (auto simp: sessStep_def dispatch_def viewOf_def split: option.splits intro: asksOnly_emit asksOnly_resolve)
qed (use assms in \<open>auto simp: sessStep_def intro: asksOnly_ops\<close>)

section \<open>The idle timer\<close>

definition idleInv :: "session \<Rightarrow> bool" where
  "idleInv s \<longleftrightarrow>
     (idleTimer s \<longrightarrow> \<not> closed s \<and> \<not> closing s \<and> \<not> resumable s \<and> quarantined s = None \<and> \<not> activeLocked s \<and> \<not> workAtLoss s)"

lemma idleInv_asks: "asksOnly s s' \<Longrightarrow> idleInv s \<Longrightarrow> idleInv s'"
  using asksOnly_fields[of s s'] by (simp add: idleInv_def activeLocked_def)

lemma idleInv_off: "\<not> idleTimer s \<Longrightarrow> idleInv s"
  by (simp add: idleInv_def)

lemma schedule_fields [simp]:
  "closed (scheduleIdleLocked s) = closed s" "closing (scheduleIdleLocked s) = closing s" "resumable (scheduleIdleLocked s) = resumable s"
  "quarantined (scheduleIdleLocked s) = quarantined s" "workAtLoss (scheduleIdleLocked s) = workAtLoss s"
  "activeLocked (scheduleIdleLocked s) = activeLocked s" "published (scheduleIdleLocked s) = published s"
  "compactionActive (scheduleIdleLocked s) = compactionActive s" "promptInFlight (scheduleIdleLocked s) = promptInFlight s"
  "providerRunActive (scheduleIdleLocked s) = providerRunActive s" "localCommandActive (scheduleIdleLocked s) = localCommandActive s"
  "completedCompactions (scheduleIdleLocked s) = completedCompactions s" "completedFIFO (scheduleIdleLocked s) = completedFIFO s"
  "completedUnpaired (scheduleIdleLocked s) = completedUnpaired s" "diagnostics (scheduleIdleLocked s) = diagnostics s"
  "pendingApprovals (scheduleIdleLocked s) = pendingApprovals s" "armed (scheduleIdleLocked s) = armed s" "due (scheduleIdleLocked s) = due s"
  "nextTimer (scheduleIdleLocked s) = nextTimer s" "nextPtr (scheduleIdleLocked s) = nextPtr s"
  by (simp_all add: scheduleIdleLocked_def cancelIdleLocked_def activeLocked_def)

lemma idleInv_schedule: "idleInv s \<or> \<not> idleTimer s \<Longrightarrow> idleInv (scheduleIdleLocked s)"
  by (auto simp: idleInv_def scheduleIdleLocked_def mayIdle_def cancelIdleLocked_def activeLocked_def recoveryWorkLocked_def)

lemma remember_eq:
  "\<exists>a b. rememberCompletedCompactionLocked ids s = s\<lparr>completedCompactions := a, completedFIFO := b\<rparr>"
proof -
  have id: "\<exists>a b. s = s\<lparr>completedCompactions := a, completedFIFO := b\<rparr>"
    by (intro exI[of _ "completedCompactions s"] exI[of _ "completedFIFO s"]) simp
  show ?thesis
    unfolding rememberCompletedCompactionLocked_def Let_def using id by (auto split: prod.splits)
qed

lemma remember_fields [simp]:
  "closed (rememberCompletedCompactionLocked ids s) = closed s" "closing (rememberCompletedCompactionLocked ids s) = closing s"
  "resumable (rememberCompletedCompactionLocked ids s) = resumable s" "quarantined (rememberCompletedCompactionLocked ids s) = quarantined s"
  "workAtLoss (rememberCompletedCompactionLocked ids s) = workAtLoss s" "promptInFlight (rememberCompletedCompactionLocked ids s) = promptInFlight s"
  "providerRunActive (rememberCompletedCompactionLocked ids s) = providerRunActive s"
  "compactionActive (rememberCompletedCompactionLocked ids s) = compactionActive s"
  "localCommandActive (rememberCompletedCompactionLocked ids s) = localCommandActive s"
  "idleTimer (rememberCompletedCompactionLocked ids s) = idleTimer s" "published (rememberCompletedCompactionLocked ids s) = published s"
  "completedUnpaired (rememberCompletedCompactionLocked ids s) = completedUnpaired s"
  "diagnostics (rememberCompletedCompactionLocked ids s) = diagnostics s"
  "compactPhase (rememberCompletedCompactionLocked ids s) = compactPhase s"
  using remember_eq[of ids s] by auto

lemma diagnostic_eq: "\<exists>d. snd (rememberCompactionDiagnosticLocked i e s) = s\<lparr>diagnostics := d\<rparr>"
proof -
  have same: "\<exists>d. s = s\<lparr>diagnostics := d\<rparr>"
    by (rule exI[of _ "diagnostics s"]) simp
  show ?thesis
  proof (cases "(i, e) \<in> set (diagnostics s)")
    case True
    then show ?thesis
      using same by (simp add: rememberCompactionDiagnosticLocked_def)
  qed (auto simp: rememberCompactionDiagnosticLocked_def)
qed

lemma settle_fields [simp]:
  "closed (settleIfQuiet s) = closed s" "closing (settleIfQuiet s) = closing s" "resumable (settleIfQuiet s) = resumable s"
  "quarantined (settleIfQuiet s) = quarantined s" "workAtLoss (settleIfQuiet s) = workAtLoss s" "idleTimer (settleIfQuiet s) = idleTimer s"
  "promptInFlight (settleIfQuiet s) = promptInFlight s" "providerRunActive (settleIfQuiet s) = providerRunActive s"
  "compactionActive (settleIfQuiet s) = compactionActive s" "localCommandActive (settleIfQuiet s) = localCommandActive s"
  "published (settleIfQuiet s) = published s" "completedCompactions (settleIfQuiet s) = completedCompactions s"
  "completedFIFO (settleIfQuiet s) = completedFIFO s" "completedUnpaired (settleIfQuiet s) = completedUnpaired s"
  "diagnostics (settleIfQuiet s) = diagnostics s"
  by (simp_all add: settleIfQuiet_def notifyRunSettledLocked_def)

lemma idleInv_cong:
  assumes "idleInv s" "idleTimer s' = idleTimer s" "closed s' = closed s" "closing s' = closing s" "resumable s' = resumable s"
    "quarantined s' = quarantined s" "workAtLoss s' = workAtLoss s" "activeLocked s' = activeLocked s"
  shows "idleInv s'"
  using assms by (simp add: idleInv_def)

lemma idleInv_settle: "idleInv (settleIfQuiet s) = idleInv s"
  by (simp add: idleInv_def activeLocked_def)

lemma idle_finishCompaction: "\<not> idleTimer s \<Longrightarrow> idleInv (finishCompactionLocked i e s)"
  unfolding finishCompactionLocked_def Let_def idleInv_settle by (rule idleInv_schedule) (simp add: emit_def)

lemma idle_completeRun:
  assumes "\<not> idleTimer s"
  shows "idleInv (completeProviderRunLocked reason s)"
proof -
  define s1 where "s1 = (if compactionActive s \<and> compactRPCID s = [] then finishCompactionLocked [] [] s else s)"
  define s2 where "s2 = emit (RunDone reason) (s1\<lparr>providerRunActive := False, promptInFlight := False, localCommandActive := False,
      promptResponse := False, runAtLoss := False, workAtLoss := compactionActive s1\<rparr>)"
  have "idleInv s1"
    using assms idle_finishCompaction idleInv_off by (auto simp: s1_def)
  then have "idleInv s2 \<or> \<not> idleTimer s2"
    by (auto simp: s2_def idleInv_def emit_def activeLocked_def)
  then have "idleInv (scheduleIdleLocked s2)"
    by (rule idleInv_schedule)
  then show ?thesis
    by (simp add: completeProviderRunLocked_def Let_def s1_def[symmetric] s2_def[symmetric] notifyRunSettledLocked_def idleInv_def activeLocked_def)
qed

lemma idle_localCommand: "idleInv s \<Longrightarrow> idleInv (completeLocalCommandLocked n s)"
  unfolding completeLocalCommandLocked_def
  by (auto simp: notifyRunSettledLocked_def emit_def idleInv_def scheduleIdleLocked_def mayIdle_def cancelIdleLocked_def activeLocked_def recoveryWorkLocked_def)

lemma idle_active: "idleInv s \<Longrightarrow> activeLocked s \<Longrightarrow> \<not> idleTimer s"
  by (simp add: idleInv_def)

lemma idle_endCompaction:
  assumes "idleInv s"
  shows "idleInv (endCompactionLocked isEnd i e r w s)"
proof (cases "compactionMatches i r s")
  case True
  then have off: "\<not> idleTimer s"
    using assms by (auto simp: compactionMatches_def idleInv_def activeLocked_def)
  obtain d where d: "snd (rememberCompactionDiagnosticLocked i e (observeLiveActivityLocked s)) = (observeLiveActivityLocked s)\<lparr>diagnostics := d\<rparr>"
    using diagnostic_eq by blast
  then have "\<not> idleTimer (if b then snd (rememberCompactionDiagnosticLocked i e (observeLiveActivityLocked s)) else observeLiveActivityLocked s)" for b
    using off by (simp add: observeLiveActivityLocked_def)
  then show ?thesis
    using True idle_finishCompaction by (simp add: endCompactionLocked_def Let_def)
next
  case False
  obtain d where "snd (rememberCompactionDiagnosticLocked i e s) = s\<lparr>diagnostics := d\<rparr>"
    using diagnostic_eq by blast
  then show ?thesis
    using False assms
    by (auto simp: endCompactionLocked_def Let_def idleInv_def emit_def activeLocked_def split: prod.splits bool.splits)
qed

lemma idle_lost: "idleInv (markProviderUnloadedLocked s)" "idleInv s \<Longrightarrow> idleInv (invalidate code s)"
  by (auto simp: markProviderUnloadedLocked_def invalidate_def Let_def emit_def cancelIdleLocked_def intro: idleInv_off)

lemma idle_dispatch:
  assumes inv: "idleInv s"
  shows "idleInv (dispatch ev s)"
proof (cases "closed s \<or> resumable s \<or> closing s")
  case True
  then show ?thesis
    using inv by (auto simp: dispatch_def idleInv_def activeLocked_def split: providerEvent.splits)
next
  case live: False
  show ?thesis
  proof (cases ev)
    case AgentStart
    then show ?thesis
      using live inv by (auto simp: dispatch_def Let_def observeLiveActivityLocked_def emit_def cancelIdleLocked_def idleInv_def activeLocked_def)
  next
    case (AgentSettled reason)
    then show ?thesis
      using live inv idle_completeRun[of "observeLiveActivityLocked s" reason]
      by (auto simp: dispatch_def observeLiveActivityLocked_def idleInv_def activeLocked_def)
  next
    case (CommandInvocation b)
    have "idleInv (s\<lparr>localCommandActive := True, localCommandSeq := promptSeq s\<rparr>)" if "promptInFlight s"
      using inv that by (auto simp: idleInv_def activeLocked_def)
    then show ?thesis
      using CommandInvocation live inv idle_localCommand by (auto simp: dispatch_def Let_def)
  next
    case (CompactionStart i r)
    have "idleInv (beginCompactionLocked i r (observeLiveActivityLocked s))"
      using inv remember_fields
      by (auto simp: beginCompactionLocked_def Let_def observeLiveActivityLocked_def emit_def cancelIdleLocked_def idleInv_def activeLocked_def)
    then show ?thesis
      using CompactionStart live by (simp add: dispatch_def)
  next
    case (CompactionEnd b i e r w)
    then show ?thesis
      using live idle_endCompaction[OF inv] by (simp add: dispatch_def)
  next
    case Unloaded
    then show ?thesis
      using live idle_lost by (simp add: dispatch_def)
  next
    case (CloseResponse b)
    then show ?thesis
      using live inv idle_lost by (simp add: dispatch_def)
  next
    case (ResponseRejected i r)
    then show ?thesis
      using live idleInv_asks[OF asksOnly_rejected inv] by (simp add: dispatch_def)
  next
    case (UIRequest m i r)
    then show ?thesis
      using live idleInv_asks[OF asksOnly_uiRequest inv] by (simp add: dispatch_def)
  next
    case (QuestionResolved i out)
    then show ?thesis
      using live inv idleInv_asks[OF asksOnly_resolve inv] by (simp add: dispatch_def split: option.splits)
  next
    case (QuestionUpdated i)
    then show ?thesis
      using live inv by (auto simp: dispatch_def emit_def idleInv_def activeLocked_def split: option.splits)
  next
    case (OtherEvent k)
    then show ?thesis
      using live inv by (simp add: dispatch_def emit_def idleInv_def activeLocked_def)
  qed
qed

lemma idle_completeClose:
  assumes inv: "idleInv s"
  shows "idleInv (completeClose t idle e m s)"
proof (cases "closed s \<or> definitiveCloseFailure e \<or> m")
  case True
  then show ?thesis
    using inv by (auto simp: completeClose_def Let_def emit_def cancelIdleLocked_def idleInv_def activeLocked_def)
next
  case False
  define s1 where "s1 = s\<lparr>closing := False, closeTxn := None\<rparr>"
  have s1: "idleInv s1"
    using inv by (auto simp: s1_def idleInv_def activeLocked_def)
  have "idleInv (reconcileFailedCloseLocked s1)"
  proof (cases "closeRunSettled s1")
    case settled: True
    show ?thesis
    proof (cases "idleTimer s1")
      case False
      then show ?thesis
        using settled idle_completeRun[of "s1\<lparr>closeRunSettled := False, closeRunReason := []\<rparr>"] by (simp add: reconcileFailedCloseLocked_def)
    next
      case True
      then show ?thesis
        using s1 settled
        by (auto simp: reconcileFailedCloseLocked_def completeProviderRunLocked_def Let_def idleInv_def activeLocked_def emit_def
            notifyRunSettledLocked_def scheduleIdleLocked_def cancelIdleLocked_def mayIdle_def)
    qed
  qed (use s1 in \<open>simp add: reconcileFailedCloseLocked_def\<close>)
  then have "idleInv (scheduleIdleLocked (reconcileFailedCloseLocked s1))"
    by (simp add: idleInv_schedule)
  then show ?thesis
    using False s1 by (auto simp: completeClose_def Let_def s1_def[symmetric] idleInv_def activeLocked_def)
qed

lemma idleInv_step:
  assumes inv: "idleInv s"
  shows "idleInv (sessStep ev s)"
proof (cases "asksEvent ev")
  case True
  then show ?thesis
    using idleInv_asks[OF asksEvent_step inv] by blast
next
  case False
  show ?thesis
  proof (cases ev)
    case Prompt
    then show ?thesis
      using inv by (auto simp: sessStep_def admitPrompt_def Let_def cancelIdleLocked_def idleInv_def split: sum.splits)
  next
    case (PromptDone n failed)
    have "idleInv (s\<lparr>promptResponse := True\<rparr>)"
      using inv by (simp add: idleInv_def activeLocked_def)
    then show ?thesis
      using PromptDone inv idle_localCommand
      by (auto simp: sessStep_def completePrompt_def Let_def idleInv_def scheduleIdleLocked_def mayIdle_def cancelIdleLocked_def activeLocked_def
          recoveryWorkLocked_def)
  next
    case Compact
    then show ?thesis
      using inv by (auto simp: sessStep_def admitCompact_def Let_def cancelIdleLocked_def idleInv_def emit_def split: sum.splits)
  next
    case (CompactDone n err)
    then show ?thesis
      using inv unfolding sessStep_def completeCompact_def Let_def
      by (auto simp: settleIfQuiet_def notifyRunSettledLocked_def emit_def idleInv_def scheduleIdleLocked_def mayIdle_def cancelIdleLocked_def
          activeLocked_def recoveryWorkLocked_def)
  next
    case (Queried r a b)
    then show ?thesis
      using inv
      by (auto simp: sessStep_def applyQueriedState_def Let_def cancelIdleLocked_def idleInv_off intro!: idleInv_schedule)
        (auto simp: hydrateActivityLocked_def Let_def idleInv_def activeLocked_def recoveryWorkLocked_def)
  qed (use inv False idle_dispatch[OF inv] idle_lost idle_completeClose[OF inv] in
      \<open>auto simp: sessStep_def quarantineExternalWrite_def emit_def cancelIdleLocked_def closeContext_def beginCloseLocked_def evict_def
         retireReplaced_def idleInv_off idleInv_def activeLocked_def scheduleIdleLocked_def mayIdle_def recoveryWorkLocked_def
         split: option.splits sum.splits\<close>)
qed

end
