(* ===== verification/SessionMemory.thy ===== *)
theory SessionMemory
  imports SessionLifecycle
begin

text \<open>
  The memory of completed compactions stays bounded and exact through every step of a session.
\<close>

section \<open>The memory of completed compactions\<close>

definition memInv :: "session \<Rightarrow> bool" where
  "memInv s \<longleftrightarrow>
     completedCompactions s = set (concat (completedFIFO s)) \<and> distinct (concat (completedFIFO s)) \<and>
     length (completedFIFO s) \<le> maxCompletedCompactions \<and> (\<forall>g \<in> set (completedFIFO s). g \<noteq> [] \<and> length g \<le> 3) \<and>
     [] \<notin> set (concat (completedFIFO s)) \<and> length (completedUnpaired s) \<le> maxCompletedCompactions \<and>
     length (diagnostics s) \<le> maxCompletedCompactions \<and> distinct (diagnostics s)"

text \<open>What the loop over the identifiers leaves.\<close>

lemma remember_fold:
  assumes "foldl (\<lambda>(known, unique) i. if i = [] \<or> i \<in> known then (known, unique) else (insert i known, unique @ [i])) (K, U) ids = (K', U')"
    and "distinct U" "set U \<subseteq> K" "[] \<notin> K"
  shows "\<exists>V. U' = U @ V \<and> K' = K \<union> set V \<and> distinct V \<and> set V \<inter> K = {} \<and> set V \<subseteq> set ids \<and> [] \<notin> set V \<and> length V \<le> length ids"
  using assms
proof (induction ids arbitrary: K U)
  case (Cons i ids)
  show ?case
  proof (cases "i = [] \<or> i \<in> K")
    case True
    then obtain V where "U' = U @ V \<and> K' = K \<union> set V \<and> distinct V \<and> set V \<inter> K = {} \<and> set V \<subseteq> set ids \<and> [] \<notin> set V \<and> length V \<le> length ids"
      using Cons by fastforce
    then show ?thesis
      by (intro exI[of _ V]) auto
  next
    case False
    then have "\<exists>V. U' = (U @ [i]) @ V \<and> K' = insert i K \<union> set V \<and> distinct V \<and> set V \<inter> insert i K = {} \<and> set V \<subseteq> set ids \<and> [] \<notin> set V \<and>
        length V \<le> length ids"
      using Cons.prems by (intro Cons.IH) auto
    then obtain V where "U' = (U @ [i]) @ V \<and> K' = insert i K \<union> set V \<and> distinct V \<and> set V \<inter> insert i K = {} \<and> set V \<subseteq> set ids \<and>
        [] \<notin> set V \<and> length V \<le> length ids"
      by blast
    then show ?thesis
      using False by (intro exI[of _ "i # V"]) auto
  qed
qed simp

lemma memInv_remember:
  assumes inv: "memInv s" and few: "length ids \<le> 3"
  shows "memInv (rememberCompletedCompactionLocked ids s)"
proof -
  obtain K U where KU: "foldl (\<lambda>(known, unique) i. if i = [] \<or> i \<in> known then (known, unique) else (insert i known, unique @ [i]))
      (completedCompactions s, []) ids = (K, U)"
    by fastforce
  have "[] \<notin> completedCompactions s"
    using inv by (simp add: memInv_def)
  then obtain V where "U = [] @ V" and V: "K = completedCompactions s \<union> set V" "distinct V" "set V \<inter> completedCompactions s = {}"
      "[] \<notin> set V" "length V \<le> length ids"
    using remember_fold[OF KU] by auto
  then have U: "U = V"
    by simp
  show ?thesis
  proof (cases "U = []")
    case False
    define fifo where "fifo = completedFIFO s @ [U]"
    have all: "distinct (concat fifo)" "K = set (concat fifo)" "\<forall>g \<in> set fifo. g \<noteq> [] \<and> length g \<le> 3"
      using inv V U False few by (auto simp: memInv_def fifo_def)
    have res: "rememberCompletedCompactionLocked ids s =
        (if maxCompletedCompactions < length fifo then s\<lparr>completedCompactions := K - set (hd fifo), completedFIFO := tl fifo\<rparr>
         else s\<lparr>completedCompactions := K, completedFIFO := fifo\<rparr>)"
      using False KU by (simp add: rememberCompletedCompactionLocked_def Let_def fifo_def)
    have clean: "[] \<notin> set (concat fifo)"
      using inv V(4) U by (auto simp: memInv_def fifo_def)
    obtain g gs where g: "fifo = g # gs"
      by (cases fifo) (auto simp: fifo_def)
    have short: "length gs \<le> maxCompletedCompactions"
      using inv arg_cong[OF g, of length] by (simp add: memInv_def fifo_def)
    have cut: "K - set g = set (concat gs)" "distinct (concat gs)"
      using all(1,2) unfolding g by auto
    have rest: "length (completedUnpaired s) \<le> maxCompletedCompactions" "length (diagnostics s) \<le> maxCompletedCompactions" "distinct (diagnostics s)"
      using inv by (simp_all add: memInv_def)
    show ?thesis
    proof (cases "maxCompletedCompactions < length fifo")
      case True
      then show ?thesis
        unfolding res memInv_def using cut short rest all(3) clean by (simp add: g)
    next
      case low: False
      then show ?thesis
        unfolding res memInv_def using all clean rest by simp
    qed
  qed (use inv KU in \<open>simp add: rememberCompletedCompactionLocked_def\<close>)
qed

lemma memInv_cong:
  assumes "memInv s" "completedCompactions s' = completedCompactions s" "completedFIFO s' = completedFIFO s"
    "completedUnpaired s' = completedUnpaired s" "diagnostics s' = diagnostics s"
  shows "memInv s'"
  using assms unfolding memInv_def by simp

lemma memInv_diagnostic:
  assumes "memInv s"
  shows "memInv (snd (rememberCompactionDiagnosticLocked i e s))"
proof -
  have "distinct (tl xs @ [x])" if "distinct xs" "x \<notin> set xs" for x :: "string \<times> string" and xs
    using that by (cases xs) auto
  then show ?thesis
    using assms unfolding memInv_def rememberCompactionDiagnosticLocked_def by (auto simp: maxCompletedCompactions_def)
qed

lemma memInv_finish:
  assumes "memInv s"
  shows "memInv (finishCompactionLocked i e s)"
proof -
  let ?r = "if (if i = [] then compactRPCID s else i) = [] then compactProviderID s else (if i = [] then compactRPCID s else i)"
  have "memInv (rememberCompletedCompactionLocked [compactRPCID s, compactProviderID s, ?r] s)"
    by (rule memInv_remember[OF assms]) simp
  then show ?thesis
    by (rule memInv_cong) (simp_all add: finishCompactionLocked_def Let_def emit_def)
qed

lemma memInv_completeRun:
  assumes "memInv s"
  shows "memInv (completeProviderRunLocked reason s)"
proof -
  have "memInv (if compactionActive s \<and> compactRPCID s = [] then finishCompactionLocked [] [] s else s)"
    using assms memInv_finish by simp
  then show ?thesis
    by (rule memInv_cong) (simp_all add: completeProviderRunLocked_def Let_def notifyRunSettledLocked_def emit_def)
qed

lemma memInv_localCommand: "memInv s \<Longrightarrow> memInv (completeLocalCommandLocked n s)"
  by (erule memInv_cong) (simp_all add: completeLocalCommandLocked_def notifyRunSettledLocked_def emit_def)

lemma memInv_completeCompact:
  assumes "memInv s"
  shows "memInv (completeCompact n i err s)"
proof (cases "compactSeq s = n \<and> compactionActive s \<and> compactRPCID s = i")
  case True
  define s1 where "s1 = rememberCompletedCompactionLocked [i, compactProviderID s] (s\<lparr>compactionActive := False\<rparr>)"
  have s1: "memInv s1"
    unfolding s1_def by (rule memInv_remember) (use assms in \<open>auto intro: memInv_cong[of s]\<close>)
  define u where "u = completedUnpaired s1 @ [i]"
  define s2 where "s2 = (if compactProviderID s = [] then s1\<lparr>completedUnpaired := drop (length u - maxCompletedCompactions) u\<rparr> else s1)"
  have "memInv s2"
    using s1 by (auto simp: s2_def memInv_def)
  then show ?thesis
    by (rule memInv_cong) (use True in \<open>simp_all add: completeCompact_def Let_def s1_def s2_def u_def emit_def\<close>)
qed (use assms in \<open>auto simp: completeCompact_def\<close>)

lemma memInv_begin:
  assumes "memInv s"
  shows "memInv (beginCompactionLocked i reason s)"
proof -
  have "memInv (s\<lparr>completedUnpaired := tl (completedUnpaired s)\<rparr>)"
    using assms by (auto simp: memInv_def)
  then have "memInv (rememberCompletedCompactionLocked [i] (s\<lparr>completedUnpaired := tl (completedUnpaired s)\<rparr>))"
    by (rule memInv_remember) simp
  moreover have "length (filter (\<lambda>d. fst d \<noteq> []) (diagnostics s)) \<le> maxCompletedCompactions"
    using assms length_filter_le[of "\<lambda>d. fst d \<noteq> []" "diagnostics s"] unfolding memInv_def by linarith
  ultimately show ?thesis
    using assms unfolding beginCompactionLocked_def Let_def
    by (auto simp: emit_def cancelIdleLocked_def memInv_def)
qed

lemma memInv_end:
  assumes "memInv s"
  shows "memInv (endCompactionLocked isEnd i e r w s)"
proof -
  have watched: "memInv (observeLiveActivityLocked s)"
    using assms by (rule memInv_cong) (simp_all add: observeLiveActivityLocked_def)
  have noted: "memInv (fst x) \<Longrightarrow> memInv (emit f (fst x))" for x :: "session \<times> unit" and f
    by (erule memInv_cong) (simp_all add: emit_def)
  show ?thesis
  proof (cases "compactionMatches i r s")
    case True
    then show ?thesis
      using memInv_finish[OF memInv_diagnostic[OF watched]] memInv_finish[OF watched]
      by (simp add: endCompactionLocked_def Let_def)
  next
    case False
    have "memInv (case rememberCompactionDiagnosticLocked i e s of (True, s1) \<Rightarrow> emit (NoticeFrame ''compaction_error'') s1 | (False, s1) \<Rightarrow> s1)"
      using memInv_diagnostic[OF assms, of i e] noted[of "(snd (rememberCompactionDiagnosticLocked i e s), ())"]
      by (auto split: prod.splits bool.splits)
    then show ?thesis
      using False assms by (simp add: endCompactionLocked_def Let_def)
  qed
qed

lemma memInv_asks: "asksOnly s s' \<Longrightarrow> memInv s \<Longrightarrow> memInv s'"
  by (erule memInv_cong) (simp_all add: asksOnly_fields)

lemma memInv_lost: "memInv s \<Longrightarrow> memInv (markProviderUnloadedLocked s)" "memInv s \<Longrightarrow> memInv (invalidate code s)"
proof -
  show "memInv (markProviderUnloadedLocked s)" if "memInv s"
    by (rule memInv_cong[OF memInv_asks[OF asksOnly_failQuestions[of "dropLatches s"] memInv_cong[OF that]]])
      (simp_all add: markProviderUnloadedLocked_def cancelIdleLocked_def dropLatches_def)
  show "memInv (invalidate code s)" if inv: "memInv s"
  proof (cases "closed s \<or> invalidated s")
    case False
    define s1 where "s1 = s\<lparr>workAtLoss := workAtLoss s \<or> activeLocked s,
       runAtLoss := runAtLoss s \<or> promptInFlight s \<or> providerRunActive s \<or> localCommandActive s,
       compactionAtLoss := compactionAtLoss s \<or> compactionActive s\<rparr>"
    have "memInv (failQuestionsOnLossLocked (dropLatches s1))"
      by (rule memInv_asks[OF asksOnly_failQuestions memInv_cong[OF inv]]) (simp_all add: dropLatches_def s1_def)
    then show ?thesis
      by (rule memInv_cong) (use False in \<open>simp_all add: invalidate_def Let_def s1_def[symmetric] emit_def cancelIdleLocked_def\<close>)
  qed (use inv in \<open>auto simp: invalidate_def\<close>)
qed

lemma memInv_dispatch:
  assumes inv: "memInv s"
  shows "memInv (dispatch ev s)"
proof (cases "closed s \<or> resumable s \<or> closing s")
  case True
  then show ?thesis
    using inv by (auto simp: dispatch_def memInv_def split: providerEvent.splits)
next
  case live: False
  have watched: "memInv (observeLiveActivityLocked s)"
    using inv by (rule memInv_cong) (simp_all add: observeLiveActivityLocked_def)
  show ?thesis
  proof (cases ev)
    case AgentStart
    show ?thesis
      by (rule memInv_cong[OF watched]) (use AgentStart live in \<open>simp_all add: dispatch_def Let_def emit_def cancelIdleLocked_def\<close>)
  next
    case (CommandInvocation b)
    have "memInv (s\<lparr>localCommandActive := True, localCommandSeq := promptSeq s\<rparr>)"
      using inv by (rule memInv_cong) simp_all
    then show ?thesis
      using CommandInvocation live inv memInv_localCommand by (auto simp: dispatch_def Let_def)
  next
    case (ResponseRejected i r)
    then show ?thesis
      using live memInv_asks[OF asksOnly_rejected inv] by (simp add: dispatch_def)
  next
    case (UIRequest m i r)
    then show ?thesis
      using live memInv_asks[OF asksOnly_uiRequest inv] by (simp add: dispatch_def)
  next
    case (QuestionResolved i out)
    then show ?thesis
      using live inv memInv_asks[OF asksOnly_resolve inv] by (simp add: dispatch_def split: option.splits)
  next
    case (QuestionUpdated i)
    then show ?thesis
      using live inv memInv_cong[OF inv, of "emit _ s"] by (auto simp: dispatch_def emit_def split: option.splits)
  next
    case (OtherEvent k)
    then show ?thesis
      using live memInv_cong[OF inv, of "emit _ s"] by (simp add: dispatch_def emit_def)
  qed (use live inv watched memInv_completeRun[OF watched] memInv_begin[OF watched] memInv_end[OF inv] memInv_lost(1)[OF inv] in
      \<open>simp_all add: dispatch_def\<close>)
qed

lemma memInv_completeClose:
  assumes inv: "memInv s"
  shows "memInv (completeClose t idle e m s)"
proof (cases "closed s \<or> definitiveCloseFailure e \<or> m")
  case True
  have "memInv (stopQuestionTimersLocked (s\<lparr>closed := True\<rparr>))"
    by (rule memInv_asks[OF asksOnly_stopQuestionTimers memInv_cong[OF inv]]) simp_all
  then show ?thesis
    using True inv by (auto simp: completeClose_def Let_def emit_def cancelIdleLocked_def memInv_def)
next
  case False
  define s1 where "s1 = s\<lparr>closing := False, closeTxn := None\<rparr>"
  have s1: "memInv s1"
    using inv by (rule memInv_cong) (simp_all add: s1_def)
  have "memInv (s1\<lparr>closeRunSettled := False, closeRunReason := []\<rparr>)"
    using s1 by (rule memInv_cong) simp_all
  then have "memInv (reconcileFailedCloseLocked s1)"
    using s1 memInv_completeRun by (simp add: reconcileFailedCloseLocked_def)
  then have "memInv (scheduleIdleLocked (reconcileFailedCloseLocked s1))"
    by (rule memInv_cong) simp_all
  then show ?thesis
    using False s1 by (simp add: completeClose_def Let_def s1_def[symmetric] memInv_def)
qed

lemma hydrate_memory [simp]:
  "completedCompactions (hydrateActivityLocked a b s) = completedCompactions s" "completedFIFO (hydrateActivityLocked a b s) = completedFIFO s"
  "completedUnpaired (hydrateActivityLocked a b s) = completedUnpaired s" "diagnostics (hydrateActivityLocked a b s) = diagnostics s"
  "published (hydrateActivityLocked a b s) = published s"
  by (simp_all add: hydrateActivityLocked_def Let_def)

lemma memInv_step:
  assumes inv: "memInv s"
  shows "memInv (sessStep ev s)"
proof (cases "asksEvent ev")
  case True
  then show ?thesis
    using memInv_asks[OF asksEvent_step inv] by blast
next
  case False
  show ?thesis
  proof (cases ev)
    case (PromptDone n failed)
    have "memInv (s\<lparr>promptResponse := True\<rparr>)" "memInv (scheduleIdleLocked (s\<lparr>promptInFlight := False, localCommandActive := False, promptResponse := False\<rparr>))"
      by (rule memInv_cong[OF inv]; simp)+
    then show ?thesis
      using PromptDone inv memInv_localCommand by (simp add: sessStep_def completePrompt_def Let_def)
  next
    case (Queried r a b)
    show ?thesis
      unfolding Queried sessStep_def
      by (rule memInv_cong[OF inv]) (simp_all add: applyQueriedState_def Let_def cancelIdleLocked_def)
  next
    case Retire
    have "memInv (stopQuestionTimersLocked (s\<lparr>closed := True\<rparr>))"
      by (rule memInv_asks[OF asksOnly_stopQuestionTimers memInv_cong[OF inv]]) simp_all
    then have "memInv (retireReplaced s)"
      by (rule memInv_cong) (simp_all add: retireReplaced_def cancelIdleLocked_def)
    then show ?thesis
      using Retire by (simp add: sessStep_def)
  next
    case (Provider e)
    then show ?thesis
      using memInv_dispatch[OF inv] by (simp add: sessStep_def)
  next
    case (CompactDone n err)
    then show ?thesis
      using memInv_completeCompact[OF inv] by (simp add: sessStep_def)
  next
    case (CloseDone t i e m)
    then show ?thesis
      using inv memInv_completeClose[OF inv] by (simp add: sessStep_def)
  next
    case (Invalidate code)
    then show ?thesis
      using memInv_lost(2)[OF inv] by (simp add: sessStep_def)
  next
    case RouteLost
    then show ?thesis
      using inv memInv_lost(1)[OF inv] by (simp add: sessStep_def)
  qed (use inv False in \<open>auto simp: memInv_def sessStep_def admitPrompt_def admitCompact_def Let_def observeLiveActivityLocked_def
        cancelIdleLocked_def emit_def quarantineExternalWrite_def closeContext_def beginCloseLocked_def evict_def
        split: option.splits sum.splits\<close>)
qed

end
