(* ===== verification/SessionProperties.thy ===== *)
theory SessionProperties
  imports SessionMemory
begin

text \<open>
  What the steps of a session guarantee: the idle timer and eviction, the memory of completed compactions, the
  frames a client follows, work that outlives its session, and runs that settle while a close is rejected.
\<close>

section \<open>Runs of steps\<close>

lemma sessRun_Nil [simp]: "sessRun [] s = s"
  by (simp add: sessRun_def)

lemma sessRun_Cons [simp]: "sessRun (ev # evs) s = sessRun evs (sessStep ev s)"
  by (simp add: sessRun_def)

lemma sessRun_invariant:
  assumes "\<And>ev s. P s \<Longrightarrow> P (sessStep ev s)" and "P s"
  shows "P (sessRun evs s)"
  using assms(2) by (induction evs arbitrary: s) (simp_all add: assms(1))

lemma idleInv_new: "idleInv (newSession d r b st co)"
  by (rule idleInv_off) (simp add: newSession_def hydrateActivityLocked_def Let_def)

lemma memInv_new: "memInv (newSession d r b st co)"
  by (simp add: memInv_def newSession_def hydrateActivityLocked_def Let_def maxCompletedCompactions_def)

section \<open>The idle timer\<close>

lemma evict_cases:
  assumes "evict isCurrent s \<noteq> s"
  shows "evictable s" "isCurrent" "evict isCurrent s = beginCloseLocked True s"
  using assms by (auto simp: evict_def split: if_splits)

text \<open>
  C30: in every history of calls, provider events, losses, timers and closes, the idle timer runs only on an open
  session without a prompt, run, compaction, local command or work of a predecessor; and when it fires, the
  eviction changes nothing unless the session is also free of subscribers, unresolved sends and detached calls.
  An eviction that does begin leaves the session without a timer and refuses every further prompt and
  compaction, while the frames published so far stay as they are.
\<close>

theorem idle_eviction_safe:
  assumes s: "s = sessRun evs (newSession d route resumed streaming compacting)"
  shows "\<not> (idleTimer s \<and> (closed s \<or> closing s \<or> resumable s \<or> quarantined s \<noteq> None \<or> activeLocked s \<or> workAtLoss s)) \<and>
    (evict isCurrent s = s \<or>
      \<not> activeLocked s \<and> \<not> workAtLoss s \<and> \<not> unresolvedSends s \<and> subscribers s = 0 \<and> \<not> activeDetached s \<and> \<not> closed s \<and> isCurrent \<and>
      \<not> idleTimer (evict isCurrent s) \<and> published (evict isCurrent s) = published s \<and>
      (\<exists>e. fst (admitPrompt (evict isCurrent s)) = Inl e) \<and> (\<exists>e. fst (admitCompact (evict isCurrent s)) = Inl e))"
proof
  have "idleInv s"
    unfolding s by (rule sessRun_invariant[OF idleInv_step idleInv_new])
  then show "\<not> (idleTimer s \<and> (closed s \<or> closing s \<or> resumable s \<or> quarantined s \<noteq> None \<or> activeLocked s \<or> workAtLoss s))"
    by (auto simp: idleInv_def)
  show "evict isCurrent s = s \<or>
      \<not> activeLocked s \<and> \<not> workAtLoss s \<and> \<not> unresolvedSends s \<and> subscribers s = 0 \<and> \<not> activeDetached s \<and> \<not> closed s \<and> isCurrent \<and>
      \<not> idleTimer (evict isCurrent s) \<and> published (evict isCurrent s) = published s \<and>
      (\<exists>e. fst (admitPrompt (evict isCurrent s)) = Inl e) \<and> (\<exists>e. fst (admitCompact (evict isCurrent s)) = Inl e)"
  proof (cases "evict isCurrent s = s")
    case False
    note began = evict_cases[OF False]
    then show ?thesis
      unfolding began(3)
      by (auto simp: evictable_def recoveryWorkLocked_def activeLocked_def beginCloseLocked_def cancelIdleLocked_def admitPrompt_def
          admitCompact_def routeLocked_def split: option.splits sum.splits)
  qed simp
qed

definition idleHistory :: "sessEvent list" where
  "idleHistory = [Prompt, PromptDone 1 True]"

definition freshSession :: session where
  "freshSession = newSession ''durable'' ''route'' False (Some False) (Some False)"

lemma idle_eviction_safe_witness:
  "idleTimer (sessRun idleHistory freshSession) \<and> \<not> activeLocked (sessRun idleHistory freshSession)"
proof -
  have "idleTimer (sessRun idleHistory freshSession)"
    by code_simp
  then show ?thesis
    using idle_eviction_safe[of "sessRun idleHistory freshSession" idleHistory "''durable''" "''route''" False "Some False" "Some False"]
    by (simp add: freshSession_def)
qed

section \<open>The memory of completed compactions\<close>

lemma remembered_end:
  assumes known: "i \<in> completedCompactions s"
  shows "\<exists>ds fs. endCompactionLocked isEnd i err reason willRetry s = s\<lparr>diagnostics := ds, published := published s @ fs\<rparr> \<and>
    fs \<in> {[], [NoticeFrame ''compaction_error'']}"
proof -
  obtain ds where ds: "snd (rememberCompactionDiagnosticLocked i err s) = s\<lparr>diagnostics := ds\<rparr>"
    using diagnostic_eq by blast
  have same: "s = s\<lparr>diagnostics := diagnostics s, published := published s @ []\<rparr>"
    by simp
  show ?thesis
  proof (cases "isEnd \<and> reason = ''overflow'' \<and> willRetry = Some False \<and> err \<noteq> []")
    case True
    then have told: "endCompactionLocked isEnd i err reason willRetry s =
        (case rememberCompactionDiagnosticLocked i err s of (True, s1) \<Rightarrow> emit (NoticeFrame ''compaction_error'') s1 | (False, s1) \<Rightarrow> s1)"
      using known by (simp add: endCompactionLocked_def compactionMatches_def Let_def)
    show ?thesis
    proof (cases "fst (rememberCompactionDiagnosticLocked i err s)")
      case True
      then show ?thesis
        unfolding told using ds
        by (intro exI[of _ ds] exI[of _ "[NoticeFrame ''compaction_error'']"]) (auto simp: emit_def split: prod.splits bool.splits)
    next
      case False
      then show ?thesis
        unfolding told using ds by (intro exI[of _ ds] exI[of _ "[]"]) (auto split: prod.splits bool.splits)
    qed
  next
    case False
    then have "endCompactionLocked isEnd i err reason willRetry s = s"
      using known by (auto simp: endCompactionLocked_def compactionMatches_def Let_def)
    then show ?thesis
      using same by (intro exI[of _ "diagnostics s"] exI[of _ "[]"]) simp
  qed
qed

text \<open>
  in every history at most eight groups of at most three identifiers of completed compactions are
  remembered, without duplicates, and the lookup set is exactly their union; unpaired manual completions and
  diagnostics are bounded by eight as well. A remembered identifier neither starts a compaction again nor ends
  the current one: a late start changes nothing, and a late end leaves the latch, the compaction and the memory
  as they are and publishes at most one diagnostic notice.
\<close>

theorem compaction_memory_exact:
  assumes s: "s = sessRun evs (newSession d route resumed streaming compacting)" and known: "i \<in> completedCompactions s"
  shows "length (completedFIFO s) \<le> 8 \<and> completedCompactions s = set (concat (completedFIFO s)) \<and>
    distinct (concat (completedFIFO s)) \<and> card (completedCompactions s) \<le> 24 \<and>
    length (completedUnpaired s) \<le> 8 \<and> length (diagnostics s) \<le> 8 \<and> beginCompactionLocked i reason s = s \<and>
    (\<exists>ds fs. endCompactionLocked isEnd i err reason willRetry s = s\<lparr>diagnostics := ds, published := published s @ fs\<rparr> \<and>
       fs \<in> {[], [NoticeFrame ''compaction_error'']})"
proof (intro conjI)
  have inv: "memInv s"
    unfolding s by (rule sessRun_invariant[OF memInv_step memInv_new])
  show fifo: "length (completedFIFO s) \<le> 8" and set: "completedCompactions s = set (concat (completedFIFO s))"
    and "distinct (concat (completedFIFO s))" and "length (completedUnpaired s) \<le> 8" and "length (diagnostics s) \<le> 8"
    using inv by (simp_all add: memInv_def maxCompletedCompactions_def)
  have "length (concat gs) \<le> 3 * length gs" if "\<forall>g \<in> set gs. g \<noteq> [] \<and> length g \<le> 3" for gs :: "string list list"
    using that by (induction gs) auto
  then have "length (concat (completedFIFO s)) \<le> 3 * length (completedFIFO s)"
    using inv by (simp add: memInv_def)
  then show "card (completedCompactions s) \<le> 24"
    unfolding set using card_length[of "concat (completedFIFO s)"] fifo by linarith
  have named: "i \<noteq> []"
    using inv known set by (metis memInv_def)
  then show "beginCompactionLocked i reason s = s"
    using known by (simp add: beginCompactionLocked_def Let_def)
  show "\<exists>ds fs. endCompactionLocked isEnd i err reason willRetry s = s\<lparr>diagnostics := ds, published := published s @ fs\<rparr> \<and>
      fs \<in> {[], [NoticeFrame ''compaction_error'']}"
    by (rule remembered_end[OF known])
qed

definition compactedHistory :: "sessEvent list" where
  "compactedHistory = [Provider (CompactionStart ''a'' ''auto''), Provider (CompactionEnd True ''a'' [] ''auto'' None)]"

lemma compaction_memory_exact_witness:
  "''a'' \<in> completedCompactions (sessRun compactedHistory freshSession) \<and>
   beginCompactionLocked ''a'' ''auto'' (sessRun compactedHistory freshSession) = sessRun compactedHistory freshSession"
proof -
  have known: "''a'' \<in> completedCompactions (sessRun compactedHistory freshSession)"
    by code_simp
  then show ?thesis
    using compaction_memory_exact[OF arg_cong[OF freshSession_def, of "sessRun compactedHistory"] known] by simp
qed

end
