(* ===== verification/SessionFrames.thy ===== *)
theory SessionFrames
  imports SessionProperties
begin

text \<open>
  The frames of a session against its latches: a client that follows the start and end frames of runs and
  compactions knows what runs.
\<close>

section \<open>What a client derives from the frames\<close>

text \<open>
  The client's view is whether a run and whether a compaction is in progress; \<open>None\<close> is a frame that
  contradicts it: a second start, or the end of a compaction that was never started.
\<close>

fun seeFrame :: "sessFrame \<Rightarrow> bool \<times> bool \<Rightarrow> (bool \<times> bool) option" where
  "seeFrame RunStarted (r, c) = (if r then None else Some (True, c))"
| "seeFrame (RunDone reason) (r, c) = Some (False, c)"
| "seeFrame (CompactionStarted i phase) (r, c) = (if c then None else Some (r, True))"
| "seeFrame (CompactionDone i phase err) (r, c) = (if c then Some (r, False) else None)"
| "seeFrame _ v = Some v"

fun clientView :: "sessFrame list \<Rightarrow> bool \<times> bool \<Rightarrow> (bool \<times> bool) option" where
  "clientView [] v = Some v"
| "clientView (f # fs) v = (case seeFrame f v of None \<Rightarrow> None | Some w \<Rightarrow> clientView fs w)"

lemma clientView_append: "clientView (fs @ gs) v = (case clientView fs v of None \<Rightarrow> None | Some w \<Rightarrow> clientView gs w)"
  by (induction fs arbitrary: v) (auto split: option.splits)

lemma clientView_asks: "\<forall>f \<in> set fs. aboutAsks f \<Longrightarrow> clientView fs v = Some v"
proof (induction fs)
  case (Cons f fs)
  then show ?case
    by (cases f; cases v) auto
qed simp

definition latches :: "session \<Rightarrow> bool \<times> bool" where
  "latches s = (providerRunActive s, compactionActive s)"

text \<open>The frames added on the way from one state to another turn the view of the first into that of the second.\<close>

definition tells :: "session \<Rightarrow> session \<Rightarrow> bool" where
  "tells s s' \<longleftrightarrow> (\<exists>fs. published s' = published s @ fs \<and> clientView fs (latches s) = Some (latches s'))"

lemma tells_quiet: "published s' = published s \<Longrightarrow> latches s' = latches s \<Longrightarrow> tells s s'"
  by (simp add: tells_def)

lemma tells_frame: "published s' = published s @ [f] \<Longrightarrow> seeFrame f (latches s) = Some (latches s') \<Longrightarrow> tells s s'"
  by (simp add: tells_def)

lemma tells_trans:
  assumes "tells a b" "tells b c"
  shows "tells a c"
proof -
  obtain fs gs where "published b = published a @ fs" "clientView fs (latches a) = Some (latches b)"
      "published c = published b @ gs" "clientView gs (latches b) = Some (latches c)"
    using assms by (auto simp: tells_def)
  then show ?thesis
    unfolding tells_def by (intro exI[of _ "fs @ gs"]) (simp add: clientView_append)
qed

lemma tells_asks:
  assumes "asksOnly s s'"
  shows "tells s s'"
proof -
  obtain fs where "published s' = published s @ fs" "\<forall>f \<in> set fs. aboutAsks f"
    using assms by (auto simp: asksOnly_def)
  then show ?thesis
    using asksOnly_fields(10,11)[OF assms] clientView_asks unfolding tells_def latches_def by (intro exI[of _ fs]) simp
qed

section \<open>The operations\<close>

lemma quiet_fields [simp]:
  "published (observeLiveActivityLocked s) = published s" "latches (observeLiveActivityLocked s) = latches s"
  "published (cancelIdleLocked s) = published s" "latches (cancelIdleLocked s) = latches s"
  "latches (scheduleIdleLocked s) = latches s" "latches (settleIfQuiet s) = latches s"
  "published (notifyRunSettledLocked s) = published s" "latches (notifyRunSettledLocked s) = latches s"
  "latches (rememberCompletedCompactionLocked ids s) = latches s"
  "published (emit f s) = published s @ [f]" "latches (emit f s) = latches s"
  by (simp_all add: observeLiveActivityLocked_def cancelIdleLocked_def latches_def notifyRunSettledLocked_def emit_def)

lemma diagnostic_quiet [simp]:
  "published (snd (rememberCompactionDiagnosticLocked i e s)) = published s"
  "latches (snd (rememberCompactionDiagnosticLocked i e s)) = latches s"
  using diagnostic_eq[of i e s] by (auto simp: latches_def)

lemma tells_finish: "compactionActive s \<Longrightarrow> tells s (finishCompactionLocked i e s)"
  by (rule tells_frame[of _ _ "CompactionDone (if (if i = [] then compactRPCID s else i) = [] then compactProviderID s
        else (if i = [] then compactRPCID s else i)) (compactPhase s) e"])
    (simp_all add: finishCompactionLocked_def Let_def latches_def emit_def)

lemma tells_completeRun: "tells s (completeProviderRunLocked reason s)"
proof -
  define s1 where "s1 = (if compactionActive s \<and> compactRPCID s = [] then finishCompactionLocked [] [] s else s)"
  have "tells s s1"
    using tells_finish tells_quiet by (auto simp: s1_def)
  moreover have "tells s1 (completeProviderRunLocked reason s)"
    by (rule tells_frame[of _ _ "RunDone reason"])
      (simp_all add: completeProviderRunLocked_def Let_def s1_def[symmetric] latches_def notifyRunSettledLocked_def emit_def)
  ultimately show ?thesis
    by (rule tells_trans)
qed

lemma tells_localCommand: "tells s (completeLocalCommandLocked n s)"
proof (cases "promptSeq s \<noteq> n \<or> \<not> promptInFlight s \<or> \<not> localCommandActive s")
  case False
  then show ?thesis
    by (intro tells_frame[of _ _ "RunDone ''local_command''"])
      (simp_all add: completeLocalCommandLocked_def latches_def notifyRunSettledLocked_def emit_def)
qed (simp add: completeLocalCommandLocked_def tells_quiet)

lemma tells_admit: "tells s (snd (admitPrompt s))" "tells s (snd (admitCompact s))"
proof -
  show "tells s (snd (admitPrompt s))"
    by (auto simp: admitPrompt_def Let_def latches_def cancelIdleLocked_def observeLiveActivityLocked_def intro!: tells_quiet split: sum.splits)
  show "tells s (snd (admitCompact s))"
  proof (cases "promptInFlight s \<or> providerRunActive s \<or> compactionActive s \<or> localCommandActive s")
    case False
    then show ?thesis
      by (cases "routeLocked s")
        (auto simp: admitCompact_def Let_def latches_def cancelIdleLocked_def observeLiveActivityLocked_def emit_def
          intro: tells_quiet tells_frame[of _ _ "CompactionStarted (compactID (compactSeq s + 1)) ''manual''"])
  qed (simp add: admitCompact_def tells_quiet)
qed

lemma tells_completePrompt: "tells s (completePrompt n failed s)"
proof -
  have "tells s (completeLocalCommandLocked n (s\<lparr>promptResponse := True\<rparr>))"
    by (rule tells_trans[OF tells_quiet tells_localCommand]) (simp_all add: latches_def)
  then show ?thesis
    by (auto simp: completePrompt_def Let_def latches_def intro!: tells_quiet)
qed

lemma tells_completeCompact: "tells s (completeCompact n i err s)"
proof (cases "compactSeq s = n \<and> compactionActive s \<and> compactRPCID s = i")
  case True
  then show ?thesis
    by (intro tells_frame[of _ _ "CompactionDone i ''manual'' err"]) (simp_all add: completeCompact_def Let_def latches_def emit_def)
qed (auto simp: completeCompact_def intro: tells_quiet)

lemma tells_begin: "tells s (beginCompactionLocked i reason s)"
proof (cases "i \<noteq> [] \<and> i \<in> completedCompactions s \<or> i \<noteq> [] \<and> (reason = [] \<or> reason = ''manual'') \<and> completedUnpaired s \<noteq> [] \<or>
    compactionActive s \<or> reason = [] \<or> reason = ''manual''")
  case True
  then show ?thesis
    unfolding beginCompactionLocked_def Let_def by (intro tells_quiet) (auto simp: latches_def)
next
  case False
  then show ?thesis
    by (intro tells_frame[of _ _ "CompactionStarted i reason"])
      (auto simp: beginCompactionLocked_def Let_def latches_def cancelIdleLocked_def emit_def)
qed

lemma tells_end: "tells s (endCompactionLocked isEnd i err reason willRetry s)"
proof (cases "compactionMatches i reason s")
  case True
  then have "compactionActive s"
    by (simp add: compactionMatches_def)
  then have "tells s (finishCompactionLocked i err t)" if "published t = published s" "latches t = latches s" for t
    using that by (intro tells_trans[OF tells_quiet tells_finish]) (simp_all add: latches_def)
  then show ?thesis
    using True by (simp add: endCompactionLocked_def Let_def)
next
  case False
  show ?thesis
  proof (cases "isEnd \<and> reason = ''overflow'' \<and> willRetry = Some False \<and> err \<noteq> []")
    case True
    obtain told s1 where d: "rememberCompactionDiagnosticLocked i err s = (told, s1)"
      by fastforce
    then have same: "published s1 = published s" "latches s1 = latches s"
      using diagnostic_quiet[of i err s] by simp_all
    then have "tells s (emit (NoticeFrame ''compaction_error'') s1)"
      by (intro tells_frame[of _ _ "NoticeFrame ''compaction_error''"]) (use same in simp_all)
    moreover have "tells s s1"
      by (rule tells_quiet[OF same])
    ultimately show ?thesis
      using True False d by (cases told) (simp_all add: endCompactionLocked_def Let_def)
  qed (use False in \<open>auto simp: endCompactionLocked_def Let_def intro: tells_quiet\<close>)
qed

lemma tells_completeClose: "tells s (completeClose t idle e m s)"
proof (cases "closed s \<or> definitiveCloseFailure e \<or> m")
  case True
  have stopped: "tells s (stopQuestionTimersLocked (s\<lparr>closed := True\<rparr>))"
    by (rule tells_trans[OF tells_quiet tells_asks[OF asksOnly_stopQuestionTimers]]) (simp_all add: latches_def)
  show ?thesis
  proof (cases "closed s \<or> \<not> idle")
    case True
    then show ?thesis
      using \<open>closed s \<or> definitiveCloseFailure e \<or> m\<close>
      by (auto simp: completeClose_def Let_def latches_def cancelIdleLocked_def intro: tells_quiet tells_trans[OF stopped tells_quiet])
  next
    case False
    then show ?thesis
      using True by (intro tells_trans[OF stopped tells_frame[of _ _ "ErrorFrame ''session_unloaded''"]])
        (auto simp: completeClose_def Let_def latches_def cancelIdleLocked_def emit_def)
  qed
next
  case False
  define s1 where "s1 = s\<lparr>closing := False, closeTxn := None\<rparr>"
  have "tells s1 (reconcileFailedCloseLocked s1)"
    unfolding reconcileFailedCloseLocked_def
    by (auto simp: latches_def intro: tells_quiet tells_trans[OF tells_quiet tells_completeRun])
  then have "tells s (reconcileFailedCloseLocked s1)"
    by (rule tells_trans[rotated]) (rule tells_quiet, simp_all add: s1_def latches_def)
  then show ?thesis
    using False by (auto simp: completeClose_def Let_def s1_def[symmetric] latches_def intro: tells_trans[OF _ tells_quiet] tells_quiet)
      (simp add: s1_def tells_quiet latches_def)
qed

text \<open>Events that move the latches without a frame: the loss of the provider and what it reports of itself.\<close>

fun silentEvent :: "sessEvent \<Rightarrow> bool" where
  "silentEvent (Provider Unloaded) = True"
| "silentEvent (Provider (CloseResponse ok)) = ok"
| "silentEvent (Invalidate code) = True"
| "silentEvent RouteLost = True"
| "silentEvent (Queried n st co) = True"
| "silentEvent _ = False"

lemma tells_dispatch:
  assumes "\<not> silentEvent (Provider ev)" "\<not> asksEvent (Provider ev)"
  shows "tells s (dispatch ev s)"
proof (cases "closed s \<or> resumable s \<or> closing s")
  case True
  then show ?thesis
    by (auto simp: dispatch_def latches_def intro!: tells_quiet split: providerEvent.splits)
next
  case live: False
  have watched: "tells s (observeLiveActivityLocked s)"
    by (rule tells_quiet) simp_all
  show ?thesis
  proof (cases ev)
    case AgentStart
    then show ?thesis
      using live watched
      by (cases "providerRunActive s")
        (auto simp: dispatch_def Let_def latches_def cancelIdleLocked_def observeLiveActivityLocked_def emit_def intro: tells_frame[of _ _ RunStarted])
  next
    case (AgentSettled reason)
    then show ?thesis
      using live tells_trans[OF watched tells_completeRun] by (auto simp: dispatch_def intro: tells_quiet)
  next
    case (CommandInvocation b)
    have "tells s (completeLocalCommandLocked (promptSeq s) (s\<lparr>localCommandActive := True, localCommandSeq := promptSeq s\<rparr>))"
      by (rule tells_trans[OF tells_quiet tells_localCommand]) (simp_all add: latches_def)
    then show ?thesis
      using CommandInvocation live by (auto simp: dispatch_def Let_def latches_def intro: tells_quiet)
  next
    case (CompactionStart i r)
    then show ?thesis
      using live tells_trans[OF watched tells_begin] by (simp add: dispatch_def)
  next
    case (CompactionEnd b i e r w)
    then show ?thesis
      using live tells_end by (simp add: dispatch_def)
  qed (use live assms in \<open>simp_all add: dispatch_def tells_quiet\<close>)
qed

lemma tells_step:
  assumes "\<not> silentEvent ev"
  shows "tells s (sessStep ev s)"
proof (cases "asksEvent ev")
  case True
  then show ?thesis
    by (rule tells_asks[OF asksEvent_step])
next
  case False
  show ?thesis
  proof (cases ev)
    case (Quarantine e)
    then show ?thesis
      by (cases "closed s \<or> quarantined s \<noteq> None")
        (auto simp: sessStep_def quarantineExternalWrite_def latches_def cancelIdleLocked_def emit_def
          intro: tells_quiet tells_frame[of _ _ "ErrorFrame ''external-write-detected''"])
  next
    case Retire
    have "tells s (stopQuestionTimersLocked (s\<lparr>closed := True\<rparr>))"
      by (rule tells_trans[OF tells_quiet tells_asks[OF asksOnly_stopQuestionTimers]]) (simp_all add: latches_def)
    then show ?thesis
      using Retire by (auto simp: sessStep_def retireReplaced_def intro: tells_trans[OF _ tells_quiet])
  next
    case (CloseDone t i e m)
    then show ?thesis
      by (simp add: sessStep_def tells_completeClose tells_quiet)
  next
    case (Provider e)
    then show ?thesis
      using tells_dispatch False assms by (simp add: sessStep_def)
  next
    case CloseCall
    then show ?thesis
      by (auto simp: sessStep_def closeContext_def beginCloseLocked_def cancelIdleLocked_def latches_def intro!: tells_quiet split: option.splits)
  next
    case (Evict b)
    then show ?thesis
      by (auto simp: sessStep_def evict_def beginCloseLocked_def cancelIdleLocked_def latches_def intro!: tells_quiet)
  next
    case AttachSub
    then show ?thesis
      by (auto simp: sessStep_def cancelIdleLocked_def latches_def intro!: tells_quiet split: sum.splits)
  next
    case (CompactDone n err)
    then show ?thesis
      by (simp add: sessStep_def tells_completeCompact)
  qed (use assms False in \<open>auto simp: sessStep_def tells_admit tells_completePrompt latches_def intro: tells_quiet\<close>)
qed


definition workHistory :: "sessEvent list" where
  "workHistory = [Prompt, Provider AgentStart, Provider (CompactionStart ''c'' ''threshold''), PromptDone 1 False,
     Provider (CompactionEnd True ''c'' [] ''threshold'' None)]"


end
