(* ===== verification/SessionRecovery.thy ===== *)
theory SessionRecovery
  imports SessionProperties
begin

text \<open>
  A session that ends while it works: the work is inherited through any number of replacements until the engine
  reports it, and a run that settles while the provider rejects the close is reported after all.
\<close>

section \<open>Work through losses\<close>

definition anyRun :: "session \<Rightarrow> bool" where
  "anyRun s \<longleftrightarrow> runAtLoss s \<or> promptInFlight s \<or> providerRunActive s \<or> localCommandActive s"

definition anyCompaction :: "session \<Rightarrow> bool" where
  "anyCompaction s \<longleftrightarrow> compactionAtLoss s \<or> compactionActive s"

definition compactionID :: "session \<Rightarrow> 64 word \<times> string \<times> string \<times> string" where
  "compactionID s = (compactSeq s, compactRPCID s, compactProviderID s, compactPhase s)"

text \<open>
  One loss: the route is invalidated and the manager opens a replacement of the same lineage, of which the
  engine does not say what it is doing.
\<close>

definition successor :: "string \<Rightarrow> string \<Rightarrow> session \<Rightarrow> session" where
  "successor code route s = inheritWork True (invalidate code s) None None (newSession (durable s) route True None None)"

lemma invalidate_fields:
  assumes "\<not> closed s" "\<not> invalidated s"
  shows "workAtLoss (invalidate code s) = (workAtLoss s \<or> activeLocked s)"
    "anyRun (invalidate code s) = anyRun s" "anyCompaction (invalidate code s) = anyCompaction s"
    "\<not> activeLocked (invalidate code s)" "compactionID (invalidate code s) = compactionID s"
  using assms asksOnly_fields[OF asksOnly_failQuestions]
  by (auto simp: invalidate_def Let_def emit_def cancelIdleLocked_def dropLatches_def anyRun_def anyCompaction_def activeLocked_def compactionID_def)

lemma new_fields [simp]:
  "closed (newSession d r b st co) = False" "invalidated (newSession d r b st co) = False" "resumable (newSession d r b st co) = False"
  "closing (newSession d r b st co) = False" "quarantined (newSession d r b st co) = None"
  "hydrationPending (newSession d r b st co) = b" "unresolvedSends (newSession d r b st co) = False"
  "subscribers (newSession d r b st co) = 0" "activeDetached (newSession d r b st co) = False"
  "idleTimer (newSession d r b st co) = False" "promptInFlight (newSession d r b st co) = False"
  "localCommandActive (newSession d r b st co) = False" "providerRunActive (newSession d r b None None) = False"
  "compactionActive (newSession d r b None None) = False"
  by (simp_all add: newSession_def hydrateActivityLocked_def Let_def)

lemma inherit_fields [simp]:
  "closed (inheritWork l p st co s) = closed s" "invalidated (inheritWork l p st co s) = invalidated s"
  "resumable (inheritWork l p st co s) = resumable s" "closing (inheritWork l p st co s) = closing s"
  "quarantined (inheritWork l p st co s) = quarantined s" "hydrationPending (inheritWork l p st co s) = hydrationPending s"
  "unresolvedSends (inheritWork l p st co s) = unresolvedSends s" "subscribers (inheritWork l p st co s) = subscribers s"
  "activeDetached (inheritWork l p st co s) = activeDetached s" "idleTimer (inheritWork l p st co s) = idleTimer s"
  "promptInFlight (inheritWork l p st co s) = promptInFlight s" "localCommandActive (inheritWork l p st co s) = localCommandActive s"
  by (simp_all add: inheritWork_def hydrateActivityLocked_def Let_def)

definition carries :: "bool \<Rightarrow> bool \<Rightarrow> session \<Rightarrow> bool" where
  "carries run com s \<longleftrightarrow>
     \<not> closed s \<and> \<not> invalidated s \<and> \<not> resumable s \<and> \<not> closing s \<and> quarantined s = None \<and> hydrationPending s \<and> \<not> unresolvedSends s \<and>
     subscribers s = 0 \<and> \<not> activeDetached s \<and> \<not> idleTimer s \<and> \<not> promptInFlight s \<and> \<not> localCommandActive s \<and>
     workAtLoss s \<and> providerRunActive s = run \<and> runAtLoss s = run \<and> compactionActive s = com \<and> compactionAtLoss s = com"

lemma successor_carries:
  assumes "\<not> closed s" "\<not> invalidated s" "workAtLoss s \<or> activeLocked s" "anyRun s \<or> anyCompaction s"
  shows "carries (anyRun s) (anyCompaction s) (successor code route s)"
    "anyCompaction s \<Longrightarrow> compactionID (successor code route s) = compactionID s"
proof -
  define p where "p = invalidate code s"
  note lost = invalidate_fields[OF assms(1,2), of code, folded p_def]
  have "workAtLoss (successor code route s)" "providerRunActive (successor code route s) = anyRun s"
    "runAtLoss (successor code route s) = anyRun s" "compactionActive (successor code route s) = anyCompaction s"
    "compactionAtLoss (successor code route s) = anyCompaction s"
    using lost assms(3,4)
    unfolding successor_def p_def[symmetric] inheritWork_def hydrateActivityLocked_def Let_def anyRun_def anyCompaction_def activeLocked_def
    by auto
  then show "carries (anyRun s) (anyCompaction s) (successor code route s)"
    by (simp add: carries_def successor_def)
  show "compactionID (successor code route s) = compactionID s" if "anyCompaction s"
    using lost that
    unfolding successor_def p_def[symmetric] inheritWork_def hydrateActivityLocked_def Let_def anyRun_def anyCompaction_def compactionID_def
    by auto
qed

lemma carries_next:
  assumes "carries run com s" "run \<or> com"
  shows "carries run com (successor code route s)" "com \<Longrightarrow> compactionID (successor code route s) = compactionID s"
proof -
  have "anyRun s = run" "anyCompaction s = com"
    using assms(1) by (auto simp: carries_def anyRun_def anyCompaction_def)
  then show "carries run com (successor code route s)" "com \<Longrightarrow> compactionID (successor code route s) = compactionID s"
    using successor_carries[of s code route] assms by (auto simp: carries_def)
qed

lemma carries_chain:
  assumes "carries run com s" "run \<or> com"
  shows "carries run com (fold (\<lambda>(code, route). successor code route) losses s) \<and>
    (com \<longrightarrow> compactionID (fold (\<lambda>(code, route). successor code route) losses s) = compactionID s)"
  using assms(1)
proof (induction losses arbitrary: s)
  case (Cons x losses)
  obtain code route where x: "x = (code, route)"
    by (cases x)
  show ?case
    using Cons.IH[OF carries_next(1)[OF Cons.prems assms(2), of code route]] carries_next(2)[OF Cons.prems assms(2), of code route]
    by (simp add: x)
qed simp



section \<open>A rejected close\<close>

definition settledReasons :: "providerEvent list \<Rightarrow> string list" where
  "settledReasons evs = concat (map (\<lambda>ev. case ev of AgentSettled reason \<Rightarrow> [reason] | _ \<Rightarrow> []) evs)"

lemma dispatch_closing:
  assumes "\<not> closed s" "\<not> resumable s" "closing s" "providerRunActive s \<or> promptInFlight s \<or> localCommandActive s"
  shows "fold dispatch evs s =
    (if closeRunSettled s then s
     else case settledReasons evs of [] \<Rightarrow> s | r # rs \<Rightarrow> s\<lparr>closeRunSettled := True, closeRunReason := r\<rparr>)"
  using assms
proof (induction evs arbitrary: s)
  case (Cons ev evs)
  show ?case
  proof (cases "closeRunSettled s")
    case True
    then have "dispatch ev s = s"
      using Cons.prems by (cases ev) (simp_all add: dispatch_def)
    then show ?thesis
      using True Cons.IH[OF Cons.prems] by simp
  next
    case False
    show ?thesis
    proof (cases ev)
      case (AgentSettled r)
      have "dispatch ev s = s\<lparr>closeRunSettled := True, closeRunReason := r\<rparr>"
        using Cons.prems False AgentSettled by (simp add: dispatch_def)
      then show ?thesis
        using False Cons.IH[of "s\<lparr>closeRunSettled := True, closeRunReason := r\<rparr>"] Cons.prems AgentSettled
        by (simp add: settledReasons_def)
    qed (use Cons.IH[OF Cons.prems] Cons.prems False in \<open>simp_all add: dispatch_def settledReasons_def\<close>)
  qed
qed (simp add: settledReasons_def)

lemma completeRun_latches:
  "\<not> providerRunActive (completeProviderRunLocked reason s)" "\<not> promptInFlight (completeProviderRunLocked reason s)"
  "\<not> localCommandActive (completeProviderRunLocked reason s)" "closed (completeProviderRunLocked reason s) = closed s"
  "closing (completeProviderRunLocked reason s) = closing s" "resumable (completeProviderRunLocked reason s) = resumable s"
  "quarantined (completeProviderRunLocked reason s) = quarantined s"
  "published (completeProviderRunLocked reason s) = published s @
     (if compactionActive s \<and> compactRPCID s = [] then [CompactionDone (compactProviderID s) (compactPhase s) []] else []) @ [RunDone reason]"
  by (simp_all add: completeProviderRunLocked_def finishCompactionLocked_def notifyRunSettledLocked_def emit_def Let_def)

text \<open>
  C27: a run that settles while a close is in progress is neither lost nor reported too early. When the provider
  rejects the close, the session is open again, its run latches have fallen and the run's end is published with
  the reason of the first settlement (after the end of an automatic compaction the run still held); when the
  provider accepts the close, the session is closed and no end of a run is published at all.
\<close>

theorem rejected_close_reports_run:
  assumes live: "\<not> closed s" "\<not> closing s" "\<not> resumable s" "closeTxn s = None" "\<not> closeRunSettled s"
    and run: "providerRunActive s \<or> promptInFlight s \<or> localCommandActive s"
    and settled: "settledReasons evs = reason # rest"
    and s1: "s1 = fold dispatch evs (snd (closeContext s))"
  shows "closing s1 \<and> published s1 = published s \<and>
    (\<not> definitiveCloseFailure e \<and> \<not> errorsIs e ErrDisconnected \<longrightarrow>
      (let s2 = completeClose t False e False s1 in
        \<not> closed s2 \<and> \<not> closing s2 \<and> \<not> providerRunActive s2 \<and> \<not> promptInFlight s2 \<and> \<not> localCommandActive s2 \<and>
        (quarantined s = None \<longrightarrow> routeLocked s2 = Inr (routing s2)) \<and>
        published s2 = published s @
          (if compactionActive s \<and> compactRPCID s = [] then [CompactionDone (compactProviderID s) (compactPhase s) []] else []) @
          [RunDone reason])) \<and>
    (definitiveCloseFailure e \<longrightarrow>
      (let s2 = completeClose t False e False s1 in
        closed s2 \<and> \<not> closing s2 \<and> filter (\<lambda>f. \<not> aboutAsks f) (published s2) = filter (\<lambda>f. \<not> aboutAsks f) (published s)))"
proof -
  define s0 where "s0 = beginCloseLocked False s"
  have s0: "snd (closeContext s) = s0" "\<not> closed s0" "\<not> resumable s0" "closing s0" "\<not> closeRunSettled s0" "published s0 = published s"
      "quarantined s0 = quarantined s" "compactionActive s0 = compactionActive s" "compactRPCID s0 = compactRPCID s"
      "compactProviderID s0 = compactProviderID s" "compactPhase s0 = compactPhase s"
      "providerRunActive s0 \<or> promptInFlight s0 \<or> localCommandActive s0"
    using live run by (auto simp: closeContext_def s0_def beginCloseLocked_def cancelIdleLocked_def)
  have s1': "s1 = s0\<lparr>closeRunSettled := True, closeRunReason := reason\<rparr>"
    unfolding s1 s0(1) using dispatch_closing[OF s0(2,3,4,12), of evs] s0(5) settled by simp
  have "closing s1 \<and> published s1 = published s"
    by (simp add: s1' s0)
  moreover have "let s2 = completeClose t False e False s1 in
        \<not> closed s2 \<and> \<not> closing s2 \<and> \<not> providerRunActive s2 \<and> \<not> promptInFlight s2 \<and> \<not> localCommandActive s2 \<and>
        (quarantined s = None \<longrightarrow> routeLocked s2 = Inr (routing s2)) \<and>
        published s2 = published s @
          (if compactionActive s \<and> compactRPCID s = [] then [CompactionDone (compactProviderID s) (compactPhase s) []] else []) @
          [RunDone reason]" if "\<not> definitiveCloseFailure e \<and> \<not> errorsIs e ErrDisconnected"
    using that s0 by (simp add: completeClose_def Let_def s1' reconcileFailedCloseLocked_def completeRun_latches routeLocked_def)
  moreover have "let s2 = completeClose t False e False s1 in
        closed s2 \<and> \<not> closing s2 \<and> filter (\<lambda>f. \<not> aboutAsks f) (published s2) = filter (\<lambda>f. \<not> aboutAsks f) (published s)"
    if definite: "definitiveCloseFailure e"
  proof -
    obtain fs where "published (stopQuestionTimersLocked (s1\<lparr>closed := True\<rparr>)) = published s @ fs" "\<forall>f \<in> set fs. aboutAsks f"
      using asksOnly_stopQuestionTimers[of "s1\<lparr>closed := True\<rparr>"] s0(6) by (auto simp: asksOnly_def s1')
    moreover have "closed (stopQuestionTimersLocked (s1\<lparr>closed := True\<rparr>))"
      using asksOnly_fields(1)[OF asksOnly_stopQuestionTimers[of "s1\<lparr>closed := True\<rparr>"]] by simp
    ultimately show ?thesis
      using definite s0(2) by (auto simp: completeClose_def Let_def s1' cancelIdleLocked_def)
  qed
  ultimately show ?thesis
    by blast
qed

lemma rejected_close_reports_run_witness:
  "published (completeClose 0 False (Some (sentinel (Foreign ''timeout'') ''timeout'')) False
     (fold dispatch [OtherEvent ''x'', AgentSettled ''done''] (snd (closeContext (sessRun [Prompt] freshSession))))) =
   [RunDone ''done'']"
proof -
  let ?s = "sessRun [Prompt] freshSession"
  have "\<not> closed ?s" "\<not> closing ?s" "\<not> resumable ?s" "closeTxn ?s = None" "\<not> closeRunSettled ?s"
      "providerRunActive ?s \<or> promptInFlight ?s \<or> localCommandActive ?s"
      "settledReasons [OtherEvent ''x'', AgentSettled ''done''] = ''done'' # []" "published ?s = []" "\<not> compactionActive ?s"
      "\<not> definitiveCloseFailure (Some (sentinel (Foreign ''timeout'') ''timeout''))"
    by code_simp+
  then show ?thesis
    using rejected_close_reports_run[of ?s "[OtherEvent ''x'', AgentSettled ''done'']" "''done''" "[]" _
        "Some (sentinel (Foreign ''timeout'') ''timeout'')" 0, OF _ _ _ _ _ _ _ refl]
    by (simp add: Let_def)
qed

section \<open>Ownership that is never given back\<close>

text \<open>
  A manual compaction during which the engine also runs: the settlement of the run records the compaction as
  work at a loss (\<open>dispatch.go:351\<close>), the completion of the compaction does not take it back, and from then on
  nothing runs and yet the idle timer cannot start, whatever subscribers do.
\<close>

definition settledInCompaction :: "sessEvent list" where
  "settledInCompaction = [Compact, Provider AgentStart, Provider (AgentSettled ''done''), CompactDone 1 []]"

theorem compaction_keeps_session_awake:
  "\<not> activeLocked (sessRun settledInCompaction freshSession) \<and> workAtLoss (sessRun settledInCompaction freshSession) \<and>
   \<not> idleTimer (sessRun (settledInCompaction @ [Rearm, AttachSub, DetachSub, Rearm]) freshSession) \<and>
   \<not> evictable (sessRun (settledInCompaction @ [Rearm, AttachSub, DetachSub, Rearm]) freshSession)"
  by code_simp

end
