(* ===== verification/SessionAsks.thy ===== *)
theory SessionAsks
  imports SessionProperties
begin

text \<open>
  The asks of a session: pointers, identifiers and timers of the pending asks stay consistent, so that a
  question whose answer is being delivered always has a timer that makes it answerable again.
\<close>

section \<open>Invariant\<close>

definition timers :: "session \<Rightarrow> askTimer set" where
  "timers s = set (armed s) \<union> set (due s)"

definition ownTimers :: "approval \<Rightarrow> nat set" where
  "ownTimers p = set_option (confirmTimer p) \<union> set_option (progressTimer p)"

text \<open>The timers an ask refers to call back for this ask, or are not pending any more.\<close>

definition owns :: "approval \<Rightarrow> session \<Rightarrow> bool" where
  "owns p s \<longleftrightarrow> (\<forall>t \<in> ownTimers p. t < nextTimer s \<and> (\<forall>x \<in> timers s. tNo x = t \<longrightarrow> tPtr x = aPtr p))"

text \<open>An answer that is being delivered will be confirmed by the engine or given up by a timer.\<close>

definition watched :: "approval \<Rightarrow> session \<Rightarrow> bool" where
  "watched p s \<longleftrightarrow> delivering p \<longrightarrow> aQuestion p \<and> (\<exists>x \<in> timers s. tConfirm x \<and> tPtr x = aPtr p \<and> tID x = aID p)"

text \<open>\<open>E\<close> are the asks a critical section is working on: their timers are stopped.\<close>

definition askInv :: "nat set \<Rightarrow> session \<Rightarrow> bool" where
  "askInv E s \<longleftrightarrow>
     distinct (map aPtr (pendingApprovals s)) \<and> (\<forall>p \<in> set (pendingApprovals s). aPtr p < nextPtr s) \<and>
     (\<forall>p \<in> set (pendingApprovals s). \<forall>q \<in> set (pendingApprovals s). aID p = aID q \<longrightarrow> aPtr p = aPtr q) \<and>
     (\<forall>x \<in> timers s. tNo x < nextTimer s \<and> (\<forall>y \<in> timers s. tNo x = tNo y \<longrightarrow> x = y)) \<and>
     (\<forall>p \<in> set (pendingApprovals s). owns p s \<and> (closed s \<or> aPtr p \<in> E \<or> watched p s))"

lemma askInvI:
  assumes "distinct (map aPtr (pendingApprovals s))" "\<And>p. p \<in> set (pendingApprovals s) \<Longrightarrow> aPtr p < nextPtr s"
    and "\<And>p q. p \<in> set (pendingApprovals s) \<Longrightarrow> q \<in> set (pendingApprovals s) \<Longrightarrow> aID p = aID q \<Longrightarrow> aPtr p = aPtr q"
    and "\<And>x. x \<in> timers s \<Longrightarrow> tNo x < nextTimer s"
    and "\<And>x y. x \<in> timers s \<Longrightarrow> y \<in> timers s \<Longrightarrow> tNo x = tNo y \<Longrightarrow> x = y"
    and "\<And>p. p \<in> set (pendingApprovals s) \<Longrightarrow> owns p s"
    and "\<And>p. p \<in> set (pendingApprovals s) \<Longrightarrow> \<not> closed s \<Longrightarrow> aPtr p \<notin> E \<Longrightarrow> watched p s"
  shows "askInv E s"
  unfolding askInv_def using assms by blast

lemma askInvD:
  assumes "askInv E s"
  shows "distinct (map aPtr (pendingApprovals s))" "p \<in> set (pendingApprovals s) \<Longrightarrow> aPtr p < nextPtr s"
    "p \<in> set (pendingApprovals s) \<Longrightarrow> q \<in> set (pendingApprovals s) \<Longrightarrow> aID p = aID q \<Longrightarrow> aPtr p = aPtr q"
    "x \<in> timers s \<Longrightarrow> tNo x < nextTimer s"
    "x \<in> timers s \<Longrightarrow> y \<in> timers s \<Longrightarrow> tNo x = tNo y \<Longrightarrow> x = y"
    "p \<in> set (pendingApprovals s) \<Longrightarrow> owns p s"
    "p \<in> set (pendingApprovals s) \<Longrightarrow> \<not> closed s \<Longrightarrow> aPtr p \<notin> E \<Longrightarrow> watched p s"
  using assms unfolding askInv_def by blast+

lemma askInv_ptr: "askInv E s \<Longrightarrow> p \<in> set (pendingApprovals s) \<Longrightarrow> q \<in> set (pendingApprovals s) \<Longrightarrow> aPtr p = aPtr q \<Longrightarrow> p = q"
  using askInvD(1)[of E s] by (simp add: distinct_map inj_on_def)

lemma pendingByID_SomeD: "pendingByID i s = Some p \<Longrightarrow> p \<in> set (pendingApprovals s) \<and> aID p = i"
  unfolding pendingByID_def by (auto simp: find_Some_iff)

lemma pendingByID_eq:
  assumes "askInv E s" "p \<in> set (pendingApprovals s)"
  shows "pendingByID (aID p) s = Some p"
proof (cases "pendingByID (aID p) s")
  case None
  then show ?thesis
    using assms(2) by (auto simp: pendingByID_def find_None_iff)
next
  case (Some q)
  then have "q \<in> set (pendingApprovals s)" "aID q = aID p"
    using pendingByID_SomeD by blast+
  then have "q = p"
    using askInv_ptr[OF assms(1)] askInvD(3)[OF assms(1)] assms(2) by blast
  then show ?thesis
    using Some by simp
qed

text \<open>What the invariant looks at.\<close>

definition askCore :: "session \<Rightarrow> approval list \<times> nat \<times> nat \<times> askTimer set" where
  "askCore s = (pendingApprovals s, nextPtr s, nextTimer s, timers s)"

lemma askInv_cong:
  assumes inv: "askInv E s" and core: "askCore s' = askCore s" and shut: "closed s \<Longrightarrow> closed s'"
  shows "askInv E s'"
proof -
  have same: "pendingApprovals s' = pendingApprovals s" "nextPtr s' = nextPtr s" "nextTimer s' = nextTimer s" "timers s' = timers s"
    using core by (simp_all add: askCore_def)
  then have "owns p s' = owns p s" "watched p s' = watched p s" for p
    by (simp_all add: owns_def watched_def)
  then show ?thesis
    using shut by (intro askInvI; unfold same) (use askInvD[OF inv] in blast)+
qed

lemma askInv_weaken: "askInv E s \<Longrightarrow> askInv (insert k E) s"
  by (rule askInvI) (use askInvD[of E s] in blast)+

lemma askInv_settled:
  assumes inv: "askInv (insert k E) s" and idle: "\<forall>p \<in> set (pendingApprovals s). aPtr p = k \<longrightarrow> \<not> delivering p"
  shows "askInv E s"
proof (rule askInvI)
  show "watched p s" if "p \<in> set (pendingApprovals s)" "\<not> closed s" "aPtr p \<notin> E" for p
    using that idle askInvD(7)[OF inv that(1,2)] by (cases "aPtr p = k") (auto simp: watched_def)
qed (use askInvD[OF inv] in blast)+

lemma askInv_watched:
  assumes inv: "askInv (insert k E) s" and safe: "\<And>p. p \<in> set (pendingApprovals s) \<Longrightarrow> \<not> closed s \<Longrightarrow> aPtr p = k \<Longrightarrow> watched p s"
  shows "askInv E s"
proof (rule askInvI)
  show "watched p s" if "p \<in> set (pendingApprovals s)" "\<not> closed s" "aPtr p \<notin> E" for p
    using that safe askInvD(7)[OF inv that(1,2)] by (cases "aPtr p = k") auto
qed (use askInvD[OF inv] in blast)+

lemma emit_core [simp]: "askCore (emit f s) = askCore s" "closed (emit f s) = closed s" "pendingApprovals (emit f s) = pendingApprovals s"
  by (simp_all add: askCore_def emit_def timers_def)

lemma askInv_emit [simp]: "askInv E (emit f s) = askInv E s"
  using askInv_cong[of E s "emit f s"] askInv_cong[of E "emit f s" s] by auto

section \<open>Operations on asks\<close>

lemma update_fields [simp]:
  "nextPtr (updateApproval k f s) = nextPtr s" "nextTimer (updateApproval k f s) = nextTimer s" "armed (updateApproval k f s) = armed s"
  "due (updateApproval k f s) = due s" "closed (updateApproval k f s) = closed s" "timers (updateApproval k f s) = timers s"
  "pendingApprovals (updateApproval k f s) = map (\<lambda>p. if aPtr p = k then f p else p) (pendingApprovals s)"
  by (simp_all add: updateApproval_def timers_def)

lemma update_mem:
  "p \<in> set (pendingApprovals (updateApproval k f s)) \<Longrightarrow> \<exists>q \<in> set (pendingApprovals s). p = (if aPtr q = k then f q else q)"
  by (simp only: update_fields(7) set_map image_iff)

lemma askInv_update:
  assumes inv: "askInv E s"
    and same: "\<And>p. aPtr p = k \<Longrightarrow> aPtr (f p) = k" "\<And>p. aPtr p = k \<Longrightarrow> aID (f p) = aID p"
    and own: "\<And>p. aPtr p = k \<Longrightarrow> ownTimers (f p) \<subseteq> ownTimers p"
    and work: "\<And>p. aPtr p = k \<Longrightarrow> k \<in> E \<or> (delivering (f p) \<longrightarrow> delivering p) \<and> aQuestion (f p) = aQuestion p"
  shows "askInv E (updateApproval k f s)"
proof -
  let ?g = "\<lambda>p. if aPtr p = k then f p else p"
  have ptr: "aPtr (?g p) = aPtr p" and ident: "aID (?g p) = aID p" for p
    using same by auto
  have "aPtr \<circ> ?g = aPtr"
    using ptr by auto
  then have ptrs: "map aPtr (map ?g (pendingApprovals s)) = map aPtr (pendingApprovals s)"
    by (simp only: map_map)
  have owned: "owns (?g p) (updateApproval k f s)" if "owns p s" for p
    using that own same(1) unfolding owns_def by (auto simp: subset_iff)
  have seen: "watched (?g p) (updateApproval k f s)" if "watched p s" "aPtr p \<notin> E" for p
    using that work same unfolding watched_def by auto
  show ?thesis
  proof (rule askInvI)
    show "distinct (map aPtr (pendingApprovals (updateApproval k f s)))"
      unfolding update_fields ptrs by (rule askInvD(1)[OF inv])
    show "aPtr p < nextPtr (updateApproval k f s)" if m: "p \<in> set (pendingApprovals (updateApproval k f s))" for p
    proof -
      obtain q where "q \<in> set (pendingApprovals s)" "p = ?g q"
        using update_mem[OF m] by blast
      then show ?thesis
        using ptr[of q] askInvD(2)[OF inv] by simp
    qed
    show "aPtr p = aPtr q" if m: "p \<in> set (pendingApprovals (updateApproval k f s))" "q \<in> set (pendingApprovals (updateApproval k f s))"
        "aID p = aID q" for p q
    proof -
      obtain p0 q0 where old: "p0 \<in> set (pendingApprovals s)" "q0 \<in> set (pendingApprovals s)" and pq: "p = ?g p0" "q = ?g q0"
        using update_mem[OF m(1)] update_mem[OF m(2)] by blast
      have "aPtr p0 = aPtr q0"
        using askInvD(3)[OF inv old] m(3) unfolding pq ident .
      then show ?thesis
        unfolding pq ptr .
    qed
    show "owns p (updateApproval k f s)" if m: "p \<in> set (pendingApprovals (updateApproval k f s))" for p
    proof -
      obtain q where "q \<in> set (pendingApprovals s)" "p = ?g q"
        using update_mem[OF m] by blast
      then show ?thesis
        using owned[OF askInvD(6)[OF inv, of q]] by simp
    qed
    show "watched p (updateApproval k f s)" if m: "p \<in> set (pendingApprovals (updateApproval k f s))" "\<not> closed (updateApproval k f s)" "aPtr p \<notin> E" for p
    proof -
      obtain q where q: "q \<in> set (pendingApprovals s)" "p = ?g q"
        using update_mem[OF m(1)] by blast
      then show ?thesis
        using m ptr[of q] seen[of q] askInvD(7)[OF inv q(1)] by simp
    qed
  qed (use askInvD(4,5)[OF inv] in simp_all)
qed

lemma stopTimer_fields [simp]:
  "pendingApprovals (stopTimer t s) = pendingApprovals s" "nextPtr (stopTimer t s) = nextPtr s" "nextTimer (stopTimer t s) = nextTimer s"
  "due (stopTimer t s) = due s" "closed (stopTimer t s) = closed s"
  by (simp_all add: stopTimer_def split: option.splits)

lemma stopTimer_timers: "timers (stopTimer t s) \<subseteq> timers s" "x \<in> timers s \<Longrightarrow> tNo x \<notin> set_option t \<Longrightarrow> x \<in> timers (stopTimer t s)"
  by (auto simp: stopTimer_def timers_def split: option.splits)

lemma stopTimers_fields [simp]:
  "nextPtr (stopTimers p s) = nextPtr s" "nextTimer (stopTimers p s) = nextTimer s" "closed (stopTimers p s) = closed s"
  "pendingApprovals (stopTimers p s) =
     map (\<lambda>q. if aPtr q = aPtr p then q\<lparr>confirmTimer := None, progressTimer := None, aProgress := None\<rparr> else q) (pendingApprovals s)"
  by (simp_all add: stopTimers_def)

lemma stopTimers_timers:
  "timers (stopTimers p s) \<subseteq> timers s" "x \<in> timers s \<Longrightarrow> tNo x \<notin> ownTimers p \<Longrightarrow> x \<in> timers (stopTimers p s)"
proof -
  show "timers (stopTimers p s) \<subseteq> timers s"
    unfolding stopTimers_def update_fields by (meson stopTimer_timers(1) subset_trans)
  show "x \<in> timers s \<Longrightarrow> tNo x \<notin> ownTimers p \<Longrightarrow> x \<in> timers (stopTimers p s)"
    unfolding stopTimers_def update_fields ownTimers_def by (intro stopTimer_timers(2)) auto
qed

lemma owns_stopTimers: "owns q s \<Longrightarrow> owns q (stopTimers p s)"
  using stopTimers_timers(1)[of p s] unfolding owns_def by auto

lemma stop_mem:
  "q \<in> set (pendingApprovals (stopTimers p s)) \<Longrightarrow>
    \<exists>r \<in> set (pendingApprovals s). q = (if aPtr r = aPtr p then r\<lparr>confirmTimer := None, progressTimer := None, aProgress := None\<rparr> else r)"
  by (simp only: stopTimers_fields(4) set_map image_iff)

lemma askInv_stopTimers:
  assumes inv: "askInv E s" and own: "owns p s"
  shows "askInv (insert (aPtr p) E) (stopTimers p s)"
proof -
  let ?g = "\<lambda>q. if aPtr q = aPtr p then q\<lparr>confirmTimer := None, progressTimer := None, aProgress := None\<rparr> else q"
  have ptr: "aPtr (?g q) = aPtr q" and ident: "aID (?g q) = aID q" for q
    by simp_all
  have ptrs: "map aPtr (map ?g (pendingApprovals s)) = map aPtr (pendingApprovals s)"
    by simp
  have owned: "owns (?g q) (stopTimers p s)" if "owns q s" for q
    using owns_stopTimers[OF that, of p] by (simp add: owns_def ownTimers_def)
  have seen: "watched q (stopTimers p s)" if w: "watched q s" "aPtr q \<noteq> aPtr p" for q
  proof (cases "delivering q")
    case True
    then obtain x where x: "x \<in> timers s" "tConfirm x" "tPtr x = aPtr q" "tID x = aID q" and q: "aQuestion q"
      using w unfolding watched_def by blast
    have "tNo x \<notin> ownTimers p"
      using own x w(2) unfolding owns_def by auto
    then have "x \<in> timers (stopTimers p s)"
      by (rule stopTimers_timers(2)[OF x(1)])
    then show ?thesis
      using x q unfolding watched_def by blast
  qed (simp add: watched_def)
  show ?thesis
  proof (rule askInvI)
    show "distinct (map aPtr (pendingApprovals (stopTimers p s)))"
      unfolding stopTimers_fields ptrs by (rule askInvD(1)[OF inv])
    show "aPtr q < nextPtr (stopTimers p s)" if m: "q \<in> set (pendingApprovals (stopTimers p s))" for q
    proof -
      obtain r where "r \<in> set (pendingApprovals s)" "q = ?g r"
        using stop_mem[OF m] by blast
      then show ?thesis
        using askInvD(2)[OF inv, of r] by simp
    qed
    show "aPtr q = aPtr r" if m: "q \<in> set (pendingApprovals (stopTimers p s))" "r \<in> set (pendingApprovals (stopTimers p s))" "aID q = aID r" for q r
    proof -
      obtain p0 q0 where old: "p0 \<in> set (pendingApprovals s)" "q0 \<in> set (pendingApprovals s)" and pq: "q = ?g p0" "r = ?g q0"
        using stop_mem[OF m(1)] stop_mem[OF m(2)] by blast
      have "aPtr p0 = aPtr q0"
        using askInvD(3)[OF inv old] m(3) unfolding pq ident .
      then show ?thesis
        unfolding pq ptr .
    qed
    show "owns q (stopTimers p s)" if m: "q \<in> set (pendingApprovals (stopTimers p s))" for q
    proof -
      obtain r where "r \<in> set (pendingApprovals s)" "q = ?g r"
        using stop_mem[OF m] by blast
      then show ?thesis
        using owned[OF askInvD(6)[OF inv, of r]] by simp
    qed
    show "watched q (stopTimers p s)" if m: "q \<in> set (pendingApprovals (stopTimers p s))" "\<not> closed (stopTimers p s)" "aPtr q \<notin> insert (aPtr p) E" for q
    proof -
      obtain r where r: "r \<in> set (pendingApprovals s)" "q = ?g r"
        using stop_mem[OF m(1)] by blast
      then have "aPtr r \<noteq> aPtr p"
        using m(3) by auto
      then show ?thesis
        using seen[of q] askInvD(7)[OF inv r(1)] m r(2) by simp
    qed
    show "tNo x < nextTimer (stopTimers p s)" if "x \<in> timers (stopTimers p s)" for x
      using that stopTimers_timers(1)[of p s] askInvD(4)[OF inv] by auto
    show "x = y" if "x \<in> timers (stopTimers p s)" "y \<in> timers (stopTimers p s)" "tNo x = tNo y" for x y
      using that stopTimers_timers(1)[of p s] askInvD(5)[OF inv] by blast
  qed
qed

lemma setQuestionDelivery_fields [simp]:
  "closed (setQuestionDeliveryLocked k d r s) = closed s" "nextTimer (setQuestionDeliveryLocked k d r s) = nextTimer s"
  "nextPtr (setQuestionDeliveryLocked k d r s) = nextPtr s"
  "pendingApprovals (setQuestionDeliveryLocked k d r s) =
     map (\<lambda>p. if aPtr p = k then p\<lparr>aDelivery := Some d, aDeliveryError := (if r \<noteq> [] then Some r else None),
       aShown := (if submitted p \<noteq> None then submitted p else aShown p)\<rparr> else p) (pendingApprovals s)"
  "timers (setQuestionDeliveryLocked k d r s) = timers s"
  unfolding setQuestionDeliveryLocked_def Let_def by (simp_all add: emit_def timers_def split: option.splits)

lemma askInv_setQuestionDelivery: "askInv E s \<Longrightarrow> askInv E (setQuestionDeliveryLocked k d r s)"
proof -
  let ?f = "\<lambda>p. p\<lparr>aDelivery := Some d, aDeliveryError := (if r \<noteq> [] then Some r else None),
     aShown := (if submitted p \<noteq> None then submitted p else aShown p)\<rparr>"
  assume "askInv E s"
  then have "askInv E (updateApproval k ?f s)"
    by (rule askInv_update) (auto simp: ownTimers_def)
  then show ?thesis
    by (cases "lookupPtr k (updateApproval k ?f s)") (simp_all only: setQuestionDeliveryLocked_def Let_def option.case askInv_emit)
qed

text \<open>The asks by pointer and identifier: most sections change neither.\<close>

definition idents :: "session \<Rightarrow> (nat \<times> string) list" where
  "idents s = map (\<lambda>p. (aPtr p, aID p)) (pendingApprovals s)"

lemma idents_same:
  "idents (stopTimers p s) = idents s" "idents (setQuestionDeliveryLocked k d r s) = idents s" "idents (emit f s) = idents s"
  "idents (failDelivery p s) = idents s"
  by (simp_all add: idents_def failDelivery_def)

lemma idents_mem: "p \<in> set (pendingApprovals s) \<Longrightarrow> (aPtr p, aID p) \<in> set (idents s)"
  by (auto simp: idents_def)

lemma idents_back: "idents s' = idents s \<Longrightarrow> p \<in> set (pendingApprovals s') \<Longrightarrow> \<exists>q \<in> set (pendingApprovals s). aPtr q = aPtr p \<and> aID q = aID p"
  using idents_mem[of p s'] by (auto simp: idents_def)

definition atRest :: "nat \<Rightarrow> session \<Rightarrow> bool" where
  "atRest k s \<longleftrightarrow> (\<forall>p \<in> set (pendingApprovals s). aPtr p = k \<longrightarrow> \<not> delivering p)"

lemma failDelivery_fields [simp]:
  "closed (failDelivery p s) = closed s" "nextTimer (failDelivery p s) = nextTimer s" "nextPtr (failDelivery p s) = nextPtr s"
  "timers (failDelivery p s) = timers s" "length (pendingApprovals (failDelivery p s)) = length (pendingApprovals s)"
  by (simp_all add: failDelivery_def)

lemma askInv_failDelivery:
  assumes inv: "askInv (insert (aPtr p) E) s" and same: "\<And>q. q \<in> set (pendingApprovals s) \<Longrightarrow> aPtr q = aPtr p \<Longrightarrow> delivering q = delivering p"
  shows "askInv E (failDelivery p s)" "atRest (aPtr p) (failDelivery p s)"
proof -
  show rest: "atRest (aPtr p) (failDelivery p s)"
    using same by (auto simp: atRest_def failDelivery_def)
  have "askInv (insert (aPtr p) E) (failDelivery p s)"
  proof (cases "delivering p")
    case True
    have "askInv (insert (aPtr p) E) (updateApproval (aPtr p) (\<lambda>q. q\<lparr>delivering := False\<rparr>) s)"
      by (rule askInv_update[OF inv]) (auto simp: ownTimers_def)
    then show ?thesis
      using True askInv_setQuestionDelivery by (simp add: failDelivery_def)
  qed (simp add: failDelivery_def inv)
  then show "askInv E (failDelivery p s)"
    using rest by (rule askInv_settled[unfolded atRest_def[symmetric]])
qed

lemma askInv_rename:
  assumes inv: "askInv E s" and rest: "atRest k s"
    and free: "\<And>p. p \<in> set (pendingApprovals s) \<Longrightarrow> aID p = i \<Longrightarrow> aPtr p = k"
    and f: "\<And>p. aPtr p = k \<Longrightarrow> aPtr (f p) = k" "\<And>p. aID (f p) = i" "\<And>p. ownTimers (f p) \<subseteq> ownTimers p" "\<And>p. delivering (f p) = delivering p"
  shows "askInv E (updateApproval k f s)"
proof -
  let ?g = "\<lambda>p. if aPtr p = k then f p else p"
  note from_old = update_mem[of _ k f s]
  have ptr: "aPtr (?g p) = aPtr p" for p
    using f(1) by auto
  then have "aPtr \<circ> ?g = aPtr"
    by auto
  then have ptrs: "map aPtr (map ?g (pendingApprovals s)) = map aPtr (pendingApprovals s)"
    by (simp only: map_map)
  have owned: "owns (?g p) (updateApproval k f s)" if "owns p s" for p
    using that f unfolding owns_def by (auto simp: subset_iff)
  show ?thesis
  proof (rule askInvI)
    show "distinct (map aPtr (pendingApprovals (updateApproval k f s)))"
      unfolding update_fields ptrs by (rule askInvD(1)[OF inv])
    show "aPtr p < nextPtr (updateApproval k f s)" if m: "p \<in> set (pendingApprovals (updateApproval k f s))" for p
    proof -
      obtain q where "q \<in> set (pendingApprovals s)" "p = ?g q"
        using from_old[OF m] by blast
      then show ?thesis
        using ptr[of q] askInvD(2)[OF inv] by simp
    qed
    show "owns p (updateApproval k f s)" if m: "p \<in> set (pendingApprovals (updateApproval k f s))" for p
    proof -
      obtain q where "q \<in> set (pendingApprovals s)" "p = ?g q"
        using from_old[OF m] by blast
      then show ?thesis
        using owned[OF askInvD(6)[OF inv, of q]] by simp
    qed
    show "aPtr p = aPtr q" if m: "p \<in> set (pendingApprovals (updateApproval k f s))" "q \<in> set (pendingApprovals (updateApproval k f s))"
        and id: "aID p = aID q" for p q
    proof -
      obtain p0 q0 where old: "p0 \<in> set (pendingApprovals s)" "q0 \<in> set (pendingApprovals s)" and pq: "p = ?g p0" "q = ?g q0"
        using from_old[OF m(1)] from_old[OF m(2)] by blast
      have named: "aID (?g x) = (if aPtr x = k then i else aID x)" for x
        using f(2) by simp
      have "aPtr p0 = aPtr q0"
        using id[unfolded pq named] free[OF old(1)] free[OF old(2)] askInvD(3)[OF inv old]
        by (cases "aPtr p0 = k"; cases "aPtr q0 = k") simp_all
      then show ?thesis
        unfolding pq ptr .
    qed
    show "watched p (updateApproval k f s)" if m: "p \<in> set (pendingApprovals (updateApproval k f s))" "\<not> closed (updateApproval k f s)" "aPtr p \<notin> E" for p
    proof -
      obtain q where q: "q \<in> set (pendingApprovals s)" "p = ?g q"
        using from_old[OF m(1)] by blast
      then have "watched q s"
        using m ptr[of q] askInvD(7)[OF inv q(1)] by simp
      then show ?thesis
        using q rest f(4) unfolding watched_def atRest_def by auto
    qed
  qed (use askInvD(4,5)[OF inv] in simp_all)
qed

text \<open>The engine does not give a pending ask the identifier of one ask and the request of another.\<close>

definition orderlyAsk :: "string \<Rightarrow> string \<Rightarrow> session \<Rightarrow> bool" where
  "orderlyAsk i r s \<longleftrightarrow>
     list_all (\<lambda>p. list_all (\<lambda>q. aID p = i \<and> r \<noteq> [] \<and> aRequest q = r \<longrightarrow> aPtr p = aPtr q) (pendingApprovals s)) (pendingApprovals s)"

lemma askInv_upsert:
  assumes inv: "askInv E s" and orderly: "orderlyAsk i r s"
  shows "askInv E (upsertApprovalLocked i r q s)"
proof (cases "List.find (\<lambda>p. aID p = i \<or> r \<noteq> [] \<and> aRequest p = r) (pendingApprovals s)")
  case None
  then have fresh: "aID p \<noteq> i" if "p \<in> set (pendingApprovals s)" for p
    using that by (auto simp: find_None_iff)
  let ?new = "\<lparr>aPtr = nextPtr s, aID = i, aRequest = r, aQuestion = q, aDelivery = None, aDeliveryError = None, aShown = None,
    confirmTimer = None, progressTimer = None, aProgress = None, delivering = False, submitted = None\<rparr>"
  have res: "upsertApprovalLocked i r q s = s\<lparr>nextPtr := Suc (nextPtr s), pendingApprovals := pendingApprovals s @ [?new]\<rparr>"
    using None by (simp add: upsertApprovalLocked_def)
  have same: "owns p (upsertApprovalLocked i r q s) = owns p s" "watched p (upsertApprovalLocked i r q s) = watched p s" for p
    by (simp_all add: res owns_def watched_def timers_def)
  have new: "owns ?new s" "watched ?new s"
    by (simp_all add: owns_def watched_def ownTimers_def)
  show ?thesis
  proof (rule askInvI)
    show "distinct (map aPtr (pendingApprovals (upsertApprovalLocked i r q s)))"
    proof -
      have "nextPtr s \<notin> aPtr ` set (pendingApprovals s)"
        using askInvD(2)[OF inv] by (metis imageE less_irrefl)
      then show ?thesis
        using askInvD(1)[OF inv] by (simp add: res)
    qed
    show "aPtr p < nextPtr (upsertApprovalLocked i r q s)" if "p \<in> set (pendingApprovals (upsertApprovalLocked i r q s))" for p
      using that askInvD(2)[OF inv, of p] by (auto simp: res)
    show "aPtr p = aPtr p'" if "p \<in> set (pendingApprovals (upsertApprovalLocked i r q s))" "p' \<in> set (pendingApprovals (upsertApprovalLocked i r q s))"
        "aID p = aID p'" for p p'
      using that fresh[of p] fresh[of p'] askInvD(3)[OF inv, of p p'] by (auto simp: res)
    show "owns p (upsertApprovalLocked i r q s)" if "p \<in> set (pendingApprovals (upsertApprovalLocked i r q s))" for p
      using that new askInvD(6)[OF inv, of p] unfolding same by (auto simp: res)
    show "watched p (upsertApprovalLocked i r q s)" if "p \<in> set (pendingApprovals (upsertApprovalLocked i r q s))"
        "\<not> closed (upsertApprovalLocked i r q s)" "aPtr p \<notin> E" for p
      using that new askInvD(7)[OF inv, of p] unfolding same by (auto simp: res)
  qed (use askInvD(4,5)[OF inv] in \<open>simp_all add: res timers_def\<close>)
next
  case (Some p)
  then have p: "p \<in> set (pendingApprovals s)" "aID p = i \<or> r \<noteq> [] \<and> aRequest p = r"
    by (auto simp: find_Some_iff)
  define s1 where "s1 = failDelivery p (stopTimers p s)"
  have "askInv (insert (aPtr p) E) (stopTimers p s)"
    by (rule askInv_stopTimers[OF inv askInvD(6)[OF inv p(1)]])
  moreover have "delivering x = delivering p" if m: "x \<in> set (pendingApprovals (stopTimers p s))" "aPtr x = aPtr p" for x
  proof -
    obtain y where y: "y \<in> set (pendingApprovals s)"
        "x = (if aPtr y = aPtr p then y\<lparr>confirmTimer := None, progressTimer := None, aProgress := None\<rparr> else y)"
      using stop_mem[OF m(1)] by blast
    then have "y = p"
      using m(2) by (intro askInv_ptr[OF inv y(1) p(1)]) (simp split: if_splits)
    then show ?thesis
      using y(2) by simp
  qed
  ultimately have s1: "askInv E s1" "atRest (aPtr p) s1"
    unfolding s1_def by (rule askInv_failDelivery; blast)+
  have free: "aPtr x = aPtr p" if x: "x \<in> set (pendingApprovals s1)" "aID x = i" for x
  proof -
    have "idents s1 = idents s"
      by (simp add: s1_def idents_same)
    then obtain y where y: "y \<in> set (pendingApprovals s)" "aPtr y = aPtr x" "aID y = aID x"
      using idents_back x(1) by blast
    have "aPtr y = aPtr p"
    proof (cases "aID p = i")
      case True
      then show ?thesis
        using y x(2) askInvD(3)[OF inv y(1) p(1)] by simp
    next
      case False
      then show ?thesis
        using orderly y p x(2) unfolding orderlyAsk_def list_all_iff by metis
    qed
    then show ?thesis
      using y by simp
  qed
  have "upsertApprovalLocked i r q s = updateApproval (aPtr p)
      (\<lambda>x. x\<lparr>aID := i, aRequest := r, aQuestion := q, aDelivery := aDelivery x,
         aDeliveryError := (if aDelivery x \<noteq> None then aDeliveryError x else None),
         aShown := (if aDelivery x \<noteq> None then aShown x else None)\<rparr>) s1"
    using Some by (simp add: upsertApprovalLocked_def s1_def)
  then show ?thesis
    using askInv_rename[OF s1 free] by (simp add: ownTimers_def)
qed

end
