(* ===== verification/SessionAnswers.thy ===== *)
theory SessionAnswers
  imports SessionAsks
begin

text \<open>
  The ask invariant through every step of a session: removal, loss, answers, drafts, timers and provider events.
\<close>

section \<open>Removal and loss\<close>

lemma askInv_filter:
  assumes inv: "askInv (insert k E) s"
  shows "askInv E (s\<lparr>pendingApprovals := filter (\<lambda>q. aPtr q \<noteq> k) (pendingApprovals s)\<rparr>)"
proof -
  have same: "owns p (s\<lparr>pendingApprovals := ps\<rparr>) = owns p s" "watched p (s\<lparr>pendingApprovals := ps\<rparr>) = watched p s"
      "timers (s\<lparr>pendingApprovals := ps\<rparr>) = timers s" for p ps
    by (simp_all add: owns_def watched_def timers_def)
  show ?thesis
  proof (rule askInvI)
    show "distinct (map aPtr (pendingApprovals (s\<lparr>pendingApprovals := filter (\<lambda>q. aPtr q \<noteq> k) (pendingApprovals s)\<rparr>)))"
      using askInvD(1)[OF inv] by (simp add: distinct_map_filter)
    show "watched p (s\<lparr>pendingApprovals := filter (\<lambda>q. aPtr q \<noteq> k) (pendingApprovals s)\<rparr>)"
      if "p \<in> set (pendingApprovals (s\<lparr>pendingApprovals := filter (\<lambda>q. aPtr q \<noteq> k) (pendingApprovals s)\<rparr>))"
        "\<not> closed (s\<lparr>pendingApprovals := filter (\<lambda>q. aPtr q \<noteq> k) (pendingApprovals s)\<rparr>)" "aPtr p \<notin> E" for p
      unfolding same using that by (intro askInvD(7)[OF inv]) simp_all
    show "x = y" if "x \<in> timers (s\<lparr>pendingApprovals := filter (\<lambda>q. aPtr q \<noteq> k) (pendingApprovals s)\<rparr>)"
        "y \<in> timers (s\<lparr>pendingApprovals := filter (\<lambda>q. aPtr q \<noteq> k) (pendingApprovals s)\<rparr>)" "tNo x = tNo y" for x y
      using that unfolding same by (rule askInvD(5)[OF inv])
    show "aPtr p = aPtr q" if "p \<in> set (pendingApprovals (s\<lparr>pendingApprovals := filter (\<lambda>q. aPtr q \<noteq> k) (pendingApprovals s)\<rparr>))"
        "q \<in> set (pendingApprovals (s\<lparr>pendingApprovals := filter (\<lambda>q. aPtr q \<noteq> k) (pendingApprovals s)\<rparr>))" "aID p = aID q" for p q
      using that by (intro askInvD(3)[OF inv]) simp_all
  qed (use askInvD(2)[OF inv] askInvD(4)[OF inv] askInvD(6)[OF inv] in \<open>simp_all add: same\<close>)
qed

lemma filter_stopTimers:
  "filter (\<lambda>q. aPtr q \<noteq> aPtr p) (pendingApprovals (stopTimers p s)) = filter (\<lambda>q. aPtr q \<noteq> aPtr p) (pendingApprovals s)"
proof -
  have "filter (\<lambda>q. aPtr q \<noteq> k) (map (\<lambda>q. if aPtr q = k then q\<lparr>confirmTimer := None, progressTimer := None, aProgress := None\<rparr> else q) ps) =
      filter (\<lambda>q. aPtr q \<noteq> k) ps" for k ps
    by (induction ps) auto
  then show ?thesis
    by simp
qed

lemma askInv_remove:
  assumes inv: "askInv E s"
  shows "askInv E (removeApprovalLocked i s)"
proof (cases "pendingByID i s")
  case (Some p)
  have "askInv (insert (aPtr p) E) (stopTimers p s)"
    by (rule askInv_stopTimers[OF inv askInvD(6)[OF inv]]) (use pendingByID_SomeD[OF Some] in simp)
  from askInv_filter[OF this] show ?thesis
    unfolding filter_stopTimers using Some by (simp add: removeApprovalLocked_def)
qed (simp add: removeApprovalLocked_def inv)

lemma askInv_resolve: "askInv E s \<Longrightarrow> askInv E (resolveApprovalLocked i out s)"
  by (simp add: resolveApprovalLocked_def askInv_remove)

lemma resolve_fields:
  "closed (resolveApprovalLocked i out s) = closed s" "length (pendingApprovals s) \<le> Suc (length (pendingApprovals (resolveApprovalLocked i out s)))"
  if "askInv E s"
proof -
  show "closed (resolveApprovalLocked i out s) = closed s"
    by (simp add: resolveApprovalLocked_def removeApprovalLocked_def split: option.splits)
  have few: "length xs \<le> Suc (length (filter (\<lambda>q. aPtr q \<noteq> k) xs))" if "distinct (map aPtr xs)" for k and xs :: "approval list"
    using that
  proof (induction xs)
    case (Cons x xs)
    show ?case
    proof (cases "aPtr x = k")
      case True
      then have "filter (\<lambda>q. aPtr q \<noteq> k) xs = xs"
        using Cons.prems by (auto simp: filter_id_conv image_iff)
      then show ?thesis
        by simp
    qed (use Cons in simp)
  qed simp
  show "length (pendingApprovals s) \<le> Suc (length (pendingApprovals (resolveApprovalLocked i out s)))"
    using few[OF askInvD(1)[OF that]] by (simp add: resolveApprovalLocked_def removeApprovalLocked_def split: option.splits)
qed

lemma stopped_delivery:
  assumes inv: "askInv E s" and p: "p \<in> set (pendingApprovals s)" and x: "x \<in> set (pendingApprovals (stopTimers p s))" "aPtr x = aPtr p"
  shows "delivering x = delivering p"
proof -
  obtain y where y: "y \<in> set (pendingApprovals s)"
      "x = (if aPtr y = aPtr p then y\<lparr>confirmTimer := None, progressTimer := None, aProgress := None\<rparr> else y)"
    using stop_mem[OF x(1)] by blast
  then have "y = p"
    using x(2) by (intro askInv_ptr[OF inv y(1) p]) (simp split: if_splits)
  then show ?thesis
    using y(2) by simp
qed

lemma askInv_failOnLoss:
  assumes inv: "askInv E s" and p: "p \<in> set (pendingApprovals s)"
  shows "askInv E (failOnLoss p s)" "length (pendingApprovals s) \<le> Suc (length (pendingApprovals (failOnLoss p s)))"
proof -
  have "askInv (insert (aPtr p) E) (stopTimers p s)"
    by (rule askInv_stopTimers[OF inv askInvD(6)[OF inv p]])
  then have "askInv E (failDelivery p (stopTimers p s))"
    by (rule askInv_failDelivery(1)) (rule stopped_delivery[OF inv p])
  then show "askInv E (failOnLoss p s)"
    using askInv_resolve[OF inv] by (simp add: failOnLoss_def)
  show "length (pendingApprovals s) \<le> Suc (length (pendingApprovals (failOnLoss p s)))"
    using resolve_fields(2)[OF inv] by (simp add: failOnLoss_def)
qed

lemma askInv_failFrom: "askInv E s \<Longrightarrow> n \<le> length (pendingApprovals s) \<Longrightarrow> askInv E (failFrom n s)"
proof (induction n s rule: failFrom.induct)
  case (2 n s)
  have "pendingApprovals s ! n \<in> set (pendingApprovals s)"
    using 2(3) by simp
  note lost = askInv_failOnLoss[OF 2(2) this]
  show ?case
    using "2.IH"[OF lost(1)] lost(2) 2(3) by simp
qed simp

lemma askInv_failQuestions: "askInv E s \<Longrightarrow> askInv E (failQuestionsOnLossLocked s)"
  by (simp add: failQuestionsOnLossLocked_def askInv_failFrom)

text \<open>On a closed session nothing is promised of deliveries, so its timers may be stopped at once.\<close>

lemma askInv_closed: "askInv F s \<Longrightarrow> closed s \<Longrightarrow> askInv E s"
  by (rule askInvI) (use askInvD[of F s] in blast)+

lemma askInv_stopAll:
  assumes "askInv E s" "closed s" "\<forall>p \<in> set ps. owns p s"
  shows "askInv E (fold stopTimers ps s)"
  using assms
proof (induction ps arbitrary: s)
  case (Cons p ps)
  have "askInv E (stopTimers p s)"
    by (rule askInv_closed[OF askInv_stopTimers[OF Cons.prems(1)]]) (use Cons.prems in simp_all)
  then show ?case
    using Cons.IH[of "stopTimers p s"] Cons.prems owns_stopTimers by simp
qed simp

lemma askInv_stopQuestionTimers: "askInv E s \<Longrightarrow> closed s \<Longrightarrow> askInv E (stopQuestionTimersLocked s)"
  unfolding stopQuestionTimersLocked_def by (rule askInv_stopAll) (auto dest: askInvD(6))

section \<open>Answers, drafts and timers\<close>

lemma arm_fields [simp]:
  "pendingApprovals (armTimer c k i s) = pendingApprovals s" "nextPtr (armTimer c k i s) = nextPtr s"
  "nextTimer (armTimer c k i s) = Suc (nextTimer s)" "closed (armTimer c k i s) = closed s"
  "timers (armTimer c k i s) = insert \<lparr>tNo = nextTimer s, tConfirm = c, tPtr = k, tID = i\<rparr> (timers s)"
  by (auto simp: armTimer_def timers_def)

lemma askInv_armed:
  assumes inv: "askInv E s"
    and same: "\<And>p. aPtr (f p) = aPtr p" "\<And>p. aID (f p) = aID p" "\<And>p. delivering (f p) = delivering p" "\<And>p. aQuestion (f p) = aQuestion p"
    and own: "\<And>p. ownTimers (f p) \<subseteq> insert (nextTimer s) (ownTimers p)"
  shows "askInv E (updateApproval k f (armTimer c k i s))"
proof -
  let ?s = "updateApproval k f (armTimer c k i s)"
  let ?g = "\<lambda>p. if aPtr p = k then f p else p"
  have mem: "\<exists>q \<in> set (pendingApprovals s). p = ?g q" if "p \<in> set (pendingApprovals ?s)" for p
    using update_mem[OF that] by simp
  have ptr: "aPtr (?g p) = aPtr p" and ident: "aID (?g p) = aID p" for p
    using same by simp_all
  have "aPtr \<circ> ?g = aPtr"
    using ptr by auto
  then have ptrs: "map aPtr (map ?g (pendingApprovals s)) = map aPtr (pendingApprovals s)"
    by (simp only: map_map)
  have owned: "owns (?g p) ?s" if own_p: "owns p s" for p
    unfolding owns_def
  proof (intro ballI conjI impI)
    fix t
    assume t: "t \<in> ownTimers (?g p)"
    then have t': "t \<in> ownTimers p \<or> t = nextTimer s \<and> aPtr p = k"
      using own[of p] by (auto split: if_splits)
    then show "t < nextTimer ?s"
      using own_p by (auto simp: owns_def less_Suc_eq)
    fix x
    assume x: "x \<in> timers ?s" "tNo x = t"
    show "tPtr x = aPtr (?g p)"
    proof (cases "x \<in> timers s")
      case True
      then have "t < nextTimer s"
        using askInvD(4)[OF inv] x(2) by auto
      then show ?thesis
        using t' own_p x(2) True unfolding ptr by (auto simp: owns_def)
    next
      case False
      then have "tPtr x = k" "t = nextTimer s"
        using x by auto
      then show ?thesis
        using t' own_p unfolding ptr by (auto simp: owns_def)
    qed
  qed
  have seen: "watched (?g p) ?s" if "watched p s" for p
    using that same unfolding watched_def by auto
  show ?thesis
  proof (rule askInvI)
    show "distinct (map aPtr (pendingApprovals ?s))"
      unfolding update_fields arm_fields ptrs by (rule askInvD(1)[OF inv])
    show "aPtr p < nextPtr ?s" if m: "p \<in> set (pendingApprovals ?s)" for p
    proof -
      obtain q where "q \<in> set (pendingApprovals s)" "p = ?g q"
        using mem[OF m] by blast
      then show ?thesis
        using ptr[of q] askInvD(2)[OF inv] by simp
    qed
    show "aPtr p = aPtr q" if m: "p \<in> set (pendingApprovals ?s)" "q \<in> set (pendingApprovals ?s)" "aID p = aID q" for p q
    proof -
      obtain p0 q0 where old: "p0 \<in> set (pendingApprovals s)" "q0 \<in> set (pendingApprovals s)" and pq: "p = ?g p0" "q = ?g q0"
        using mem[OF m(1)] mem[OF m(2)] by blast
      have "aPtr p0 = aPtr q0"
        using askInvD(3)[OF inv old] m(3) unfolding pq ident .
      then show ?thesis
        unfolding pq ptr .
    qed
    show "owns p ?s" if m: "p \<in> set (pendingApprovals ?s)" for p
    proof -
      obtain q where "q \<in> set (pendingApprovals s)" "p = ?g q"
        using mem[OF m] by blast
      then show ?thesis
        using owned[OF askInvD(6)[OF inv, of q]] by simp
    qed
    show "watched p ?s" if m: "p \<in> set (pendingApprovals ?s)" "\<not> closed ?s" "aPtr p \<notin> E" for p
    proof -
      obtain q where q: "q \<in> set (pendingApprovals s)" "p = ?g q"
        using mem[OF m(1)] by blast
      then show ?thesis
        using m ptr[of q] seen[of q] askInvD(7)[OF inv q(1)] by simp
    qed
    show "tNo x < nextTimer ?s" if "x \<in> timers ?s" for x
      using that askInvD(4)[OF inv, of x] by auto
    show "x = y" if "x \<in> timers ?s" "y \<in> timers ?s" "tNo x = tNo y" for x y
      using that askInvD(4)[OF inv, of x] askInvD(4)[OF inv, of y] askInvD(5)[OF inv, of x y] by auto
  qed
qed

lemma askInv_respond:
  assumes inv: "askInv {} s"
  shows "askInv {} (snd (respondExtensionUI i r a prep write s))"
proof -
  have expired: "askInv {} (case pendingByID i s of Some p \<Rightarrow> if \<not> aQuestion p then resolveApprovalLocked i ''expired'' s else s | None \<Rightarrow> s)"
    using inv askInv_resolve by (auto split: option.splits)
  have answered: "askInv {} (updateApproval (aPtr p) (\<lambda>q. q\<lparr>confirmTimer := Some (nextTimer s)\<rparr>)
      (armTimer True (aPtr p) i (setQuestionDeliveryLocked (aPtr p) ''sending'' []
        (updateApproval (aPtr p) (\<lambda>q. q\<lparr>submitted := Some a, delivering := True\<rparr>) (stopTimers p (s\<lparr>answersWritten := w\<rparr>))))))"
    if p: "pendingByID i s = Some p" "aQuestion p" for p w
  proof -
    let ?s1 = "s\<lparr>answersWritten := w\<rparr>"
    let ?s2 = "setQuestionDeliveryLocked (aPtr p) ''sending'' []
        (updateApproval (aPtr p) (\<lambda>q. q\<lparr>submitted := Some a, delivering := True\<rparr>) (stopTimers p ?s1))"
    have mem: "p \<in> set (pendingApprovals s)" "aID p = i"
      using pendingByID_SomeD[OF p(1)] by simp_all
    have s1: "askInv {} ?s1"
      using inv by (rule askInv_cong) (simp_all add: askCore_def timers_def)
    have "askInv {aPtr p} (stopTimers p ?s1)"
      by (rule askInv_stopTimers[OF s1 askInvD(6)[OF s1]]) (simp add: mem)
    then have "askInv {aPtr p} (updateApproval (aPtr p) (\<lambda>q. q\<lparr>submitted := Some a, delivering := True\<rparr>) (stopTimers p ?s1))"
      by (rule askInv_update) (simp_all add: ownTimers_def)
    then have s2: "askInv {aPtr p} ?s2" "nextTimer ?s2 = nextTimer s"
      using askInv_setQuestionDelivery by simp_all
    have armed: "askInv {aPtr p} (updateApproval (aPtr p) (\<lambda>q. q\<lparr>confirmTimer := Some (nextTimer s)\<rparr>) (armTimer True (aPtr p) i ?s2))"
      by (rule askInv_armed[OF s2(1)]) (auto simp: ownTimers_def s2(2))
    have question: "aQuestion x \<and> aID x = i" if x: "x \<in> set (pendingApprovals (updateApproval (aPtr p) (\<lambda>q. q\<lparr>confirmTimer := Some (nextTimer s)\<rparr>)
        (armTimer True (aPtr p) i ?s2)))" "aPtr x = aPtr p" for x
    proof -
      obtain y where y: "y \<in> set (pendingApprovals s)" "aPtr y = aPtr x" "aQuestion x = aQuestion y" "aID x = aID y"
        using x by (auto split: if_splits)
      then have "y = p"
        using askInv_ptr[OF inv y(1) mem(1)] x(2) by simp
      then show ?thesis
        using y mem(2) p(2) by simp
    qed
    show ?thesis
    proof (rule askInv_watched[OF armed])
      fix x
      assume x: "x \<in> set (pendingApprovals (updateApproval (aPtr p) (\<lambda>q. q\<lparr>confirmTimer := Some (nextTimer s)\<rparr>) (armTimer True (aPtr p) i ?s2)))"
        "aPtr x = aPtr p"
      show "watched x (updateApproval (aPtr p) (\<lambda>q. q\<lparr>confirmTimer := Some (nextTimer s)\<rparr>) (armTimer True (aPtr p) i ?s2))"
        using question[OF x] x(2) unfolding watched_def update_fields(6) arm_fields(5) by simp
    qed
  qed
  have legacy: "askInv {} (removeApprovalLocked i (s\<lparr>answersWritten := w\<rparr>))" for w
    by (rule askInv_remove[OF askInv_cong[OF inv]]) (simp_all add: askCore_def timers_def)
  show ?thesis
  proof (cases "prep = None \<and> (\<exists>route. routeLocked s = Inr route) \<and> write = None")
    case True
    then obtain route where route: "routeLocked s = Inr route" "prep = None" "write = None"
      by blast
    show ?thesis
    proof (cases "pendingByID i s")
      case (Some p)
      then show ?thesis
        using route inv answered[OF Some] legacy by (simp add: respondExtensionUI_def Let_def)
    qed (use route inv in \<open>simp add: respondExtensionUI_def\<close>)
  next
    case False
    then show ?thesis
      using inv expired by (auto simp: respondExtensionUI_def Let_def split: sum.splits option.splits)
  qed
qed

lemma askInv_progress:
  assumes inv: "askInv {} s"
  shows "askInv {} (ProgressApproval i d s)"
proof (cases "pendingByID i s")
  case (Some p)
  let ?s1 = "updateApproval (aPtr p) (\<lambda>q. q\<lparr>aProgress := Some d\<rparr>) s"
  have s1: "askInv {} ?s1"
    by (rule askInv_update[OF inv]) (simp_all add: ownTimers_def)
  have "askInv {} (updateApproval (aPtr p) (\<lambda>q. q\<lparr>progressTimer := Some (nextTimer ?s1)\<rparr>) (armTimer False (aPtr p) i ?s1))"
    by (rule askInv_armed[OF s1]) (auto simp: ownTimers_def)
  then show ?thesis
    using Some s1 inv by (simp add: ProgressApproval_def Let_def)
qed (simp add: ProgressApproval_def inv)

lemma askInv_progressCallback:
  assumes inv: "askInv {} s"
  shows "askInv {} (snd (progressCallback k i s))"
proof -
  have "askInv {} (updateApproval k (\<lambda>q. q\<lparr>progressTimer := None, aProgress := None\<rparr>) s)"
    by (rule askInv_update[OF inv]) (auto simp: ownTimers_def)
  then show ?thesis
    using inv by (simp add: progressCallback_def split: option.splits)
qed

text \<open>A timer that calls back: its number is free again, and only its own ask loses it.\<close>

lemma fired_timers:
  assumes inv: "askInv E s" and x: "x \<in> set (due s)"
  shows "timers s - {x} \<subseteq> timers (s\<lparr>due := filter (\<lambda>y. tNo y \<noteq> tNo x) (due s)\<rparr>)"
    "timers (s\<lparr>due := filter (\<lambda>y. tNo y \<noteq> tNo x) (due s)\<rparr>) \<subseteq> timers s"
proof -
  show "timers s - {x} \<subseteq> timers (s\<lparr>due := filter (\<lambda>y. tNo y \<noteq> tNo x) (due s)\<rparr>)"
  proof
    fix y
    assume y: "y \<in> timers s - {x}"
    have "tNo y \<noteq> tNo x"
      using askInvD(5)[OF inv, of y x] y x by (auto simp: timers_def)
    then show "y \<in> timers (s\<lparr>due := filter (\<lambda>y. tNo y \<noteq> tNo x) (due s)\<rparr>)"
      using y by (auto simp: timers_def)
  qed
qed (auto simp: timers_def)

lemma askInv_fired:
  assumes inv: "askInv {} s" and x: "x \<in> set (due s)"
  defines "s1 \<equiv> s\<lparr>due := filter (\<lambda>y. tNo y \<noteq> tNo x) (due s)\<rparr>"
  shows "askInv {tPtr x} s1" "p \<in> set (pendingApprovals s) \<Longrightarrow> \<not> closed s \<Longrightarrow> watched p s1 \<or> tConfirm x \<and> tPtr x = aPtr p \<and> tID x = aID p"
proof -
  have sub: "timers s - {x} \<subseteq> timers s1" "timers s1 \<subseteq> timers s"
    unfolding s1_def by (rule fired_timers[OF inv x])+
  have same: "pendingApprovals s1 = pendingApprovals s" "nextPtr s1 = nextPtr s" "nextTimer s1 = nextTimer s" "closed s1 = closed s"
    by (simp_all add: s1_def)
  have owned: "owns p s1" if "owns p s" for p
    using that sub(2) unfolding owns_def same by auto
  show seen: "watched p s1 \<or> tConfirm x \<and> tPtr x = aPtr p \<and> tID x = aID p" if p: "p \<in> set (pendingApprovals s)" "\<not> closed s" for p
  proof (cases "delivering p")
    case True
    then obtain y where y: "y \<in> timers s" "tConfirm y" "tPtr y = aPtr p" "tID y = aID p" "aQuestion p"
      using askInvD(7)[OF inv p] unfolding watched_def by auto
    show ?thesis
    proof (cases "y = x")
      case False
      then show ?thesis
        using y sub(1) unfolding watched_def by blast
    qed (use y in simp)
  qed (simp add: watched_def)
  show "askInv {tPtr x} s1"
  proof (rule askInvI)
    show "watched p s1" if "p \<in> set (pendingApprovals s1)" "\<not> closed s1" "aPtr p \<notin> {tPtr x}" for p
      using seen[of p] that unfolding same by auto
    show "a = b" if "a \<in> timers s1" "b \<in> timers s1" "tNo a = tNo b" for a b
      using that sub(2) by (intro askInvD(5)[OF inv]) auto
    show "tNo a < nextTimer s1" if "a \<in> timers s1" for a
      using that sub(2) askInvD(4)[OF inv, of a] unfolding same by auto
    show "owns p s1" if "p \<in> set (pendingApprovals s1)" for p
      using that owned askInvD(6)[OF inv] unfolding same by blast
  qed (unfold same; use askInvD[OF inv] in blast)+
qed

lemma askInv_runDue:
  assumes inv: "askInv {} s"
  shows "askInv {} (runDue t s)"
proof (cases "List.find (\<lambda>x. tNo x = t) (due s)")
  case (Some x)
  then have x: "x \<in> set (due s)" "tNo x = t"
    by (auto simp: find_Some_iff)
  define s1 where "s1 = s\<lparr>due := filter (\<lambda>y. tNo y \<noteq> tNo x) (due s)\<rparr>"
  have fields: "pendingApprovals s1 = pendingApprovals s" "closed s1 = closed s"
    by (simp_all add: s1_def)
  note fired = askInv_fired[OF inv x(1), folded s1_def]
  show ?thesis
  proof (cases "tConfirm x")
    case False
    have "askInv {} s1"
      by (rule askInv_watched[OF fired(1)]) (use fired(2) False in \<open>auto simp: fields\<close>)
    then show ?thesis
      using Some False x(2) askInv_progressCallback by (simp add: runDue_def s1_def)
  next
    case confirm: True
    have res: "runDue t s = confirmCallback (tPtr x) (tID x) s1"
      using Some confirm x(2) by (simp add: runDue_def s1_def)
    show ?thesis
    proof (cases "\<exists>p. pendingByID (tID x) s1 = Some p \<and> aPtr p = tPtr x \<and> delivering p")
      case True
      let ?s2 = "updateApproval (tPtr x) (\<lambda>q. q\<lparr>delivering := False, confirmTimer := None\<rparr>) s1"
      have "askInv {tPtr x} ?s2"
        by (rule askInv_update[OF fired(1)]) (auto simp: ownTimers_def)
      then have "askInv {tPtr x} (setQuestionDeliveryLocked (tPtr x) ''failed'' ''unconfirmed'' ?s2)"
        by (rule askInv_setQuestionDelivery)
      then have "askInv {} (setQuestionDeliveryLocked (tPtr x) ''failed'' ''unconfirmed'' ?s2)"
        by (rule askInv_settled) auto
      then show ?thesis
        using True unfolding res by (auto simp: confirmCallback_def)
    next
      case False
      have "askInv {} s1"
      proof (rule askInv_watched[OF fired(1)])
        fix p
        assume p: "p \<in> set (pendingApprovals s1)" "\<not> closed s1" "aPtr p = tPtr x"
        then show "watched p s1"
          using fired(2)[of p] pendingByID_eq[OF fired(1) p(1)] False by (auto simp: fields watched_def)
      qed
      moreover have "confirmCallback (tPtr x) (tID x) s1 = s1"
        using False by (auto simp: confirmCallback_def split: option.splits)
      ultimately show ?thesis
        unfolding res by simp
    qed
  qed
qed (simp add: runDue_def inv)

lemma askInv_rejected:
  assumes inv: "askInv {} s"
  shows "askInv {} (responseRejected i reason s)"
proof -
  have again: "askInv {} (setQuestionDeliveryLocked (aPtr p) ''failed'' reason (updateApproval (aPtr p) (\<lambda>q. q\<lparr>delivering := False\<rparr>) (stopTimers p s)))"
    if p: "pendingByID i s = Some p" for p
  proof -
    have "askInv {aPtr p} (stopTimers p s)"
      by (rule askInv_stopTimers[OF inv askInvD(6)[OF inv]]) (use pendingByID_SomeD[OF p] in simp)
    then have "askInv {aPtr p} (updateApproval (aPtr p) (\<lambda>q. q\<lparr>delivering := False\<rparr>) (stopTimers p s))"
      by (rule askInv_update) (auto simp: ownTimers_def)
    then have "askInv {aPtr p} (setQuestionDeliveryLocked (aPtr p) ''failed'' reason
        (updateApproval (aPtr p) (\<lambda>q. q\<lparr>delivering := False\<rparr>) (stopTimers p s)))"
      by (rule askInv_setQuestionDelivery)
    then show ?thesis
      by (rule askInv_settled) auto
  qed
  then show ?thesis
    using askInv_resolve[OF inv] by (auto simp: responseRejected_def Let_def split: option.splits)
qed

section \<open>The other operations\<close>

text \<open>They leave the asks alone, up to the loss of the provider and the stop of all timers.\<close>

definition keepsAsks :: "session \<Rightarrow> session \<Rightarrow> bool" where
  "keepsAsks s s' \<longleftrightarrow> askCore s' = askCore s \<and> closed s' = closed s"

lemma askInv_keeps: "keepsAsks s s' \<Longrightarrow> askInv E s \<Longrightarrow> askInv E s'"
  unfolding keepsAsks_def by (rule askInv_cong) simp_all

lemma keeps_refl [simp]: "keepsAsks s s"
  by (simp add: keepsAsks_def)

lemma keeps_basic [simp]:
  "askCore (scheduleIdleLocked s) = askCore s" "askCore (cancelIdleLocked s) = askCore s" "askCore (observeLiveActivityLocked s) = askCore s"
  "askCore (notifyRunSettledLocked s) = askCore s" "askCore (settleIfQuiet s) = askCore s"
  "askCore (rememberCompletedCompactionLocked ids s) = askCore s" "askCore (hydrateActivityLocked st co s) = askCore s"
  "closed (cancelIdleLocked s) = closed s" "closed (observeLiveActivityLocked s) = closed s" "closed (notifyRunSettledLocked s) = closed s"
  "closed (hydrateActivityLocked st co s) = closed s"
  using remember_eq[of ids s]
  by (auto simp: askCore_def timers_def scheduleIdleLocked_def cancelIdleLocked_def observeLiveActivityLocked_def notifyRunSettledLocked_def
      settleIfQuiet_def hydrateActivityLocked_def Let_def)

lemma keeps_upd [simp]:
  "askCore (s\<lparr>compactionActive := b1\<rparr>) = askCore s" "askCore (s\<lparr>compactionAtLoss := b1\<rparr>) = askCore s" "askCore (s\<lparr>workAtLoss := b1\<rparr>) = askCore s"
  "askCore (s\<lparr>compactRPCID := i\<rparr>) = askCore s" "askCore (s\<lparr>compactProviderID := i\<rparr>) = askCore s" "askCore (s\<lparr>runAtLoss := b1\<rparr>) = askCore s"
  "askCore (s\<lparr>providerRunActive := b1\<rparr>) = askCore s" "askCore (s\<lparr>promptInFlight := b1\<rparr>) = askCore s"
  "askCore (s\<lparr>localCommandActive := b1\<rparr>) = askCore s" "askCore (s\<lparr>promptResponse := b1\<rparr>) = askCore s" "askCore (s\<lparr>compactSeq := n\<rparr>) = askCore s"
  "askCore (s\<lparr>compactPhase := i\<rparr>) = askCore s" "askCore (s\<lparr>diagnostics := ds\<rparr>) = askCore s" "askCore (s\<lparr>completedUnpaired := us\<rparr>) = askCore s"
  "askCore (s\<lparr>promptSeq := n\<rparr>) = askCore s" "askCore (s\<lparr>localCommandSeq := n\<rparr>) = askCore s" "askCore (s\<lparr>closing := b1\<rparr>) = askCore s"
  "askCore (s\<lparr>closeTxn := x\<rparr>) = askCore s" "askCore (s\<lparr>nextTxn := m\<rparr>) = askCore s" "askCore (s\<lparr>settledTxns := ss\<rparr>) = askCore s"
  "askCore (s\<lparr>closeRunSettled := b1\<rparr>) = askCore s" "askCore (s\<lparr>closeRunReason := i\<rparr>) = askCore s" "askCore (s\<lparr>quarantined := q\<rparr>) = askCore s"
  "askCore (s\<lparr>hydrationPending := b1\<rparr>) = askCore s" "askCore (s\<lparr>subscribers := m\<rparr>) = askCore s" "askCore (s\<lparr>unresolvedSends := b1\<rparr>) = askCore s"
  "askCore (s\<lparr>activeDetached := b1\<rparr>) = askCore s" "askCore (s\<lparr>closed := b1\<rparr>) = askCore s" "askCore (s\<lparr>invalidated := b1\<rparr>) = askCore s"
  "askCore (s\<lparr>resumable := b1\<rparr>) = askCore s"
  by (simp_all add: askCore_def timers_def)

lemma keeps_ops:
  "keepsAsks s (finishCompactionLocked i e s)" "keepsAsks s (completeLocalCommandLocked n s)" "keepsAsks s (snd (admitPrompt s))"
  "keepsAsks s (snd (admitCompact s))" "keepsAsks s (completeCompact n i e s)" "keepsAsks s (beginCompactionLocked i reason s)"
  "keepsAsks s (applyQueriedState n st co s)" "keepsAsks s (quarantineExternalWrite x s)" "keepsAsks s (snd (closeContext s))"
  "keepsAsks s (evict b s)" "keepsAsks s (dropLatches s)"
  by (simp_all add: keepsAsks_def finishCompactionLocked_def completeLocalCommandLocked_def admitPrompt_def admitCompact_def completeCompact_def
      beginCompactionLocked_def applyQueriedState_def quarantineExternalWrite_def closeContext_def beginCloseLocked_def evict_def dropLatches_def
      Let_def split: option.splits sum.splits)

lemma keeps_trans: "keepsAsks a b \<Longrightarrow> keepsAsks b c \<Longrightarrow> keepsAsks a c"
  by (simp add: keepsAsks_def)

lemma keeps_completeRun: "keepsAsks s (completeProviderRunLocked reason s)"
proof -
  define s1 where "s1 = (if compactionActive s \<and> compactRPCID s = [] then finishCompactionLocked [] [] s else s)"
  have "keepsAsks s s1"
    using keeps_ops(1) by (simp add: s1_def)
  moreover have "keepsAsks s1 (completeProviderRunLocked reason s)"
    by (simp add: keepsAsks_def completeProviderRunLocked_def Let_def s1_def[symmetric])
  ultimately show ?thesis
    by (rule keeps_trans)
qed

lemma keeps_completePrompt: "keepsAsks s (completePrompt n failed s)"
proof -
  have "keepsAsks s (completeLocalCommandLocked n (s\<lparr>promptResponse := True\<rparr>))"
    by (rule keeps_trans[OF _ keeps_ops(2)]) (simp add: keepsAsks_def)
  then show ?thesis
    by (simp add: completePrompt_def Let_def) (simp add: keepsAsks_def)
qed

lemma keeps_end: "keepsAsks s (endCompactionLocked isEnd i e r w s)"
proof -
  have noted: "keepsAsks t (snd (rememberCompactionDiagnosticLocked i e t))" for t
    using diagnostic_eq[of i e t] by (auto simp: keepsAsks_def)
  have watched: "keepsAsks s (observeLiveActivityLocked s)"
    by (simp add: keepsAsks_def)
  obtain told s1 where d: "rememberCompactionDiagnosticLocked i e s = (told, s1)"
    by fastforce
  then have "keepsAsks s s1" "keepsAsks s (emit f s1)" for f
    using noted[of s] by (simp_all add: keepsAsks_def)
  then show ?thesis
    using keeps_trans[OF watched keeps_ops(1)] keeps_trans[OF keeps_trans[OF watched noted] keeps_ops(1)] d
    by (simp add: endCompactionLocked_def Let_def split: bool.splits)
qed

lemma askInv_lost: "askInv {} s \<Longrightarrow> askInv {} (markProviderUnloadedLocked s)" "askInv {} s \<Longrightarrow> askInv {} (invalidate code s)"
proof -
  show "askInv {} (markProviderUnloadedLocked s)" if "askInv {} s"
    unfolding markProviderUnloadedLocked_def
    by (rule askInv_cong[OF askInv_failQuestions[OF askInv_keeps[OF keeps_ops(11) that]]]) simp_all
  show "askInv {} (invalidate code s)" if inv: "askInv {} s"
  proof (cases "closed s \<or> invalidated s")
    case False
    define s1 where "s1 = s\<lparr>workAtLoss := workAtLoss s \<or> activeLocked s,
       runAtLoss := runAtLoss s \<or> promptInFlight s \<or> providerRunActive s \<or> localCommandActive s,
       compactionAtLoss := compactionAtLoss s \<or> compactionActive s\<rparr>"
    have "askInv {} s1"
      by (rule askInv_keeps[OF _ inv]) (simp add: s1_def keepsAsks_def)
    then have "askInv {} (failQuestionsOnLossLocked (dropLatches s1))"
      by (intro askInv_failQuestions askInv_keeps[OF keeps_ops(11)])
    then have "askInv {} (cancelIdleLocked (failQuestionsOnLossLocked (dropLatches s1)))"
      by (rule askInv_cong) simp_all
    then show ?thesis
      using False by (simp add: invalidate_def Let_def s1_def[symmetric])
  qed (use inv in \<open>auto simp: invalidate_def\<close>)
qed

lemma askInv_completeClose:
  assumes inv: "askInv {} s"
  shows "askInv {} (completeClose t idle e m s)"
proof (cases "closed s \<or> definitiveCloseFailure e \<or> m")
  case True
  define s1 where "s1 = stopQuestionTimersLocked (s\<lparr>closed := True\<rparr>)"
  have "askInv {} (s\<lparr>closed := True\<rparr>)"
    by (rule askInv_cong[OF inv]) simp_all
  then have s1: "askInv {} s1" "closed s1"
    using askInv_stopQuestionTimers asksOnly_fields(1)[OF asksOnly_stopQuestionTimers[of "s\<lparr>closed := True\<rparr>"]] by (simp_all add: s1_def)
  have "askInv {} (completeClose t idle e m s) = askInv {} (if closed s then s else s1)" if "closed s \<or> definitiveCloseFailure e \<or> m"
  proof -
    have cong: "askInv {} a = askInv {} b" if "keepsAsks a b" for a b
      using askInv_keeps[OF that] askInv_keeps[of b a] that by (auto simp: keepsAsks_def)
    show ?thesis
      using that by (intro cong[symmetric]) (auto simp: keepsAsks_def completeClose_def Let_def s1_def)
  qed
  then show ?thesis
    using True inv s1 by simp
next
  case False
  define s1 where "s1 = s\<lparr>closing := False, closeTxn := None\<rparr>"
  have "keepsAsks s1 (reconcileFailedCloseLocked s1)"
    unfolding reconcileFailedCloseLocked_def using keeps_trans[OF _ keeps_completeRun] by (simp add: keepsAsks_def)
  then have "keepsAsks s (completeClose t idle e m s)"
    using False by (simp add: keepsAsks_def completeClose_def Let_def s1_def)
  then show ?thesis
    using inv by (rule askInv_keeps)
qed

lemma askInv_dispatch:
  assumes inv: "askInv {} s" and orderly: "\<And>m i r. ev = UIRequest m i r \<Longrightarrow> orderlyAsk i r s"
  shows "askInv {} (dispatch ev s)"
proof (cases "closed s \<or> resumable s \<or> closing s")
  case True
  then have "keepsAsks s (dispatch ev s)"
    by (auto simp: dispatch_def keepsAsks_def split: providerEvent.splits)
  then show ?thesis
    using inv by (rule askInv_keeps)
next
  case live: False
  have watched: "keepsAsks s (observeLiveActivityLocked s)"
    by (simp add: keepsAsks_def)
  show ?thesis
  proof (cases ev)
    case (CommandInvocation b)
    have "keepsAsks s (completeLocalCommandLocked (promptSeq s) (s\<lparr>localCommandActive := True, localCommandSeq := promptSeq s\<rparr>))"
      by (rule keeps_trans[OF _ keeps_ops(2)]) (simp add: keepsAsks_def)
    then have "keepsAsks s (dispatch ev s)"
      using CommandInvocation live by (simp add: dispatch_def Let_def) (simp add: keepsAsks_def)
    then show ?thesis
      using inv by (rule askInv_keeps)
  next
    case AgentStart
    then have "keepsAsks s (dispatch ev s)"
      using live by (simp add: dispatch_def Let_def keepsAsks_def)
    then show ?thesis
      using inv by (rule askInv_keeps)
  next
    case (UIRequest m i r)
    then show ?thesis
      using live inv askInv_upsert[OF inv orderly[OF UIRequest]] by (simp add: dispatch_def uiRequest_def Let_def split: prod.splits option.splits)
  next
    case (CompactionEnd b i e r w)
    then show ?thesis
      using live askInv_keeps[OF keeps_end inv] by (simp add: dispatch_def)
  qed (use live inv askInv_keeps[OF keeps_trans[OF watched keeps_completeRun] inv] askInv_keeps[OF keeps_trans[OF watched keeps_ops(6)] inv]
      askInv_lost(1)[OF inv] askInv_rejected[OF inv] askInv_resolve[OF inv] in \<open>simp_all add: dispatch_def split: option.splits\<close>)
qed

definition orderlyStep :: "sessEvent \<Rightarrow> session \<Rightarrow> bool" where
  "orderlyStep ev s = (case ev of Provider (UIRequest m i r) \<Rightarrow> orderlyAsk i r s | _ \<Rightarrow> True)"

fun orderlyRun :: "sessEvent list \<Rightarrow> session \<Rightarrow> bool" where
  "orderlyRun [] s = True"
| "orderlyRun (ev # evs) s = (orderlyStep ev s \<and> orderlyRun evs (sessStep ev s))"

lemma askInv_step:
  assumes inv: "askInv {} s" and orderly: "orderlyStep ev s"
  shows "askInv {} (sessStep ev s)"
proof (cases ev)
  case (Expire t)
  have "askCore (sessStep ev s) = askCore s"
    using Expire by (auto simp: sessStep_def askCore_def timers_def)
  then show ?thesis
    using Expire by (intro askInv_cong[OF inv]) (simp_all add: sessStep_def)
next
  case (Provider e)
  have "askInv {} (dispatch e s)"
    by (rule askInv_dispatch[OF inv]) (use orderly Provider in \<open>simp add: orderlyStep_def\<close>)
  then show ?thesis
    using Provider by (simp add: sessStep_def)
next
  case Retire
  have shut: "askInv {} (s\<lparr>closed := True\<rparr>)"
    by (rule askInv_cong[OF inv]) simp_all
  have "askInv {} (cancelIdleLocked (stopQuestionTimersLocked (s\<lparr>closed := True\<rparr>)))"
    by (rule askInv_cong[OF askInv_stopQuestionTimers[OF shut]]) simp_all
  then show ?thesis
    using Retire by (simp add: sessStep_def retireReplaced_def)
next
  case AttachSub
  then have "keepsAsks s (sessStep ev s)"
    by (simp add: sessStep_def keepsAsks_def split: sum.splits)
  then show ?thesis
    using inv by (rule askInv_keeps)
next
  case DetachSub
  then have "keepsAsks s (sessStep ev s)"
    by (simp add: sessStep_def keepsAsks_def)
  then show ?thesis
    using inv by (rule askInv_keeps)
next
  case Rearm
  then have "keepsAsks s (sessStep ev s)"
    by (simp add: sessStep_def keepsAsks_def)
  then show ?thesis
    using inv by (rule askInv_keeps)
next
  case (Environment u d)
  then have "keepsAsks s (sessStep ev s)"
    by (simp add: sessStep_def keepsAsks_def)
  then show ?thesis
    using inv by (rule askInv_keeps)
qed (use inv keeps_ops[THEN askInv_keeps[OF _ inv]] askInv_keeps[OF keeps_completePrompt inv] askInv_lost[OF inv] askInv_completeClose[OF inv]
    askInv_respond[OF inv] askInv_progress[OF inv] askInv_runDue[OF inv] in \<open>simp_all add: sessStep_def\<close>)

lemma askInv_new: "askInv {} (newSession d r b st co)"
  by (rule askInvI) (simp_all add: newSession_def hydrateActivityLocked_def Let_def timers_def)

lemma askInv_run: "askInv {} s \<Longrightarrow> orderlyRun evs s \<Longrightarrow> askInv {} (sessRun evs s)"
  by (induction evs arbitrary: s) (simp_all add: askInv_step)

end
