(* ===== verification/SessionQuestions.thy ===== *)
theory SessionQuestions
  imports SessionAnswers
begin

text \<open>
  Questions of a session: an answer in delivery is never stuck, a replacement takes over exactly the questions
  the engine still asks, and the race of an old confirmation timer with a new answer.
\<close>

lemma find_SomeD: "List.find P xs = Some x \<Longrightarrow> x \<in> set xs \<and> P x"
  by (induction xs) (auto split: if_splits)

section \<open>An answer in delivery\<close>

lemma orderly_timer: "orderlyRun [Expire t, Due t] s"
  by (simp add: orderlyStep_def)

lemma timer_fires:
  assumes inv: "askInv {} s" and p: "p \<in> set (pendingApprovals s)" "delivering p" and x: "x \<in> timers s" "tPtr x = aPtr p" "tID x = aID p" "tConfirm x"
  shows "sessRun [Expire (tNo x), Due (tNo x)] s =
    setQuestionDeliveryLocked (aPtr p) ''failed'' ''unconfirmed'' (updateApproval (aPtr p) (\<lambda>q. q\<lparr>delivering := False, confirmTimer := None\<rparr>)
      (s\<lparr>armed := filter (\<lambda>y. tNo y \<noteq> tNo x) (armed s), due := filter (\<lambda>y. tNo y \<noteq> tNo x) (due s)\<rparr>))"
proof -
  let ?s1 = "s\<lparr>due := due s @ filter (\<lambda>y. tNo y = tNo x) (armed s), armed := filter (\<lambda>y. tNo y \<noteq> tNo x) (armed s)\<rparr>"
  let ?s2 = "s\<lparr>armed := filter (\<lambda>y. tNo y \<noteq> tNo x) (armed s), due := filter (\<lambda>y. tNo y \<noteq> tNo x) (due s)\<rparr>"
  have "List.find (\<lambda>y. tNo y = tNo x) (due ?s1) \<noteq> None"
    using x(1) by (auto simp: find_None_iff timers_def)
  then obtain y where y: "List.find (\<lambda>y. tNo y = tNo x) (due ?s1) = Some y"
    by blast
  have "y \<in> timers s" "tNo y = tNo x"
    using find_SomeD[OF y] by (auto simp: timers_def)
  then have "y = x"
    using askInvD(5)[OF inv] x(1) by blast
  have named: "pendingByID (tID x) ?s2 = Some p"
    using pendingByID_eq[OF inv p(1)] x(3) by (simp add: pendingByID_def)
  have "filter (\<lambda>y. tNo y \<noteq> tNo x) (filter (\<lambda>y. tNo y = tNo x) (armed s)) = []"
    by (simp add: filter_empty_conv)
  then have "sessRun [Expire (tNo x), Due (tNo x)] s = confirmCallback (tPtr x) (tID x) ?s2"
    using y x(4) unfolding \<open>y = x\<close> by (simp add: sessStep_def runDue_def)
  then show ?thesis
    using named x(2) p(2) by (simp add: confirmCallback_def)
qed

text \<open>
  C25: a question whose answer is being delivered is never stuck. In every reachable open session, under an engine
  that does not mix up the identifiers of pending asks, such a question has a pending confirmation timer; when
  that timer runs out before the engine answers, the question is still asked under the same identifier, its frame
  says that the delivery failed unconfirmed, the answer given stays visible, and a new answer is accepted
  whenever the session has a route.
\<close>

theorem delivering_question_recovers:
  assumes "s = sessRun evs (newSession d route resumed streaming compacting)"
    and "orderlyRun evs (newSession d route resumed streaming compacting)"
    and live: "\<not> closed s" and p: "pendingByID i s = Some p" "delivering p"
  shows "\<exists>t s' p'. s' = sessRun [Expire t, Due t] s \<and> pendingByID i s' = Some p' \<and> aPtr p' = aPtr p \<and> \<not> delivering p' \<and>
    submitted p' = submitted p \<and> viewOf p' = ApprovalFrame i (aRequest p) (Some ''failed'') (Some ''unconfirmed'') (aShown p') \<and>
    (submitted p = None \<or> aShown p' = submitted p) \<and> viewOf p' \<in> set (published s') \<and>
    ((\<exists>e. routeLocked s = Inl e) \<or> fst (respondExtensionUI i rid answer None None s') = None)"
proof -
  have inv: "askInv {} s"
    using assms(1,2) askInv_run[OF askInv_new] by simp
  have mem: "p \<in> set (pendingApprovals s)" "aID p = i"
    using pendingByID_SomeD[OF p(1)] by simp_all
  obtain x where x: "x \<in> timers s" "tConfirm x" "tPtr x = aPtr p" "tID x = aID p"
    using askInvD(7)[OF inv mem(1) live] p(2) by (auto simp: watched_def)
  define s' where "s' = sessRun [Expire (tNo x), Due (tNo x)] s"
  define u where "u = s\<lparr>armed := filter (\<lambda>y. tNo y \<noteq> tNo x) (armed s), due := filter (\<lambda>y. tNo y \<noteq> tNo x) (due s)\<rparr>"
  define v where "v = updateApproval (aPtr p) (\<lambda>q. q\<lparr>delivering := False, confirmTimer := None\<rparr>) u"
  have s': "s' = setQuestionDeliveryLocked (aPtr p) ''failed'' ''unconfirmed'' v"
    unfolding s'_def v_def u_def by (rule timer_fires[OF inv mem(1) p(2) x(1,3,4,2)])
  have inv': "askInv {} s'"
    unfolding s'_def by (rule askInv_run[OF inv orderly_timer])
  define p' where "p' = p\<lparr>delivering := False, confirmTimer := None, aDelivery := Some ''failed'', aDeliveryError := Some ''unconfirmed'',
    aShown := (if submitted p \<noteq> None then submitted p else aShown p)\<rparr>"
  have "p' \<in> set (pendingApprovals s')"
    using mem(1) by (force simp: s' v_def u_def p'_def)
  then have named: "pendingByID i s' = Some p'"
    using pendingByID_eq[OF inv', of p'] mem(2) by (simp add: p'_def)
  have routes: "routeLocked s' = routeLocked s"
    unfolding s' setQuestionDeliveryLocked_def Let_def
    by (simp add: routeLocked_def v_def u_def updateApproval_def emit_def split: option.splits)
  have shown: "viewOf p' \<in> set (published s')"
  proof -
    let ?w = "updateApproval (aPtr p) (\<lambda>p. p\<lparr>aDelivery := Some ''failed'', aDeliveryError := (if ''unconfirmed'' \<noteq> [] then Some ''unconfirmed'' else None),
       aShown := (if submitted p \<noteq> None then submitted p else aShown p)\<rparr>) v"
    have "lookupPtr (aPtr p) ?w = Some p'"
    proof -
      have w: "pendingApprovals ?w = pendingApprovals s'"
        by (simp add: s')
      have "lookupPtr (aPtr p) ?w \<noteq> None"
        using \<open>p' \<in> set (pendingApprovals s')\<close> unfolding lookupPtr_def w find_None_iff by (auto simp: p'_def)
      then obtain q where q: "lookupPtr (aPtr p) ?w = Some q"
        by blast
      then have "q \<in> set (pendingApprovals s')" "aPtr q = aPtr p"
        unfolding lookupPtr_def w by (auto simp: find_Some_iff)
      then have "q = p'"
        using askInv_ptr[OF inv' _ \<open>p' \<in> set (pendingApprovals s')\<close>] by (simp add: p'_def)
      then show ?thesis
        using q by simp
    qed
    then show ?thesis
      unfolding s' setQuestionDeliveryLocked_def Let_def by (simp add: emit_def)
  qed
  have "(\<exists>e. routeLocked s = Inl e) \<or> fst (respondExtensionUI i rid answer None None s') = None"
    using named by (cases "routeLocked s") (simp_all add: respondExtensionUI_def routes p'_def Let_def)
  then show ?thesis
    using named shown mem(2) s'_def
    by (intro exI[of _ "tNo x"] exI[of _ s'] exI[of _ p']) (simp add: p'_def viewOf_def)
qed

definition answeredHistory :: "sessEvent list" where
  "answeredHistory = [Provider (UIRequest ''question'' ''q1'' ''req''), Respond ''q1'' ''r1'' ''blue'' None None]"

lemma delivering_question_recovers_witness:
  "\<exists>t. pendingByID ''q1'' (sessRun (answeredHistory @ [Expire t, Due t]) freshSession) \<noteq> None"
proof -
  have h: "orderlyRun answeredHistory freshSession" "\<not> closed (sessRun answeredHistory freshSession)"
      "\<exists>p. pendingByID ''q1'' (sessRun answeredHistory freshSession) = Some p \<and> delivering p"
  proof -
    show "orderlyRun answeredHistory freshSession" "\<not> closed (sessRun answeredHistory freshSession)"
      by code_simp+
    have "map_option delivering (pendingByID ''q1'' (sessRun answeredHistory freshSession)) = Some True"
      by code_simp
    then show "\<exists>p. pendingByID ''q1'' (sessRun answeredHistory freshSession) = Some p \<and> delivering p"
      by auto
  qed
  then obtain p where p: "pendingByID ''q1'' (sessRun answeredHistory freshSession) = Some p" "delivering p"
    by blast
  have "\<exists>t s' p'. s' = sessRun [Expire t, Due t] (sessRun answeredHistory freshSession) \<and> pendingByID ''q1'' s' = Some p'"
    using delivering_question_recovers[OF arg_cong[OF freshSession_def, of "sessRun answeredHistory"], of "''q1''" p] h(1,2) p
    unfolding freshSession_def[symmetric] by blast
  then show ?thesis
    by (auto simp: sessRun_def)
qed

section \<open>An old timer and a new answer\<close>

text \<open>
  The confirmation callback checks that the ask still exists and is being delivered, not that the delivery is the
  one it was armed for (\<open>approval_response.go:84\<close>). When it already waits for the lock while the engine rejects the
  first answer as incomplete and the user answers again, it declares the second answer unconfirmed although the
  timer of that answer has not run out.
\<close>

definition staleTimer :: "sessEvent list" where
  "staleTimer = answeredHistory @ [Expire 0, Provider (ResponseRejected ''q1'' ''question_incomplete''),
     Respond ''q1'' ''r2'' ''green'' None None, Due 0]"

theorem stale_timer_fails_new_answer:
  "map (\<lambda>p. (aDelivery p, aDeliveryError p, submitted p)) (pendingApprovals (sessRun staleTimer freshSession)) =
     [(Some ''failed'', Some ''unconfirmed'', Some ''green'')] \<and>
   map tNo (armed (sessRun staleTimer freshSession)) = [1]"
  by code_simp

section \<open>Questions through a replacement\<close>

text \<open>The engine names each of its questions once.\<close>

definition namedOnce :: "(string \<times> string) list \<Rightarrow> bool" where
  "namedOnce qs \<longleftrightarrow> distinct (map fst qs) \<and> distinct (filter (\<lambda>r. r \<noteq> []) (map snd qs))"

lemma namedOnce_eq:
  assumes "namedOnce qs" "(i, r) \<in> set qs" "(j, u) \<in> set qs" "i = j \<or> r \<noteq> [] \<and> r = u"
  shows "i = j \<and> r = u"
  using assms
proof (induction qs)
  case (Cons q qs)
  have "namedOnce qs"
    using Cons.prems(1) by (auto simp: namedOnce_def split: if_splits)
  then show ?case
    using Cons by (cases q) (force simp: namedOnce_def split: if_splits)
qed simp

definition inherits :: "(string \<times> string) list \<Rightarrow> session \<Rightarrow> bool" where
  "inherits qs s \<longleftrightarrow> askInv {} s \<and> (\<forall>p \<in> set (pendingApprovals s). (aID p, aRequest p) \<in> set qs \<and> aQuestion p \<and> \<not> delivering p)"

lemma inherits_orderly:
  assumes inv: "inherits qs s" and qs: "namedOnce qs" "(i, r) \<in> set qs"
  shows "orderlyAsk i r s"
  unfolding orderlyAsk_def list_all_iff
proof (intro ballI impI)
  fix p q
  assume pq: "p \<in> set (pendingApprovals s)" "q \<in> set (pendingApprovals s)" "aID p = i \<and> r \<noteq> [] \<and> aRequest q = r"
  have "(aID q, aRequest q) \<in> set qs"
    using inv pq(2) by (simp add: inherits_def)
  then have "aID q = i"
    using namedOnce_eq[OF qs(1) _ qs(2)] pq(3) by blast
  then show "aPtr p = aPtr q"
    using inv pq askInvD(3)[of "{}" s p q] by (simp add: inherits_def)
qed

lemma inherits_upsert:
  assumes inv: "inherits qs s" and qs: "namedOnce qs" "(i, r) \<in> set qs"
  defines "s1 \<equiv> upsertApprovalLocked i r True s"
  shows "inherits qs s1" "\<exists>p \<in> set (pendingApprovals s1). aID p = i \<and> aRequest p = r"
    "p \<in> set (pendingApprovals s) \<Longrightarrow> aID p \<noteq> i \<Longrightarrow> p \<in> set (pendingApprovals s1)"
proof -
  have asks: "askInv {} s1"
    unfolding s1_def using inv inherits_orderly[OF inv qs] by (intro askInv_upsert) (simp_all add: inherits_def)
  have *: "(\<forall>p \<in> set (pendingApprovals s1). (aID p, aRequest p) \<in> set qs \<and> aQuestion p \<and> \<not> delivering p) \<and>
      (\<exists>p \<in> set (pendingApprovals s1). aID p = i \<and> aRequest p = r) \<and>
      (\<forall>p \<in> set (pendingApprovals s). aID p \<noteq> i \<longrightarrow> p \<in> set (pendingApprovals s1))"
  proof (cases "List.find (\<lambda>p. aID p = i \<or> r \<noteq> [] \<and> aRequest p = r) (pendingApprovals s)")
    case None
    then show ?thesis
      using inv qs(2) by (auto simp: s1_def upsertApprovalLocked_def inherits_def)
  next
    case (Some p)
    have hit: "p \<in> set (pendingApprovals s)" "aID p = i \<or> r \<noteq> [] \<and> aRequest p = r"
      using find_SomeD[OF Some] by simp_all
    then have own: "(aID p, aRequest p) \<in> set qs" "\<not> delivering p"
      using inv by (simp_all add: inherits_def)
    then have "aID p = i"
      using namedOnce_eq[OF qs(1) own(1) qs(2)] hit(2) by metis
    then have p: "p \<in> set (pendingApprovals s)" "\<not> delivering p" "aID p = i"
      using hit(1) own(2) by simp_all
    have before: "askInv {} s"
      using inv by (simp add: inherits_def)
    have other: "aPtr q \<noteq> aPtr p" if q: "q \<in> set (pendingApprovals s)" "aID q \<noteq> i" for q
      by (rule notI) (drule askInv_ptr[OF before q(1) p(1)], use q(2) p(3) in simp)
    define h :: "approval \<Rightarrow> approval" where "h = (\<lambda>q. q\<lparr>confirmTimer := None, progressTimer := None, aProgress := None, aID := i, aRequest := r, aQuestion := True,
      aDeliveryError := (if aDelivery q \<noteq> None then aDeliveryError q else None), aShown := (if aDelivery q \<noteq> None then aShown q else None)\<rparr>)"
    have h: "aID (h q) = i" "aRequest (h q) = r" "aQuestion (h q)" "delivering (h q) = delivering q" for q
      by (simp_all add: h_def)
    have asks: "pendingApprovals s1 = map (\<lambda>q. if aPtr q = aPtr p then h q else q) (pendingApprovals s)"
      using Some p(2) by (simp add: s1_def upsertApprovalLocked_def failDelivery_def h_def)
    have "(aID x, aRequest x) \<in> set qs \<and> aQuestion x \<and> \<not> delivering x" if x: "x \<in> set (pendingApprovals s1)" for x
    proof -
      obtain y where y: "y \<in> set (pendingApprovals s)" "x = (if aPtr y = aPtr p then h y else y)"
        using x unfolding asks set_map image_iff by blast
      then have "(aID y, aRequest y) \<in> set qs \<and> aQuestion y \<and> \<not> delivering y"
        using inv by (simp add: inherits_def)
      then show ?thesis
        using y(2) h qs(2) by simp
    qed
    moreover have "h p \<in> set (pendingApprovals s1)"
      using p(1) unfolding asks set_map image_iff by (intro bexI[of _ p]) simp_all
    moreover have "q \<in> set (pendingApprovals s1)" if "q \<in> set (pendingApprovals s)" "aID q \<noteq> i" for q
      using that other[OF that] unfolding asks set_map image_iff by (intro bexI[of _ q]) simp_all
    ultimately show ?thesis
      using h(1,2) by blast
  qed
  then show "inherits qs s1" "\<exists>p \<in> set (pendingApprovals s1). aID p = i \<and> aRequest p = r"
    "p \<in> set (pendingApprovals s) \<Longrightarrow> aID p \<noteq> i \<Longrightarrow> p \<in> set (pendingApprovals s1)"
    using asks by (simp_all add: inherits_def)
qed

text \<open>What one question of the predecessor becomes.\<close>

definition target :: "(string \<times> string) list \<Rightarrow> approval \<Rightarrow> (string \<times> string) list" where
  "target qs old = (if aQuestion old then (case currentQuestion old qs of None \<Rightarrow> [] | Some q \<Rightarrow> [q]) else [])"

definition continues :: "approval \<Rightarrow> string \<Rightarrow> session \<Rightarrow> bool" where
  "continues old i s \<longleftrightarrow>
     (\<exists>p \<in> set (pendingApprovals s). aID p = i \<and> submitted p = submitted old \<and>
        (delivering old \<longrightarrow> aDelivery p = Some ''failed'' \<and> aDeliveryError p = Some ''unconfirmed''))"

lemma target_mem:
  assumes "q \<in> set (target qs old)"
  shows "q \<in> set qs"
proof -
  have "currentQuestion old qs = Some q"
    by (cases "aQuestion old"; cases "currentQuestion old qs") (use assms in \<open>simp_all add: target_def\<close>)
  then show ?thesis
    using find_SomeD[of _ qs q] unfolding currentQuestion_def by simp
qed

lemma continues_later:
  assumes "continues old i s" "\<And>x. x \<in> set (pendingApprovals s) \<Longrightarrow> aID x = i \<Longrightarrow> x \<in> set (pendingApprovals s')"
  shows "continues old i s'"
proof -
  obtain x where "x \<in> set (pendingApprovals s)" "aID x = i" "submitted x = submitted old"
      "delivering old \<longrightarrow> aDelivery x = Some ''failed'' \<and> aDeliveryError x = Some ''unconfirmed''"
    using assms(1) unfolding continues_def by blast
  then show ?thesis
    unfolding continues_def using assms(2)[of x] by (intro bexI[of _ x]) simp_all
qed

lemma reconcile_carry:
  assumes inv: "inherits qs s1" and p: "p \<in> set (pendingApprovals s1)" "aID p = i"
    and g: "\<And>q. aPtr (g q) = aPtr q" "\<And>q. aID (g q) = aID q" "\<And>q. aRequest (g q) = aRequest q" "\<And>q. aQuestion (g q) = aQuestion q"
      "\<And>q. delivering (g q) = delivering q" "\<And>q. ownTimers (g q) = ownTimers q" "\<And>q. submitted (g q) = submitted old"
  defines "s2 \<equiv> updateApproval (aPtr p) g s1"
  defines "s3 \<equiv> if delivering old then setQuestionDeliveryLocked (aPtr p) ''failed'' ''unconfirmed'' s2 else s2"
  shows "inherits qs s3" "continues old i s3" "x \<in> set (pendingApprovals s1) \<Longrightarrow> aID x \<noteq> i \<Longrightarrow> x \<in> set (pendingApprovals s3)"
proof -
  have before: "askInv {} s1"
    using inv by (simp add: inherits_def)
  have "askInv {} s2"
    unfolding s2_def by (rule askInv_update[OF before]) (simp_all add: g)
  then have asks: "askInv {} s3"
    using askInv_setQuestionDelivery by (simp add: s3_def)
  define h where "h = (\<lambda>q. if delivering old then (g q)\<lparr>aDelivery := Some ''failed'', aDeliveryError := Some ''unconfirmed'',
    aShown := (if submitted (g q) \<noteq> None then submitted (g q) else aShown (g q))\<rparr> else g q)"
  have h: "aID (h q) = aID q" "aRequest (h q) = aRequest q" "aQuestion (h q) = aQuestion q" "delivering (h q) = delivering q"
      "submitted (h q) = submitted old" "delivering old \<Longrightarrow> aDelivery (h q) = Some ''failed''"
      "delivering old \<Longrightarrow> aDeliveryError (h q) = Some ''unconfirmed''" for q
    by (simp_all add: h_def g)
  have pend: "pendingApprovals s3 = map (\<lambda>q. if aPtr q = aPtr p then h q else q) (pendingApprovals s1)"
    by (simp add: s3_def s2_def h_def g)
  have "(aID y, aRequest y) \<in> set qs \<and> aQuestion y \<and> \<not> delivering y" if y: "y \<in> set (pendingApprovals s3)" for y
  proof -
    obtain z where z: "z \<in> set (pendingApprovals s1)" "y = (if aPtr z = aPtr p then h z else z)"
      using y unfolding pend set_map image_iff by blast
    then have "(aID z, aRequest z) \<in> set qs \<and> aQuestion z \<and> \<not> delivering z"
      using inv by (simp add: inherits_def)
    then show ?thesis
      using z(2) h by simp
  qed
  then show "inherits qs s3"
    using asks by (simp add: inherits_def)
  have "h p \<in> set (pendingApprovals s3)"
    using p(1) unfolding pend set_map image_iff by (intro bexI[of _ p]) simp_all
  then show "continues old i s3"
    unfolding continues_def using h p(2) by (intro bexI[of _ "h p"]) simp_all
  show "x \<in> set (pendingApprovals s3)" if x: "x \<in> set (pendingApprovals s1)" "aID x \<noteq> i"
  proof -
    have "aPtr x \<noteq> aPtr p"
      by (rule notI) (drule askInv_ptr[OF before x(1) p(1)], use x(2) p(2) in simp)
    then show ?thesis
      using x(1) unfolding pend set_map image_iff by (intro bexI[of _ x]) simp_all
  qed
qed

lemma reconcile_step:
  assumes inv: "inherits qs s" and qs: "namedOnce qs"
  obtains s' prior' where
    "reconcileQuestion qs old (s, prior, ns) =
       (s', prior', ns @ (if aQuestion old \<and> target qs old = [] then [(aID old, submitted old \<noteq> None)] else []))"
    "inherits qs s'" "\<And>i r. target qs old = [(i, r)] \<Longrightarrow> continues old i s'"
    "\<And>x. x \<in> set (pendingApprovals s) \<Longrightarrow> aID x \<notin> fst ` set (target qs old) \<Longrightarrow> x \<in> set (pendingApprovals s')"
proof (cases "target qs old")
  case Nil
  then have "reconcileQuestion qs old (s, prior, ns) =
      (s, (if aQuestion old then resolveApprovalLocked (aID old) ''closed_while_disconnected'' prior else prior),
       ns @ (if aQuestion old \<and> target qs old = [] then [(aID old, submitted old \<noteq> None)] else []))"
    by (simp add: reconcileQuestion_def target_def split: if_splits option.splits)
  then show ?thesis
    by (rule that) (use inv Nil in simp_all)
next
  case (Cons q rest)
  obtain i r where q: "q = (i, r)"
    by (cases q)
  have cur: "aQuestion old" "currentQuestion old qs = Some (i, r)" "target qs old = [(i, r)]"
    using Cons q by (auto simp: target_def split: if_splits option.splits)
  have mem: "(i, r) \<in> set qs"
    using target_mem[of "(i, r)" qs old] cur(3) by simp
  define s1 where "s1 = upsertApprovalLocked i r True s"
  note up = inherits_upsert[OF inv qs mem, folded s1_def]
  have "List.find (\<lambda>p. aID p = i \<and> aRequest p = r) (pendingApprovals s1) \<noteq> None"
    using up(2) by (auto simp: find_None_iff)
  then obtain p where found: "List.find (\<lambda>p. aID p = i \<and> aRequest p = r) (pendingApprovals s1) = Some p"
    by blast
  have p: "p \<in> set (pendingApprovals s1)" "aID p = i"
    using find_SomeD[OF found] by simp_all
  define g :: "approval \<Rightarrow> approval" where "g = (\<lambda>q. q\<lparr>submitted := submitted old, aDelivery := (if aDelivery q = None then aDelivery old else aDelivery q),
    aDeliveryError := (if aDelivery q = None then aDeliveryError old else aDeliveryError q),
    aShown := (if aDelivery q = None then aShown old else aShown q)\<rparr>)"
  define s3 where "s3 = (if delivering old then setQuestionDeliveryLocked (aPtr p) ''failed'' ''unconfirmed'' (updateApproval (aPtr p) g s1)
    else updateApproval (aPtr p) g s1)"
  have carry: "inherits qs s3" "continues old i s3" "x \<in> set (pendingApprovals s1) \<Longrightarrow> aID x \<noteq> i \<Longrightarrow> x \<in> set (pendingApprovals s3)" for x
    unfolding s3_def by (rule reconcile_carry[OF up(1) p]; simp add: g_def ownTimers_def)+
  have "reconcileQuestion qs old (s, prior, ns) = (s3, prior, ns)"
    using cur(1,2) found by (simp add: reconcileQuestion_def s1_def[symmetric] s3_def g_def Let_def)
  then have "reconcileQuestion qs old (s, prior, ns) =
      (s3, prior, ns @ (if aQuestion old \<and> target qs old = [] then [(aID old, submitted old \<noteq> None)] else []))"
    using cur(3) by simp
  then show ?thesis
    by (rule that) (use carry up(3) cur(3) in simp_all)
qed

lemma reconcile_all:
  assumes qs: "namedOnce qs" and start: "inherits qs s" and once: "distinct (concat (map (target qs) olds))"
  shows "\<exists>s' prior'. fold (reconcileQuestion qs) olds (s, prior, []) =
      (s', prior', map (\<lambda>old. (aID old, submitted old \<noteq> None)) (filter (\<lambda>old. aQuestion old \<and> target qs old = []) olds)) \<and>
    inherits qs s' \<and> (\<forall>old \<in> set olds. \<forall>(i, r) \<in> set (target qs old). continues old i s')"
  using once
proof (induction olds rule: rev_induct)
  case (snoc old olds)
  then obtain s1 prior1 where one: "fold (reconcileQuestion qs) olds (s, prior, []) =
      (s1, prior1, map (\<lambda>old. (aID old, submitted old \<noteq> None)) (filter (\<lambda>old. aQuestion old \<and> target qs old = []) olds))"
    "inherits qs s1" "\<forall>old \<in> set olds. \<forall>(i, r) \<in> set (target qs old). continues old i s1"
    by auto
  let ?ns = "map (\<lambda>old. (aID old, submitted old \<noteq> None)) (filter (\<lambda>old. aQuestion old \<and> target qs old = []) olds)"
  obtain s2 prior2 where two: "reconcileQuestion qs old (s1, prior1, ?ns) =
       (s2, prior2, ?ns @ (if aQuestion old \<and> target qs old = [] then [(aID old, submitted old \<noteq> None)] else []))"
    "inherits qs s2" "\<And>i r. target qs old = [(i, r)] \<Longrightarrow> continues old i s2"
    "\<And>x. x \<in> set (pendingApprovals s1) \<Longrightarrow> aID x \<notin> fst ` set (target qs old) \<Longrightarrow> x \<in> set (pendingApprovals s2)"
    using reconcile_step[OF one(2) qs] by blast
  have kept: "continues o1 i s2" if o1: "o1 \<in> set olds" "(i, r) \<in> set (target qs o1)" for o1 i r
  proof -
    have away: "i \<notin> fst ` set (target qs old)"
    proof
      assume "i \<in> fst ` set (target qs old)"
      then obtain u where u: "(i, u) \<in> set (target qs old)"
        by auto
      then have "(i, r) = (i, u)"
        using namedOnce_eq[OF qs target_mem[OF o1(2)] target_mem[OF u]] by simp
      then show False
        using u o1 snoc.prems by auto
    qed
    have "continues o1 i s1"
      using bspec[OF bspec[OF one(3) o1(1)] o1(2)] by simp
    then show ?thesis
      by (rule continues_later) (rule two(4), assumption, use away in simp)
  qed
  have "continues old i s2" if q: "(i, r) \<in> set (target qs old)" for i r
  proof -
    have "target qs old = [(i, r)]"
      by (cases "aQuestion old"; cases "currentQuestion old qs") (use q in \<open>simp_all add: target_def\<close>)
    then show ?thesis
      by (rule two(3))
  qed
  then show ?case
    using one(1) two(1,2) kept by auto
qed (simp add: start)

text \<open>The questions the predecessor did not have are taken over from the engine.\<close>

lemma adopt_all:
  assumes qs: "namedOnce qs" and "inherits qs s" and sub: "set us \<subseteq> set qs"
  defines "s' \<equiv> fold (\<lambda>(i, r) s. if pendingByID i s \<noteq> None then s else upsertApprovalLocked i r True s) us s"
  shows "inherits qs s' \<and> set (pendingApprovals s) \<subseteq> set (pendingApprovals s') \<and>
    fst ` set us \<subseteq> aID ` set (pendingApprovals s')"
  unfolding s'_def using assms(2,3)
proof (induction us arbitrary: s)
  case (Cons u us)
  obtain i r where u: "u = (i, r)"
    by (cases u)
  define s1 where "s1 = (if pendingByID i s \<noteq> None then s else upsertApprovalLocked i r True s)"
  have first: "inherits qs s1 \<and> set (pendingApprovals s) \<subseteq> set (pendingApprovals s1) \<and> i \<in> aID ` set (pendingApprovals s1)"
  proof (cases "pendingByID i s")
    case None
    then have "aID x \<noteq> i" if "x \<in> set (pendingApprovals s)" for x
      using that by (simp add: pendingByID_def find_None_iff)
    moreover have "s1 = upsertApprovalLocked i r True s" "(i, r) \<in> set qs"
      using None Cons.prems(2) u by (simp_all add: s1_def)
    ultimately show ?thesis
      using inherits_upsert[OF Cons.prems(1) qs, of i r] by blast
  next
    case (Some p)
    then show ?thesis
      using Cons.prems(1) pendingByID_SomeD[OF Some] by (auto simp: s1_def)
  qed
  let ?f = "\<lambda>(i, r) s. if pendingByID i s \<noteq> None then s else upsertApprovalLocked i r True s"
  have "inherits qs (fold ?f us s1) \<and> set (pendingApprovals s1) \<subseteq> set (pendingApprovals (fold ?f us s1)) \<and>
      fst ` set us \<subseteq> aID ` set (pendingApprovals (fold ?f us s1))"
    using first Cons.prems(2) by (intro Cons.IH) simp_all
  moreover have "fold ?f (u # us) s = fold ?f us s1"
    by (simp add: u s1_def)
  ultimately show ?case
    using first u by (simp only: list.set image_insert fst_conv) blast
qed simp

text \<open>
  C28: a replacement of a lost session of the same lineage asks exactly the questions the engine reports as
  pending, each once, answerable, none of them in delivery. An answer the user had given to one of them is carried
  over, with a delivery that was under way marked as failed; every question of the predecessor that the engine
  no longer asks is reported closed in a notice that says whether it had been answered.
\<close>

theorem questions_survive_replacement:
  assumes fresh: "s = newSession d route resumed streaming compacting" and qs: "namedOnce qs"
    and once: "distinct (concat (map (target qs) (pendingApprovals prior)))"
    and res: "inheritQuestions True prior qs s = (s', prior', notices)"
  shows "set (map (\<lambda>p. (aID p, aRequest p)) (pendingApprovals s')) = set qs \<and> inherits qs s' \<and>
    notices = map (\<lambda>old. (aID old, submitted old \<noteq> None)) (filter (\<lambda>old. aQuestion old \<and> target qs old = []) (pendingApprovals prior)) \<and>
    (\<forall>old \<in> set (pendingApprovals prior). \<forall>(i, r) \<in> set (target qs old). continues old i s')"
proof -
  have "inherits qs s"
    using askInv_new fresh by (simp add: inherits_def newSession_def hydrateActivityLocked_def Let_def)
  then obtain s1 prior1 where one: "fold (reconcileQuestion qs) (pendingApprovals prior) (s, prior, []) =
      (s1, prior1, map (\<lambda>old. (aID old, submitted old \<noteq> None)) (filter (\<lambda>old. aQuestion old \<and> target qs old = []) (pendingApprovals prior)))"
    "inherits qs s1" "\<forall>old \<in> set (pendingApprovals prior). \<forall>(i, r) \<in> set (target qs old). continues old i s1"
    using reconcile_all[OF qs _ once] by blast
  have s': "s' = fold (\<lambda>(i, r) s. if pendingByID i s \<noteq> None then s else upsertApprovalLocked i r True s) qs s1"
    "notices = map (\<lambda>old. (aID old, submitted old \<noteq> None)) (filter (\<lambda>old. aQuestion old \<and> target qs old = []) (pendingApprovals prior))"
    using res one(1) by (simp_all add: inheritQuestions_def)
  have two: "inherits qs s'" "set (pendingApprovals s1) \<subseteq> set (pendingApprovals s')" "fst ` set qs \<subseteq> aID ` set (pendingApprovals s')"
    using adopt_all[OF qs one(2), of qs] unfolding s'(1) by simp_all
  have named: "(aID p, aRequest p) \<in> set qs" if "p \<in> set (pendingApprovals s')" for p
    using two(1) that by (simp add: inherits_def)
  have "(i, r) \<in> (\<lambda>p. (aID p, aRequest p)) ` set (pendingApprovals s')" if q: "(i, r) \<in> set qs" for i r
  proof -
    obtain p where p: "p \<in> set (pendingApprovals s')" "aID p = i"
    proof -
      have "i \<in> fst ` set qs"
        using q by (rule image_eqI[rotated]) simp
      then have "i \<in> aID ` set (pendingApprovals s')"
        by (rule subsetD[OF two(3)])
      then show ?thesis
        using that by (elim imageE) simp
    qed
    have "aRequest p = r"
      using namedOnce_eq[OF qs named[OF p(1)] q] p(2) by simp
    then show ?thesis
      using p by (intro image_eqI[of _ _ p]) simp_all
  qed
  then have "set (map (\<lambda>p. (aID p, aRequest p)) (pendingApprovals s')) = set qs"
    using named by auto
  moreover have "\<forall>old \<in> set (pendingApprovals prior). \<forall>(i, r) \<in> set (target qs old). continues old i s'"
  proof (intro ballI)
    fix old q
    assume q: "old \<in> set (pendingApprovals prior)" "q \<in> set (target qs old)"
    obtain i r where ir: "q = (i, r)"
      by (cases q)
    have "continues old i s1"
      using bspec[OF bspec[OF one(3) q(1)] q(2)] by (simp add: ir)
    then have "continues old i s'"
      by (rule continues_later) (rule subsetD[OF two(2)])
    then show "case q of (i, r) \<Rightarrow> continues old i s'"
      by (simp add: ir)
  qed
  ultimately show ?thesis
    using two(1) s'(2) by simp
qed

definition lostSession :: session where
  "lostSession = invalidate ''route-lost'' (sessRun (answeredHistory @ [Provider (UIRequest ''question'' ''q2'' ''gone'')]) freshSession)"

lemma questions_survive_replacement_witness:
  "set (map (\<lambda>p. (aID p, aRequest p)) (pendingApprovals (fst (inheritQuestions True lostSession [(''q9'', ''req''), (''q8'', [])] freshSession)))) =
     {(''q9'', ''req''), (''q8'', [])} \<and>
   snd (snd (inheritQuestions True lostSession [(''q9'', ''req''), (''q8'', [])] freshSession)) = [(''q2'', False)]"
proof -
  let ?qs = "[(''q9'', ''req''), (''q8'', [])]"
  obtain s' prior' notices where res: "inheritQuestions True lostSession ?qs freshSession = (s', prior', notices)"
    by (cases "inheritQuestions True lostSession ?qs freshSession")
  have "namedOnce ?qs" "distinct (concat (map (target ?qs) (pendingApprovals lostSession)))"
    by code_simp+
  note all = questions_survive_replacement[OF freshSession_def this res]
  have "map (\<lambda>old. (aID old, submitted old \<noteq> None)) (filter (\<lambda>old. aQuestion old \<and> target ?qs old = []) (pendingApprovals lostSession)) =
      [(''q2'', False)]"
    by code_simp
  then show ?thesis
    using all unfolding res by simp
qed

end
