(* ===== verification/Spec2Isabelle.thy ===== *)
theory Spec2Isabelle
  imports SendQueue FileOrder IndexCache ResidencyLRU CursorStore Auth Broadcast NoticeHistory Watcher SendProperties RpcProperties SessionFrames SessionRecovery SessionQuestions
begin

text \<open>
  Verification of omo-webchat's Go server (placeholder header, completed below).
\<close>

end
